(* ===== verification/Prelude.thy ===== *)
theory Prelude
  imports Main "HOL-Library.Word" "HOL-Library.Monad_Syntax"
begin

unbundle bit_operations_syntax

text \<open>
  Shared vocabulary of the development: the machine types of the C code, assertions and
  memory accesses as computations of type \<^typ>\<open>'a option\<close>, network byte order, and
  the search of an array.

  \<^item> \<^verbatim>\<open>uint8_t\<close>, \<^verbatim>\<open>uint16_t\<close> and \<^verbatim>\<open>uint32_t\<close> are words of that width; their arithmetic wraps.
  \<^item> \<^verbatim>\<open>int\<close> and \<^verbatim>\<open>time_t\<close> are the type \<^typ>\<open>int\<close>: the code never relies on their overflow, and a
    cast from an unsigned value is written out with \<^const>\<open>sint\<close>.
  \<^item> A computation that the program does not survive is \<^const>\<open>None\<close>: a failed
    \<^verbatim>\<open>ASSERT\<close> (error.h, which exits with a fatal error) and a memory access outside the
    allocated block.  A returned C value is \<^const>\<open>Some\<close>.
\<close>

section \<open>Machine types\<close>

type_synonym byte = "8 word"
type_synonym u16 = "16 word"
type_synonym u32 = "32 word"
type_synonym time_t = int

section \<open>Collections of facts\<close>

named_theorems wf_intros
  \<open>preservation of well-formedness by the operations of a component\<close>
named_theorems codec
  \<open>lengths and round trips of byte encodings\<close>

section \<open>Assertions and memory\<close>

definition ASSERT :: "bool \<Rightarrow> unit option" where
  "ASSERT c = (if c then Some () else None)"

text \<open>Reading and writing a range of bytes inside one allocated block.\<close>

definition mem_read :: "byte list \<Rightarrow> int \<Rightarrow> int \<Rightarrow> byte list option" where
  "mem_read m i n =
     (if 0 \<le> i \<and> 0 \<le> n \<and> i + n \<le> int (length m)
      then Some (take (nat n) (drop (nat i) m)) else None)"

definition mem_write :: "byte list \<Rightarrow> int \<Rightarrow> byte list \<Rightarrow> byte list option" where
  "mem_write m i bs =
     (if 0 \<le> i \<and> i + int (length bs) \<le> int (length m)
      then Some (take (nat i) m @ bs @ drop (nat i + length bs) m) else None)"

lemma ASSERT_simps [simp]:
  "ASSERT True = Some ()" "ASSERT False = None"
  "ASSERT c = Some u \<longleftrightarrow> c" "ASSERT c = None \<longleftrightarrow> \<not> c"
  by (simp_all add: ASSERT_def)

lemma ASSERT_bind [simp]: "(ASSERT c \<bind> f) = (if c then f () else None)"
  by (simp add: ASSERT_def)

lemma mem_write_length: "mem_write m i bs = Some m' \<Longrightarrow> length m' = length m"
  by (auto simp: mem_write_def split: if_splits)

lemma mem_write_Some_iff:
  "(\<exists>m'. mem_write m i bs = Some m') \<longleftrightarrow> 0 \<le> i \<and> i + int (length bs) \<le> int (length m)"
  by (auto simp: mem_write_def)

lemma mem_read_length: "mem_read m i n = Some bs \<Longrightarrow> length bs = nat n"
  by (auto simp: mem_read_def split: if_splits)

text \<open>What a later read finds: the bytes written, and the old bytes outside the range.\<close>

lemma mem_read_write_same:
  "mem_write m i bs = Some m' \<Longrightarrow> mem_read m' i (int (length bs)) = Some bs"
  by (auto simp: mem_write_def mem_read_def split: if_splits)

lemma mem_write_take:
  "mem_write m i bs = Some m' \<Longrightarrow> int k \<le> i \<Longrightarrow> take k m' = take k m"
  by (auto simp: mem_write_def min_def split: if_splits)

lemma mem_write_drop:
  assumes "mem_write m i bs = Some m'" and "i + int (length bs) \<le> int k"
  shows "drop k m' = drop k m"
proof -
  have len: "length (take (nat i) m) = nat i" and k: "nat i + length bs \<le> k"
    using assms by (auto simp: mem_write_def split: if_splits)
  show ?thesis
    using assms(1) len k by (auto simp: mem_write_def split: if_splits)
qed

section \<open>Network byte order\<close>

text \<open>
  \<^verbatim>\<open>htons\<close> and \<^verbatim>\<open>htonl\<close> followed by a copy to memory lay the most significant byte first;
  \<^verbatim>\<open>ntohs\<close> and \<^verbatim>\<open>ntohl\<close> read it back.
\<close>

definition be16 :: "u16 \<Rightarrow> byte list" where
  "be16 w = [ucast (drop_bit 8 w), ucast w]"

definition of_be16 :: "byte list \<Rightarrow> u16" where
  "of_be16 bs = push_bit 8 (ucast (bs ! 0)) OR ucast (bs ! 1)"

definition be32 :: "u32 \<Rightarrow> byte list" where
  "be32 w = [ucast (drop_bit 24 w), ucast (drop_bit 16 w), ucast (drop_bit 8 w), ucast w]"

definition of_be32 :: "byte list \<Rightarrow> u32" where
  "of_be32 bs = push_bit 24 (ucast (bs ! 0)) OR push_bit 16 (ucast (bs ! 1))
     OR push_bit 8 (ucast (bs ! 2)) OR ucast (bs ! 3)"

lemma length_be [simp, codec]: "length (be16 w) = 2" "length (be32 v) = 4"
  by (simp_all add: be16_def be32_def)

lemma of_be16_be16 [simp, codec]: "of_be16 (be16 w) = w"
  by (rule bit_word_eqI) (auto simp: be16_def of_be16_def bit_simps)

lemma of_be32_be32 [simp, codec]: "of_be32 (be32 w) = w"
proof (rule bit_word_eqI)
  fix n :: nat
  consider "n < 8" | "8 \<le> n \<and> n < 16" | "16 \<le> n \<and> n < 24" | "24 \<le> n" by linarith
  then show "bit (of_be32 (be32 w)) n = bit w n" if "n < LENGTH(32)"
    by cases (use that in \<open>auto simp: be32_def of_be32_def bit_simps\<close>)
qed

section \<open>Counting with words\<close>

lemma unat_inc: "i < (t :: u32) \<Longrightarrow> unat (i + 1) = unat i + 1"
  by unat_arith

lemma word_succ_le: "(x :: u32) + 1 \<le> x \<Longrightarrow> x + 1 = 0"
  by unat_arith

lemma unat_suc: "unat (w :: u32) + 1 < 2 ^ 32 \<Longrightarrow> unat (w + 1) = unat w + 1"
  by (simp add: unat_word_ariths)

section \<open>Alignment to four\<close>

lemma and_3: "(x :: int) AND 3 = x mod 4"
  using take_bit_eq_mod[of 2 x] take_bit_eq_mask[of 2 x] by (simp add: mask_eq_exp_minus_1)

lemma and_not_3: "(x :: int) AND NOT 3 = x - x mod 4"
proof -
  have "NOT x AND (x AND 3) = 0" by (rule bit_eqI) (simp add: bit_simps)
  then have "x - (x AND 3) = x AND NOT (x AND 3)" by (rule disjunctive_diff_eq_and_not)
  also have "\<dots> = x AND NOT 3" by (rule bit_eqI) (auto simp add: bit_simps)
  finally show ?thesis by (simp add: and_3)
qed

section \<open>Searching an array\<close>

text \<open>The index at which a scan \<^verbatim>\<open>for (i = 0; i < n; ++i)\<close> stops.\<close>

fun first_index :: "('a \<Rightarrow> bool) \<Rightarrow> 'a list \<Rightarrow> nat option" where
  "first_index P [] = None"
| "first_index P (x # xs) = (if P x then Some 0 else map_option Suc (first_index P xs))"

lemma first_index_None: "first_index P xs = None \<longleftrightarrow> (\<forall>x \<in> set xs. \<not> P x)"
  by (induction xs) auto

lemma first_index_Some:
  "first_index P xs = Some i \<longleftrightarrow> i < length xs \<and> P (xs ! i) \<and> (\<forall>j < i. \<not> P (xs ! j))"
proof (induction xs arbitrary: i)
  case (Cons x xs)
  show ?case by (cases i) (auto simp: Cons.IH less_Suc_eq_0_disj)
qed simp

lemma first_index_SomeD:
  "first_index P xs = Some i \<Longrightarrow> i < length xs" "first_index P xs = Some i \<Longrightarrow> P (xs ! i)"
  by (simp_all add: first_index_Some)

section \<open>What a computation returns\<close>

text \<open>Statements about every value that a computation may return, taken apart along its structure.\<close>

definition returns :: "'a option \<Rightarrow> ('a \<Rightarrow> bool) \<Rightarrow> bool" where
  "returns r Q \<longleftrightarrow> (\<forall>y. r = Some y \<longrightarrow> Q y)"

lemma returns_bind: "(\<And>x. m = Some x \<Longrightarrow> returns (f x) Q) \<Longrightarrow> returns (m \<bind> f) Q"
  by (auto simp: returns_def bind_eq_Some_conv)

lemma returns_if: "(c \<Longrightarrow> returns a Q) \<Longrightarrow> (\<not> c \<Longrightarrow> returns b Q) \<Longrightarrow> returns (if c then a else b) Q"
  by simp

lemma returns_Some: "Q y \<Longrightarrow> returns (Some y) Q"
  by (simp add: returns_def)

lemma returns_None: "returns None Q"
  by (simp add: returns_def)

lemma returns_prod: "(\<And>a b. x = (a, b) \<Longrightarrow> returns (f a b) Q) \<Longrightarrow> returns (case x of (a, b) \<Rightarrow> f a b) Q"
  by (cases x) simp

lemma returns_option:
  "(x = None \<Longrightarrow> returns a Q) \<Longrightarrow> (\<And>y. x = Some y \<Longrightarrow> returns (f y) Q) \<Longrightarrow> returns (case x of None \<Rightarrow> a | Some y \<Rightarrow> f y) Q"
  by (cases x) simp_all

lemmas returns_intros = returns_bind returns_if returns_Some returns_None returns_prod returns_option

text \<open>The same rules without the equations, for values that do not matter.\<close>

lemma returns_any_bind: "(\<And>x. returns (f x) Q) \<Longrightarrow> returns (m \<bind> f) Q"
  by (auto simp: returns_def bind_eq_Some_conv)

lemma returns_any_prod: "(\<And>a b. returns (f a b) Q) \<Longrightarrow> returns (case x of (a, b) \<Rightarrow> f a b) Q"
  by (cases x) simp

lemma returns_any_if: "returns a Q \<Longrightarrow> returns b Q \<Longrightarrow> returns (if c then a else b) Q"
  by simp

lemma returns_any_option: "returns a Q \<Longrightarrow> (\<And>y. returns (f y) Q) \<Longrightarrow> returns (case x of None \<Rightarrow> a | Some y \<Rightarrow> f y) Q"
  by (cases x) simp_all

lemma returns_step: "returns m R \<Longrightarrow> (\<And>x. R x \<Longrightarrow> returns (f x) Q) \<Longrightarrow> returns (m \<bind> f) Q"
  by (auto simp: returns_def bind_eq_Some_conv)

lemmas returns_any = returns_any_bind returns_any_prod returns_any_if returns_any_option returns_Some returns_None

lemma returns_mono: "returns m R \<Longrightarrow> (\<And>x. R x \<Longrightarrow> Q x) \<Longrightarrow> returns m Q"
  by (auto simp: returns_def)

end
