(* ===== verification/Integer_Ops.thy ===== *)
theory Integer_Ops
  imports Prelude
begin

text \<open>
  The integer helpers of integer.h and the circular list of circ_list.h.  A circular list
  of capacity \<^verbatim>\<open>x_cap\<close> keeps its newest element at \<^verbatim>\<open>x_head\<close>; its abstraction \<open>circ_list_abs\<close> is
  the list of the elements from the newest to the oldest, on which a push is a cons that
  forgets the oldest element when the list is full.
\<close>

section \<open>integer.h\<close>

definition max_int :: "int \<Rightarrow> int \<Rightarrow> int" where
  "max_int x y = (if x > y then x else y)"

definition min_int :: "int \<Rightarrow> int \<Rightarrow> int" where
  "min_int x y = (if x < y then x else y)"

definition constrain_int :: "int \<Rightarrow> int \<Rightarrow> int \<Rightarrow> int" where
  "constrain_int x mn mx =
     (if mn > mx then mn else if x < mn then mn else if x > mx then mx else x)"

definition modulo_subtract :: "int \<Rightarrow> int \<Rightarrow> int \<Rightarrow> int option" where
  "modulo_subtract x y md = do {
     let d1 = x - y;
     let d2 = (if x > y then - md else md) + d1;
     ASSERT (0 \<le> x \<and> x < md \<and> 0 \<le> y \<and> y < md);
     Some (if \<bar>d1\<bar> > \<bar>d2\<bar> then d2 else d1)
   }"

definition modulo_add :: "int \<Rightarrow> int \<Rightarrow> int \<Rightarrow> int option" where
  "modulo_add x y md = do {
     let sum = x + y;
     ASSERT (0 \<le> x \<and> x < md \<and> - md \<le> y \<and> y \<le> md);
     let sum = (if sum \<ge> md then sum - md else sum);
     let sum = (if sum < 0 then sum + md else sum);
     Some sum
   }"

definition index_verify :: "int \<Rightarrow> int \<Rightarrow> int option" where
  "index_verify index sz = (if index < 0 \<or> index \<ge> sz then None else Some index)"

lemma min_max_int: "min_int x y = min x y" "max_int x y = max x y"
  by (auto simp: min_int_def max_int_def)

lemma constrain_int_range:
  "mn \<le> mx \<Longrightarrow> mn \<le> constrain_int x mn mx \<and> constrain_int x mn mx \<le> mx"
  by (auto simp: constrain_int_def)

text \<open>
  \<^const>\<open>modulo_add\<close> is addition modulo \<open>md\<close>; \<^const>\<open>modulo_subtract\<close> is the difference of
  least absolute value modulo \<open>md\<close>.
\<close>

lemma modulo_add_eq:
  assumes "0 \<le> x" "x < md" "- md \<le> y" "y \<le> md"
  shows "modulo_add x y md = Some ((x + y) mod md)"
proof -
  consider "x + y \<ge> md" | "0 \<le> x + y \<and> x + y < md" | "x + y < 0" by linarith
  then show ?thesis
  proof cases
    case 1
    then have "(x + y) mod md = (x + y - md) mod md" by simp
    also have "\<dots> = x + y - md" using assms 1 by (intro mod_pos_pos_trivial) auto
    finally show ?thesis using assms 1 by (auto simp: modulo_add_def Let_def)
  next
    case 2
    then show ?thesis using assms by (auto simp: modulo_add_def Let_def mod_pos_pos_trivial)
  next
    case 3
    then have "(x + y) mod md = (x + y + md) mod md" by simp
    also have "\<dots> = x + y + md" using assms 3 by (intro mod_pos_pos_trivial) auto
    finally show ?thesis using assms 3 by (auto simp: modulo_add_def Let_def)
  qed
qed

lemma modulo_subtract_cong:
  assumes "0 \<le> x" "x < md" "0 \<le> y" "y < md"
  obtains d where "modulo_subtract x y md = Some d" "(y + d) mod md = x" "2 * \<bar>d\<bar> \<le> md"
proof -
  define d where "d = (if \<bar>x - y\<bar> > \<bar>(if x > y then - md else md) + (x - y)\<bar>
    then (if x > y then - md else md) + (x - y) else x - y)"
  have some: "modulo_subtract x y md = Some d"
    using assms by (simp add: modulo_subtract_def d_def Let_def)
  have dcases: "d = x - y \<or> d = x - y - md \<or> d = x - y + md" by (auto simp: d_def)
  have "y + d = x \<or> y + d = x - md \<or> y + d = x + md" using dcases by auto
  then have "(y + d) mod md = x" using assms by (auto simp: mod_pos_pos_trivial)
  moreover have "2 * \<bar>d\<bar> \<le> md" using assms unfolding d_def by (simp split: if_splits)
  ultimately show ?thesis using some that by blast
qed

section \<open>circ_list.h\<close>

record 'a circ_list =
  x_head :: int
  x_size :: int
  x_cap :: int
  x_list :: "'a list"

definition CIRC_LIST_ALLOC :: "'a \<Rightarrow> int \<Rightarrow> 'a circ_list" where
  "CIRC_LIST_ALLOC zero sz =
     \<lparr>x_head = 0, x_size = 0, x_cap = sz, x_list = replicate (nat sz) zero\<rparr>"

definition CIRC_LIST_PUSH :: "'a circ_list \<Rightarrow> 'a \<Rightarrow> 'a circ_list option" where
  "CIRC_LIST_PUSH obj item = do {
     h \<leftarrow> modulo_add (x_head obj) (-1) (x_cap obj);
     ASSERT (0 \<le> h \<and> h < int (length (x_list obj)));
     Some (obj\<lparr>x_head := h, x_list := (x_list obj)[nat h := item],
               x_size := min_int (x_size obj + 1) (x_cap obj)\<rparr>)
   }"

definition CIRC_LIST_SIZE :: "'a circ_list \<Rightarrow> int" where
  "CIRC_LIST_SIZE obj = x_size obj"

definition CIRC_LIST_INDEX :: "'a circ_list \<Rightarrow> int \<Rightarrow> int option" where
  "CIRC_LIST_INDEX obj index = do {
     i \<leftarrow> index_verify index (x_size obj);
     modulo_add (x_head obj) i (x_cap obj)
   }"

definition CIRC_LIST_ITEM :: "'a circ_list \<Rightarrow> int \<Rightarrow> 'a option" where
  "CIRC_LIST_ITEM obj index = do {
     i \<leftarrow> CIRC_LIST_INDEX obj index;
     ASSERT (0 \<le> i \<and> i < int (length (x_list obj)));
     Some (x_list obj ! nat i)
   }"

text \<open>The macro is also used as the target of an assignment.\<close>

definition CIRC_LIST_ITEM_set :: "'a circ_list \<Rightarrow> int \<Rightarrow> 'a \<Rightarrow> 'a circ_list option" where
  "CIRC_LIST_ITEM_set obj index v = do {
     i \<leftarrow> CIRC_LIST_INDEX obj index;
     ASSERT (0 \<le> i \<and> i < int (length (x_list obj)));
     Some (obj\<lparr>x_list := (x_list obj)[nat i := v]\<rparr>)
   }"

definition CIRC_LIST_RESET :: "'a circ_list \<Rightarrow> 'a circ_list" where
  "CIRC_LIST_RESET obj = obj\<lparr>x_head := 0, x_size := 0\<rparr>"

subsection \<open>Invariant and abstraction\<close>

definition wf_circ :: "'a circ_list \<Rightarrow> bool" where
  "wf_circ c \<longleftrightarrow> 0 < x_cap c \<and> length (x_list c) = nat (x_cap c) \<and>
     0 \<le> x_head c \<and> x_head c < x_cap c \<and> 0 \<le> x_size c \<and> x_size c \<le> x_cap c"

definition circ_list_abs :: "'a circ_list \<Rightarrow> 'a list" where
  "circ_list_abs c =
     map (\<lambda>i. x_list c ! nat ((x_head c + int i) mod x_cap c)) [0..<nat (x_size c)]"

lemma length_circ_list_abs [simp]: "length (circ_list_abs c) = nat (x_size c)"
  by (simp add: circ_list_abs_def)

lemma nth_circ_list_abs:
  "int j < x_size c \<Longrightarrow> circ_list_abs c ! j = x_list c ! nat ((x_head c + int j) mod x_cap c)"
  using nth_upt[of 0 j "nat (x_size c)"] by (simp add: circ_list_abs_def)

lemma wf_circ_alloc [wf_intros]: "0 < n \<Longrightarrow> wf_circ (CIRC_LIST_ALLOC z n)"
  by (simp add: wf_circ_def CIRC_LIST_ALLOC_def)

lemma circ_index_bounds:
  assumes "wf_circ c"
  shows "nat ((x_head c + i) mod x_cap c) < length (x_list c)"
  using assms by (simp add: wf_circ_def nat_less_iff)

lemma CIRC_LIST_INDEX_eq:
  assumes "wf_circ c"
  shows "CIRC_LIST_INDEX c i =
    (if 0 \<le> i \<and> i < x_size c then Some ((x_head c + i) mod x_cap c) else None)"
  using assms by (auto simp: CIRC_LIST_INDEX_def index_verify_def wf_circ_def modulo_add_eq)

lemma CIRC_LIST_ITEM_eq:
  assumes "wf_circ c"
  shows "CIRC_LIST_ITEM c i =
    (if 0 \<le> i \<and> i < x_size c then Some (circ_list_abs c ! nat i) else None)"
proof -
  have "0 \<le> (x_head c + i) mod x_cap c" "(x_head c + i) mod x_cap c < int (length (x_list c))"
    using assms by (auto simp: wf_circ_def)
  then show ?thesis
    using assms by (simp add: CIRC_LIST_ITEM_def CIRC_LIST_INDEX_eq circ_list_abs_def)
qed

lemma CIRC_LIST_RESET_abs:
  "wf_circ c \<Longrightarrow> wf_circ (CIRC_LIST_RESET c) \<and> circ_list_abs (CIRC_LIST_RESET c) = []"
  by (simp add: CIRC_LIST_RESET_def wf_circ_def circ_list_abs_def)

text \<open>Distinct positions of the window are distinct cells of the array.\<close>

lemma circ_index_inj:
  assumes "wf_circ c" "0 \<le> i" "i < x_cap c" "0 \<le> j" "j < x_cap c"
    and "nat ((x_head c + i) mod x_cap c) = nat ((x_head c + j) mod x_cap c)"
  shows "i = j"
proof -
  have "(x_head c + i) mod x_cap c = (x_head c + j) mod x_cap c"
    using assms by (simp add: wf_circ_def eq_nat_nat_iff)
  then have "(x_head c + i - x_head c) mod x_cap c = (x_head c + j - x_head c) mod x_cap c"
    by (rule mod_diff_cong) simp
  then show ?thesis using assms by simp
qed

lemma CIRC_LIST_ITEM_set_abs:
  assumes "wf_circ c" "0 \<le> i" "i < x_size c"
  obtains c' where "CIRC_LIST_ITEM_set c i v = Some c'" "wf_circ c'" "x_cap c' = x_cap c"
    "circ_list_abs c' = (circ_list_abs c)[nat i := v]"
proof -
  define k where "k = (x_head c + i) mod x_cap c"
  have k: "0 \<le> k" "k < int (length (x_list c))"
    using assms by (auto simp: wf_circ_def k_def)
  define c' where "c' = c\<lparr>x_list := (x_list c)[nat k := v]\<rparr>"
  have some: "CIRC_LIST_ITEM_set c i v = Some c'"
    using assms k by (simp add: CIRC_LIST_ITEM_set_def CIRC_LIST_INDEX_eq k_def[symmetric] c'_def)
  have "circ_list_abs c' = (circ_list_abs c)[nat i := v]"
  proof (rule nth_equalityI)
    fix j assume "j < length (circ_list_abs c')"
    then have j: "int j < x_size c" by (simp add: c'_def)
    have "nat k = nat ((x_head c + int j) mod x_cap c) \<longleftrightarrow> nat i = j"
      using circ_index_inj[OF assms(1), of i "int j"] assms j
      by (auto simp: k_def wf_circ_def)
    then show "circ_list_abs c' ! j = (circ_list_abs c)[nat i := v] ! j"
      using j k by (auto simp: circ_list_abs_def c'_def nth_list_update)
  qed (simp add: c'_def)
  moreover have "wf_circ c'" using assms by (simp add: wf_circ_def c'_def)
  ultimately show ?thesis using some that by (simp add: c'_def)
qed

lemma CIRC_LIST_PUSH_abs:
  assumes "wf_circ c"
  obtains c' where "CIRC_LIST_PUSH c v = Some c'" "wf_circ c'" "x_cap c' = x_cap c"
    "circ_list_abs c' = take (nat (x_cap c)) (v # circ_list_abs c)"
proof -
  define h where "h = (x_head c - 1) mod x_cap c"
  have h: "0 \<le> h" "h < x_cap c" "h < int (length (x_list c))"
    using assms by (auto simp: wf_circ_def h_def)
  define c' where "c' = c\<lparr>x_head := h, x_list := (x_list c)[nat h := v],
    x_size := min (x_size c + 1) (x_cap c)\<rparr>"
  have some: "CIRC_LIST_PUSH c v = Some c'"
    using assms h
    by (simp add: CIRC_LIST_PUSH_def wf_circ_def modulo_add_eq h_def c'_def min_max_int)
  have wf': "wf_circ c'" using assms h by (simp add: wf_circ_def c'_def)
  have "circ_list_abs c' = take (nat (x_cap c)) (v # circ_list_abs c)"
  proof (rule nth_equalityI)
    show "length (circ_list_abs c') = length (take (nat (x_cap c)) (v # circ_list_abs c))"
      using assms by (auto simp: c'_def wf_circ_def min_def)
  next
    fix j assume "j < length (circ_list_abs c')"
    then have j: "int j < x_size c + 1" "int j < x_cap c" by (auto simp: c'_def)
    have at: "circ_list_abs c' ! j = (x_list c)[nat h := v] ! nat ((h + int j) mod x_cap c)"
      using j nth_circ_list_abs[of j c'] by (simp add: c'_def)
    show "circ_list_abs c' ! j = take (nat (x_cap c)) (v # circ_list_abs c) ! j"
    proof (cases j)
      case 0
      then show ?thesis using at h j by (simp add: mod_pos_pos_trivial)
    next
      case (Suc i)
      have "nat ((h + int j) mod x_cap c) \<noteq> nat h"
        using circ_index_inj[OF wf', of "int j" 0] j h Suc by (auto simp: c'_def)
      moreover have "(h + int j) mod x_cap c = (x_head c + int i) mod x_cap c"
        using Suc by (simp add: h_def mod_simps)
      ultimately show ?thesis using at j Suc by (simp add: nth_circ_list_abs)
    qed
  qed
  then show ?thesis using some wf' that by (simp add: c'_def)
qed

end
