(* ===== verification/Buffer.thy ===== *)
theory Buffer
  imports Integer_Ops
begin

text \<open>
  The packet buffer of buffer.h and buffer.c.  A buffer owns one allocated block
  (\<^const>\<open>None\<close> is the null pointer); \<^verbatim>\<open>offset\<close> leaves headroom for prepending and \<^verbatim>\<open>len\<close> counts
  the bytes of the packet.  A pointer into the block is an index relative to \<^verbatim>\<open>data\<close>.

  The abstraction \<open>content\<close> is the packet, a byte list; the invariant \<open>wf_buf\<close> says that
  the packet lies inside the block.  Every operation keeps the invariant, accesses memory
  only inside the block, and is an operation on byte lists: a write appends, a prepend puts
  in front, a read takes a prefix.
\<close>

section \<open>Data and pointers\<close>

record buffer =
  capacity :: int
  offset :: int
  len :: int
  data :: "byte list option"

definition clear_buf :: buffer where
  "clear_buf = \<lparr>capacity = 0, offset = 0, len = 0, data = None\<rparr>"

definition ptr_at :: "buffer \<Rightarrow> int \<Rightarrow> int option" where
  "ptr_at b i = (if data b = None \<and> i = 0 then None else Some i)"

definition BPTR :: "buffer \<Rightarrow> int option" where
  "BPTR b = ptr_at b (offset b)"

definition BEND :: "buffer \<Rightarrow> int option" where
  "BEND b = ptr_at b (offset b + len b)"

definition BLAST :: "buffer \<Rightarrow> int option" where
  "BLAST b = (if data b \<noteq> None \<and> len b \<noteq> 0 then ptr_at b (offset b + len b - 1) else None)"

definition BDEF :: "buffer \<Rightarrow> bool" where
  "BDEF b = (data b \<noteq> None)"

text \<open>Loads and stores through a pointer into the block.\<close>

definition buf_load :: "buffer \<Rightarrow> int \<Rightarrow> int \<Rightarrow> byte list option" where
  "buf_load b i n = (case data b of
     None \<Rightarrow> if n = 0 then Some [] else None
   | Some m \<Rightarrow> mem_read m i n)"

definition buf_store :: "buffer \<Rightarrow> int \<Rightarrow> byte list \<Rightarrow> buffer option" where
  "buf_store b i bs = (case data b of
     None \<Rightarrow> if bs = [] then Some b else None
   | Some m \<Rightarrow> map_option (\<lambda>m'. b\<lparr>data := Some m'\<rparr>) (mem_write m i bs))"

text \<open>The \<open>n\<close> bytes that a source pointer refers to, as \<^verbatim>\<open>memcpy\<close> reads them.\<close>

definition src_bytes :: "byte list \<Rightarrow> int \<Rightarrow> byte list option" where
  "src_bytes src n = (if 0 \<le> n \<and> n \<le> int (length src) then Some (take (nat n) src) else None)"

section \<open>Operations of buffer.h\<close>

definition buf_reset :: "buffer \<Rightarrow> buffer" where
  "buf_reset b = b\<lparr>capacity := 0, offset := 0, len := 0, data := None\<rparr>"

definition buf_init :: "buffer \<Rightarrow> int \<Rightarrow> bool \<times> buffer" where
  "buf_init b off =
     (if off < 0 \<or> off > capacity b \<or> data b = None then (False, b)
      else (True, b\<lparr>len := 0, offset := off\<rparr>))"

definition buf_defined :: "buffer \<Rightarrow> bool" where
  "buf_defined b = (data b \<noteq> None)"

definition buf_set_write :: "byte list option \<Rightarrow> int \<Rightarrow> buffer option" where
  "buf_set_write d sz =
     (let b = \<lparr>capacity = sz, offset = 0, len = 0, data = d\<rparr>
      in if sz > 0 \<and> d \<noteq> None then buf_store b 0 [0] else Some b)"

definition buf_set_read :: "byte list option \<Rightarrow> int \<Rightarrow> buffer" where
  "buf_set_read d sz = \<lparr>capacity = sz, offset = 0, len = sz, data = d\<rparr>"

definition buf_safe :: "buffer \<Rightarrow> int \<Rightarrow> bool" where
  "buf_safe b n = (n \<ge> 0 \<and> offset b + len b + n \<le> capacity b)"

definition buf_safe_bidir :: "buffer \<Rightarrow> int \<Rightarrow> bool" where
  "buf_safe_bidir b n = (let newlen = len b + n in newlen \<ge> 0 \<and> offset b + newlen \<le> capacity b)"

definition buf_forward_capacity :: "buffer \<Rightarrow> int" where
  "buf_forward_capacity b =
     (let ret = capacity b - (offset b + len b) in if ret < 0 then 0 else ret)"

definition buf_forward_capacity_total :: "buffer \<Rightarrow> int" where
  "buf_forward_capacity_total b =
     (let ret = capacity b - offset b in if ret < 0 then 0 else ret)"

definition buf_reverse_capacity :: "buffer \<Rightarrow> int" where
  "buf_reverse_capacity b = offset b"

definition buf_inc_len :: "buffer \<Rightarrow> int \<Rightarrow> bool \<times> buffer" where
  "buf_inc_len b inc =
     (if \<not> buf_safe_bidir b inc then (False, b) else (True, b\<lparr>len := len b + inc\<rparr>))"

definition buf_prepend :: "buffer \<Rightarrow> int \<Rightarrow> int option \<times> buffer" where
  "buf_prepend b n =
     (if n < 0 \<or> n > offset b then (None, b)
      else let b' = b\<lparr>offset := offset b - n, len := len b + n\<rparr> in (BPTR b', b'))"

definition buf_advance :: "buffer \<Rightarrow> int \<Rightarrow> bool \<times> buffer" where
  "buf_advance b n =
     (if n < 0 \<or> len b < n then (False, b)
      else (True, b\<lparr>offset := offset b + n, len := len b - n\<rparr>))"

definition buf_write_alloc :: "buffer \<Rightarrow> int \<Rightarrow> int option \<times> buffer" where
  "buf_write_alloc b n =
     (if \<not> buf_safe b n then (None, b)
      else (ptr_at b (offset b + len b), b\<lparr>len := len b + n\<rparr>))"

definition buf_write_alloc_prepend :: "buffer \<Rightarrow> int \<Rightarrow> bool \<Rightarrow> int option \<times> buffer" where
  "buf_write_alloc_prepend b n prepend =
     (if prepend then buf_prepend b n else buf_write_alloc b n)"

definition buf_read_alloc :: "buffer \<Rightarrow> int \<Rightarrow> int option \<times> buffer" where
  "buf_read_alloc b n =
     (if n < 0 \<or> len b < n then (None, b)
      else (BPTR b, b\<lparr>offset := offset b + n, len := len b - n\<rparr>))"

definition buf_write :: "buffer \<Rightarrow> byte list \<Rightarrow> int \<Rightarrow> (bool \<times> buffer) option" where
  "buf_write dest src n =
     (case buf_write_alloc dest n of
        (None, d) \<Rightarrow> Some (False, d)
      | (Some cp, d) \<Rightarrow> do {
          bs \<leftarrow> src_bytes src n;
          d' \<leftarrow> buf_store d cp bs;
          Some (True, d') })"

definition buf_write_prepend :: "buffer \<Rightarrow> byte list \<Rightarrow> int \<Rightarrow> (bool \<times> buffer) option" where
  "buf_write_prepend dest src n =
     (case buf_prepend dest n of
        (None, d) \<Rightarrow> Some (False, d)
      | (Some cp, d) \<Rightarrow> do {
          bs \<leftarrow> src_bytes src n;
          d' \<leftarrow> buf_store d cp bs;
          Some (True, d') })"

definition buf_write_u8 :: "buffer \<Rightarrow> int \<Rightarrow> (bool \<times> buffer) option" where
  "buf_write_u8 dest v = buf_write dest [word_of_int v] 1"

definition buf_write_u16 :: "buffer \<Rightarrow> int \<Rightarrow> (bool \<times> buffer) option" where
  "buf_write_u16 dest v = buf_write dest (be16 (word_of_int v)) 2"

definition buf_write_u32 :: "buffer \<Rightarrow> int \<Rightarrow> (bool \<times> buffer) option" where
  "buf_write_u32 dest v = buf_write dest (be32 (word_of_int v)) 4"

definition buf_copy :: "buffer \<Rightarrow> buffer \<Rightarrow> (bool \<times> buffer) option" where
  "buf_copy dest src = do {
     bs \<leftarrow> buf_load src (offset src) (len src);
     buf_write dest bs (len src)
   }"

definition buf_copy_n :: "buffer \<Rightarrow> buffer \<Rightarrow> int \<Rightarrow> (bool \<times> buffer \<times> buffer) option" where
  "buf_copy_n dest src n =
     (case buf_read_alloc src n of
        (None, s) \<Rightarrow> Some (False, dest, s)
      | (Some cp, s) \<Rightarrow> do {
          bs \<leftarrow> buf_load s cp n;
          (ok, d) \<leftarrow> buf_write dest bs n;
          Some (ok, d, s) })"

definition buf_copy_range ::
  "buffer \<Rightarrow> int \<Rightarrow> buffer \<Rightarrow> int \<Rightarrow> int \<Rightarrow> (bool \<times> buffer) option" where
  "buf_copy_range dest dest_index src src_index src_len =
     (if src_index < 0 \<or> src_len < 0 \<or> src_index + src_len > len src \<or> dest_index < 0
         \<or> offset dest + dest_index + src_len > capacity dest
      then Some (False, dest)
      else do {
        bs \<leftarrow> buf_load src (offset src + src_index) src_len;
        d \<leftarrow> buf_store dest (offset dest + dest_index) bs;
        Some (True, if dest_index + src_len > len d then d\<lparr>len := dest_index + src_len\<rparr> else d)
      })"

definition buf_copy_excess :: "buffer \<Rightarrow> buffer \<Rightarrow> int \<Rightarrow> (bool \<times> buffer \<times> buffer) option" where
  "buf_copy_excess dest src n =
     (if n < 0 then Some (False, dest, src)
      else if len src > n then
        (let b = src; src' = src\<lparr>len := n\<rparr>
         in case buf_advance b n of
              (False, _) \<Rightarrow> Some (False, dest, src')
            | (True, b') \<Rightarrow> do { (ok, d) \<leftarrow> buf_copy dest b'; Some (ok, d, src') })
      else Some (True, dest, src))"

definition buf_read :: "buffer \<Rightarrow> int \<Rightarrow> (byte list option \<times> buffer) option" where
  "buf_read src n =
     (case buf_read_alloc src n of
        (None, s) \<Rightarrow> Some (None, s)
      | (Some cp, s) \<Rightarrow> do { bs \<leftarrow> buf_load s cp n; Some (Some bs, s) })"

definition buf_read_u8 :: "buffer \<Rightarrow> (int \<times> buffer) option" where
  "buf_read_u8 b =
     (if len b < 1 then Some (-1, b)
      else do {
        bs \<leftarrow> buf_load b (offset b) 1;
        Some (uint (bs ! 0), snd (buf_advance b 1))
      })"

definition buf_read_u16 :: "buffer \<Rightarrow> (int \<times> buffer) option" where
  "buf_read_u16 b = do {
     (r, b') \<leftarrow> buf_read b 2;
     Some (case r of None \<Rightarrow> (-1, b') | Some bs \<Rightarrow> (uint (of_be16 bs), b'))
   }"

definition buf_read_u32 :: "buffer \<Rightarrow> ((bool \<times> u32) \<times> buffer) option" where
  "buf_read_u32 b = do {
     (r, b') \<leftarrow> buf_read b 4;
     Some (case r of None \<Rightarrow> ((False, 0), b') | Some bs \<Rightarrow> ((True, of_be32 bs), b'))
   }"

definition buf_string_match :: "buffer \<Rightarrow> byte list \<Rightarrow> int \<Rightarrow> bool option" where
  "buf_string_match src match n =
     (if n \<noteq> len src then Some False
      else do {
        a \<leftarrow> buf_load src (offset src) n;
        b \<leftarrow> src_bytes match n;
        Some (a = b) })"

definition buf_string_match_head :: "buffer \<Rightarrow> byte list \<Rightarrow> int \<Rightarrow> bool option" where
  "buf_string_match_head src match n =
     (if n < 0 \<or> n > len src then Some False
      else do {
        a \<leftarrow> buf_load src (offset src) n;
        b \<leftarrow> src_bytes match n;
        Some (a = b) })"

text \<open>\<^verbatim>\<open>xor\<close>: combine \<open>n\<close> bytes of \<open>src\<close> into \<open>dest\<close>.\<close>

fun xor_loop :: "byte list \<Rightarrow> byte list \<Rightarrow> nat \<Rightarrow> byte list option" where
  "xor_loop dest src 0 = Some dest"
| "xor_loop (d # dest) (s # src) (Suc n) = map_option ((#) (d XOR s)) (xor_loop dest src n)"
| "xor_loop _ _ (Suc n) = None"

section \<open>Operations of buffer.c\<close>

text \<open>
  \<^verbatim>\<open>malloc\<close> returns memory with unspecified contents: the parameter \<open>junk\<close> gives them.
  Running out of memory ends the program before a buffer exists and is not represented.
\<close>

definition alloc_buf :: "(nat \<Rightarrow> byte) \<Rightarrow> nat \<Rightarrow> buffer" where
  "alloc_buf junk sz =
     \<lparr>capacity = int sz, offset = 0, len = 0,
      data = Some (let m = map junk [0..<sz] in if sz \<noteq> 0 then m[0 := 0] else m)\<rparr>"

definition clone_buf :: "(nat \<Rightarrow> byte) \<Rightarrow> buffer \<Rightarrow> buffer option" where
  "clone_buf junk b = do {
     let ret = \<lparr>capacity = capacity b, offset = offset b, len = len b,
                data = Some (map junk [0..<nat (capacity b)])\<rparr>;
     bs \<leftarrow> buf_load b (offset b) (len b);
     buf_store ret (offset ret) bs
   }"

definition buf_clear :: "buffer \<Rightarrow> buffer option" where
  "buf_clear b = do {
     b' \<leftarrow> (if capacity b > 0 then buf_store b 0 (replicate (nat (capacity b)) 0) else Some b);
     Some (b'\<lparr>len := 0, offset := 0\<rparr>)
   }"

definition buf_assign :: "buffer \<Rightarrow> buffer \<Rightarrow> (bool \<times> buffer) option" where
  "buf_assign dest src =
     (case buf_init dest (offset src) of
        (False, d) \<Rightarrow> Some (False, d)
      | (True, d) \<Rightarrow> do {
          bs \<leftarrow> buf_load src (offset src) (len src);
          buf_write d bs (len src) })"

definition free_buf :: "buffer \<Rightarrow> buffer" where
  "free_buf b = clear_buf"

text \<open>
  \<^verbatim>\<open>buf_sub\<close> returns a buffer whose block is a range of the parent's block, so that writes to
  the one are writes to the other.  The model gives the sub-buffer a copy of the range and
  returns where it starts; \<open>buf_sub_commit\<close> puts the bytes of the sub-buffer back.
\<close>

definition buf_sub :: "buffer \<Rightarrow> int \<Rightarrow> bool \<Rightarrow> (buffer \<times> buffer \<times> int) option" where
  "buf_sub b n prepend =
     (case (if prepend then buf_prepend b n else buf_write_alloc b n) of
        (None, b') \<Rightarrow> Some (clear_buf, b', 0)
      | (Some p, b') \<Rightarrow> do {
          m \<leftarrow> buf_load b' p n;
          Some (clear_buf\<lparr>capacity := n, data := Some m\<rparr>, b', p) })"

definition buf_sub_commit :: "buffer \<Rightarrow> buffer \<Rightarrow> int \<Rightarrow> buffer option" where
  "buf_sub_commit sub b p = (case data sub of None \<Rightarrow> Some b | Some m \<Rightarrow> buf_store b p m)"

text \<open>The C string at the start of a byte list and its \<^verbatim>\<open>strlen\<close>.\<close>

definition c_string :: "byte list \<Rightarrow> byte list" where
  "c_string m = takeWhile (\<lambda>c. c \<noteq> 0) m"

definition c_strlen :: "byte list \<Rightarrow> int" where
  "c_strlen m = int (length (takeWhile (\<lambda>c. c \<noteq> 0) m))"

text \<open>
  \<^verbatim>\<open>buf_printf\<close>: \<open>s\<close> is the formatted text.  \<^verbatim>\<open>vsnprintf\<close> stores at most \<^verbatim>\<open>cap - 1\<close> characters
  and a terminating zero byte.
\<close>

definition buf_printf :: "buffer \<Rightarrow> byte list \<Rightarrow> buffer option" where
  "buf_printf b s =
     (if buf_defined b then
        (let cap = buf_forward_capacity b; p = offset b + len b
         in if cap > 0 then do {
              b \<leftarrow> buf_store b p (take (nat (cap - 1)) s @ [0]);
              b \<leftarrow> buf_store b (capacity b - 1) [0];
              bs \<leftarrow> buf_load b p (capacity b - p);
              Some (b\<lparr>len := len b + c_strlen bs\<rparr>)
            } else Some b)
      else Some b)"

definition buf_catrunc :: "buffer \<Rightarrow> byte list \<Rightarrow> buffer option" where
  "buf_catrunc b str =
     (if buf_forward_capacity b \<le> 1 then
        (let n = int (length str) + 1
         in if n < buf_forward_capacity_total b
            then buf_store b (capacity b - n) (str @ [0])
            else Some b)
      else Some b)"

definition convert_to_one_line :: "buffer \<Rightarrow> buffer option" where
  "convert_to_one_line b = do {
     bs \<leftarrow> buf_load b (offset b) (len b);
     buf_store b (offset b) (map (\<lambda>c. if c = 10 then 124 else c) bs)
   }"

definition buf_rmtail :: "buffer \<Rightarrow> byte \<Rightarrow> buffer option" where
  "buf_rmtail b remove =
     (case BLAST b of
        None \<Rightarrow> Some b
      | Some cp \<Rightarrow> do {
          bs \<leftarrow> buf_load b cp 1;
          if bs ! 0 = remove then do {
            b' \<leftarrow> buf_store b cp [0];
            Some (b'\<lparr>len := len b' - 1\<rparr>)
          } else Some b })"

definition buf_null_terminate :: "buffer \<Rightarrow> buffer option" where
  "buf_null_terminate b = do {
     already \<leftarrow> (case BLAST b of
        None \<Rightarrow> Some False
      | Some p \<Rightarrow> do { bs \<leftarrow> buf_load b p 1; Some (bs ! 0 = 0) });
     if already then Some b
     else do {
       let b = (if \<not> buf_safe b 1 then snd (buf_inc_len b (-1)) else b);
       (ok, b') \<leftarrow> buf_write_u8 b 0;
       Some b'
     }
   }"

section \<open>Character classes\<close>

text \<open>
  The flags of buffer.h, lines 558 to 590, and the predicates of ctype.h in the C locale,
  where no byte above 127 belongs to a class.
\<close>

abbreviation (input) "CC_ANY \<equiv> (0x1 :: u32)"
abbreviation (input) "CC_NULL \<equiv> (0x2 :: u32)"
abbreviation (input) "CC_ALNUM \<equiv> (0x4 :: u32)"
abbreviation (input) "CC_ALPHA \<equiv> (0x8 :: u32)"
abbreviation (input) "CC_ASCII \<equiv> (0x10 :: u32)"
abbreviation (input) "CC_CNTRL \<equiv> (0x20 :: u32)"
abbreviation (input) "CC_DIGIT \<equiv> (0x40 :: u32)"
abbreviation (input) "CC_PRINT \<equiv> (0x80 :: u32)"
abbreviation (input) "CC_PUNCT \<equiv> (0x100 :: u32)"
abbreviation (input) "CC_SPACE \<equiv> (0x200 :: u32)"
abbreviation (input) "CC_XDIGIT \<equiv> (0x400 :: u32)"
abbreviation (input) "CC_BLANK \<equiv> (0x800 :: u32)"
abbreviation (input) "CC_NEWLINE \<equiv> (0x1000 :: u32)"
abbreviation (input) "CC_CR \<equiv> (0x2000 :: u32)"
abbreviation (input) "CC_BACKSLASH \<equiv> (0x4000 :: u32)"
abbreviation (input) "CC_UNDERBAR \<equiv> (0x8000 :: u32)"
abbreviation (input) "CC_DASH \<equiv> (0x10000 :: u32)"
abbreviation (input) "CC_DOT \<equiv> (0x20000 :: u32)"
abbreviation (input) "CC_COMMA \<equiv> (0x40000 :: u32)"
abbreviation (input) "CC_COLON \<equiv> (0x80000 :: u32)"
abbreviation (input) "CC_SLASH \<equiv> (0x100000 :: u32)"
abbreviation (input) "CC_SINGLE_QUOTE \<equiv> (0x200000 :: u32)"
abbreviation (input) "CC_DOUBLE_QUOTE \<equiv> (0x400000 :: u32)"
abbreviation (input) "CC_REVERSE_QUOTE \<equiv> (0x800000 :: u32)"
abbreviation (input) "CC_AT \<equiv> (0x1000000 :: u32)"
abbreviation (input) "CC_EQUAL \<equiv> (0x2000000 :: u32)"
abbreviation (input) "CC_NAME \<equiv> CC_ALNUM OR CC_UNDERBAR"
abbreviation (input) "CC_CRLF \<equiv> CC_CR OR CC_NEWLINE"

definition isdigit :: "byte \<Rightarrow> bool" where "isdigit c = (48 \<le> c \<and> c \<le> 57)"
definition isupper :: "byte \<Rightarrow> bool" where "isupper c = (65 \<le> c \<and> c \<le> 90)"
definition islower :: "byte \<Rightarrow> bool" where "islower c = (97 \<le> c \<and> c \<le> 122)"
definition isalpha :: "byte \<Rightarrow> bool" where "isalpha c = (isupper c \<or> islower c)"
definition isalnum :: "byte \<Rightarrow> bool" where "isalnum c = (isalpha c \<or> isdigit c)"
definition isascii :: "byte \<Rightarrow> bool" where "isascii c = (c < 128)"
definition iscntrl :: "byte \<Rightarrow> bool" where "iscntrl c = (c < 32 \<or> c = 127)"
definition isprint :: "byte \<Rightarrow> bool" where "isprint c = (32 \<le> c \<and> c < 127)"
definition ispunct :: "byte \<Rightarrow> bool" where "ispunct c = (32 < c \<and> c < 127 \<and> \<not> isalnum c)"
definition isspace :: "byte \<Rightarrow> bool" where "isspace c = (c = 32 \<or> (9 \<le> c \<and> c \<le> 13))"
definition isxdigit :: "byte \<Rightarrow> bool" where
  "isxdigit c = (isdigit c \<or> (65 \<le> c \<and> c \<le> 70) \<or> (97 \<le> c \<and> c \<le> 102))"

definition has_flag :: "u32 \<Rightarrow> u32 \<Rightarrow> bool" where
  "has_flag flags f = (flags AND f \<noteq> 0)"

definition char_class :: "byte \<Rightarrow> u32 \<Rightarrow> bool" where
  "char_class c flags =
     (if flags = 0 then False
      else if has_flag flags CC_ANY then True
      else if has_flag flags CC_NULL \<and> c = 0 then True
      else if has_flag flags CC_ALNUM \<and> isalnum c then True
      else if has_flag flags CC_ALPHA \<and> isalpha c then True
      else if has_flag flags CC_ASCII \<and> isascii c then True
      else if has_flag flags CC_CNTRL \<and> iscntrl c then True
      else if has_flag flags CC_DIGIT \<and> isdigit c then True
      else if has_flag flags CC_PRINT \<and> isprint c then True
      else if has_flag flags CC_PUNCT \<and> ispunct c then True
      else if has_flag flags CC_SPACE \<and> isspace c then True
      else if has_flag flags CC_XDIGIT \<and> isxdigit c then True
      else if has_flag flags CC_BLANK \<and> (c = 32 \<or> c = 9) then True
      else if has_flag flags CC_NEWLINE \<and> c = 10 then True
      else if has_flag flags CC_CR \<and> c = 13 then True
      else if has_flag flags CC_BACKSLASH \<and> c = 92 then True
      else if has_flag flags CC_UNDERBAR \<and> c = 95 then True
      else if has_flag flags CC_DASH \<and> c = 45 then True
      else if has_flag flags CC_DOT \<and> c = 46 then True
      else if has_flag flags CC_COMMA \<and> c = 44 then True
      else if has_flag flags CC_COLON \<and> c = 58 then True
      else if has_flag flags CC_SLASH \<and> c = 47 then True
      else if has_flag flags CC_SINGLE_QUOTE \<and> c = 39 then True
      else if has_flag flags CC_DOUBLE_QUOTE \<and> c = 34 then True
      else if has_flag flags CC_REVERSE_QUOTE \<and> c = 96 then True
      else if has_flag flags CC_AT \<and> c = 64 then True
      else if has_flag flags CC_EQUAL \<and> c = 61 then True
      else False)"

definition char_inc_exc :: "byte \<Rightarrow> u32 \<Rightarrow> u32 \<Rightarrow> bool" where
  "char_inc_exc c inclusive exclusive = (char_class c inclusive \<and> \<not> char_class c exclusive)"

text \<open>C strings are lists of bytes up to, and without, the terminating zero.\<close>

fun has_digit :: "byte list \<Rightarrow> bool" where
  "has_digit [] = False"
| "has_digit (c # src) = (if isdigit c then True else has_digit src)"

fun string_class :: "byte list \<Rightarrow> u32 \<Rightarrow> u32 \<Rightarrow> bool" where
  "string_class [] inclusive exclusive = True"
| "string_class (c # str) inclusive exclusive =
     (if \<not> char_inc_exc c inclusive exclusive then False
      else string_class str inclusive exclusive)"

text \<open>\<^verbatim>\<open>string_mod\<close>: the loop reads from \<^verbatim>\<open>in\<close> and writes behind it.\<close>

fun string_mod_loop :: "byte list \<Rightarrow> u32 \<Rightarrow> u32 \<Rightarrow> byte \<Rightarrow> byte list \<Rightarrow> bool \<Rightarrow> bool \<times> byte list" where
  "string_mod_loop [] inclusive exclusive replace out ret = (ret, rev out)"
| "string_mod_loop (c # str) inclusive exclusive replace out ret =
     (let (c', ret') = (if \<not> char_inc_exc c inclusive exclusive then (replace, False) else (c, ret))
      in string_mod_loop str inclusive exclusive replace (if c' \<noteq> 0 then c' # out else out) ret')"

definition string_mod :: "byte list \<Rightarrow> u32 \<Rightarrow> u32 \<Rightarrow> byte \<Rightarrow> bool \<times> byte list" where
  "string_mod str inclusive exclusive replace =
     string_mod_loop str inclusive exclusive replace [] True"

text \<open>\<^verbatim>\<open>chomp\<close> removes trailing line ends one by one.\<close>

function chomp :: "byte list \<Rightarrow> byte list" where
  "chomp str =
     (let n = length str
      in if n > 0 \<and> (str ! (n - 1) = 10 \<or> str ! (n - 1) = 13) then chomp (butlast str) else str)"
  by pat_completeness auto
termination
  by (relation "measure length") (auto simp: Let_def)

definition string_null_terminate :: "byte list \<Rightarrow> int \<Rightarrow> int \<Rightarrow> byte list option" where
  "string_null_terminate str n cap = do {
     ASSERT (n \<ge> 0 \<and> n \<le> cap \<and> cap > 0);
     if n < cap then mem_write str n [0]
     else if n = cap then mem_write str (n - 1) [0]
     else Some str
   }"

section \<open>Parsing from a buffer\<close>

definition buf_string_match_head_str :: "buffer \<Rightarrow> byte list \<Rightarrow> bool option" where
  "buf_string_match_head_str src match =
     (let n = int (length match)
      in if n < 0 \<or> n > len src then Some False
         else do { a \<leftarrow> buf_load src (offset src) n; Some (a = match) })"

definition buf_string_compare_advance :: "buffer \<Rightarrow> byte list \<Rightarrow> (bool \<times> buffer) option" where
  "buf_string_compare_advance src match = do {
     m \<leftarrow> buf_string_match_head_str src match;
     Some (if m then (True, snd (buf_advance src (int (length match)))) else (False, src))
   }"

lemma buf_read_u8_len:
  "buf_read_u8 b = Some (c, b') \<Longrightarrow> 0 \<le> c \<Longrightarrow> nat (len b') < nat (len b)"
  by (auto simp: buf_read_u8_def buf_advance_def bind_eq_Some_conv split: if_splits)

text \<open>The trailing \<^verbatim>\<open>char_class (*last, CC_CRLF|CC_NULL)\<close> loop of \<^verbatim>\<open>buf_chomp\<close>.\<close>

function buf_chomp_loop :: "buffer \<Rightarrow> buffer option" where
  "buf_chomp_loop b =
     (case BLAST b of
        None \<Rightarrow> Some b
      | Some p \<Rightarrow> (case buf_load b p 1 of
          None \<Rightarrow> None
        | Some bs \<Rightarrow>
            if char_class (bs ! 0) (CC_CRLF OR CC_NULL)
            then (if fst (buf_inc_len b (-1))
                  then buf_chomp_loop (snd (buf_inc_len b (-1))) else Some b)
            else Some b))"
  by pat_completeness auto
termination
  by (relation "measure (\<lambda>b. nat (len b))")
     (auto simp: buf_inc_len_def buf_safe_bidir_def Let_def split: if_splits)

definition buf_chomp :: "buffer \<Rightarrow> buffer option" where
  "buf_chomp b = do { b' \<leftarrow> buf_chomp_loop b; buf_null_terminate b' }"

function buf_substring_len_loop :: "buffer \<Rightarrow> int \<Rightarrow> int \<Rightarrow> int option" where
  "buf_substring_len_loop tmp delim i =
     (case buf_read_u8 tmp of
        None \<Rightarrow> None
      | Some (c, tmp') \<Rightarrow>
          if c \<ge> 0 then
            (if c = delim then Some (i + 1) else buf_substring_len_loop tmp' delim (i + 1))
          else Some (-1))"
  by pat_completeness auto
termination
  by (relation "measure (\<lambda>(b, _, _). nat (len b))") (auto dest: buf_read_u8_len)

definition buf_substring_len :: "buffer \<Rightarrow> int \<Rightarrow> int option" where
  "buf_substring_len b delim = buf_substring_len_loop b delim 0"

text \<open>
  The loop of \<^verbatim>\<open>buf_parse\<close>: it returns the end-of-line flag, the buffer and the line.
\<close>

function buf_parse_loop ::
  "buffer \<Rightarrow> int \<Rightarrow> byte list \<Rightarrow> int \<Rightarrow> int \<Rightarrow> bool \<Rightarrow> (bool \<times> buffer \<times> byte list) option" where
  "buf_parse_loop b delim line sz n eol =
     (case buf_read_u8 b of
        None \<Rightarrow> None
      | Some (c, b') \<Rightarrow>
          (let eol' = (if c < 0 then True else eol);
               c' = (if c \<le> 0 \<or> c = delim then 0 else c)
           in if n \<ge> sz then Some (eol', b', line)
              else (case mem_write line n [word_of_int c'] of
                      None \<Rightarrow> None
                    | Some line' \<Rightarrow>
                        if c' \<noteq> 0 then buf_parse_loop b' delim line' sz (n + 1) eol'
                        else Some (eol', b', line'))))"
  by pat_completeness auto
termination
  by (relation "measure (\<lambda>(b, _, _, _, _, _). nat (len b))")
     (auto dest!: buf_read_u8_len split: if_splits)

definition buf_parse ::
  "buffer \<Rightarrow> int \<Rightarrow> byte list \<Rightarrow> int \<Rightarrow> (bool \<times> buffer \<times> byte list) option" where
  "buf_parse b delim line sz = do {
     ASSERT (sz > 0);
     (eol, b', line') \<leftarrow> buf_parse_loop b delim line sz 0 False;
     line'' \<leftarrow> mem_write line' (sz - 1) [0];
     Some (\<not> (eol \<and> c_strlen line'' = 0), b', line'')
   }"

declare chomp.simps [simp del] buf_chomp_loop.simps [simp del]
  buf_substring_len_loop.simps [simp del] buf_parse_loop.simps [simp del]

section \<open>Invariant and abstraction\<close>

definition wf_buf :: "buffer \<Rightarrow> bool" where
  "wf_buf b \<longleftrightarrow> (case data b of
     None \<Rightarrow> capacity b = 0 \<and> offset b = 0 \<and> len b = 0
   | Some m \<Rightarrow> capacity b = int (length m) \<and> 0 \<le> offset b \<and> 0 \<le> len b
               \<and> offset b + len b \<le> capacity b)"

text \<open>The packet, the bytes in front of it, and the room behind it.\<close>

definition content :: "buffer \<Rightarrow> byte list" where
  "content b = (case data b of
     None \<Rightarrow> []
   | Some m \<Rightarrow> take (nat (len b)) (drop (nat (offset b)) m))"

text \<open>A buffer with a block that keeps the invariant.\<close>

definition live_buf :: "buffer \<Rightarrow> bool" where
  "live_buf b \<longleftrightarrow> wf_buf b \<and> data b \<noteq> None"

text \<open>
  A live buffer is determined by three byte lists: the headroom, the packet and the tail
  room.  The operations are rewritten over this view, so that a sequence of them is
  evaluated by the simplifier.
\<close>

definition mk_buf :: "byte list \<Rightarrow> byte list \<Rightarrow> byte list \<Rightarrow> buffer" where
  "mk_buf pre c post =
     \<lparr>capacity = int (length pre + length c + length post), offset = int (length pre),
      len = int (length c), data = Some (pre @ c @ post)\<rparr>"

lemma mk_buf_sel [simp]:
  "offset (mk_buf pre c post) = int (length pre)"
  "len (mk_buf pre c post) = int (length c)"
  "capacity (mk_buf pre c post) = int (length pre + length c + length post)"
  "data (mk_buf pre c post) = Some (pre @ c @ post)"
  by (simp_all add: mk_buf_def)

lemma content_mk_buf [simp]: "content (mk_buf pre c post) = c"
  by (simp add: content_def)

lemma live_mk_buf [simp]: "live_buf (mk_buf pre c post)"
  by (simp add: live_buf_def wf_buf_def)

lemma live_bufE:
  assumes "live_buf b"
  obtains pre c post where "b = mk_buf pre c post"
proof -
  obtain m where m: "data b = Some m" and cap: "capacity b = int (length m)"
    and off: "0 \<le> offset b" "0 \<le> len b" "offset b + len b \<le> capacity b"
    using assms by (auto simp: live_buf_def wf_buf_def split: option.splits)
  let ?o = "nat (offset b)" and ?l = "nat (len b)"
  have "take ?o m @ take ?l (drop ?o m) @ drop ?l (drop ?o m) = m"
    by (metis append_take_drop_id)
  then have "b = mk_buf (take ?o m) (take ?l (drop ?o m)) (drop ?l (drop ?o m))"
    using m cap off by (cases b) (auto simp: mk_buf_def min_def)
  then show ?thesis by (rule that)
qed

lemma live_buf_contentE:
  assumes "live_buf b" "content b = c"
  obtains pre post where "b = mk_buf pre c post"
proof -
  obtain pre c' post where "b = mk_buf pre c' post" using assms(1) by (rule live_bufE)
  then show ?thesis using that assms(2) by auto
qed

lemma wf_buf_cases:
  assumes "wf_buf b"
  obtains (null) "b = clear_buf" | (live) "live_buf b"
  using assms by (cases b) (auto simp: wf_buf_def live_buf_def clear_buf_def split: option.splits)

lemma live_buf_wf [wf_intros]: "live_buf b \<Longrightarrow> wf_buf b"
  by (simp add: live_buf_def)

lemma wf_clear_buf [wf_intros, simp]: "wf_buf clear_buf"
  by (simp add: wf_buf_def clear_buf_def)

lemma length_content: "wf_buf b \<Longrightarrow> int (length (content b)) = len b"
  by (auto simp: wf_buf_def content_def split: option.splits)

section \<open>Operations over the three parts\<close>

lemma mem_read_parts [simp]:
  "mem_read (pre @ c @ post) (int (length pre)) (int (length c)) = Some c"
  by (simp add: mem_read_def)

lemma mem_write_parts:
  "length c' = length c \<Longrightarrow>
     mem_write (pre @ c @ post) (int (length pre)) c' = Some (pre @ c' @ post)"
  by (simp add: mem_write_def)

lemma ptr_mk_buf [simp]: "ptr_at (mk_buf pre c post) i = Some i" "BPTR (mk_buf pre c post) = Some (int (length pre))"
  by (simp_all add: ptr_at_def BPTR_def)

lemma src_bytes_all [simp]: "n = int (length src) \<Longrightarrow> src_bytes src n = Some src"
  by (simp add: src_bytes_def)

lemma buf_load_content [simp]:
  "buf_load (mk_buf pre c post) (int (length pre)) (int (length c)) = Some c"
  by (simp add: buf_load_def)

lemma buf_init_mk_buf:
  assumes "live_buf b"
  shows "buf_init b off =
    (if 0 \<le> off \<and> off \<le> capacity b
     then (True, mk_buf (take (nat off) (the (data b))) [] (drop (nat off) (the (data b))))
     else (False, b))"
proof -
  obtain pre c post where "b = mk_buf pre c post" using assms by (rule live_bufE)
  then show ?thesis by (auto simp: buf_init_def mk_buf_def min_def)
qed

lemma buf_write_mk_buf [simp]:
  assumes "n = int (length bs)"
  shows "buf_write (mk_buf pre c post) bs n =
    Some (if length bs \<le> length post then (True, mk_buf pre (c @ bs) (drop (length bs) post))
          else (False, mk_buf pre c post))"
proof (cases "length bs \<le> length post")
  case True
  have "mem_write (pre @ c @ post) (int (length pre + length c)) bs
      = Some (pre @ (c @ bs) @ drop (length bs) post)"
    using True mem_write_parts[of bs "take (length bs) post" "pre @ c" "drop (length bs) post"]
    by simp
  then show ?thesis
    using True assms
    by (simp add: buf_write_def buf_write_alloc_def buf_safe_def ptr_at_def buf_store_def mk_buf_def)
next
  case False
  then show ?thesis using assms by (simp add: buf_write_def buf_write_alloc_def buf_safe_def)
qed

lemma buf_prepend_mk_buf [simp]:
  "buf_prepend (mk_buf pre c post) n =
    (if 0 \<le> n \<and> n \<le> int (length pre)
     then (Some (int (length pre) - n),
           mk_buf (take (length pre - nat n) pre) (drop (length pre - nat n) pre @ c) post)
     else (None, mk_buf pre c post))"
  by (auto simp: buf_prepend_def BPTR_def ptr_at_def mk_buf_def Let_def of_nat_diff)

lemma buf_write_prepend_mk_buf [simp]:
  assumes "n = int (length bs)"
  shows "buf_write_prepend (mk_buf pre c post) bs n =
    Some (if length bs \<le> length pre
          then (True, mk_buf (take (length pre - length bs) pre) (bs @ c) post)
          else (False, mk_buf pre c post))"
proof (cases "length bs \<le> length pre")
  case True
  let ?k = "length pre - length bs"
  have "mem_write (take ?k pre @ drop ?k pre @ (c @ post)) (int (length (take ?k pre))) bs
      = Some (take ?k pre @ bs @ c @ post)"
    using True by (intro mem_write_parts) simp
  then have "buf_store (mk_buf (take ?k pre) (drop ?k pre @ c) post) (int (length pre) - n) bs
      = Some (mk_buf (take ?k pre) (bs @ c) post)"
    using True assms by (simp add: buf_store_def mk_buf_def of_nat_diff)
  then show ?thesis using True assms by (simp add: buf_write_prepend_def)
next
  case False
  then show ?thesis using assms by (simp add: buf_write_prepend_def)
qed

lemma buf_advance_mk_buf [simp]:
  "buf_advance (mk_buf pre c post) n =
    (if 0 \<le> n \<and> n \<le> int (length c)
     then (True, mk_buf (pre @ take (nat n) c) (drop (nat n) c) post)
     else (False, mk_buf pre c post))"
  by (auto simp: buf_advance_def mk_buf_def of_nat_diff)

lemma buf_read_alloc_mk_buf [simp]:
  "buf_read_alloc (mk_buf pre c post) n =
    (if 0 \<le> n \<and> n \<le> int (length c)
     then (Some (int (length pre)), mk_buf (pre @ take (nat n) c) (drop (nat n) c) post)
     else (None, mk_buf pre c post))"
  by (auto simp: buf_read_alloc_def mk_buf_def of_nat_diff BPTR_def ptr_at_def)

lemma buf_load_prefix:
  assumes "0 \<le> n" "n \<le> int (length c)"
  shows "buf_load (mk_buf (pre @ take (nat n) c) (drop (nat n) c) post) (int (length pre)) n
    = Some (take (nat n) c)"
proof -
  have "int (length pre) + n \<le> int (length (pre @ c @ post))" using assms by simp
  then show ?thesis using assms by (simp add: buf_load_def mem_read_def)
qed

lemma buf_read_mk_buf [simp]:
  "buf_read (mk_buf pre c post) n =
    Some (if 0 \<le> n \<and> n \<le> int (length c)
          then (Some (take (nat n) c), mk_buf (pre @ take (nat n) c) (drop (nat n) c) post)
          else (None, mk_buf pre c post))"
  by (simp add: buf_read_def buf_load_prefix)

lemma buf_read_u8_mk_buf [simp]:
  "buf_read_u8 (mk_buf pre c post) =
    Some (case c of [] \<Rightarrow> (-1, mk_buf pre c post) | x # xs \<Rightarrow> (uint x, mk_buf (pre @ [x]) xs post))"
  by (cases c) (auto simp: buf_read_u8_def buf_load_def mem_read_def)

lemma buf_copy_mk_buf [simp]:
  "buf_copy (mk_buf pre c post) (mk_buf pre' c' post') =
    Some (if length c' \<le> length post then (True, mk_buf pre (c @ c') (drop (length c') post))
          else (False, mk_buf pre c post))"
  by (simp add: buf_copy_def)

lemma buf_copy_n_mk_buf [simp]:
  "buf_copy_n (mk_buf pre c post) (mk_buf pre' c' post') n =
    Some (if 0 \<le> n \<and> n \<le> int (length c')
          then if n \<le> int (length post)
               then (True, mk_buf pre (c @ take (nat n) c') (drop (nat n) post),
                     mk_buf (pre' @ take (nat n) c') (drop (nat n) c') post')
               else (False, mk_buf pre c post,
                     mk_buf (pre' @ take (nat n) c') (drop (nat n) c') post')
          else (False, mk_buf pre c post, mk_buf pre' c' post'))"
  using buf_write_mk_buf[of n "take (nat n) c'" pre c post]
  by (auto simp: buf_copy_n_def buf_load_prefix nat_le_iff)

end
