(* ===== verification/Buffer_Safety.thy ===== *)
theory Buffer_Safety
  imports Buffer
begin

text \<open>
  Memory safety of the buffer interface, the wire codecs, and the correctness of the string
  helpers of buffer.c.

  \<^item> \<open>buf_op\<close> names the calls of the interface with arbitrary arguments; \<open>buf_exec\<close> runs
    one call.  Every call on a live buffer returns, and leaves a live buffer.
  \<^item> The locale \<open>wire_codec\<close> is the contract of a fixed-width field of a packet; the lemmas
    proved in it say that a field written with the buffer interface is read back.
\<close>

section \<open>Copying a range\<close>

definition patch :: "'a list \<Rightarrow> nat \<Rightarrow> 'a list \<Rightarrow> 'a list" where
  "patch xs i ys = take i xs @ ys @ drop (i + length ys) xs"

lemma length_patch [simp]: "i + length ys \<le> length xs \<Longrightarrow> length (patch xs i ys) = length xs"
  by (simp add: patch_def)

lemma nth_patch:
  "i + length ys \<le> length xs \<Longrightarrow> k < length xs \<Longrightarrow>
     patch xs i ys ! k = (if i \<le> k \<and> k < i + length ys then ys ! (k - i) else xs ! k)"
  by (auto simp: patch_def nth_append)

lemma buf_load_inside:
  assumes "0 \<le> i" "0 \<le> n" "i + n \<le> int (length c)"
  shows "buf_load (mk_buf pre c post) (int (length pre) + i) n
    = Some (take (nat n) (drop (nat i) c))"
  using assms by (simp add: buf_load_def mem_read_def nat_add_distrib)

lemma buf_store_inside:
  assumes "i + length bs \<le> length (c @ post)" "length bs = n"
    and r: "r = patch (c @ post) i bs"
  shows "buf_store (mk_buf pre c post) (int (length pre) + int i) bs
    = Some (mk_buf pre (take (length c) r) (drop (length c) r))"
proof -
  have "mem_write (pre @ c @ post) (int (length pre) + int i) bs = Some (pre @ r)"
    using assms by (auto simp: mem_write_def patch_def nat_add_distrib)
  then show ?thesis using assms by (simp add: buf_store_def mk_buf_def)
qed

lemma buf_copy_range_mk_buf:
  assumes "0 \<le> si" "0 \<le> sl" "si + sl \<le> int (length c')"
    and "di + nat sl \<le> length (c @ post)"
    and bs: "bs = take (nat sl) (drop (nat si) c')"
    and r: "r = patch (c @ post) di bs" and n: "n = max (length c) (di + nat sl)"
  shows "buf_copy_range (mk_buf pre c post) (int di) (mk_buf pre' c' post') si sl
    = Some (True, mk_buf pre (take n r) (drop n r))"
proof -
  have lbs: "length bs = nat sl" using assms by (simp add: bs)
  have len_r: "length r = length (c @ post)" using assms lbs by (simp add: r)
  have store: "buf_store (mk_buf pre c post) (int (length pre) + int di) bs
      = Some (mk_buf pre (take (length c) r) (drop (length c) r))"
    using assms lbs by (intro buf_store_inside) auto
  have load: "buf_load (mk_buf pre' c' post') (int (length pre') + si) sl = Some bs"
    using assms by (simp add: buf_load_inside)
  have fits: "int (length pre) + int di + sl \<le> int (length pre + length c + length post)"
    using assms by auto
  show ?thesis
    using assms store load fits len_r
    by (auto simp: buf_copy_range_def mk_buf_def max_def min_def of_nat_diff)
qed

lemma buf_copy_range_reject:
  "si < 0 \<or> sl < 0 \<or> si + sl > len src \<or> di < 0 \<or> offset dest + di + sl > capacity dest \<Longrightarrow>
     buf_copy_range dest di src si sl = Some (False, dest)"
  by (auto simp: buf_copy_range_def)

section \<open>Every call of the interface is memory safe\<close>

datatype buf_op =
    Op_init int
  | Op_inc_len int
  | Op_advance int
  | Op_write "byte list"
  | Op_write_prepend "byte list"
  | Op_write_u8 int
  | Op_write_u16 int
  | Op_write_u32 int
  | Op_read int
  | Op_read_u8
  | Op_read_u16
  | Op_read_u32
  | Op_clear
  | Op_printf "byte list"
  | Op_catrunc "byte list"
  | Op_rmtail byte
  | Op_null_terminate
  | Op_chomp
  | Op_one_line

definition buf_exec :: "buf_op \<Rightarrow> buffer \<Rightarrow> buffer option" where
  "buf_exec opn b = (case opn of
     Op_init off \<Rightarrow> Some (snd (buf_init b off))
   | Op_inc_len i \<Rightarrow> Some (snd (buf_inc_len b i))
   | Op_advance n \<Rightarrow> Some (snd (buf_advance b n))
   | Op_write bs \<Rightarrow> map_option snd (buf_write b bs (int (length bs)))
   | Op_write_prepend bs \<Rightarrow> map_option snd (buf_write_prepend b bs (int (length bs)))
   | Op_write_u8 v \<Rightarrow> map_option snd (buf_write_u8 b v)
   | Op_write_u16 v \<Rightarrow> map_option snd (buf_write_u16 b v)
   | Op_write_u32 v \<Rightarrow> map_option snd (buf_write_u32 b v)
   | Op_read n \<Rightarrow> map_option snd (buf_read b n)
   | Op_read_u8 \<Rightarrow> map_option snd (buf_read_u8 b)
   | Op_read_u16 \<Rightarrow> map_option snd (buf_read_u16 b)
   | Op_read_u32 \<Rightarrow> map_option snd (buf_read_u32 b)
   | Op_clear \<Rightarrow> buf_clear b
   | Op_printf s \<Rightarrow> buf_printf b s
   | Op_catrunc s \<Rightarrow> buf_catrunc b s
   | Op_rmtail c \<Rightarrow> buf_rmtail b c
   | Op_null_terminate \<Rightarrow> buf_null_terminate b
   | Op_chomp \<Rightarrow> buf_chomp b
   | Op_one_line \<Rightarrow> convert_to_one_line b)"

fun buf_run :: "buf_op list \<Rightarrow> buffer \<Rightarrow> buffer option" where
  "buf_run [] b = Some b"
| "buf_run (op1 # ops) b = (case buf_exec op1 b of None \<Rightarrow> None | Some b' \<Rightarrow> buf_run ops b')"

text \<open>A live buffer after a store, after moving the length, and after a call.\<close>

lemma live_buf_iff:
  "live_buf b \<longleftrightarrow> (\<exists>m. data b = Some m \<and> capacity b = int (length m) \<and> 0 \<le> offset b \<and>
     0 \<le> len b \<and> offset b + len b \<le> capacity b)"
  by (auto simp: live_buf_def wf_buf_def split: option.splits)

lemma live_buf_store:
  assumes "live_buf b" "0 \<le> i" "i + int (length bs) \<le> capacity b"
  obtains b' where "buf_store b i bs = Some b'" "live_buf b'" "capacity b' = capacity b"
    "offset b' = offset b" "len b' = len b"
    "data b' = mem_write (the (data b)) i bs"
proof -
  obtain m where m: "data b = Some m" "capacity b = int (length m)"
    using assms by (auto simp: live_buf_iff)
  obtain m' where m': "mem_write m i bs = Some m'"
    using assms m mem_write_Some_iff[of m i bs] by auto
  show ?thesis
    using that[of "b\<lparr>data := Some m'\<rparr>"] assms m m' mem_write_length[OF m']
    by (auto simp: buf_store_def live_buf_iff)
qed

lemma live_buf_load:
  assumes "live_buf b" "0 \<le> i" "0 \<le> n" "i + n \<le> capacity b"
  obtains bs where "buf_load b i n = Some bs" "length bs = nat n"
  using assms by (auto simp: live_buf_iff buf_load_def mem_read_def)

lemma live_buf_init [wf_intros]: "live_buf b \<Longrightarrow> live_buf (snd (buf_init b off))"
  by (auto simp: buf_init_def live_buf_iff)

lemma live_buf_inc_len [wf_intros]: "live_buf b \<Longrightarrow> live_buf (snd (buf_inc_len b i))"
  by (auto simp: buf_inc_len_def buf_safe_bidir_def live_buf_iff Let_def)

lemma live_buf_advance [wf_intros]: "live_buf b \<Longrightarrow> live_buf (snd (buf_advance b n))"
  by (auto simp: buf_advance_def live_buf_iff)

lemma live_buf_write [wf_intros]:
  "live_buf b \<Longrightarrow> n = int (length bs) \<Longrightarrow> \<exists>ok b'. buf_write b bs n = Some (ok, b') \<and> live_buf b'"
  by (erule live_bufE) auto

lemma live_buf_write_prepend [wf_intros]:
  "live_buf b \<Longrightarrow> n = int (length bs) \<Longrightarrow>
     \<exists>ok b'. buf_write_prepend b bs n = Some (ok, b') \<and> live_buf b'"
  by (erule live_bufE) auto

lemma live_buf_read [wf_intros]:
  "live_buf b \<Longrightarrow> \<exists>r b'. buf_read b n = Some (r, b') \<and> live_buf b'"
  by (erule live_bufE) auto

lemma live_buf_write_int:
  assumes "live_buf b"
  shows "\<exists>ok b'. buf_write_u8 b v = Some (ok, b') \<and> live_buf b'"
    and "\<exists>ok b'. buf_write_u16 b v = Some (ok, b') \<and> live_buf b'"
    and "\<exists>ok b'. buf_write_u32 b v = Some (ok, b') \<and> live_buf b'"
  using assms by (simp_all add: buf_write_u8_def buf_write_u16_def buf_write_u32_def live_buf_write)

lemma live_buf_read_int:
  assumes "live_buf b"
  shows "\<exists>r b'. buf_read_u8 b = Some (r, b') \<and> live_buf b'"
    and "\<exists>r b'. buf_read_u16 b = Some (r, b') \<and> live_buf b'"
    and "\<exists>r b'. buf_read_u32 b = Some (r, b') \<and> live_buf b'"
proof -
  obtain pre c post where b: "b = mk_buf pre c post" using assms by (rule live_bufE)
  show "\<exists>r b'. buf_read_u8 b = Some (r, b') \<and> live_buf b'"
    by (auto simp: b split: list.split)
  show "\<exists>r b'. buf_read_u16 b = Some (r, b') \<and> live_buf b'"
    by (auto simp: b buf_read_u16_def)
  show "\<exists>r b'. buf_read_u32 b = Some (r, b') \<and> live_buf b'"
    by (auto simp: b buf_read_u32_def)
qed

lemma live_buf_clear: "live_buf b \<Longrightarrow> \<exists>b'. buf_clear b = Some b' \<and> live_buf b'"
proof -
  assume live: "live_buf b"
  show ?thesis
  proof (cases "capacity b > 0")
    case True
    obtain b' where "buf_store b 0 (replicate (nat (capacity b)) 0) = Some b'" "live_buf b'"
      using live_buf_store[OF live, of 0 "replicate (nat (capacity b)) 0"] True by auto
    then show ?thesis using True by (auto simp: buf_clear_def live_buf_iff)
  next
    case False
    then show ?thesis using live by (auto simp: buf_clear_def live_buf_iff)
  qed
qed

lemma takeWhile_strlen_bound:
  "0 \<in> set m \<Longrightarrow> c_strlen m < int (length m)"
  by (induction m) (auto simp: c_strlen_def)

lemma live_buf_printf: "live_buf b \<Longrightarrow> \<exists>b'. buf_printf b s = Some b' \<and> live_buf b'"
proof -
  assume live: "live_buf b"
  let ?p = "offset b + len b" and ?cap = "capacity b - (offset b + len b)"
  have bounds: "0 \<le> offset b" "0 \<le> len b" "?p \<le> capacity b" "data b \<noteq> None"
    using live by (auto simp: live_buf_iff)
  show ?thesis
  proof (cases "?cap > 0")
    case True
    have fits: "?p + int (length (take (nat (?cap - 1)) s @ [0])) \<le> capacity b"
      using True by (auto simp: min_def)
    obtain b1 where b1: "buf_store b ?p (take (nat (?cap - 1)) s @ [0]) = Some b1" "live_buf b1"
      "capacity b1 = capacity b" "offset b1 = offset b" "len b1 = len b"
      using live_buf_store[OF live, of ?p "take (nat (?cap - 1)) s @ [0]"] bounds fits
      by (metis add_nonneg_nonneg)
    obtain b2 where b2: "buf_store b1 (capacity b1 - 1) [0] = Some b2" "live_buf b2"
      "capacity b2 = capacity b" "offset b2 = offset b" "len b2 = len b"
      using live_buf_store[OF b1(2), of "capacity b1 - 1" "[0]"] b1 bounds True by auto
    obtain bs where bs: "buf_load b2 ?p (capacity b2 - ?p) = Some bs" "length bs = nat ?cap"
      using live_buf_load[OF b2(2), of ?p "capacity b2 - ?p"] b2 bounds True by auto
    have "c_strlen bs \<le> int (length bs)" "0 \<le> c_strlen bs"
      by (auto simp: c_strlen_def length_takeWhile_le)
    then have "live_buf (b2\<lparr>len := len b2 + c_strlen bs\<rparr>)"
      using b2 bs bounds True by (auto simp: live_buf_iff)
    then show ?thesis
      using b1 b2 bs bounds True
      by (auto simp: buf_printf_def buf_defined_def buf_forward_capacity_def Let_def)
  next
    case False
    then show ?thesis using live
      by (auto simp: buf_printf_def buf_forward_capacity_def Let_def)
  qed
qed

lemma live_buf_catrunc: "live_buf b \<Longrightarrow> \<exists>b'. buf_catrunc b s = Some b' \<and> live_buf b'"
proof -
  assume live: "live_buf b"
  let ?n = "int (length s) + 1"
  show ?thesis
  proof (cases "buf_forward_capacity b \<le> 1 \<and> ?n < buf_forward_capacity_total b")
    case True
    then have "?n < capacity b - offset b" "0 \<le> offset b"
      using live by (auto simp: buf_forward_capacity_total_def live_buf_iff Let_def split: if_splits)
    then obtain b' where "buf_store b (capacity b - ?n) (s @ [0]) = Some b'" "live_buf b'"
      using live_buf_store[OF live, of "capacity b - ?n" "s @ [0]"] by auto
    then show ?thesis using True by (auto simp: buf_catrunc_def Let_def)
  next
    case False
    then show ?thesis using live by (auto simp: buf_catrunc_def Let_def)
  qed
qed

lemma live_buf_last:
  assumes "live_buf b" "BLAST b = Some p"
  shows "0 \<le> p" "p + 1 \<le> capacity b" "1 \<le> len b" "p = offset b + len b - 1"
  using assms by (auto simp: BLAST_def ptr_at_def live_buf_iff split: if_splits)

lemma live_buf_load_last:
  assumes "live_buf b" "BLAST b = Some p"
  obtains c where "buf_load b p 1 = Some [c]"
proof -
  obtain bs where "buf_load b p 1 = Some bs" "length bs = nat 1"
    using live_buf_load[OF assms(1), of p 1] live_buf_last[OF assms] by auto
  then show ?thesis using that by (auto simp: length_Suc_conv)
qed

lemma live_buf_rmtail: "live_buf b \<Longrightarrow> \<exists>b'. buf_rmtail b c = Some b' \<and> live_buf b'"
proof (cases "BLAST b")
  case None
  then show "live_buf b \<Longrightarrow> ?thesis" by (simp add: buf_rmtail_def)
next
  case (Some p)
  assume live: "live_buf b"
  note p = live_buf_last[OF live Some]
  obtain d where d: "buf_load b p 1 = Some [d]" using live_buf_load_last[OF live Some] .
  obtain b' where "buf_store b p [0] = Some b'" "live_buf b'" "len b' = len b" "offset b' = offset b"
    using live_buf_store[OF live p(1), of "[0]"] p by auto
  then show ?thesis using Some d live p by (auto simp: buf_rmtail_def live_buf_iff)
qed

lemma live_buf_null_terminate:
  assumes live: "live_buf b"
  shows "\<exists>b'. buf_null_terminate b = Some b' \<and> live_buf b'"
proof -
  let ?b = "if \<not> buf_safe b 1 then snd (buf_inc_len b (-1)) else b"
  obtain ok b' where w: "buf_write_u8 ?b 0 = Some (ok, b')" "live_buf b'"
    using live_buf_write_int(1)[of ?b 0] live live_buf_inc_len[OF live, of "-1"]
    by (cases "buf_safe b 1") auto
  show ?thesis
  proof (cases "BLAST b")
    case None
    then show ?thesis using w by (simp add: buf_null_terminate_def Let_def)
  next
    case (Some p)
    obtain d where "buf_load b p 1 = Some [d]" using live_buf_load_last[OF live Some] .
    then show ?thesis using Some w live by (auto simp: buf_null_terminate_def Let_def)
  qed
qed

lemma live_buf_chomp_loop: "live_buf b \<Longrightarrow> \<exists>b'. buf_chomp_loop b = Some b' \<and> live_buf b'"
proof (induction b rule: buf_chomp_loop.induct)
  case (1 b)
  show ?case
  proof (cases "BLAST b")
    case None
    then show ?thesis using 1 by (simp add: buf_chomp_loop.simps[of b])
  next
    case (Some p)
    obtain d where d: "buf_load b p 1 = Some [d]" using live_buf_load_last[OF "1.prems" Some] .
    have live': "live_buf (snd (buf_inc_len b (-1)))" using "1.prems" by (rule live_buf_inc_len)
    show ?thesis
      using "1.IH"[OF Some d _ _ live'] "1.prems" Some d by (auto simp: buf_chomp_loop.simps[of b])
  qed
qed

lemma live_buf_one_line: "live_buf b \<Longrightarrow> \<exists>b'. convert_to_one_line b = Some b' \<and> live_buf b'"
proof -
  assume live: "live_buf b"
  have bounds: "0 \<le> offset b" "0 \<le> len b" "offset b + len b \<le> capacity b"
    using live by (auto simp: live_buf_iff)
  obtain bs where bs: "buf_load b (offset b) (len b) = Some bs" "length bs = nat (len b)"
    using live_buf_load[OF live, of "offset b" "len b"] bounds by auto
  let ?bs = "map (\<lambda>c. if c = 10 then 124 else c) bs"
  obtain b' where "buf_store b (offset b) ?bs = Some b'" "live_buf b'"
    using live_buf_store[OF live bounds(1), of ?bs] bounds bs by auto
  then show ?thesis using bs by (simp add: convert_to_one_line_def)
qed

lemma live_buf_chomp: "live_buf b \<Longrightarrow> \<exists>b'. buf_chomp b = Some b' \<and> live_buf b'"
  using live_buf_chomp_loop[of b] live_buf_null_terminate by (auto simp: buf_chomp_def)

lemma returns_snd:
  "\<exists>r b'. X = Some (r, b') \<and> P b' \<Longrightarrow> \<exists>b'. map_option snd X = Some b' \<and> P b'"
  by auto

lemmas live_buf_calls =
  live_buf_write live_buf_write_prepend live_buf_read live_buf_write_int live_buf_read_int

lemmas live_buf_string_calls =
  live_buf_clear live_buf_printf live_buf_catrunc live_buf_rmtail live_buf_null_terminate
  live_buf_chomp live_buf_one_line

lemma live_buf_exec: "live_buf b \<Longrightarrow> \<exists>b'. buf_exec opn b = Some b' \<and> live_buf b'"
  by (cases opn)
     (simp_all add: buf_exec_def live_buf_string_calls wf_intros returns_snd live_buf_calls
        returns_snd[OF live_buf_read_int(3)]
        del: option.map_sel map_option_eq_Some)



lemma buf_init_live:
  assumes "live_buf b" "0 \<le> off" "off \<le> capacity b"
  obtains pre post where "buf_init b off = (True, mk_buf pre [] post)" "int (length pre) = off"
    "int (length pre + length post) = capacity b"
proof -
  obtain m where m: "data b = Some m" "int (length m) = capacity b" using assms(1) by (auto simp: live_buf_iff)
  have "buf_init b off = (True, mk_buf (take (nat off) m) [] (drop (nat off) m))"
    using buf_init_mk_buf[OF assms(1)] assms m by simp
  moreover have "int (length (take (nat off) m)) = off" using assms m by simp
  moreover have "length (take (nat off) m) + length (drop (nat off) m) = length m" by simp
  ultimately show ?thesis using that m(2) by metis
qed

section \<open>Fixed-width fields of a packet\<close>

locale wire_codec =
  fixes enc :: "'a \<Rightarrow> byte list" and dec :: "byte list \<Rightarrow> 'a" and width :: nat
  assumes enc_length: "length (enc x) = width"
    and dec_enc: "dec (enc x) = x"
begin

lemma enc_inj: "enc x = enc y \<Longrightarrow> x = y"
  by (metis dec_enc)

text \<open>A field at the front of the packet is read back, and the rest of the packet is left.\<close>

lemma read_front:
  "buf_read (mk_buf pre (enc x @ c) post) (int width)
     = Some (Some (enc x), mk_buf (pre @ enc x) c post)"
  by (simp add: enc_length)

lemma read_short:
  "length c < width \<Longrightarrow> buf_read (mk_buf pre c post) (int width) = Some (None, mk_buf pre c post)"
  by simp

text \<open>Prepending a field and reading it gives the field and the packet as it was.\<close>

lemma prepend_read:
  assumes "live_buf b" "int width \<le> offset b"
  obtains b1 b2 where "buf_write_prepend b (enc x) (int width) = Some (True, b1)"
    "buf_read b1 (int width) = Some (Some (enc x), b2)" "dec (enc x) = x"
    "live_buf b1" "live_buf b2" "content b1 = enc x @ content b" "content b2 = content b"
    "offset b2 = offset b"
proof -
  obtain pre c post where b: "b = mk_buf pre c post" using assms(1) by (rule live_bufE)
  have w: "width \<le> length pre" using assms(2) by (simp add: b)
  show ?thesis
    by (rule that[of "mk_buf (take (length pre - width) pre) (enc x @ c) post"
             "mk_buf (take (length pre - width) pre @ enc x) c post"])
       (use w in \<open>simp_all add: b enc_length dec_enc of_nat_diff\<close>)
qed

text \<open>Appending a field to an empty packet and reading it gives the field.\<close>

lemma write_read:
  assumes "live_buf b" "content b = []" "offset b + int width \<le> capacity b"
  obtains b1 b2 where "buf_write b (enc x) (int width) = Some (True, b1)"
    "buf_read b1 (int width) = Some (Some (enc x), b2)" "dec (enc x) = x"
    "live_buf b1" "live_buf b2" "content b1 = enc x" "content b2 = []"
proof -
  obtain pre c post where b: "b = mk_buf pre c post" using assms(1) by (rule live_bufE)
  have c: "c = []" using assms(2) by (simp add: b)
  have w: "width \<le> length post" using assms(3) by (simp add: b c)
  show ?thesis
    by (rule that[of "mk_buf pre (enc x) (drop width post)"
             "mk_buf (pre @ enc x) [] (drop width post)"])
       (use w in \<open>simp_all add: b c enc_length dec_enc\<close>)
qed

end

text \<open>A field whose decoder accepts every byte string of its width.\<close>

locale wire_codec_onto = wire_codec +
  assumes enc_dec: "length bs = width \<Longrightarrow> enc (dec bs) = bs"
begin

lemma dec_inj: "length bs = width \<Longrightarrow> length cs = width \<Longrightarrow> dec bs = dec cs \<Longrightarrow> bs = cs"
  by (metis enc_dec)

end

lemma list_of_two: "length bs = 2 \<Longrightarrow> bs = [bs ! 0, bs ! 1]"
  by (auto simp: numeral_2_eq_2 length_Suc_conv)

lemma list_of_four: "length bs = 4 \<Longrightarrow> bs = [bs ! 0, bs ! 1, bs ! 2, bs ! 3]"
  by (auto simp: numeral_eq_Suc length_Suc_conv)

lemma bit_byte_high [simp]: "8 \<le> n \<Longrightarrow> \<not> bit (w :: byte) n"
  using bit_imp_le_length[of w n] by auto

lemma be16_of_be16: "length bs = 2 \<Longrightarrow> be16 (of_be16 bs) = bs"
proof -
  have "be16 (of_be16 [a, b]) = [a, b]" for a b
    by (auto simp: be16_def of_be16_def bit_simps intro!: bit_word_eqI)
  then show "length bs = 2 \<Longrightarrow> ?thesis" using list_of_two by metis
qed

lemma be32_of_be32: "length bs = 4 \<Longrightarrow> be32 (of_be32 bs) = bs"
proof -
  have "be32 (of_be32 [a, b, c, d]) = [a, b, c, d]" for a b c d
    by (auto simp: be32_def of_be32_def bit_simps intro!: bit_word_eqI)
  then show "length bs = 4 \<Longrightarrow> ?thesis" using list_of_four by metis
qed

interpretation u8_field: wire_codec_onto "\<lambda>w. [w]" "\<lambda>bs. bs ! 0" 1
  by unfold_locales (auto simp: length_Suc_conv)

interpretation u16_field: wire_codec_onto be16 of_be16 2
  by unfold_locales (simp_all add: be16_of_be16)

interpretation u32_field: wire_codec_onto be32 of_be32 4
  by unfold_locales (simp_all add: be32_of_be32)

section \<open>Sub-buffers\<close>

lemma mk_buf_sub: "mk_buf [] [] m = clear_buf\<lparr>capacity := int (length m), data := Some m\<rparr>"
  by (simp add: mk_buf_def clear_buf_def)

lemma buf_sub_prepend_mk_buf:
  assumes "n \<le> length pre"
  shows "buf_sub (mk_buf pre c post) (int n) True
    = Some (mk_buf [] [] (drop (length pre - n) pre),
            mk_buf (take (length pre - n) pre) (drop (length pre - n) pre @ c) post,
            int (length pre - n))"
  using assms
  by (simp add: buf_sub_def buf_load_def mem_read_def of_nat_diff mk_buf_sub)

lemma buf_sub_append_mk_buf:
  assumes "n \<le> length post"
  shows "buf_sub (mk_buf pre c post) (int n) False
    = Some (mk_buf [] [] (take n post), mk_buf pre (c @ take n post) (drop n post),
            int (length pre + length c))"
  using assms
  by (simp add: buf_sub_def buf_write_alloc_def buf_safe_def ptr_at_def buf_load_def mem_read_def
      clear_buf_def mk_buf_def nat_add_distrib)

lemma buf_sub_full:
  "n > length pre \<Longrightarrow> buf_sub (mk_buf pre c post) (int n) True = Some (clear_buf, mk_buf pre c post, 0)"
  "n > length post \<Longrightarrow> buf_sub (mk_buf pre c post) (int n) False = Some (clear_buf, mk_buf pre c post, 0)"
  by (simp_all add: buf_sub_def buf_write_alloc_def buf_safe_def)

lemma buf_sub_commit_prepend_mk_buf:
  assumes "n \<le> length pre" "length x + length y = n"
  shows "buf_sub_commit (mk_buf [] x y) (mk_buf (take (length pre - n) pre) (drop (length pre - n) pre @ c) post)
      (int (length pre - n)) = Some (mk_buf (take (length pre - n) pre) ((x @ y) @ c) post)"
proof -
  let ?k = "length pre - n"
  have "mem_write (take ?k pre @ drop ?k pre @ (c @ post)) (int (length (take ?k pre))) (x @ y)
      = Some (take ?k pre @ (x @ y) @ (c @ post))"
    using assms by (intro mem_write_parts) simp
  then show ?thesis using assms by (simp add: buf_sub_commit_def buf_store_def mk_buf_def)
qed

lemma buf_sub_commit_append_mk_buf:
  assumes "n \<le> length post" "length x + length y = n"
  shows "buf_sub_commit (mk_buf [] x y) (mk_buf pre (c @ take n post) (drop n post))
      (int (length pre + length c)) = Some (mk_buf pre (c @ x @ y) (drop n post))"
proof -
  have "mem_write ((pre @ c) @ take n post @ drop n post) (int (length (pre @ c))) (x @ y)
      = Some ((pre @ c) @ (x @ y) @ drop n post)"
    using assms by (intro mem_write_parts) simp
  then show ?thesis using assms by (simp add: buf_sub_commit_def buf_store_def mk_buf_def)
qed

section \<open>Fields of a line\<close>

text \<open>buf_parse takes the text up to the delimiter or to the end of the line.\<close>

lemma buf_parse_loop_field:
  assumes "\<forall>c \<in> set s. c \<noteq> 0 \<and> uint c \<noteq> uint d" "n + length s < nat sz" "nat sz \<le> length line" "0 \<le> sz"
    and "d \<noteq> 0"
  shows "buf_parse_loop (mk_buf pre (s @ d # r) post) (uint d) line sz (int n) eol
      = Some (eol, mk_buf (pre @ s @ [d]) r post, take n line @ s @ [0] @ drop (n + length s + 1) line)"
    and "buf_parse_loop (mk_buf pre s post) (uint d) line sz (int n) eol
      = Some (True, mk_buf (pre @ s) [] post, take n line @ s @ [0] @ drop (n + length s + 1) line)"
proof -
  have "buf_parse_loop (mk_buf pre (s @ d # r) post) (uint d) line sz (int n) eol
      = Some (eol, mk_buf (pre @ s @ [d]) r post, take n line @ s @ [0] @ drop (n + length s + 1) line) \<and>
    buf_parse_loop (mk_buf pre s post) (uint d) line sz (int n) eol
      = Some (True, mk_buf (pre @ s) [] post, take n line @ s @ [0] @ drop (n + length s + 1) line)"
    using assms
  proof (induction s arbitrary: pre line n)
    case Nil
    then show ?case
      by (simp add: buf_parse_loop.simps[of "mk_buf _ _ _"] mem_write_def nat_add_distrib)
  next
    case (Cons c s)
    have w: "mem_write line (int n) [c] = Some (take n line @ c # drop (Suc n) line)"
      using Cons.prems by (simp add: mem_write_def)
    have c: "\<not> uint c \<le> 0" "uint c \<noteq> uint d" "uint c \<noteq> 0"
      using Cons.prems(1) uint_ge_0[of c] by (auto simp: order.order_iff_strict uint_0_iff simp del: uint_ge_0)
    have lt: "\<not> sz \<le> int n" using Cons.prems by simp
    have suc: "int n + 1 = int (Suc n)" by simp
    show ?case
      using Cons.IH[of "Suc n" "take n line @ c # drop (Suc n) line" "pre @ [c]"] Cons.prems w c lt
      by (simp add: buf_parse_loop.simps[of "mk_buf pre (_ # _) post"] suc Let_def add.commute[of n] del: of_nat_Suc)
  qed
  then show "buf_parse_loop (mk_buf pre (s @ d # r) post) (uint d) line sz (int n) eol
      = Some (eol, mk_buf (pre @ s @ [d]) r post, take n line @ s @ [0] @ drop (n + length s + 1) line)"
    "buf_parse_loop (mk_buf pre s post) (uint d) line sz (int n) eol
      = Some (True, mk_buf (pre @ s) [] post, take n line @ s @ [0] @ drop (n + length s + 1) line)" by simp_all
qed

lemma c_string_field:
  assumes "\<forall>c \<in> set s. c \<noteq> 0" "length s < sz" "length m = sz"
  shows "\<exists>m'. mem_write (s @ [0] @ drop (length s + 1) m) (int sz - 1) [0] = Some m' \<and> c_string m' = s \<and> c_strlen m' = int (length s)"
proof -
  let ?l = "s @ [0] @ drop (length s + 1) m"
  have len: "length ?l = sz" using assms by simp
  have "nat (int sz - 1) = sz - 1" by simp
  then have w: "mem_write ?l (int sz - 1) [0] = Some (take (sz - 1) ?l @ [0])"
    using len assms(2) by (simp add: mem_write_def)
  have "\<exists>t. take (sz - 1) ?l @ [0] = s @ 0 # t"
    using assms(2) by (cases "length s = sz - 1") (auto simp: take_Cons' not_le)
  then obtain t where t: "take (sz - 1) ?l @ [0] = s @ 0 # t" by blast
  have "takeWhile (\<lambda>c. c \<noteq> 0) (s @ 0 # t) = s" using assms(1) by (simp add: takeWhile_append)
  then show ?thesis using w t by (simp add: c_string_def c_strlen_def)
qed

lemma buf_parse_field:
  assumes "\<forall>c \<in> set s. c \<noteq> 0 \<and> uint c \<noteq> uint d" "length s < sz" "length line = sz" "d \<noteq> 0" "0 < sz"
  shows "\<exists>m pre'. buf_parse (mk_buf pre (s @ d # r) post) (uint d) line (int sz) = Some (True, mk_buf pre' r post, m) \<and> c_string m = s"
    and "s \<noteq> [] \<Longrightarrow> \<exists>m b. buf_parse (mk_buf pre s post) (uint d) line (int sz) = Some (True, b, m) \<and> c_string m = s"
proof -
  note loop = buf_parse_loop_field[of s d 0 "int sz" line, simplified]
  obtain m where m: "mem_write (s @ [0] @ drop (length s + 1) line) (int sz - 1) [0] = Some m"
    "c_string m = s" "c_strlen m = int (length s)"
    using c_string_field[of s sz line] assms by auto
  show "\<exists>m pre'. buf_parse (mk_buf pre (s @ d # r) post) (uint d) line (int sz) = Some (True, mk_buf pre' r post, m) \<and> c_string m = s"
    using loop(1)[of pre r post False] m assms by (auto simp: buf_parse_def)
  show "s \<noteq> [] \<Longrightarrow> \<exists>m b. buf_parse (mk_buf pre s post) (uint d) line (int sz) = Some (True, b, m) \<and> c_string m = s"
    using loop(2)[of pre post False] m assms by (auto simp: buf_parse_def)
qed

end
