(* ===== verification/Replay_Guard.thy ===== *)
theory Replay_Guard
  imports Prelude
begin

text \<open>
  The contract of a receiver that accepts each key at most once.  \<open>receive e s k\<close> handles the
  arrival of key \<open>k\<close> in state \<open>s\<close> under the circumstances \<open>e\<close> (the clock, the packet) and says
  whether it accepts; \<open>dead s k\<close> says that \<open>k\<close> can no longer be accepted.  The packet
  identifiers of the data channel and the reliability layer of the control channel are the
  two instances.
\<close>

text \<open>The keys accepted in a sequence of arrivals, in the order of their acceptance.\<close>

fun run_receive ::
  "('e \<Rightarrow> 's \<Rightarrow> 'k \<Rightarrow> (bool \<times> 's) option) \<Rightarrow> ('e \<times> 'k) list \<Rightarrow> 's \<Rightarrow> ('k list \<times> 's) option" where
  "run_receive rcv [] s = Some ([], s)"
| "run_receive rcv ((e, k) # es) s =
     (case rcv e s k of
        None \<Rightarrow> None
      | Some (ok, s') \<Rightarrow>
          (case run_receive rcv es s' of
             None \<Rightarrow> None
           | Some (ks, s'') \<Rightarrow> Some (if ok then k # ks else ks, s'')))"

locale replay_guard =
  fixes receive :: "'e \<Rightarrow> 's \<Rightarrow> 'k \<Rightarrow> (bool \<times> 's) option"
    and invar :: "'s \<Rightarrow> bool"
    and usable :: "'e \<Rightarrow> bool"
    and dead :: "'s \<Rightarrow> 'k \<Rightarrow> bool"
  assumes receive_step: "invar s \<Longrightarrow> usable e \<Longrightarrow>
      \<exists>ok s'. receive e s k = Some (ok, s') \<and> invar s' \<and> (ok \<longrightarrow> dead s' k) \<and>
        (\<forall>k'. dead s k' \<longrightarrow> dead s' k')"
    and dead_rejected: "invar s \<Longrightarrow> usable e \<Longrightarrow> dead s k \<Longrightarrow>
      \<exists>s'. receive e s k = Some (False, s')"
begin

lemma run_accepts_once:
  assumes "invar s" and "\<forall>(e, k) \<in> set es. usable e"
  shows "\<exists>ks s'. run_receive receive es s = Some (ks, s') \<and> invar s' \<and> distinct ks \<and>
    (\<forall>k \<in> set ks. \<not> dead s k \<and> dead s' k) \<and> (\<forall>k. dead s k \<longrightarrow> dead s' k)"
  using assms
proof (induction es arbitrary: s)
  case Nil
  then show ?case by simp
next
  case (Cons ek es)
  obtain e k where ek: "ek = (e, k)" by (cases ek)
  have us: "usable e" "\<forall>(e, k) \<in> set es. usable e" using Cons.prems ek by auto
  obtain ok s1 where s1: "receive e s k = Some (ok, s1)" "invar s1" "ok \<longrightarrow> dead s1 k"
    "\<forall>k'. dead s k' \<longrightarrow> dead s1 k'"
    using receive_step[OF Cons.prems(1) us(1)] by blast
  obtain ks s2 where s2: "run_receive receive es s1 = Some (ks, s2)" "invar s2" "distinct ks"
    "\<forall>k \<in> set ks. \<not> dead s1 k \<and> dead s2 k" "\<forall>k. dead s1 k \<longrightarrow> dead s2 k"
    using Cons.IH[OF s1(2) us(2)] by blast
  have "ok \<Longrightarrow> \<not> dead s k"
    using dead_rejected[OF Cons.prems(1) us(1), of k] s1(1) by auto
  then show ?case using ek s1 s2 by auto
qed

text \<open>What holds of every key at its acceptance holds of all the accepted keys.\<close>

lemma run_accepted:
  assumes "invar s" "\<forall>(e, k) \<in> set es. usable e" "run_receive receive es s = Some (ks, s')"
    and step: "\<And>e s k s'. invar s \<Longrightarrow> usable e \<Longrightarrow> receive e s k = Some (True, s') \<Longrightarrow> P k"
  shows "\<forall>k \<in> set ks. P k"
  using assms(1-3)
proof (induction es arbitrary: s ks)
  case (Cons ek es)
  obtain e k where ek: "ek = (e, k)" by (cases ek)
  have us: "usable e" "\<forall>(e, k) \<in> set es. usable e" using Cons.prems ek by auto
  obtain ok s1 where s1: "receive e s k = Some (ok, s1)" "invar s1"
    using receive_step[OF Cons.prems(1) us(1)] by blast
  obtain ks1 where ks1: "run_receive receive es s1 = Some (ks1, s')" "ks = (if ok then k # ks1 else ks1)"
    using Cons.prems(3) ek s1(1) by (auto split: option.splits)
  have "\<forall>k \<in> set ks1. P k" by (rule Cons.IH[OF s1(2) us(2) ks1(1)])
  then show ?case using step[OF Cons.prems(1) us(1)] s1(1) ks1(2) by auto
qed simp

lemma second_arrival_rejected:
  assumes "invar s" "usable e" "usable e'" "receive e s k = Some (True, s1)"
    and "\<forall>(e, k) \<in> set es. usable e" "run_receive receive es s1 = Some (ks, s2)"
  shows "\<exists>s3. receive e' s2 k = Some (False, s3)"
proof -
  have "invar s1" "dead s1 k" using receive_step[OF assms(1,2), of k] assms(4) by auto
  then have "invar s2" "dead s2 k" using run_accepts_once[of s1 es] assms(5,6) by auto
  then show ?thesis using dead_rejected assms(3) by blast
qed

end

end
