(* ===== verification/Packet_Id.thy ===== *)
theory Packet_Id
  imports Buffer_Safety Replay_Guard
begin

text \<open>
  Packet identifiers and replay protection: packet_id.h and packet_id.c.

  The receiver keeps the highest time stamp and sequence number and, in backtrack mode
  (UDP), a circular list that holds for each of the last \<^verbatim>\<open>seq_backtrack\<close> sequence numbers the
  time of its arrival, \<^verbatim>\<open>SEQ_UNSEEN\<close> or \<^verbatim>\<open>SEQ_EXPIRED\<close>.  The global \<^verbatim>\<open>now\<close> is an argument.

  The locale \<open>replay_guard\<close> states what a receiver has to promise so that no identifier is
  accepted twice in any sequence of arrivals; \<open>packet_id\<close> and the reliability layer
  interpret it.
\<close>

section \<open>Data\<close>

type_synonym packet_id_type = u32

abbreviation (input) "MAX_SEQ_BACKTRACK \<equiv> (65536 :: int)"
abbreviation (input) "MAX_TIME_BACKTRACK \<equiv> (600 :: int)"
abbreviation (input) "SEQ_REAP_INTERVAL \<equiv> (5 :: int)"
abbreviation (input) "PACKET_ID_WRAP_TRIGGER \<equiv> (0xFF000000 :: u32)"
abbreviation (input) "SEQ_UNSEEN \<equiv> (0 :: time_t)"
abbreviation (input) "SEQ_EXPIRED \<equiv> (1 :: time_t)"

record packet_id_rec =
  last_reap :: time_t
  rec_time :: time_t
  rec_id :: packet_id_type
  seq_backtrack :: int
  time_backtrack :: int
  initialized :: bool
  seq_list :: "time_t circ_list option"

record packet_id_send =
  send_id :: packet_id_type
  send_time :: time_t

record packet_id_net =
  pin_id :: packet_id_type
  pin_time :: time_t

record packet_id =
  pid_send :: packet_id_send
  pid_rec :: packet_id_rec

record packet_id_persist =
  persist_fd :: int
  persist_time :: time_t
  persist_id :: packet_id_type
  time_last_written :: time_t
  id_last_written :: packet_id_type

section \<open>Operations\<close>

definition packet_id_clear :: packet_id where
  "packet_id_clear =
     \<lparr>pid_send = \<lparr>send_id = 0, send_time = 0\<rparr>,
      pid_rec = \<lparr>last_reap = 0, rec_time = 0, rec_id = 0, seq_backtrack = 0, time_backtrack = 0,
                 initialized = False, seq_list = None\<rparr>\<rparr>"

definition packet_id_init :: "int \<Rightarrow> int \<Rightarrow> packet_id option" where
  "packet_id_init seq_bt time_bt = do {
     let p = packet_id_clear;
     r \<leftarrow> (if seq_bt \<noteq> 0 then do {
             ASSERT (0 \<le> seq_bt \<and> seq_bt \<le> MAX_SEQ_BACKTRACK);
             ASSERT (0 \<le> time_bt \<and> time_bt \<le> MAX_TIME_BACKTRACK);
             Some ((pid_rec p)\<lparr>seq_list := Some (CIRC_LIST_ALLOC SEQ_UNSEEN seq_bt),
                              seq_backtrack := seq_bt, time_backtrack := time_bt\<rparr>)
           } else Some (pid_rec p));
     Some (p\<lparr>pid_rec := r\<lparr>initialized := True\<rparr>\<rparr>)
   }"

definition packet_id_free :: "packet_id \<Rightarrow> packet_id" where
  "packet_id_free p = packet_id_clear"

text \<open>The loop \<^verbatim>\<open>while (p->id < pin->id)\<close> of \<^verbatim>\<open>packet_id_add\<close>.\<close>

function pid_push_unseen ::
  "time_t circ_list \<Rightarrow> packet_id_type \<Rightarrow> packet_id_type \<Rightarrow> (time_t circ_list \<times> packet_id_type) option"
where
  "pid_push_unseen sl i target =
     (if i < target then
        (case CIRC_LIST_PUSH sl SEQ_UNSEEN of
           None \<Rightarrow> None
         | Some sl' \<Rightarrow> pid_push_unseen sl' (i + 1) target)
      else Some (sl, i))"
  by pat_completeness auto
termination
proof (relation "measure (\<lambda>(_, i, t). unat t - unat i)")
  fix sl sl' :: "time_t circ_list" and i target :: packet_id_type
  assume "i < target"
  then have "unat i < unat target" "unat (i + 1) = unat i + 1"
    by (simp_all add: word_less_nat_alt unat_inc)
  then show "((sl', i + 1, target), sl, i, target) \<in> measure (\<lambda>(_, i, t). unat t - unat i)"
    by simp
qed simp

declare pid_push_unseen.simps [simp del]

text \<open>
  The start of \<^verbatim>\<open>packet_id_add\<close>: a new window when the list is empty, the time increases or the
  sequence number jumps past the window.
\<close>

definition pid_restart ::
  "time_t circ_list \<Rightarrow> packet_id_rec \<Rightarrow> packet_id_net \<Rightarrow> time_t circ_list \<times> packet_id_rec" where
  "pid_restart sl p pin =
     (let bt = (word_of_int (seq_backtrack p) :: packet_id_type)
      in if CIRC_LIST_SIZE sl = 0 \<or> pin_time pin > rec_time p
            \<or> (pin_id pin \<ge> bt \<and> pin_id pin - bt > rec_id p)
         then (CIRC_LIST_RESET sl,
               p\<lparr>rec_time := pin_time pin,
                 rec_id := (if pin_id pin > bt then pin_id pin - bt else 0)\<rparr>)
         else (sl, p))"

definition packet_id_add ::
  "time_t \<Rightarrow> packet_id_rec \<Rightarrow> packet_id_net \<Rightarrow> packet_id_rec option" where
  "packet_id_add now p pin =
     (case seq_list p of
        Some sl \<Rightarrow> do {
          let (sl, p) = pid_restart sl p pin;
          (sl, i) \<leftarrow> pid_push_unseen sl (rec_id p) (pin_id pin);
          let diff = i - pin_id pin;
          sl \<leftarrow> (if diff < word_of_int (CIRC_LIST_SIZE sl) \<and> now > SEQ_EXPIRED
                 then CIRC_LIST_ITEM_set sl (sint diff) now else Some sl);
          Some (p\<lparr>rec_id := i, seq_list := Some sl\<rparr>)
        }
      | None \<Rightarrow> Some (p\<lparr>rec_time := pin_time pin, rec_id := pin_id pin\<rparr>))"

text \<open>The loop of \<^verbatim>\<open>packet_id_reap\<close>, from index \<open>i\<close> with \<open>n\<close> steps left.\<close>

fun pid_reap_loop ::
  "time_t \<Rightarrow> int \<Rightarrow> time_t circ_list \<Rightarrow> nat \<Rightarrow> int \<Rightarrow> bool \<Rightarrow> time_t circ_list option" where
  "pid_reap_loop now bt sl 0 i expire = Some sl"
| "pid_reap_loop now bt sl (Suc n) i expire =
     (case CIRC_LIST_ITEM sl i of
        None \<Rightarrow> None
      | Some t \<Rightarrow>
          if t = SEQ_EXPIRED then Some sl
          else (let expire' = (if \<not> expire \<and> t \<noteq> 0 \<and> t + bt < now then True else expire)
                in case (if expire' then CIRC_LIST_ITEM_set sl i SEQ_EXPIRED else Some sl) of
                     None \<Rightarrow> None
                   | Some sl' \<Rightarrow> pid_reap_loop now bt sl' n (i + 1) expire'))"

definition packet_id_reap :: "time_t \<Rightarrow> packet_id_rec \<Rightarrow> packet_id_rec option" where
  "packet_id_reap now p = do {
     p' \<leftarrow> (if time_backtrack p \<noteq> 0 then do {
              sl \<leftarrow> seq_list p;
              sl' \<leftarrow> pid_reap_loop now (time_backtrack p) sl (nat (CIRC_LIST_SIZE sl)) 0 False;
              Some (p\<lparr>seq_list := Some sl'\<rparr>)
            } else Some p);
     Some (p'\<lparr>last_reap := now\<rparr>)
   }"

definition packet_id_reap_test :: "time_t \<Rightarrow> packet_id_rec \<Rightarrow> packet_id_rec option" where
  "packet_id_reap_test now p =
     (if last_reap p + SEQ_REAP_INTERVAL \<le> now then packet_id_reap now p else Some p)"

text \<open>
  The static \<^verbatim>\<open>max_backtrack_stat\<close> of \<^verbatim>\<open>packet_id_test\<close> only selects a log message and is left
  out.
\<close>

definition packet_id_test :: "packet_id_rec \<Rightarrow> packet_id_net \<Rightarrow> bool option" where
  "packet_id_test p pin = do {
     ASSERT (initialized p);
     if pin_id pin = 0 then Some False
     else if seq_backtrack p \<noteq> 0 then
       (if pin_time pin = rec_time p then
          (if pin_id pin > rec_id p then Some True
           else do {
             let diff = rec_id p - pin_id pin;
             sl \<leftarrow> seq_list p;
             if diff \<ge> word_of_int (CIRC_LIST_SIZE sl) then Some False
             else do { t \<leftarrow> CIRC_LIST_ITEM sl (sint diff); Some (t = 0) }
           })
        else if pin_time pin < rec_time p then Some False
        else Some True)
     else
       (if pin_time pin = rec_time p then Some (pin_id pin = rec_id p + 1)
        else if pin_time pin < rec_time p then Some False
        else Some (pin_id pin = 1))
   }"

definition packet_id_size :: "bool \<Rightarrow> int" where
  "packet_id_size long_form = 4 + (if long_form then 4 else 0)"

definition packet_id_close_to_wrapping :: "packet_id_send \<Rightarrow> bool" where
  "packet_id_close_to_wrapping p = (send_id p \<ge> PACKET_ID_WRAP_TRIGGER)"

definition packet_id_alloc_outgoing ::
  "time_t \<Rightarrow> packet_id_send \<Rightarrow> bool \<Rightarrow> (packet_id_net \<times> packet_id_send) option" where
  "packet_id_alloc_outgoing now p long_form = do {
     let p = (if send_time p = 0 then p\<lparr>send_time := now\<rparr> else p);
     let p = p\<lparr>send_id := send_id p + 1\<rparr>;
     p \<leftarrow> (if send_id p = 0 then do {
              ASSERT long_form;
              Some (p\<lparr>send_time := now, send_id := 1\<rparr>)
            } else Some p);
     Some (\<lparr>pin_id = send_id p, pin_time = send_time p\<rparr>, p)
   }"

definition check_timestamp_delta :: "time_t \<Rightarrow> time_t \<Rightarrow> u32 \<Rightarrow> bool" where
  "check_timestamp_delta now remote max_delta =
     (let a = (if now \<ge> remote then word_of_int (now - remote) else word_of_int (remote - now) :: u32)
      in a \<le> max_delta)"

definition packet_id_read ::
  "buffer \<Rightarrow> bool \<Rightarrow> ((bool \<times> packet_id_net) \<times> buffer) option" where
  "packet_id_read b long_form = do {
     let pin = \<lparr>pin_id = 0, pin_time = 0\<rparr>;
     (r, b) \<leftarrow> buf_read b 4;
     (case r of
        None \<Rightarrow> Some ((False, pin), b)
      | Some net_id \<Rightarrow> do {
          let pin = pin\<lparr>pin_id := of_be32 net_id\<rparr>;
          if long_form then do {
            (r, b) \<leftarrow> buf_read b 4;
            Some (case r of
              None \<Rightarrow> ((False, pin), b)
            | Some net_time \<Rightarrow> ((True, pin\<lparr>pin_time := uint (of_be32 net_time)\<rparr>), b))
          } else Some ((True, pin), b)
        })
   }"

definition packet_id_write ::
  "packet_id_net \<Rightarrow> buffer \<Rightarrow> bool \<Rightarrow> bool \<Rightarrow> (bool \<times> buffer) option" where
  "packet_id_write pin b long_form prepend = do {
     let net_id = be32 (pin_id pin);
     let net_time = be32 (word_of_int (pin_time pin));
     if prepend then do {
       (ok, b) \<leftarrow> (if long_form then buf_write_prepend b net_time 4 else Some (True, b));
       if \<not> ok then Some (False, b) else buf_write_prepend b net_id 4
     } else do {
       (ok, b) \<leftarrow> buf_write b net_id 4;
       if \<not> ok then Some (False, b)
       else if long_form then buf_write b net_time 4
       else Some (True, b)
     }
   }"

subsection \<open>Persistence across sessions\<close>

definition packet_id_persist_init :: packet_id_persist where
  "packet_id_persist_init =
     \<lparr>persist_fd = -1, persist_time = 0, persist_id = 0, time_last_written = 0, id_last_written = 0\<rparr>"

definition packet_id_persist_enabled :: "packet_id_persist \<Rightarrow> bool" where
  "packet_id_persist_enabled p = (persist_fd p \<ge> 0)"

definition packet_id_persist_close :: "packet_id_persist \<Rightarrow> packet_id_persist" where
  "packet_id_persist_close p =
     (if packet_id_persist_enabled p then packet_id_persist_init else p)"

text \<open>
  The file operations are parameters: \<open>fd\<close> is what \<^verbatim>\<open>open\<close> returned, \<open>locked\<close> says that
  \<^verbatim>\<open>flock\<close> succeeded (its failure is fatal), and \<open>img\<close> is what \<^verbatim>\<open>read\<close> found, if it read a
  whole record.
\<close>

definition packet_id_persist_load ::
  "int \<Rightarrow> bool \<Rightarrow> (time_t \<times> packet_id_type) option \<Rightarrow> packet_id_persist \<Rightarrow> packet_id_persist option" where
  "packet_id_persist_load fd locked img p =
     (if \<not> packet_id_persist_enabled p then do {
        let p = p\<lparr>persist_fd := fd\<rparr>;
        if fd = -1 then Some p
        else do {
          ASSERT locked;
          Some (case img of
            Some (t, i) \<Rightarrow> p\<lparr>persist_time := t, time_last_written := t, persist_id := i, id_last_written := i\<rparr>
          | None \<Rightarrow> p)
        }
      } else Some p)"

text \<open>\<^verbatim>\<open>packet_id_persist_save\<close>: the record written, if any; \<open>seek\<close> and \<open>wrote\<close> are the outcomes.\<close>

definition packet_id_persist_save ::
  "bool \<Rightarrow> bool \<Rightarrow> packet_id_persist \<Rightarrow> (time_t \<times> packet_id_type) option \<times> packet_id_persist" where
  "packet_id_persist_save seek wrote p =
     (if packet_id_persist_enabled p \<and> persist_time p \<noteq> 0
         \<and> (persist_time p \<noteq> time_last_written p \<or> persist_id p \<noteq> id_last_written p)
      then if seek then
             (if wrote
              then (Some (persist_time p, persist_id p),
                    p\<lparr>time_last_written := persist_time p, id_last_written := persist_id p\<rparr>)
              else (None, p))
           else (None, p)
      else (None, p))"

definition packet_id_persist_load_obj :: "packet_id_persist \<Rightarrow> packet_id \<Rightarrow> packet_id" where
  "packet_id_persist_load_obj p pid =
     (if packet_id_persist_enabled p \<and> persist_time p \<noteq> 0
      then pid\<lparr>pid_rec := (pid_rec pid)\<lparr>rec_time := persist_time p, rec_id := persist_id p\<rparr>\<rparr>
      else pid)"

definition packet_id_persist_save_obj :: "packet_id_persist \<Rightarrow> packet_id \<Rightarrow> packet_id_persist" where
  "packet_id_persist_save_obj p pid =
     (if packet_id_persist_enabled p \<and> rec_time (pid_rec pid) \<noteq> 0
      then p\<lparr>persist_time := rec_time (pid_rec pid), persist_id := rec_id (pid_rec pid)\<rparr>
      else p)"

text \<open>
  What \<^verbatim>\<open>openvpn_decrypt\<close> does with the identifier of an authenticated packet: expire, test,
  and record it when the test accepts.
\<close>

definition packet_id_receive ::
  "time_t \<Rightarrow> packet_id_rec \<Rightarrow> packet_id_net \<Rightarrow> (bool \<times> packet_id_rec) option" where
  "packet_id_receive now p pin = do {
     p \<leftarrow> packet_id_reap_test now p;
     ok \<leftarrow> packet_id_test p pin;
     if ok then do { p \<leftarrow> packet_id_add now p pin; Some (True, p) }
     else Some (False, p)
   }"

section \<open>The window as a list of arrival times\<close>

lemma take_append_take: "take c (ys @ take c zs) = take c (ys @ zs)"
  by (simp add: min_def)

lemma take_replicate_step:
  "take c (replicate n a @ take c (a # xs)) = take c (replicate (Suc n) a @ xs)"
  by (simp only: take_append_take replicate_app_Cons_same replicate_Suc append_Cons)

lemma pid_push_unseen_abs:
  assumes "wf_circ sl" "i \<le> target"
  shows "\<exists>sl'. pid_push_unseen sl i target = Some (sl', target) \<and> wf_circ sl' \<and>
    x_cap sl' = x_cap sl \<and>
    circ_list_abs sl' =
      take (nat (x_cap sl)) (replicate (unat target - unat i) 0 @ circ_list_abs sl)"
  using assms
proof (induction sl i target rule: pid_push_unseen.induct)
  case (1 sl i target)
  show ?case
  proof (cases "i < target")
    case True
    obtain sl1 where sl1: "CIRC_LIST_PUSH sl 0 = Some sl1" "wf_circ sl1" "x_cap sl1 = x_cap sl"
      "circ_list_abs sl1 = take (nat (x_cap sl)) (0 # circ_list_abs sl)"
      using CIRC_LIST_PUSH_abs[OF "1.prems"(1)] by metis
    have le: "i + 1 \<le> target" using True by (simp add: word_le_nat_alt word_less_nat_alt unat_inc)
    have n: "unat target - unat i = Suc (unat target - unat (i + 1))"
      using True by (simp add: word_less_nat_alt unat_inc)
    obtain sl' where "pid_push_unseen sl1 (i + 1) target = Some (sl', target)" "wf_circ sl'"
      "x_cap sl' = x_cap sl"
      "circ_list_abs sl' = take (nat (x_cap sl))
         (replicate (unat target - unat (i + 1)) 0 @ take (nat (x_cap sl)) (0 # circ_list_abs sl))"
      using "1.IH"[OF True sl1(1) sl1(2) le] sl1 by auto
    then show ?thesis
      using True sl1(1) unfolding n take_replicate_step by (simp add: pid_push_unseen.simps[of sl i])
  next
    case False
    then have "i = target" using "1.prems"(2) by simp
    then show ?thesis
      using False "1.prems"(1) pid_push_unseen.simps[of sl i target]
      by (auto simp: wf_circ_def nat_le_eq_zle)
  qed
qed

fun reap_cells :: "time_t \<Rightarrow> int \<Rightarrow> bool \<Rightarrow> time_t list \<Rightarrow> time_t list" where
  "reap_cells now bt expire [] = []"
| "reap_cells now bt expire (t # ts) =
     (if t = 1 then t # ts
      else (let expire' = (expire \<or> (t \<noteq> 0 \<and> t + bt < now))
            in (if expire' then 1 else t) # reap_cells now bt expire' ts))"

lemma length_reap_cells [simp]: "length (reap_cells now bt e ts) = length ts"
  by (induction ts arbitrary: e) (auto simp: Let_def)

lemma nth_reap_cells:
  "j < length ts \<Longrightarrow> reap_cells now bt e ts ! j = ts ! j \<or> reap_cells now bt e ts ! j = 1"
  by (induction ts arbitrary: e j) (auto simp: Let_def nth_Cons split: nat.split)

lemma pid_reap_loop_abs:
  assumes "wf_circ sl" "i + n = nat (x_size sl)"
  shows "\<exists>sl'. pid_reap_loop now bt sl n (int i) e = Some sl' \<and> wf_circ sl' \<and>
    x_cap sl' = x_cap sl \<and>
    circ_list_abs sl' =
      take i (circ_list_abs sl) @ reap_cells now bt e (drop i (circ_list_abs sl))"
  using assms
proof (induction n arbitrary: sl i e)
  case 0
  then show ?case by simp
next
  case (Suc n)
  have i: "int i < x_size sl" using Suc.prems by linarith
  let ?c = "circ_list_abs sl" and ?t = "circ_list_abs sl ! i"
  have item: "CIRC_LIST_ITEM sl (int i) = Some ?t"
    using Suc.prems(1) i by (simp add: CIRC_LIST_ITEM_eq)
  have dropi: "drop i ?c = ?t # drop (Suc i) ?c"
    using i by (simp add: Cons_nth_drop_Suc)
  show ?case
  proof (cases "?t = 1")
    case True
    then show ?thesis
      using item Suc.prems(1) append_take_drop_id[of i ?c] by (simp add: dropi)
  next
    case False
    define e' where "e' = (e \<or> (?t \<noteq> 0 \<and> ?t + bt < now))"
    have e'_eq: "(if \<not> e \<and> ?t \<noteq> 0 \<and> ?t + bt < now then True else e) = e'"
      by (auto simp: e'_def)
    obtain sl1 where sl1:
      "(if e' then CIRC_LIST_ITEM_set sl (int i) 1 else Some sl) = Some sl1" "wf_circ sl1"
      "x_cap sl1 = x_cap sl" "circ_list_abs sl1 = ?c[i := if e' then 1 else ?t]"
    proof (cases e')
      case True
      then show ?thesis
        using that i by (auto intro: CIRC_LIST_ITEM_set_abs[OF Suc.prems(1), of "int i" 1])
    next
      case False
      then show ?thesis using that[of sl] Suc.prems(1) by simp
    qed
    have sz: "x_size sl1 = x_size sl"
      using arg_cong[OF sl1(4), of length] sl1(2) Suc.prems(1)
      by (simp add: wf_circ_def eq_nat_nat_iff)
    then obtain sl' where "pid_reap_loop now bt sl1 n (int i + 1) e' = Some sl'" "wf_circ sl'"
      "x_cap sl' = x_cap sl"
      "circ_list_abs sl' = take (Suc i) (circ_list_abs sl1) @
         reap_cells now bt e' (drop (Suc i) (circ_list_abs sl1))"
      using Suc.IH[of sl1 "Suc i" e'] sl1 Suc.prems(2) by (auto simp: add.commute)
    moreover have "take (Suc i) (?c[i := v]) = take i ?c @ [v]" for v
      using i by (simp add: take_Suc_conv_app_nth)
    moreover have "reap_cells now bt e (drop i ?c)
        = (if e' then 1 else ?t) # reap_cells now bt e' (drop (Suc i) ?c)"
      using False unfolding dropi reap_cells.simps e'_def[symmetric] by simp
    ultimately show ?thesis
      using item False sl1 e'_eq by (simp add: Let_def)
  qed
qed

section \<open>Invariant of the receiver\<close>

definition rec_window :: "packet_id_rec \<Rightarrow> time_t list" where
  "rec_window p = (case seq_list p of None \<Rightarrow> [] | Some sl \<Rightarrow> circ_list_abs sl)"

definition wf_rec :: "packet_id_rec \<Rightarrow> bool" where
  "wf_rec p \<longleftrightarrow> initialized p \<and>
     (if seq_backtrack p = 0 then seq_list p = None \<and> time_backtrack p = 0
      else 0 < seq_backtrack p \<and> seq_backtrack p \<le> 65536 \<and>
        (case seq_list p of None \<Rightarrow> False
         | Some sl \<Rightarrow> wf_circ sl \<and> x_cap sl = seq_backtrack p))"

lemma wf_rec_init:
  assumes "packet_id_init sb tb = Some p"
  shows "wf_rec (pid_rec p)" "rec_time (pid_rec p) = 0" "rec_id (pid_rec p) = 0"
    "rec_window (pid_rec p) = []"
  using assms wf_circ_alloc[of sb 0]
  by (auto simp: packet_id_init_def packet_id_clear_def wf_rec_def rec_window_def Let_def
      CIRC_LIST_ALLOC_def circ_list_abs_def split: if_splits)

lemma rec_window_length: "wf_rec p \<Longrightarrow> int (length (rec_window p)) \<le> seq_backtrack p"
  by (auto simp: wf_rec_def rec_window_def wf_circ_def split: option.splits if_splits)

text \<open>The test of packet_id.c over the window.\<close>

lemma word_of_int_small: "0 \<le> n \<Longrightarrow> n \<le> 65536 \<Longrightarrow> unat (word_of_int n :: u32) = nat n"
  by (simp add: unat_eq_nat_uint uint_word_of_int)

lemma sint_small: 
  assumes "unat (d :: u32) < 65536"
  shows "sint d = int (unat d)"
proof -
  have "int (unat d) < 65536" using assms by linarith
  moreover have "- (2 ^ 31) \<le> uint d"
    by (rule order_trans[OF _ uint_ge_0]) simp
  ultimately have "signed_take_bit 31 (uint d) = uint d"
    by (intro signed_take_bit_int_eq_self) simp_all
  then show ?thesis by (simp add: sint_uint)
qed

lemma packet_id_test_backtrack:
  assumes wf: "wf_rec p" and bt: "seq_backtrack p \<noteq> 0"
  shows "packet_id_test p pin = Some (pin_id pin \<noteq> 0 \<and>
    (pin_time pin > rec_time p \<or>
     pin_time pin = rec_time p \<and>
       (pin_id pin > rec_id p \<or>
        (let d = unat (rec_id p) - unat (pin_id pin)
         in d < length (rec_window p) \<and> rec_window p ! d = 0))))"
proof -
  obtain sl where sl: "seq_list p = Some sl" "wf_circ sl" "x_cap sl = seq_backtrack p"
    and range: "seq_backtrack p \<le> 65536"
    using wf bt by (auto simp: wf_rec_def split: option.splits)
  have size: "0 \<le> x_size sl" "x_size sl \<le> 65536" using sl range by (auto simp: wf_circ_def)
  have win: "rec_window p = circ_list_abs sl" by (simp add: rec_window_def sl)
  have diff: "unat (rec_id p - pin_id pin) = unat (rec_id p) - unat (pin_id pin)"
    if "\<not> rec_id p < pin_id pin"
    using that by (simp add: unat_sub word_le_nat_alt word_less_nat_alt not_less)
  have item: "CIRC_LIST_ITEM sl (sint (rec_id p - pin_id pin))
      = Some (circ_list_abs sl ! (unat (rec_id p) - unat (pin_id pin)))"
    if "\<not> rec_id p < pin_id pin" "unat (rec_id p) - unat (pin_id pin) < nat (x_size sl)"
    using that size sl(2) diff sint_small[of "rec_id p - pin_id pin"]
    by (simp add: CIRC_LIST_ITEM_eq)
  have cmp: "(word_of_int (x_size sl) \<le> rec_id p - pin_id pin)
      = (nat (x_size sl) \<le> unat (rec_id p) - unat (pin_id pin))"
    if "\<not> rec_id p < pin_id pin"
    using diff[OF that] size by (simp add: word_le_nat_alt word_of_int_small)
  show ?thesis
    using wf bt sl item cmp win
    by (auto simp: packet_id_test_def wf_rec_def CIRC_LIST_SIZE_def Let_def not_le)
qed

lemma packet_id_test_sequential:
  assumes "wf_rec p" "seq_backtrack p = 0"
  shows "packet_id_test p pin = Some (pin_id pin \<noteq> 0 \<and>
    (pin_time pin = rec_time p \<and> pin_id pin = rec_id p + 1 \<or>
     pin_time pin > rec_time p \<and> pin_id pin = 1))"
  using assms by (auto simp: packet_id_test_def wf_rec_def)

lemma pid_push_unseen_total:
  assumes "wf_circ sl"
  shows "\<exists>sl'. pid_push_unseen sl i target = Some (sl', max i target) \<and> wf_circ sl' \<and>
    x_cap sl' = x_cap sl \<and>
    circ_list_abs sl' =
      take (nat (x_cap sl)) (replicate (unat target - unat i) 0 @ circ_list_abs sl)"
proof (cases "i \<le> target")
  case True
  then show ?thesis using pid_push_unseen_abs[OF assms True] by (simp add: max_def)
next
  case False
  then have "\<not> i < target" "unat target - unat i = 0" by (simp_all add: word_le_nat_alt word_less_nat_alt)
  then show ?thesis
    using assms False
    by (auto simp: pid_push_unseen.simps[of sl i] max_def wf_circ_def nat_le_eq_zle)
qed

section \<open>Recording an identifier\<close>

text \<open>
  What \<^verbatim>\<open>packet_id_add\<close> does to the window in backtrack mode: whether it starts a new window,
  and the cells afterwards.
\<close>

definition pid_restarts :: "packet_id_rec \<Rightarrow> packet_id_net \<Rightarrow> bool" where
  "pid_restarts p pin \<longleftrightarrow> rec_window p = [] \<or> pin_time pin > rec_time p \<or>
     unat (rec_id p) + nat (seq_backtrack p) < unat (pin_id pin)"

definition pid_base :: "packet_id_rec \<Rightarrow> packet_id_net \<Rightarrow> nat" where
  "pid_base p pin = (if pid_restarts p pin then unat (pin_id pin) - nat (seq_backtrack p)
                     else unat (rec_id p))"

definition pid_cells :: "packet_id_rec \<Rightarrow> packet_id_net \<Rightarrow> time_t list" where
  "pid_cells p pin = take (nat (seq_backtrack p))
     (replicate (unat (pin_id pin) - pid_base p pin) 0 @
      (if pid_restarts p pin then [] else rec_window p))"

lemma packet_id_add_backtrack:
  assumes wf: "wf_rec p" and bt: "seq_backtrack p \<noteq> 0" and now: "now > 1"
  shows "\<exists>p'. packet_id_add now p pin = Some p' \<and> wf_rec p' \<and>
    seq_backtrack p' = seq_backtrack p \<and>
    rec_time p' = (if pid_restarts p pin then pin_time pin else rec_time p) \<and>
    unat (rec_id p') = max (pid_base p pin) (unat (pin_id pin)) \<and>
    rec_window p' = (pid_cells p pin)[unat (rec_id p') - unat (pin_id pin) := now]"
proof -
  obtain sl where sl: "seq_list p = Some sl" "wf_circ sl" "x_cap sl = seq_backtrack p"
    and range: "0 < seq_backtrack p" "seq_backtrack p \<le> 65536"
    using wf bt by (auto simp: wf_rec_def split: option.splits)
  let ?bt = "word_of_int (seq_backtrack p) :: packet_id_type"
  have ubt: "unat ?bt = nat (seq_backtrack p)" using range by (simp add: word_of_int_small)
  have win: "rec_window p = circ_list_abs sl" by (simp add: rec_window_def sl)
  have sub: "unat (pin_id pin - ?bt) = unat (pin_id pin) - nat (seq_backtrack p)"
    if "?bt \<le> pin_id pin" using that ubt by (simp add: unat_sub)
  have restarts: "pid_restarts p pin \<longleftrightarrow> CIRC_LIST_SIZE sl = 0 \<or> pin_time pin > rec_time p
      \<or> (pin_id pin \<ge> ?bt \<and> pin_id pin - ?bt > rec_id p)"
    using sl(2) sub ubt
    by (auto simp: pid_restarts_def CIRC_LIST_SIZE_def win wf_circ_def word_le_nat_alt
        word_less_nat_alt circ_list_abs_def)
  define sl0 where "sl0 = (if pid_restarts p pin then CIRC_LIST_RESET sl else sl)"
  define i0 where "i0 = (if pid_restarts p pin
    then (if pin_id pin > ?bt then pin_id pin - ?bt else 0) else rec_id p)"
  define t0 where "t0 = (if pid_restarts p pin then pin_time pin else rec_time p)"
  have i0: "unat i0 = pid_base p pin"
    using sub ubt by (auto simp: i0_def pid_base_def word_less_nat_alt word_le_nat_alt)
  have sl0: "wf_circ sl0" "x_cap sl0 = seq_backtrack p"
    "circ_list_abs sl0 = (if pid_restarts p pin then [] else rec_window p)"
    using CIRC_LIST_RESET_abs[OF sl(2)] sl by (auto simp: sl0_def win CIRC_LIST_RESET_def)
  obtain sl1 where sl1: "pid_push_unseen sl0 i0 (pin_id pin) = Some (sl1, max i0 (pin_id pin))"
    "wf_circ sl1" "x_cap sl1 = seq_backtrack p" "circ_list_abs sl1 = pid_cells p pin"
    using pid_push_unseen_total[OF sl0(1), of i0 "pin_id pin"] sl0 i0
    by (auto simp: pid_cells_def)
  define i1 where "i1 = max i0 (pin_id pin)"
  have i1: "unat i1 = max (pid_base p pin) (unat (pin_id pin))"
    using i0 by (simp add: i1_def max_def word_le_nat_alt)
  define d where "d = unat i1 - unat (pin_id pin)"
  have d: "unat (i1 - pin_id pin) = d"
    using i1 by (simp add: d_def unat_sub word_le_nat_alt)
  have sz: "0 \<le> x_size sl1" "x_size sl1 \<le> 65536" "nat (x_size sl1) = length (pid_cells p pin)"
    using sl1 range by (auto simp: wf_circ_def simp flip: sl1(4))
  have cond: "i1 - pin_id pin < word_of_int (CIRC_LIST_SIZE sl1) \<longleftrightarrow> d < length (pid_cells p pin)"
    using d sz by (simp add: CIRC_LIST_SIZE_def word_less_nat_alt word_of_int_small)
  obtain sl2 where sl2: "(if i1 - pin_id pin < word_of_int (CIRC_LIST_SIZE sl1) \<and> now > 1
      then CIRC_LIST_ITEM_set sl1 (sint (i1 - pin_id pin)) now else Some sl1) = Some sl2"
    "wf_circ sl2" "x_cap sl2 = seq_backtrack p" "circ_list_abs sl2 = (pid_cells p pin)[d := now]"
  proof (cases "d < length (pid_cells p pin)")
    case True
    then have "sint (i1 - pin_id pin) = int d" using sint_small[of "i1 - pin_id pin"] sz d by simp
    moreover have "int d < x_size sl1" using True sz by linarith
    moreover obtain sl2 where "CIRC_LIST_ITEM_set sl1 (int d) now = Some sl2" "wf_circ sl2"
      "x_cap sl2 = seq_backtrack p" "circ_list_abs sl2 = (pid_cells p pin)[d := now]"
      using CIRC_LIST_ITEM_set_abs[OF sl1(2), of "int d" now] calculation(2) sl1 by auto
    ultimately show ?thesis using that True now cond by auto
  next
    case False
    then show ?thesis using that[of sl1] sl1 cond by (simp add: list_update_beyond)
  qed
  have "pid_restart sl p pin = (sl0, p\<lparr>rec_time := t0, rec_id := i0\<rparr>)"
    unfolding pid_restart_def Let_def restarts[symmetric] by (simp add: sl0_def i0_def t0_def)
  then have "packet_id_add now p pin =
      Some (p\<lparr>rec_time := t0, rec_id := i1, seq_list := Some sl2\<rparr>)"
    using sl(1) sl1(1) sl2(1) by (simp add: packet_id_add_def i1_def[symmetric] Let_def)
  then show ?thesis
    using wf bt sl2 i1 range by (auto simp: wf_rec_def t0_def d_def rec_window_def)
qed


section \<open>No identifier is accepted twice\<close>

text \<open>An identifier that the receiver will not accept again.\<close>

definition pid_dead :: "packet_id_rec \<Rightarrow> packet_id_net \<Rightarrow> bool" where
  "pid_dead p k \<longleftrightarrow> pin_time k < rec_time p \<or>
     pin_time k = rec_time p \<and> pin_id k \<le> rec_id p \<and>
     (seq_backtrack p \<noteq> 0 \<longrightarrow>
       (let d = unat (rec_id p) - unat (pin_id k)
        in length (rec_window p) \<le> d \<or> rec_window p ! d \<noteq> 0))"

text \<open>
  The invariant of a receiver that was not loaded from a file: as long as the window is empty,
  nothing has been accepted.
\<close>

definition rec_inv :: "packet_id_rec \<Rightarrow> bool" where
  "rec_inv p \<longleftrightarrow> wf_rec p \<and>
     (seq_backtrack p \<noteq> 0 \<and> rec_window p = [] \<longrightarrow> rec_time p = 0 \<and> rec_id p = 0)"

lemma rec_inv_init: "packet_id_init sb tb = Some p \<Longrightarrow> rec_inv (pid_rec p)"
  using wf_rec_init by (auto simp: rec_inv_def)

lemma pid_dead_rejected: "wf_rec p \<Longrightarrow> pid_dead p k \<Longrightarrow> packet_id_test p k = Some False"
proof (cases "seq_backtrack p = 0")
  case True
  assume "wf_rec p" "pid_dead p k"
  moreover have "\<not> (pin_id k = rec_id p + 1 \<and> pin_id k \<le> rec_id p \<and> pin_id k \<noteq> 0)"
    using word_succ_le[of "rec_id p"] by auto
  ultimately show ?thesis
    using True by (auto simp: packet_id_test_sequential pid_dead_def)
next
  case False
  then show "wf_rec p \<Longrightarrow> pid_dead p k \<Longrightarrow> ?thesis"
    by (auto simp: packet_id_test_backtrack pid_dead_def Let_def)
qed

lemma length_pid_cells:
  "length (pid_cells p pin) = min (nat (seq_backtrack p))
     (unat (pin_id pin) - pid_base p pin + (if pid_restarts p pin then 0 else length (rec_window p)))"
  by (auto simp: pid_cells_def min_def)

lemma pid_cells_nth:
  assumes "d < length (pid_cells p k)"
  shows "pid_cells p k ! d = (if pid_restarts p k \<or> d < unat (pin_id k) - pid_base p k then 0
    else rec_window p ! (d - (unat (pin_id k) - pid_base p k)))"
proof -
  have d: "d < nat (seq_backtrack p)" using assms by (simp add: length_pid_cells)
  have len: "pid_restarts p k \<Longrightarrow> d < unat (pin_id k) - pid_base p k"
    using assms by (simp add: length_pid_cells)
  have "pid_cells p k ! d = (replicate (unat (pin_id k) - pid_base p k) 0 @
      (if pid_restarts p k then [] else rec_window p)) ! d"
    using d by (simp only: pid_cells_def nth_take)
  then show ?thesis using len by (auto simp: nth_append)
qed

lemma pid_cells_old:
  assumes "\<not> pid_restarts p pin" "d' = unat (pin_id pin) - pid_base p pin + d"
    and "d' < length (pid_cells p pin)"
  shows "pid_cells p pin ! d' = rec_window p ! d"
  using assms by (simp add: pid_cells_nth)

lemma list_update_nonzero:
  fixes xs :: "'a :: zero list"
  shows "length xs \<le> d \<or> xs ! d \<noteq> 0 \<Longrightarrow> v \<noteq> 0 \<Longrightarrow> length (xs[e := v]) \<le> d \<or> xs[e := v] ! d \<noteq> 0"
  by (cases "e = d") (auto simp: not_le)

lemma add_backtrack_dead:
  assumes inv: "rec_inv p" and bt: "seq_backtrack p \<noteq> 0" and now: "now > 1"
    and acc: "packet_id_test p k = Some True"
  shows "\<exists>p'. packet_id_add now p k = Some p' \<and> rec_inv p' \<and> pid_dead p' k \<and>
    (\<forall>k'. pid_dead p k' \<longrightarrow> pid_dead p' k')"
proof -
  have wf: "wf_rec p" using inv by (simp add: rec_inv_def)
  obtain p' where p': "packet_id_add now p k = Some p'" "wf_rec p'"
    and sb: "seq_backtrack p' = seq_backtrack p"
    and time': "rec_time p' = (if pid_restarts p k then pin_time k else rec_time p)"
    and id': "unat (rec_id p') = max (pid_base p k) (unat (pin_id k))"
    and win': "rec_window p' = (pid_cells p k)[unat (rec_id p') - unat (pin_id k) := now]"
    using packet_id_add_backtrack[OF wf bt now] by blast
  have bt0: "0 < nat (seq_backtrack p)" using wf bt by (auto simp: wf_rec_def)
  have k0: "0 < unat (pin_id k)" and time_k: "rec_time p \<le> pin_time k"
    using acc by (auto simp: packet_id_test_backtrack[OF wf bt] unat_gt_0)
  have time_eq: "rec_time p' = pin_time k"
    using time' time_k by (auto simp: pid_restarts_def)
  have base: "pid_restarts p k \<Longrightarrow> pid_base p k \<le> unat (pin_id k)"
    by (simp add: pid_base_def)
  have nonempty: "rec_window p' \<noteq> []"
  proof -
    have "0 < length (pid_cells p k)"
      using bt0 k0 by (auto simp: length_pid_cells pid_base_def pid_restarts_def)
    then show ?thesis by (auto simp: win')
  qed
  have fresh: "rec_window p = [] \<Longrightarrow> rec_time p = 0 \<and> rec_id p = 0"
    using inv bt by (simp add: rec_inv_def)
  have "pid_dead p' k"
    using time_eq id' win' now by (auto simp: pid_dead_def sb Let_def word_le_nat_alt not_le)
  moreover have "pid_dead p' k'" if dead: "pid_dead p k'" for k'
  proof (cases "pin_time k' < rec_time p'")
    case True
    then show ?thesis by (simp add: pid_dead_def)
  next
    case False
    then have t: "pin_time k' = rec_time p" "pin_time k = rec_time p"
      using dead time_eq time_k by (auto simp: pid_dead_def)
    let ?d = "unat (rec_id p) - unat (pin_id k')" and ?d' = "unat (rec_id p') - unat (pin_id k')"
    have kid: "unat (pin_id k') \<le> unat (rec_id p)"
      and old: "length (rec_window p) \<le> ?d \<or> rec_window p ! ?d \<noteq> 0"
      using dead t bt by (auto simp: pid_dead_def Let_def word_le_nat_alt)
    have mono: "unat (rec_id p) \<le> unat (rec_id p')"
      using id' fresh t by (auto simp: pid_base_def pid_restarts_def)
    have "length (pid_cells p k) \<le> ?d' \<or> pid_cells p k ! ?d' \<noteq> 0"
    proof (cases "pid_restarts p k")
      case True
      then have "rec_window p = [] \<or> unat (rec_id p) + nat (seq_backtrack p) < unat (pin_id k)"
        using t by (auto simp: pid_restarts_def)
      then have "length (pid_cells p k) \<le> ?d'"
        using True fresh kid id' by (auto simp: length_pid_cells pid_base_def)
      then show ?thesis ..
    next
      case False
      then have d': "?d' = unat (pin_id k) - pid_base p k + ?d"
        using id' kid by (auto simp: pid_base_def max_def)
      show ?thesis
        using old pid_cells_old[OF False d'] d' False by (auto simp: length_pid_cells not_le)
    qed
    then have "length (rec_window p') \<le> ?d' \<or> rec_window p' ! ?d' \<noteq> 0"
      unfolding win' using now by (intro list_update_nonzero) simp_all
    then show ?thesis
      using t time_eq kid mono by (auto simp: pid_dead_def sb Let_def word_le_nat_alt)
  qed
  ultimately show ?thesis using p' nonempty by (auto simp: rec_inv_def)
qed

lemma add_sequential_dead:
  assumes inv: "rec_inv p" and bt: "seq_backtrack p = 0"
    and acc: "packet_id_test p k = Some True"
  shows "\<exists>p'. packet_id_add now p k = Some p' \<and> rec_inv p' \<and> pid_dead p' k \<and>
    (\<forall>k'. pid_dead p k' \<longrightarrow> pid_dead p' k')"
proof -
  have wf: "wf_rec p" using inv by (simp add: rec_inv_def)
  let ?p' = "p\<lparr>rec_time := pin_time k, rec_id := pin_id k\<rparr>"
  have add: "packet_id_add now p k = Some ?p'" using wf bt by (simp add: wf_rec_def packet_id_add_def)
  have "rec_inv ?p'" using wf bt by (simp add: rec_inv_def wf_rec_def)
  moreover have "pid_dead ?p' k" using bt by (simp add: pid_dead_def)
  moreover have "pid_dead ?p' k'" if "pid_dead p k'" for k'
  proof -
    have "pin_id k' \<le> rec_id p \<Longrightarrow> rec_id p + 1 \<noteq> 0 \<Longrightarrow> pin_id k' \<le> rec_id p + 1"
      using word_succ_le[of "rec_id p"] by (metis linear order_trans)
    then show ?thesis
      using that acc bt by (auto simp: pid_dead_def packet_id_test_sequential[OF wf bt])
  qed
  ultimately show ?thesis using add by auto
qed

lemma reap_test_dead:
  assumes inv: "rec_inv p"
  shows "\<exists>p'. packet_id_reap_test now p = Some p' \<and> rec_inv p' \<and>
    (\<forall>k'. pid_dead p k' \<longrightarrow> pid_dead p' k')"
proof (cases "last_reap p + 5 \<le> now \<and> time_backtrack p \<noteq> 0")
  case True
  then have bt: "seq_backtrack p \<noteq> 0" using inv by (auto simp: rec_inv_def wf_rec_def)
  obtain sl where sl: "seq_list p = Some sl" "wf_circ sl" "x_cap sl = seq_backtrack p"
    using inv bt by (auto simp: rec_inv_def wf_rec_def split: option.splits)
  obtain sl' where sl': "pid_reap_loop now (time_backtrack p) sl (nat (x_size sl)) 0 False = Some sl'"
    "wf_circ sl'" "x_cap sl' = seq_backtrack p"
    "circ_list_abs sl' = reap_cells now (time_backtrack p) False (circ_list_abs sl)"
    using pid_reap_loop_abs[OF sl(2), of 0 "nat (x_size sl)" now "time_backtrack p" False] sl by auto
  let ?p' = "p\<lparr>seq_list := Some sl', last_reap := now\<rparr>"
  have "packet_id_reap_test now p = Some ?p'"
    using True sl sl' by (simp add: packet_id_reap_test_def packet_id_reap_def CIRC_LIST_SIZE_def)
  moreover have "rec_inv ?p'"
    using inv sl sl' bt by (auto simp: rec_inv_def wf_rec_def rec_window_def simp flip: length_0_conv)
  moreover have "pid_dead ?p' k'" if "pid_dead p k'" for k'
  proof -
    have win: "rec_window ?p' = reap_cells now (time_backtrack p) False (rec_window p)"
      using sl sl' by (simp add: rec_window_def)
    show ?thesis
      using that nth_reap_cells[of _ "rec_window p" now "time_backtrack p" False]
      unfolding pid_dead_def Let_def win by (fastforce simp: not_le)
  qed
  ultimately show ?thesis by auto
next
  case False
  have upd: "rec_inv (p\<lparr>last_reap := now\<rparr>)" "pid_dead (p\<lparr>last_reap := now\<rparr>) k' = pid_dead p k'" for k'
    using inv
    by (auto simp: rec_inv_def wf_rec_def rec_window_def pid_dead_def
        split: option.splits if_splits)
  show ?thesis
    using inv False upd by (auto simp: packet_id_reap_test_def packet_id_reap_def)
qed

interpretation pid_guard: replay_guard packet_id_receive rec_inv "\<lambda>now. now > 1" pid_dead
proof
  fix p :: packet_id_rec and now :: time_t and k :: packet_id_net
  assume inv: "rec_inv p" and now: "now > 1"
  obtain p1 where p1: "packet_id_reap_test now p = Some p1" "rec_inv p1"
    "\<forall>k'. pid_dead p k' \<longrightarrow> pid_dead p1 k'"
    using reap_test_dead[OF inv] by blast
  have wf1: "wf_rec p1" using p1(2) by (simp add: rec_inv_def)
  obtain ok where ok: "packet_id_test p1 k = Some ok"
    using packet_id_test_backtrack[OF wf1] packet_id_test_sequential[OF wf1] by blast
  show "\<exists>ok s'. packet_id_receive now p k = Some (ok, s') \<and> rec_inv s' \<and> (ok \<longrightarrow> pid_dead s' k) \<and>
      (\<forall>k'. pid_dead p k' \<longrightarrow> pid_dead s' k')"
  proof (cases ok)
    case True
    obtain p2 where "packet_id_add now p1 k = Some p2" "rec_inv p2" "pid_dead p2 k"
      "\<forall>k'. pid_dead p1 k' \<longrightarrow> pid_dead p2 k'"
      using add_backtrack_dead[OF p1(2) _ now] add_sequential_dead[OF p1(2)] ok True by metis
    then show ?thesis using p1 ok True by (auto simp: packet_id_receive_def)
  next
    case False
    then show ?thesis using p1 ok by (auto simp: packet_id_receive_def)
  qed
  assume "pid_dead p k"
  then have "packet_id_test p1 k = Some False" using pid_dead_rejected[OF wf1] p1(3) by blast
  then show "\<exists>s'. packet_id_receive now p k = Some (False, s')"
    using p1 by (simp add: packet_id_receive_def)
qed

end
