(* ===== verification/Session_Id.thy ===== *)
theory Session_Id
  imports Buffer_Safety
begin

text \<open>
  Session identifiers of the control channel: session_id.h and session_id.c.  An identifier is an
  array of eight bytes; the random generator of session_id_random is an argument.
\<close>

type_synonym session_id = "byte list"

definition SID_SIZE :: int where
  "SID_SIZE = 8"

definition x_session_id_zero :: session_id where
  "x_session_id_zero = replicate 8 0"

definition session_id_equal :: "session_id \<Rightarrow> session_id \<Rightarrow> bool" where
  "session_id_equal sid1 sid2 = (sid1 = sid2)"

definition session_id_defined :: "session_id \<Rightarrow> bool" where
  "session_id_defined sid1 = (sid1 \<noteq> x_session_id_zero)"

definition session_id_read :: "buffer \<Rightarrow> (session_id option \<times> buffer) option" where
  "session_id_read b = buf_read b SID_SIZE"

definition session_id_write_prepend :: "session_id \<Rightarrow> buffer \<Rightarrow> (bool \<times> buffer) option" where
  "session_id_write_prepend sid b = buf_write_prepend b sid SID_SIZE"

definition session_id_write :: "session_id \<Rightarrow> buffer \<Rightarrow> (bool \<times> buffer) option" where
  "session_id_write sid b = buf_write b sid SID_SIZE"

definition session_id_random :: "(int \<Rightarrow> byte list) \<Rightarrow> session_id" where
  "session_id_random prng_bytes = prng_bytes SID_SIZE"

definition wf_sid :: "session_id \<Rightarrow> bool" where
  "wf_sid sid \<longleftrightarrow> length sid = 8"

lemma wf_sid_length: "wf_sid sid \<Longrightarrow> int (length sid) = SID_SIZE"
  by (simp add: wf_sid_def SID_SIZE_def)

lemma session_id_write_mk_buf:
  "wf_sid sid \<Longrightarrow> 8 \<le> length post \<Longrightarrow>
     session_id_write sid (mk_buf pre c post) = Some (True, mk_buf pre (c @ sid) (drop 8 post))"
  by (simp add: session_id_write_def wf_sid_def SID_SIZE_def)

lemma session_id_write_prepend_mk_buf:
  "wf_sid sid \<Longrightarrow> 8 \<le> length pre \<Longrightarrow>
     session_id_write_prepend sid (mk_buf pre c post)
       = Some (True, mk_buf (take (length pre - 8) pre) (sid @ c) post)"
  by (simp add: session_id_write_prepend_def wf_sid_def SID_SIZE_def)

lemma session_id_read_mk_buf:
  "wf_sid sid \<Longrightarrow>
     session_id_read (mk_buf pre (sid @ c) post) = Some (Some sid, mk_buf (pre @ sid) c post)"
  by (simp add: session_id_read_def wf_sid_def SID_SIZE_def)

lemma session_id_read_short:
  "length c < 8 \<Longrightarrow> session_id_read (mk_buf pre c post) = Some (None, mk_buf pre c post)"
  by (simp add: session_id_read_def SID_SIZE_def)

lemma session_id_read_cases:
  "session_id_read (mk_buf pre c post) =
     Some (if 8 \<le> length c then (Some (take 8 c), mk_buf (pre @ take 8 c) (drop 8 c) post)
           else (None, mk_buf pre c post))"
  by (simp add: session_id_read_def SID_SIZE_def)

end
