(* ===== verification/Mtu.thy ===== *)
theory Mtu
  imports Buffer_Safety
begin

text \<open>
  Frame sizes: mtu.h and mtu.c.  A frame records the maximum datagram size and the overhead each
  layer may add; from it follow the sizes of the packet buffers and the headroom in front of a
  packet.  frame_print only logs, and the socket options of MTU discovery are system calls.
\<close>

abbreviation (input) "TUN_MTU_MIN \<equiv> (100 :: int)"
abbreviation (input) "PAYLOAD_ALIGN \<equiv> (4 :: int)"
abbreviation (input) "SET_MTU_TUN \<equiv> (1 :: u32)"
abbreviation (input) "SET_MTU_UPPER_BOUND \<equiv> (2 :: u32)"

record frame =
  link_mtu :: int
  link_mtu_dynamic :: int
  extra_frame :: int
  extra_buffer :: int
  extra_tun :: int
  extra_link :: int
  align_flags :: u32
  align_adjust :: int

definition TUN_LINK_DELTA :: "frame \<Rightarrow> int" where
  "TUN_LINK_DELTA f = extra_frame f + extra_tun f"

definition TUN_MTU_SIZE :: "frame \<Rightarrow> int" where
  "TUN_MTU_SIZE f = link_mtu f - TUN_LINK_DELTA f"

definition TUN_MTU_SIZE_DYNAMIC :: "frame \<Rightarrow> int" where
  "TUN_MTU_SIZE_DYNAMIC f = link_mtu_dynamic f - TUN_LINK_DELTA f"

definition PAYLOAD_SIZE :: "frame \<Rightarrow> int" where
  "PAYLOAD_SIZE f = link_mtu f - extra_frame f"

definition PAYLOAD_SIZE_DYNAMIC :: "frame \<Rightarrow> int" where
  "PAYLOAD_SIZE_DYNAMIC f = link_mtu_dynamic f - extra_frame f"

definition EXPANDED_SIZE :: "frame \<Rightarrow> int" where
  "EXPANDED_SIZE f = link_mtu f"

definition EXPANDED_SIZE_MIN :: "frame \<Rightarrow> int" where
  "EXPANDED_SIZE_MIN f = TUN_MTU_MIN + TUN_LINK_DELTA f"

definition MAX_RW_SIZE_TUN :: "frame \<Rightarrow> int" where
  "MAX_RW_SIZE_TUN f = PAYLOAD_SIZE f"

definition MAX_RW_SIZE_LINK :: "frame \<Rightarrow> int" where
  "MAX_RW_SIZE_LINK f = EXPANDED_SIZE f + extra_link f"

definition FRAME_HEADROOM_BASE :: "frame \<Rightarrow> int" where
  "FRAME_HEADROOM_BASE f = TUN_LINK_DELTA f + extra_buffer f + extra_link f"

definition BUF_SIZE :: "frame \<Rightarrow> int" where
  "BUF_SIZE f = TUN_MTU_SIZE f + FRAME_HEADROOM_BASE f * 2"

definition frame_headroom :: "frame \<Rightarrow> u32 \<Rightarrow> int" where
  "frame_headroom f flag_mask =
     (let off = FRAME_HEADROOM_BASE f;
          adjust = (if flag_mask AND align_flags f \<noteq> 0 then align_adjust f else 0);
          delta = (PAYLOAD_ALIGN * 2 ^ 24 - (off + adjust)) AND (PAYLOAD_ALIGN - 1)
      in off + delta)"

definition frame_add_to_extra_frame :: "frame \<Rightarrow> int \<Rightarrow> frame" where
  "frame_add_to_extra_frame f inc = f\<lparr>extra_frame := extra_frame f + inc\<rparr>"

definition frame_add_to_extra_tun :: "frame \<Rightarrow> int \<Rightarrow> frame" where
  "frame_add_to_extra_tun f inc = f\<lparr>extra_tun := extra_tun f + inc\<rparr>"

definition frame_add_to_extra_link :: "frame \<Rightarrow> int \<Rightarrow> frame" where
  "frame_add_to_extra_link f inc = f\<lparr>extra_link := extra_link f + inc\<rparr>"

definition frame_add_to_extra_buffer :: "frame \<Rightarrow> int \<Rightarrow> frame" where
  "frame_add_to_extra_buffer f inc = f\<lparr>extra_buffer := extra_buffer f + inc\<rparr>"

definition frame_add_to_align_adjust :: "frame \<Rightarrow> int \<Rightarrow> frame" where
  "frame_add_to_align_adjust f inc = f\<lparr>align_adjust := align_adjust f + inc\<rparr>"

definition frame_align_to_extra_frame :: "frame \<Rightarrow> frame" where
  "frame_align_to_extra_frame f = f\<lparr>align_adjust := extra_frame f + extra_link f\<rparr>"

definition frame_or_align_flags :: "frame \<Rightarrow> u32 \<Rightarrow> frame" where
  "frame_or_align_flags f flag_mask = f\<lparr>align_flags := align_flags f OR flag_mask\<rparr>"

definition frame_defined :: "frame \<Rightarrow> bool" where
  "frame_defined f = (link_mtu f > 0)"

definition alloc_buf_sock_tun :: "(nat \<Rightarrow> byte) \<Rightarrow> frame \<Rightarrow> bool \<Rightarrow> u32 \<Rightarrow> buffer option" where
  "alloc_buf_sock_tun junk f tuntap_buffer align_mask = do {
     let b = alloc_buf junk (nat (BUF_SIZE f));
     let (ok, b) = buf_init b (frame_headroom f align_mask);
     ASSERT ok;
     let b = b\<lparr>len := (if tuntap_buffer then MAX_RW_SIZE_TUN f else MAX_RW_SIZE_LINK f)\<rparr>;
     ASSERT (buf_safe b 0);
     Some b
   }"

text \<open>frame_print with M_FATAL ends the program.\<close>

definition frame_finalize :: "frame \<Rightarrow> bool \<Rightarrow> int \<Rightarrow> bool \<Rightarrow> int \<Rightarrow> frame option" where
  "frame_finalize f link_mtu_defined lmtu tun_mtu_defined tmtu = do {
     f \<leftarrow> (if tun_mtu_defined
           then do { ASSERT (\<not> link_mtu_defined); Some (f\<lparr>link_mtu := tmtu + TUN_LINK_DELTA f\<rparr>) }
           else do { ASSERT link_mtu_defined; Some (f\<lparr>link_mtu := lmtu\<rparr>) });
     ASSERT (\<not> TUN_MTU_SIZE f < TUN_MTU_MIN);
     let f = f\<lparr>link_mtu_dynamic := link_mtu f\<rparr>;
     Some (f\<lparr>extra_buffer := extra_buffer f + PAYLOAD_ALIGN\<rparr>)
   }"

definition frame_set_mtu_dynamic :: "frame \<Rightarrow> int \<Rightarrow> u32 \<Rightarrow> frame option" where
  "frame_set_mtu_dynamic f mtu flags = do {
     ASSERT (mtu \<ge> 0);
     let mtu = (if flags AND SET_MTU_TUN \<noteq> 0 then mtu + TUN_LINK_DELTA f else mtu);
     Some (if \<not> (flags AND SET_MTU_UPPER_BOUND \<noteq> 0) \<or> mtu < link_mtu_dynamic f
           then f\<lparr>link_mtu_dynamic := constrain_int mtu (EXPANDED_SIZE_MIN f) (EXPANDED_SIZE f)\<rparr>
           else f)
   }"

definition frame_subtract_extra :: "frame \<Rightarrow> frame \<Rightarrow> frame" where
  "frame_subtract_extra f src =
     f\<lparr>extra_frame := extra_frame f - extra_frame src, extra_tun := extra_tun f + extra_frame src\<rparr>"

section \<open>Sizes that fit\<close>

lemmas frame_size_defs =
  TUN_LINK_DELTA_def TUN_MTU_SIZE_def PAYLOAD_SIZE_def EXPANDED_SIZE_def EXPANDED_SIZE_MIN_def
  MAX_RW_SIZE_TUN_def MAX_RW_SIZE_LINK_def FRAME_HEADROOM_BASE_def BUF_SIZE_def

text \<open>A frame whose overheads are sensible and that frame_finalize has set.\<close>

definition wf_frame :: "frame \<Rightarrow> bool" where
  "wf_frame f \<longleftrightarrow> 0 \<le> extra_frame f \<and> 0 \<le> extra_tun f \<and> 0 \<le> extra_link f \<and>
     PAYLOAD_ALIGN \<le> extra_buffer f \<and> TUN_MTU_MIN \<le> TUN_MTU_SIZE f \<and>
     EXPANDED_SIZE_MIN f \<le> link_mtu_dynamic f \<and> link_mtu_dynamic f \<le> EXPANDED_SIZE f"

lemma frame_headroom_bounds:
  "FRAME_HEADROOM_BASE f \<le> frame_headroom f m" "frame_headroom f m < FRAME_HEADROOM_BASE f + 4"
  by (simp_all add: frame_headroom_def Let_def and_3)

lemma frame_headroom_aligned:
  "(frame_headroom f m + (if m AND align_flags f \<noteq> 0 then align_adjust f else 0)) mod 4 = 0"
proof -
  have "(b + (67108864 - (b + a)) mod 4 + a) mod 4 = 0" for a b :: int by presburger
  from this[of "FRAME_HEADROOM_BASE f" "align_adjust f"] this[of "FRAME_HEADROOM_BASE f" 0]
  show ?thesis by (simp add: frame_headroom_def Let_def and_3)
qed

lemma frame_finalize_wf [wf_intros]:
  assumes "frame_finalize f ld lm td tm = Some f'"
    and "0 \<le> extra_frame f" "0 \<le> extra_tun f" "0 \<le> extra_link f" "0 \<le> extra_buffer f"
  shows "wf_frame f'"
  using assms by (auto simp: frame_finalize_def wf_frame_def frame_size_defs Let_def split: if_splits)

lemma live_alloc_buf [wf_intros, simp]: "live_buf (alloc_buf junk n)"
  by (auto simp: alloc_buf_def live_buf_iff Let_def)

lemma alloc_buf_sock_tun_fits:
  assumes "wf_frame f"
  shows "\<exists>b. alloc_buf_sock_tun junk f tun m = Some b \<and> live_buf b \<and> offset b = frame_headroom f m \<and>
    len b = (if tun then MAX_RW_SIZE_TUN f else MAX_RW_SIZE_LINK f)"
proof -
  let ?b = "alloc_buf junk (nat (BUF_SIZE f))"
  have cap: "capacity ?b = BUF_SIZE f"
    using assms by (auto simp: alloc_buf_def wf_frame_def frame_size_defs)
  have head: "0 \<le> frame_headroom f m" "frame_headroom f m \<le> BUF_SIZE f"
    using frame_headroom_bounds[of f m] assms by (auto simp: wf_frame_def frame_size_defs)
  have fits: "frame_headroom f m + (if tun then MAX_RW_SIZE_TUN f else MAX_RW_SIZE_LINK f) \<le> BUF_SIZE f"
    "0 \<le> MAX_RW_SIZE_TUN f" "0 \<le> MAX_RW_SIZE_LINK f"
    using frame_headroom_bounds[of f m] assms by (auto simp: wf_frame_def frame_size_defs)
  obtain mem where mem: "data ?b = Some mem" "int (length mem) = BUF_SIZE f"
    using live_alloc_buf[of junk "nat (BUF_SIZE f)"] cap by (auto simp: live_buf_iff)
  show ?thesis
    using cap head fits mem
    by (auto simp: alloc_buf_sock_tun_def buf_init_def buf_safe_def live_buf_iff Let_def)
qed

text \<open>
  C29: the packet buffers always have room.  For any non-negative overheads and any MTU setting
  that frame_finalize accepts, alloc_buf_sock_tun succeeds for the tunnel and for the link side:
  neither of its assertions fails, the buffer holds the largest packet that may be read, and its
  payload starts on a 4-byte boundary (after the adjustment for the layer's own header).
\<close>

theorem socket_buffers_fit:
  assumes "frame_finalize f ld lm td tm = Some f'"
    and "0 \<le> extra_frame f" "0 \<le> extra_tun f" "0 \<le> extra_link f" "0 \<le> extra_buffer f"
  shows "\<exists>b. alloc_buf_sock_tun junk f' tun m = Some b \<and> live_buf b \<and>
    len b = (if tun then MAX_RW_SIZE_TUN f' else MAX_RW_SIZE_LINK f') \<and>
    FRAME_HEADROOM_BASE f' \<le> offset b \<and>
    (offset b + (if m AND align_flags f' \<noteq> 0 then align_adjust f' else 0)) mod 4 = 0"
  using alloc_buf_sock_tun_fits[OF frame_finalize_wf[OF assms], of junk tun m]
    frame_headroom_bounds(1)[of f' m] frame_headroom_aligned[of f' m] by auto

theorem socket_buffers_fit_witness:
  "\<exists>b. alloc_buf_sock_tun (\<lambda>_. 0)
      \<lparr>link_mtu = 1542, link_mtu_dynamic = 1542, extra_frame = 42, extra_buffer = 139, extra_tun = 0,
       extra_link = 4, align_flags = 0, align_adjust = 0\<rparr> True 1 = Some b \<and> live_buf b \<and>
    len b = (if True then MAX_RW_SIZE_TUN
      \<lparr>link_mtu = 1542, link_mtu_dynamic = 1542, extra_frame = 42, extra_buffer = 139, extra_tun = 0,
       extra_link = 4, align_flags = 0, align_adjust = 0\<rparr> else MAX_RW_SIZE_LINK
      \<lparr>link_mtu = 1542, link_mtu_dynamic = 1542, extra_frame = 42, extra_buffer = 139, extra_tun = 0,
       extra_link = 4, align_flags = 0, align_adjust = 0\<rparr>) \<and>
    FRAME_HEADROOM_BASE
      \<lparr>link_mtu = 1542, link_mtu_dynamic = 1542, extra_frame = 42, extra_buffer = 139, extra_tun = 0,
       extra_link = 4, align_flags = 0, align_adjust = 0\<rparr> \<le> offset b \<and>
    (offset b + (if 1 AND align_flags
      \<lparr>link_mtu = 1542, link_mtu_dynamic = 1542, extra_frame = 42, extra_buffer = 139, extra_tun = 0,
       extra_link = 4, align_flags = 0, align_adjust = 0\<rparr> \<noteq> 0 then align_adjust
      \<lparr>link_mtu = 1542, link_mtu_dynamic = 1542, extra_frame = 42, extra_buffer = 139, extra_tun = 0,
       extra_link = 4, align_flags = 0, align_adjust = 0\<rparr> else 0)) mod 4 = 0"
  by (rule socket_buffers_fit[of "\<lparr>link_mtu = 0, link_mtu_dynamic = 0, extra_frame = 42,
        extra_buffer = 135, extra_tun = 0, extra_link = 4, align_flags = 0, align_adjust = 0\<rparr>"
        False 0 True 1500])
     (simp_all add: frame_finalize_def frame_size_defs)

text \<open>
  Whatever MTU a peer or the kernel reports, frame_set_mtu_dynamic keeps the dynamic MTU
  between the minimum that leaves room for a 100-byte tunnel packet and the configured link MTU,
  and with SET_MTU_UPPER_BOUND it never increases it.
\<close>

theorem dynamic_mtu_bounded:
  assumes "wf_frame f" and "frame_set_mtu_dynamic f mtu flags = Some f'"
  shows "wf_frame f' \<and> (flags AND SET_MTU_UPPER_BOUND \<noteq> 0 \<longrightarrow> link_mtu_dynamic f' \<le> link_mtu_dynamic f)"
proof -
  have "EXPANDED_SIZE_MIN f \<le> EXPANDED_SIZE f" using assms(1) by (auto simp: wf_frame_def)
  note range = constrain_int_range[OF this]
  have upd: "EXPANDED_SIZE_MIN (f\<lparr>link_mtu_dynamic := x\<rparr>) = EXPANDED_SIZE_MIN f"
    "EXPANDED_SIZE (f\<lparr>link_mtu_dynamic := x\<rparr>) = EXPANDED_SIZE f"
    "TUN_MTU_SIZE (f\<lparr>link_mtu_dynamic := x\<rparr>) = TUN_MTU_SIZE f" for x
    by (simp_all add: frame_size_defs)
  have "constrain_int x (EXPANDED_SIZE_MIN f) (EXPANDED_SIZE f) \<le> link_mtu_dynamic f"
    if "x < link_mtu_dynamic f" for x
    using that assms(1) by (auto simp: constrain_int_def wf_frame_def)
  then show ?thesis
    using assms range by (auto simp: frame_set_mtu_dynamic_def wf_frame_def upd Let_def split: if_splits)
qed

theorem dynamic_mtu_bounded_witness:
  "wf_frame \<lparr>link_mtu = 1542, link_mtu_dynamic = 1400, extra_frame = 42, extra_buffer = 139,
       extra_tun = 0, extra_link = 4, align_flags = 0, align_adjust = 0\<rparr> \<and>
   link_mtu_dynamic
     \<lparr>link_mtu = 1542, link_mtu_dynamic = 1400, extra_frame = 42, extra_buffer = 139,
       extra_tun = 0, extra_link = 4, align_flags = 0, align_adjust = 0\<rparr> \<le> link_mtu_dynamic
     \<lparr>link_mtu = 1542, link_mtu_dynamic = 1542, extra_frame = 42, extra_buffer = 139,
       extra_tun = 0, extra_link = 4, align_flags = 0, align_adjust = 0\<rparr>"
  using dynamic_mtu_bounded[of "\<lparr>link_mtu = 1542, link_mtu_dynamic = 1542, extra_frame = 42, extra_buffer = 139,
       extra_tun = 0, extra_link = 4, align_flags = 0, align_adjust = 0\<rparr>" 1400 SET_MTU_UPPER_BOUND
     "\<lparr>link_mtu = 1542, link_mtu_dynamic = 1400, extra_frame = 42, extra_buffer = 139,
       extra_tun = 0, extra_link = 4, align_flags = 0, align_adjust = 0\<rparr>"]
  by (simp add: wf_frame_def frame_size_defs frame_set_mtu_dynamic_def constrain_int_def)

end
