(* ===== verification/Reliable.thy ===== *)
theory Reliable
  imports Packet_Id Session_Id Mtu
begin

text \<open>
  The reliability layer of the control channel: reliable.h and reliable.c.

  A pointer to the buffer of an entry is the index of the entry.  The arrays have the fixed
  capacities of the code, and a loop over the first \<^verbatim>\<open>size\<close> entries is a scan of that prefix.
\<close>

section \<open>Acknowledgement records\<close>

abbreviation (input) "RELIABLE_ACK_SIZE \<equiv> (8 :: int)"
abbreviation (input) "RELIABLE_CAPACITY \<equiv> (8 :: int)"

record reliable_ack =
  ack_len :: int
  ack_ids :: "packet_id_type list"

definition reliable_ack_empty :: "reliable_ack \<Rightarrow> bool" where
  "reliable_ack_empty ack = (ack_len ack = 0)"

definition reliable_ack_packet_id_present :: "reliable_ack \<Rightarrow> packet_id_type \<Rightarrow> bool" where
  "reliable_ack_packet_id_present ack pid = (pid \<in> set (take (nat (ack_len ack)) (ack_ids ack)))"

definition reliable_ack_read_packet_id :: "buffer \<Rightarrow> (packet_id_type option \<times> buffer) option" where
  "reliable_ack_read_packet_id b = do {
     (r, b) \<leftarrow> buf_read b 4;
     Some (map_option of_be32 r, b)
   }"

definition ack_push :: "reliable_ack \<Rightarrow> packet_id_type \<Rightarrow> reliable_ack" where
  "ack_push ack pid =
     ack\<lparr>ack_ids := (ack_ids ack)[nat (ack_len ack) := pid], ack_len := ack_len ack + 1\<rparr>"

definition reliable_ack_acknowledge_packet_id ::
  "reliable_ack \<Rightarrow> packet_id_type \<Rightarrow> bool \<times> reliable_ack" where
  "reliable_ack_acknowledge_packet_id ack pid =
     (if \<not> reliable_ack_packet_id_present ack pid \<and> ack_len ack < RELIABLE_ACK_SIZE
      then (True, ack_push ack pid) else (False, ack))"

text \<open>The loop of reliable_ack_read with \<open>n\<close> identifiers left.\<close>

fun ack_read_loop :: "nat \<Rightarrow> reliable_ack \<Rightarrow> buffer \<Rightarrow> (bool \<times> reliable_ack \<times> buffer) option" where
  "ack_read_loop 0 ack b = Some (True, ack, b)"
| "ack_read_loop (Suc n) ack b =
     (case buf_read b 4 of
        None \<Rightarrow> None
      | Some (None, b) \<Rightarrow> Some (False, ack, b)
      | Some (Some net_pid, b) \<Rightarrow>
          if ack_len ack \<ge> RELIABLE_ACK_SIZE then Some (False, ack, b)
          else ack_read_loop n (ack_push ack (of_be32 net_pid)) b)"

definition reliable_ack_read ::
  "reliable_ack \<Rightarrow> buffer \<Rightarrow> session_id \<Rightarrow> (bool \<times> reliable_ack \<times> buffer) option" where
  "reliable_ack_read ack b sid = do {
     (r, b) \<leftarrow> buf_read b 1;
     (case r of
        None \<Rightarrow> Some (False, ack, b)
      | Some bs \<Rightarrow> do {
          let count = unat (bs ! 0);
          (ok, ack, b) \<leftarrow> ack_read_loop count ack b;
          if \<not> ok then Some (False, ack, b)
          else if count \<noteq> 0 then do {
            (r, b) \<leftarrow> session_id_read b;
            Some (case r of
                None \<Rightarrow> (False, ack, b)
              | Some session_id_remote \<Rightarrow>
                  if \<not> session_id_defined session_id_remote \<or> \<not> session_id_equal session_id_remote sid
                  then (False, ack, b) else (True, ack, b))
          } else Some (True, ack, b)
        })
   }"

definition ACK_SIZE :: "int \<Rightarrow> int" where
  "ACK_SIZE n = 1 + (if n \<noteq> 0 then SID_SIZE else 0) + 4 * n"

fun ack_write_loop :: "packet_id_type list \<Rightarrow> buffer \<Rightarrow> buffer option" where
  "ack_write_loop [] sub = Some sub"
| "ack_write_loop (pid # pids) sub =
     (case buf_write sub (be32 pid) 4 of
        Some (True, sub) \<Rightarrow> ack_write_loop pids sub
      | _ \<Rightarrow> None)"

text \<open>
  reliable_ack_write: the record is built in a sub-buffer of \<open>b\<close>; the identifiers written are
  removed from \<open>ack\<close> by moving the rest of the array to the front.
\<close>

definition reliable_ack_write ::
  "reliable_ack \<Rightarrow> buffer \<Rightarrow> session_id \<Rightarrow> int \<Rightarrow> bool \<Rightarrow> (bool \<times> reliable_ack \<times> buffer) option" where
  "reliable_ack_write ack b sid mx prepend = do {
     let n = (word_of_int (ack_len ack) :: byte);
     let n = (if uint n > mx then word_of_int mx else n);
     (sub, b, p) \<leftarrow> buf_sub b (ACK_SIZE (uint n)) prepend;
     if \<not> BDEF sub then Some (False, ack, b)
     else do {
       (ok, sub) \<leftarrow> buf_write sub [n] 1;
       ASSERT ok;
       ASSERT (unat n \<le> length (ack_ids ack));
       sub \<leftarrow> ack_write_loop (take (unat n) (ack_ids ack)) sub;
       (sub, ack) \<leftarrow> (if n \<noteq> 0 then do {
           ASSERT (session_id_defined sid);
           (ok, sub) \<leftarrow> session_id_write sid sub;
           ASSERT ok;
           let left = nat (ack_len ack) - unat n;
           Some (sub, ack\<lparr>ack_ids := take left (drop (unat n) (ack_ids ack)) @ drop left (ack_ids ack),
                          ack_len := int left\<rparr>)
         } else Some (sub, ack));
       b \<leftarrow> buf_sub_commit sub b p;
       Some (True, ack, b)
     }
   }"

definition reliable_ack_adjust_frame_parameters :: "frame \<Rightarrow> int \<Rightarrow> frame" where
  "reliable_ack_adjust_frame_parameters f mx = frame_add_to_extra_frame f (ACK_SIZE mx)"

section \<open>Send and receive windows\<close>

record reliable_entry =
  active :: bool
  timeout :: int
  next_try :: time_t
  entry_id :: packet_id_type
  opcode :: int
  entry_buf :: buffer

record reliable =
  rel_size :: int
  initial_timeout :: int
  rel_id :: packet_id_type
  rel_offset :: int
  rel_array :: "reliable_entry list"

definition rel_entries :: "reliable \<Rightarrow> reliable_entry list" where
  "rel_entries rel = take (nat (rel_size rel)) (rel_array rel)"

definition upd_entry :: "reliable \<Rightarrow> nat \<Rightarrow> (reliable_entry \<Rightarrow> reliable_entry) \<Rightarrow> reliable" where
  "upd_entry rel i f = rel\<lparr>rel_array := (rel_array rel)[i := f (rel_array rel ! i)]\<rparr>"

definition reliable_set_timeout :: "reliable \<Rightarrow> int \<Rightarrow> reliable" where
  "reliable_set_timeout rel t = rel\<lparr>initial_timeout := t\<rparr>"

definition clear_entry :: reliable_entry where
  "clear_entry = \<lparr>active = False, timeout = 0, next_try = 0, entry_id = 0, opcode = 0,
                  entry_buf = clear_buf\<rparr>"

fun init_entries :: "(nat \<Rightarrow> byte) \<Rightarrow> int \<Rightarrow> int \<Rightarrow> nat \<Rightarrow> reliable_entry list option" where
  "init_entries junk buf_size off 0 = Some []"
| "init_entries junk buf_size off (Suc n) = do {
     let (ok, b) = buf_init (alloc_buf junk (nat buf_size)) off;
     ASSERT ok;
     es \<leftarrow> init_entries junk buf_size off n;
     Some (clear_entry\<lparr>entry_buf := b\<rparr> # es)
   }"

definition reliable_init :: "(nat \<Rightarrow> byte) \<Rightarrow> int \<Rightarrow> int \<Rightarrow> int \<Rightarrow> reliable option" where
  "reliable_init junk buf_size off array_size = do {
     ASSERT (array_size > 0 \<and> array_size \<le> RELIABLE_CAPACITY);
     es \<leftarrow> init_entries junk buf_size off (nat array_size);
     Some \<lparr>rel_size = array_size, initial_timeout = 0, rel_id = 0, rel_offset = off,
           rel_array = es @ replicate (nat (RELIABLE_CAPACITY - array_size)) clear_entry\<rparr>
   }"

definition reliable_free :: "reliable \<Rightarrow> reliable" where
  "reliable_free rel =
     rel\<lparr>rel_array := map (\<lambda>e. e\<lparr>entry_buf := free_buf (entry_buf e)\<rparr>) (rel_entries rel)
           @ drop (nat (rel_size rel)) (rel_array rel)\<rparr>"

definition reliable_empty :: "reliable \<Rightarrow> bool" where
  "reliable_empty rel = list_all (\<lambda>e. \<not> active e) (rel_entries rel)"

definition purge_id :: "reliable \<Rightarrow> packet_id_type \<Rightarrow> reliable" where
  "purge_id rel pid =
     (case first_index (\<lambda>e. active e \<and> entry_id e = pid) (rel_entries rel) of
        None \<Rightarrow> rel
      | Some j \<Rightarrow> upd_entry rel j (\<lambda>e. e\<lparr>active := False\<rparr>))"

definition reliable_send_purge :: "reliable \<Rightarrow> reliable_ack \<Rightarrow> reliable" where
  "reliable_send_purge rel ack = foldl purge_id rel (take (nat (ack_len ack)) (ack_ids ack))"

definition reliable_can_get :: "reliable \<Rightarrow> bool" where
  "reliable_can_get rel = list_ex (\<lambda>e. \<not> active e) (rel_entries rel)"

definition reliable_not_replay :: "reliable \<Rightarrow> packet_id_type \<Rightarrow> bool" where
  "reliable_not_replay rel pid =
     (if pid < rel_id rel then False
      else \<not> list_ex (\<lambda>e. active e \<and> entry_id e = pid) (rel_entries rel))"

definition reliable_wont_break_sequentiality :: "reliable \<Rightarrow> packet_id_type \<Rightarrow> bool" where
  "reliable_wont_break_sequentiality rel pid = (sint pid < sint (rel_id rel) + rel_size rel)"

definition reliable_get_buf :: "reliable \<Rightarrow> (nat option \<times> reliable) option" where
  "reliable_get_buf rel =
     (case first_index (\<lambda>e. \<not> active e) (rel_entries rel) of
        None \<Rightarrow> Some (None, rel)
      | Some i \<Rightarrow> do {
          let (ok, b) = buf_init (entry_buf (rel_array rel ! i)) (rel_offset rel);
          ASSERT ok;
          Some (Some i, upd_entry rel i (\<lambda>e. e\<lparr>entry_buf := b\<rparr>))
        })"

text \<open>The minimum active identifier, as the scan keeps it.\<close>

fun min_active_id :: "reliable_entry list \<Rightarrow> packet_id_type option \<Rightarrow> packet_id_type option" where
  "min_active_id [] m = m"
| "min_active_id (e # es) m =
     min_active_id es
       (if active e \<and> (case m of None \<Rightarrow> True | Some i \<Rightarrow> entry_id e < i) then Some (entry_id e) else m)"

definition reliable_get_buf_output_sequenced :: "reliable \<Rightarrow> (nat option \<times> reliable) option" where
  "reliable_get_buf_output_sequenced rel =
     (case min_active_id (rel_entries rel) None of
        None \<Rightarrow> reliable_get_buf rel
      | Some m \<Rightarrow> if sint (rel_id rel - m) < rel_size rel then reliable_get_buf rel
                  else Some (None, rel))"

definition reliable_get_buf_sequenced :: "reliable \<Rightarrow> nat option" where
  "reliable_get_buf_sequenced rel =
     first_index (\<lambda>e. active e \<and> entry_id e = rel_id rel) (rel_entries rel)"

definition reliable_can_send :: "time_t \<Rightarrow> reliable \<Rightarrow> bool" where
  "reliable_can_send now rel =
     (length (filter (\<lambda>e. active e \<and> now \<ge> next_try e) (rel_entries rel)) > 0)"

fun best_entry :: "time_t \<Rightarrow> reliable_entry list \<Rightarrow> nat \<Rightarrow> (nat \<times> packet_id_type) option
    \<Rightarrow> (nat \<times> packet_id_type) option" where
  "best_entry now [] i best = best"
| "best_entry now (e # es) i best =
     best_entry now es (Suc i)
       (if active e \<and> now \<ge> next_try e \<and> (case best of None \<Rightarrow> True | Some (j, p) \<Rightarrow> entry_id e < p)
        then Some (i, entry_id e) else best)"

definition reliable_send :: "time_t \<Rightarrow> reliable \<Rightarrow> (nat \<times> int) option \<times> reliable" where
  "reliable_send now rel =
     (case best_entry now (rel_entries rel) 0 None of
        None \<Rightarrow> (None, rel)
      | Some (i, _) \<Rightarrow>
          (Some (i, opcode (rel_array rel ! i)),
           upd_entry rel i (\<lambda>e. e\<lparr>next_try := now + timeout e\<rparr>)))"

definition reliable_schedule_now :: "time_t \<Rightarrow> reliable \<Rightarrow> reliable" where
  "reliable_schedule_now now rel =
     rel\<lparr>rel_array := map (\<lambda>e. if active e then e\<lparr>next_try := now, timeout := initial_timeout rel\<rparr> else e)
             (rel_entries rel) @ drop (nat (rel_size rel)) (rel_array rel)\<rparr>"

abbreviation (input) "BIG_TIMEOUT \<equiv> (60 * 60 * 24 * 7 :: int)"

fun send_timeout_loop :: "time_t \<Rightarrow> reliable_entry list \<Rightarrow> int \<Rightarrow> int" where
  "send_timeout_loop now [] ret = ret"
| "send_timeout_loop now (e # es) ret =
     (if active e then
        if next_try e \<le> now then 0
        else send_timeout_loop now es (min_int ret (next_try e - now))
      else send_timeout_loop now es ret)"

definition reliable_send_timeout :: "time_t \<Rightarrow> reliable \<Rightarrow> int" where
  "reliable_send_timeout now rel = send_timeout_loop now (rel_entries rel) BIG_TIMEOUT"

definition reliable_mark_active_incoming ::
  "reliable \<Rightarrow> nat \<Rightarrow> packet_id_type \<Rightarrow> int \<Rightarrow> reliable option" where
  "reliable_mark_active_incoming rel i pid op1 = do {
     ASSERT (int i < rel_size rel);
     ASSERT (pid \<ge> rel_id rel);
     Some (upd_entry rel i (\<lambda>e. e\<lparr>active := True, entry_id := pid, opcode := op1, next_try := 0,
                                  timeout := 0\<rparr>))
   }"

definition reliable_mark_active_outgoing :: "reliable \<Rightarrow> nat \<Rightarrow> int \<Rightarrow> reliable option" where
  "reliable_mark_active_outgoing rel i op1 = do {
     ASSERT (int i < rel_size rel);
     let pid = rel_id rel;
     let rel = rel\<lparr>rel_id := rel_id rel + 1\<rparr>;
     (ok, b) \<leftarrow> buf_write_prepend (entry_buf (rel_array rel ! i)) (be32 pid) 4;
     ASSERT ok;
     Some (upd_entry rel i (\<lambda>e. e\<lparr>entry_id := pid, entry_buf := b, active := True, opcode := op1,
                                  next_try := 0, timeout := initial_timeout rel\<rparr>))
   }"

definition reliable_mark_deleted :: "reliable \<Rightarrow> nat \<Rightarrow> bool \<Rightarrow> reliable option" where
  "reliable_mark_deleted rel i inc_pid = do {
     ASSERT (int i < rel_size rel);
     let pid = entry_id (rel_array rel ! i);
     let rel = upd_entry rel i (\<lambda>e. e\<lparr>active := False\<rparr>);
     Some (if inc_pid then rel\<lparr>rel_id := pid + 1\<rparr> else rel)
   }"

text \<open>
  What tls_pre_decrypt does with the rest of a control packet once its acknowledgements are read:
  it stores a new packet in the receive window and acknowledges it, also when it is a replay.
\<close>

abbreviation (input) "P_ACK_V1 \<equiv> (5 :: int)"

definition control_incoming ::
  "int \<Rightarrow> reliable \<Rightarrow> reliable_ack \<Rightarrow> buffer \<Rightarrow> (reliable \<times> reliable_ack \<times> buffer) option" where
  "control_incoming op1 rel ack b =
     (if op1 \<noteq> P_ACK_V1 \<and> reliable_can_get rel then do {
        (r, b) \<leftarrow> reliable_ack_read_packet_id b;
        (case r of
           None \<Rightarrow> Some (rel, ack, b)
         | Some pid \<Rightarrow>
             if reliable_wont_break_sequentiality rel pid then do {
               rel \<leftarrow> (if reliable_not_replay rel pid then do {
                   (i, rel) \<leftarrow> reliable_get_buf rel;
                   i \<leftarrow> i;
                   (ok, inb) \<leftarrow> buf_copy (entry_buf (rel_array rel ! i)) b;
                   ASSERT ok;
                   reliable_mark_active_incoming (upd_entry rel i (\<lambda>e. e\<lparr>entry_buf := inb\<rparr>)) i pid op1
                 } else Some rel);
               Some (rel, snd (reliable_ack_acknowledge_packet_id ack pid), b)
             } else Some (rel, ack, b))
      } else Some (rel, ack, b))"

section \<open>Acknowledgements on the wire\<close>

definition wf_ack :: "reliable_ack \<Rightarrow> bool" where
  "wf_ack ack \<longleftrightarrow> length (ack_ids ack) = 8 \<and> 0 \<le> ack_len ack \<and> ack_len ack \<le> 8"

definition ack_set :: "reliable_ack \<Rightarrow> packet_id_type list" where
  "ack_set ack = take (nat (ack_len ack)) (ack_ids ack)"

lemma length_ack_set: "wf_ack ack \<Longrightarrow> length (ack_set ack) = nat (ack_len ack)"
  by (auto simp: wf_ack_def ack_set_def min_def nat_le_iff)

lemma ack_push_abs:
  assumes "wf_ack ack" "ack_len ack < 8"
  shows "wf_ack (ack_push ack pid)" "ack_set (ack_push ack pid) = ack_set ack @ [pid]"
    "ack_len (ack_push ack pid) = ack_len ack + 1"
  using assms
  by (auto simp: wf_ack_def ack_push_def ack_set_def nat_add_distrib take_Suc_conv_app_nth)

text \<open>An identifier is recorded once; a full record is left alone.\<close>

lemma reliable_ack_acknowledge_abs:
  assumes "wf_ack ack"
  shows "wf_ack (snd (reliable_ack_acknowledge_packet_id ack pid))"
    "set (ack_set (snd (reliable_ack_acknowledge_packet_id ack pid))) \<subseteq> insert pid (set (ack_set ack))"
    "distinct (ack_set ack) \<Longrightarrow> distinct (ack_set (snd (reliable_ack_acknowledge_packet_id ack pid)))"
  using assms ack_push_abs[of ack pid]
  by (auto simp: reliable_ack_acknowledge_packet_id_def reliable_ack_packet_id_present_def
      ack_set_def[of ack, symmetric])

definition ack_wire :: "packet_id_type list \<Rightarrow> session_id \<Rightarrow> byte list" where
  "ack_wire pids sid = [of_nat (length pids)] @ concat (map be32 pids) @ (if pids = [] then [] else sid)"

lemma length_concat_be32 [simp, codec]: "length (concat (map be32 pids)) = 4 * length pids"
  by (induction pids) auto

lemma length_ack_wire [codec]:
  "wf_sid sid \<Longrightarrow> int (length (ack_wire pids sid)) = ACK_SIZE (int (length pids))"
  by (auto simp: ack_wire_def ACK_SIZE_def wf_sid_length)

lemma ack_write_loop_mk_buf:
  "4 * length pids \<le> length post \<Longrightarrow>
     ack_write_loop pids (mk_buf pre c post)
       = Some (mk_buf pre (c @ concat (map be32 pids)) (drop (4 * length pids) post))"
  by (induction pids arbitrary: c post) (auto simp: algebra_simps)

lemma ack_read_loop_mk_buf:
  assumes "wf_ack ack" "ack_len ack + int (length pids) \<le> 8"
  shows "\<exists>ack'. ack_read_loop (length pids) ack (mk_buf pre (concat (map be32 pids) @ c) post)
      = Some (True, ack', mk_buf (pre @ concat (map be32 pids)) c post) \<and>
    wf_ack ack' \<and> ack_set ack' = ack_set ack @ pids"
  using assms
proof (induction pids arbitrary: ack pre)
  case (Cons pid pids)
  have "ack_len ack < 8" using Cons.prems(2) by simp
  note push = ack_push_abs[OF Cons.prems(1) this, of pid]
  show ?case
    using Cons.IH[OF push(1), of "pre @ be32 pid"] push Cons.prems(2) by auto
qed simp

text \<open>The record that reliable_ack_write puts into a packet, and what it leaves to be sent.\<close>

definition ack_written :: "reliable_ack \<Rightarrow> int \<Rightarrow> packet_id_type list" where
  "ack_written ack mx = take (nat mx) (ack_set ack)"

lemma ack_write_count:
  assumes "wf_ack ack" "0 \<le> mx"
  defines "n \<equiv> (if uint (word_of_int (ack_len ack) :: byte) > mx then word_of_int mx
                else (word_of_int (ack_len ack) :: byte))"
  shows "unat n = length (ack_written ack mx)" "n = of_nat (length (ack_written ack mx))"
    "uint n = int (length (ack_written ack mx))"
    "take (unat n) (ack_ids ack) = ack_written ack mx"
proof -
  have len: "uint (word_of_int (ack_len ack) :: byte) = ack_len ack"
    using assms(1) by (simp add: wf_ack_def uint_word_of_int)
  have "mx < ack_len ack \<Longrightarrow> uint (word_of_int mx :: byte) = mx"
    using assms(1,2) by (simp add: wf_ack_def uint_word_of_int)
  then have n: "uint n = min mx (ack_len ack)" using len by (auto simp: n_def)
  have l: "length (ack_written ack mx) = nat (min mx (ack_len ack))"
    using assms by (auto simp: ack_written_def length_ack_set min_def)
  show u: "uint n = int (length (ack_written ack mx))"
    using n l assms(1,2) by (auto simp: wf_ack_def)
  then show un: "unat n = length (ack_written ack mx)" by (simp add: unat_eq_nat_uint)
  then show "n = of_nat (length (ack_written ack mx))" by (simp flip: un)
  show "take (unat n) (ack_ids ack) = ack_written ack mx"
    unfolding un l by (auto simp: ack_written_def ack_set_def min_def nat_le_eq_zle)
qed

lemma ack_left_over:
  assumes "wf_ack ack" "0 \<le> mx"
  defines "n \<equiv> length (ack_written ack mx)"
  defines "left \<equiv> nat (ack_len ack) - n"
  defines "ack' \<equiv> ack\<lparr>ack_ids := take left (drop n (ack_ids ack)) @ drop left (ack_ids ack),
                    ack_len := int left\<rparr>"
  shows "wf_ack ack'" "ack_set ack' = drop n (ack_set ack)"
  using assms(1,2)
  by (auto simp: wf_ack_def ack'_def ack_set_def left_def min_def drop_take)

lemma ack_build_mk_buf:
  assumes "wf_sid sid" "length x = length (ack_wire pids sid)"
  shows "buf_write (mk_buf [] [] x) [of_nat (length pids)] 1
      = Some (True, mk_buf [] [of_nat (length pids)] (drop 1 x))"
    "ack_write_loop pids (mk_buf [] [of_nat (length pids)] (drop 1 x))
      = Some (mk_buf [] (of_nat (length pids) # concat (map be32 pids)) (drop (1 + 4 * length pids) x))"
    "pids \<noteq> [] \<Longrightarrow> session_id_write sid
        (mk_buf [] (of_nat (length pids) # concat (map be32 pids)) (drop (1 + 4 * length pids) x))
      = Some (True, mk_buf [] (ack_wire pids sid) [])"
    "pids = [] \<Longrightarrow> drop (1 + 4 * length pids) x = []"
proof -
  have len: "length x = 1 + 4 * length pids + (if pids = [] then 0 else 8)"
    using assms by (simp add: ack_wire_def wf_sid_def)
  show "buf_write (mk_buf [] [] x) [of_nat (length pids)] 1
      = Some (True, mk_buf [] [of_nat (length pids)] (drop 1 x))"
    using len by simp
  show "ack_write_loop pids (mk_buf [] [of_nat (length pids)] (drop 1 x))
      = Some (mk_buf [] (of_nat (length pids) # concat (map be32 pids)) (drop (1 + 4 * length pids) x))"
    using len by (simp add: ack_write_loop_mk_buf)
  show "session_id_write sid
        (mk_buf [] (of_nat (length pids) # concat (map be32 pids)) (drop (1 + 4 * length pids) x))
      = Some (True, mk_buf [] (ack_wire pids sid) [])" if "pids \<noteq> []"
    using that len assms(1) by (simp add: session_id_write_mk_buf ack_wire_def)
  show "drop (1 + 4 * length pids) x = []" if "pids = []" using that len by simp
qed

text \<open>reliable_ack_write in full: the packet afterwards and the identifiers left to be sent.\<close>

lemma reliable_ack_write_mk_buf:
  assumes ack: "wf_ack ack" "0 \<le> mx" and sid: "wf_sid sid" "session_id_defined sid"
    and pids: "pids = ack_written ack mx" and w: "w = ack_wire pids sid"
  shows "length w \<le> length pre \<Longrightarrow> \<exists>ack'. reliable_ack_write ack (mk_buf pre c post) sid mx True
      = Some (True, ack', mk_buf (take (length pre - length w) pre) (w @ c) post) \<and>
      wf_ack ack' \<and> ack_set ack' = drop (length pids) (ack_set ack)"
    and "length w \<le> length post \<Longrightarrow> \<exists>ack'. reliable_ack_write ack (mk_buf pre c post) sid mx False
      = Some (True, ack', mk_buf pre (c @ w) (drop (length w) post)) \<and>
      wf_ack ack' \<and> ack_set ack' = drop (length pids) (ack_set ack)"
proof -
  define n where "n = (if uint (word_of_int (ack_len ack) :: byte) > mx then word_of_int mx
                       else (word_of_int (ack_len ack) :: byte))"
  note cnt = ack_write_count[OF ack, folded n_def, folded pids]
  have size: "ACK_SIZE (uint n) = int (length w)" using length_ack_wire[OF sid(1), of pids] cnt(3) w by simp
  have nz: "n = 0 \<longleftrightarrow> pids = []" using cnt(1) by (auto simp: unat_eq_zero)
  have fit: "unat n \<le> length (ack_ids ack)"
    using cnt(1) ack by (auto simp: pids ack_written_def ack_set_def wf_ack_def min_def)
  define ack' where "ack' = (if pids = [] then ack else
     ack\<lparr>ack_ids := take (nat (ack_len ack) - length pids) (drop (length pids) (ack_ids ack))
                    @ drop (nat (ack_len ack) - length pids) (ack_ids ack),
         ack_len := int (nat (ack_len ack) - length pids)\<rparr>)"
  have ack': "wf_ack ack'" "ack_set ack' = drop (length pids) (ack_set ack)"
    using ack_left_over[OF ack, folded pids] ack(1) by (auto simp: ack'_def)
  have w0: "pids = [] \<Longrightarrow> w = of_nat (length pids) # concat (map be32 pids)" by (simp add: w ack_wire_def)
  have w0': "pids = [] \<Longrightarrow> w = [0]" by (simp add: w ack_wire_def)
  {
    assume room: "length w \<le> length pre"
    let ?x = "drop (length pre - length w) pre"
    have x: "length ?x = length (ack_wire pids sid)" using room w by simp
    note build = ack_build_mk_buf[OF sid(1) x]
    have "reliable_ack_write ack (mk_buf pre c post) sid mx True
      = Some (True, ack', mk_buf (take (length pre - length w) pre) (w @ c) post)"
      using room build nz fit cnt sid w0' buf_sub_commit_prepend_mk_buf[OF room, of w "[]" c post]
      unfolding reliable_ack_write_def Let_def n_def[symmetric] size
      by (auto simp: buf_sub_prepend_mk_buf BDEF_def w[symmetric] ack'_def)
    then show "\<exists>ack'. reliable_ack_write ack (mk_buf pre c post) sid mx True
      = Some (True, ack', mk_buf (take (length pre - length w) pre) (w @ c) post) \<and>
      wf_ack ack' \<and> ack_set ack' = drop (length pids) (ack_set ack)"
      using ack' by auto
  }
  {
    assume room: "length w \<le> length post"
    let ?x = "take (length w) post"
    have x: "length ?x = length (ack_wire pids sid)" using room w by simp
    note build = ack_build_mk_buf[OF sid(1) x]
    have "reliable_ack_write ack (mk_buf pre c post) sid mx False
      = Some (True, ack', mk_buf pre (c @ w) (drop (length w) post))"
      using room build nz fit cnt sid w0' buf_sub_commit_append_mk_buf[OF room, of w "[]" pre c]
      unfolding reliable_ack_write_def Let_def n_def[symmetric] size
      by (auto simp: buf_sub_append_mk_buf BDEF_def w[symmetric] ack'_def)
    then show "\<exists>ack'. reliable_ack_write ack (mk_buf pre c post) sid mx False
      = Some (True, ack', mk_buf pre (c @ w) (drop (length w) post)) \<and>
      wf_ack ack' \<and> ack_set ack' = drop (length pids) (ack_set ack)"
      using ack' by auto
  }
qed

lemma reliable_ack_read_mk_buf:
  assumes "wf_ack ack" "ack_len ack + int (length pids) \<le> 8" "wf_sid sid"
    and "wf_sid sid'" "length pids < 256"
  shows "\<exists>ack'. reliable_ack_read ack (mk_buf pre (ack_wire pids sid @ c) post) sid'
      = Some (pids = [] \<or> session_id_defined sid \<and> sid = sid', ack',
              mk_buf (pre @ ack_wire pids sid) c post) \<and>
    wf_ack ack' \<and> ack_set ack' = ack_set ack @ pids"
proof -
  have count: "unat (word_of_nat (length pids) :: byte) = length pids"
    using assms(5) by (simp add: unat_of_nat)
  obtain ack' where loop: "ack_read_loop (length pids) ack
      (mk_buf (pre @ [of_nat (length pids)]) (concat (map be32 pids) @ (if pids = [] then [] else sid) @ c) post)
      = Some (True, ack', mk_buf ((pre @ [of_nat (length pids)]) @ concat (map be32 pids))
          ((if pids = [] then [] else sid) @ c) post)"
    "wf_ack ack'" "ack_set ack' = ack_set ack @ pids"
    using ack_read_loop_mk_buf[OF assms(1,2)] by blast
  show ?thesis
    using loop count assms(3)
    by (cases "pids = []")
       (auto simp: reliable_ack_read_def ack_wire_def session_id_read_mk_buf session_id_equal_def Let_def)
qed

definition empty_ack :: reliable_ack where
  "empty_ack = \<lparr>ack_len = 0, ack_ids = replicate 8 0\<rparr>"

lemma wf_empty_ack [simp]: "wf_ack empty_ack" "ack_set empty_ack = []" "ack_len empty_ack = 0"
  by (simp_all add: empty_ack_def wf_ack_def ack_set_def)

text \<open>
  C30: acknowledgements reach the peer.  reliable_ack_write puts the first max pending identifiers
  in front of a packet with enough headroom and keeps the others for later; the peer's
  reliable_ack_read of that packet returns exactly those identifiers and leaves the packet behind
  them, provided the session identifier is the one the peer expects; with any other session
  identifier the record is refused.
\<close>

theorem ack_write_read:
  assumes "wf_ack ack" "0 \<le> mx" "wf_sid sid" "session_id_defined sid" "wf_sid sid'"
    and "live_buf b" "ACK_SIZE (min mx (ack_len ack)) \<le> offset b"
  shows "\<exists>ack' b' r b''. reliable_ack_write ack b sid mx True = Some (True, ack', b') \<and>
    reliable_ack_read empty_ack b' sid' = Some (ack_written ack mx = [] \<or> sid = sid', r, b'') \<and>
    ack_set r = ack_written ack mx \<and> content b'' = content b \<and>
    ack_written ack mx @ ack_set ack' = ack_set ack"
proof -
  obtain pre c post where b: "b = mk_buf pre c post" using assms(6) by (rule live_bufE)
  let ?p = "ack_written ack mx"
  have len: "int (length ?p) = min mx (ack_len ack)" "length ?p \<le> 8"
    using assms(1,2) by (auto simp: ack_written_def length_ack_set wf_ack_def min_def)
  have "length (ack_wire ?p sid) \<le> length pre"
    using assms(7) length_ack_wire[OF assms(3), of ?p] len(1) by (simp add: b)
  then obtain ack' where w: "reliable_ack_write ack b sid mx True
      = Some (True, ack', mk_buf (take (length pre - length (ack_wire ?p sid)) pre)
          (ack_wire ?p sid @ c) post)" "ack_set ack' = drop (length ?p) (ack_set ack)"
    using reliable_ack_write_mk_buf(1)[OF assms(1-4) refl refl, of pre c post] by (auto simp: b)
  moreover have "?p @ drop (length ?p) (ack_set ack) = ack_set ack"
    by (cases "nat mx \<le> length (ack_set ack)") (simp_all add: ack_written_def)
  moreover obtain r where "reliable_ack_read empty_ack
      (mk_buf (take (length pre - length (ack_wire ?p sid)) pre) (ack_wire ?p sid @ c) post) sid'
      = Some (?p = [] \<or> sid = sid', r,
          mk_buf (take (length pre - length (ack_wire ?p sid)) pre @ ack_wire ?p sid) c post)"
    "ack_set r = ?p"
    using reliable_ack_read_mk_buf[of empty_ack ?p sid sid'
        "take (length pre - length (ack_wire ?p sid)) pre" c post] assms(3-5) len by auto
  ultimately show ?thesis by (auto simp: b)
qed

theorem ack_write_read_witness:
  "\<exists>ack' b' r b''. reliable_ack_write \<lparr>ack_len = 2, ack_ids = [7, 9, 0, 0, 0, 0, 0, 0]\<rparr>
      (mk_buf (replicate 40 0) [1, 2, 3] []) [1, 2, 3, 4, 5, 6, 7, 8] 4 True = Some (True, ack', b') \<and>
    reliable_ack_read empty_ack b' [1, 2, 3, 4, 5, 6, 7, 8]
      = Some (ack_written \<lparr>ack_len = 2, ack_ids = [7, 9, 0, 0, 0, 0, 0, 0]\<rparr> 4 = []
              \<or> [1, 2, 3, 4, 5, 6, 7, 8] = [1, 2, 3, 4, 5, 6, 7, 8 :: byte], r, b'') \<and>
    ack_set r = ack_written \<lparr>ack_len = 2, ack_ids = [7, 9, 0, 0, 0, 0, 0, 0]\<rparr> 4 \<and>
    content b'' = content (mk_buf (replicate 40 0) [1, 2, 3] []) \<and>
    ack_written \<lparr>ack_len = 2, ack_ids = [7, 9, 0, 0, 0, 0, 0, 0]\<rparr> 4 @ ack_set ack'
      = ack_set \<lparr>ack_len = 2, ack_ids = [7, 9, 0, 0, 0, 0, 0, 0]\<rparr>"
  by (rule ack_write_read)
     (simp_all add: wf_ack_def wf_sid_def session_id_defined_def x_session_id_zero_def ACK_SIZE_def
       SID_SIZE_def numeral_eq_Suc)

section \<open>Invariant of a window\<close>

definition wf_rel :: "int \<Rightarrow> reliable \<Rightarrow> bool" where
  "wf_rel cap rel \<longleftrightarrow> 0 < rel_size rel \<and> rel_size rel \<le> 8 \<and> length (rel_array rel) = 8 \<and>
     0 \<le> rel_offset rel \<and> rel_offset rel \<le> cap \<and>
     (\<forall>e \<in> set (rel_entries rel). live_buf (entry_buf e) \<and> capacity (entry_buf e) = cap)"

lemma rel_entries_upd [simp]:
  "rel_entries (upd_entry rel i f) = (rel_entries rel)[i := f (rel_array rel ! i)]"
  by (simp add: rel_entries_def upd_entry_def take_update_swap)

lemma upd_entry_sel [simp]:
  "rel_size (upd_entry rel i f) = rel_size rel" "rel_id (upd_entry rel i f) = rel_id rel"
  "rel_offset (upd_entry rel i f) = rel_offset rel"
  "initial_timeout (upd_entry rel i f) = initial_timeout rel"
  "length (rel_array (upd_entry rel i f)) = length (rel_array rel)"
  by (simp_all add: upd_entry_def)

lemma rel_entries_id [simp]: "rel_entries (rel\<lparr>rel_id := x\<rparr>) = rel_entries rel"
  by (simp add: rel_entries_def)

lemma length_rel_entries: "wf_rel cap rel \<Longrightarrow> length (rel_entries rel) = nat (rel_size rel)"
  by (auto simp: wf_rel_def rel_entries_def)

lemma rel_entries_nth: "i < length (rel_entries rel) \<Longrightarrow> rel_entries rel ! i = rel_array rel ! i"
  by (simp add: rel_entries_def)

lemma wf_rel_entry:
  assumes "wf_rel cap rel" "i < length (rel_entries rel)"
  shows "live_buf (entry_buf (rel_array rel ! i))" "capacity (entry_buf (rel_array rel ! i)) = cap"
  using assms nth_mem[OF assms(2)] by (auto simp: wf_rel_def rel_entries_nth)

lemma wf_rel_upd [wf_intros]:
  assumes "wf_rel cap rel" "i < length (rel_entries rel)"
    and "live_buf (entry_buf (f (rel_array rel ! i)))" "capacity (entry_buf (f (rel_array rel ! i))) = cap"
  shows "wf_rel cap (upd_entry rel i f)"
  using assms by (auto simp: wf_rel_def dest!: set_update_subset_insert[THEN subsetD])

section \<open>The window as a finite map\<close>

text \<open>
  The abstract content of a window: the packets held in active entries, by identifier.  Every
  operation of reliable.c is a map operation on it.
\<close>

definition slot_map :: "reliable_entry list \<Rightarrow> packet_id_type \<rightharpoonup> byte list" where
  "slot_map es = map_of (map (\<lambda>e. (entry_id e, content (entry_buf e))) (filter active es))"

definition slot_ids :: "reliable_entry list \<Rightarrow> packet_id_type list" where
  "slot_ids es = map entry_id (filter active es)"

definition slots :: "reliable \<Rightarrow> packet_id_type \<rightharpoonup> byte list" where
  "slots rel = slot_map (rel_entries rel)"

lemma dom_slot_map: "dom (slot_map es) = set (slot_ids es)"
  by (simp add: slot_map_def slot_ids_def dom_map_of_conv_image_fst image_image)

lemma slot_map_parts:
  assumes "i < length es"
  shows "slot_map (es[i := y]) = (if active y then (slot_map (drop (Suc i) es))(entry_id y \<mapsto> content (entry_buf y))
      else slot_map (drop (Suc i) es)) ++ slot_map (take i es)"
    "slot_ids (es[i := y]) = slot_ids (take i es) @ (if active y then [entry_id y] else []) @ slot_ids (drop (Suc i) es)"
  using assms by (auto simp: slot_map_def slot_ids_def upd_conv_take_nth_drop)

lemma slot_map_split:
  assumes "i < length es"
  shows "slot_map es = (if active (es ! i)
      then (slot_map (drop (Suc i) es))(entry_id (es ! i) \<mapsto> content (entry_buf (es ! i)))
      else slot_map (drop (Suc i) es)) ++ slot_map (take i es)"
    "slot_ids es = slot_ids (take i es) @ (if active (es ! i) then [entry_id (es ! i)] else [])
      @ slot_ids (drop (Suc i) es)"
  using slot_map_parts[OF assms, of "es ! i"] by simp_all

lemma slot_map_activate:
  assumes "i < length es" "\<not> active (es ! i)" "active y" "entry_id y \<notin> set (slot_ids es)"
  shows "slot_map (es[i := y]) = (slot_map es)(entry_id y \<mapsto> content (entry_buf y))"
    "set (slot_ids (es[i := y])) = insert (entry_id y) (set (slot_ids es))"
    "distinct (slot_ids es) \<Longrightarrow> distinct (slot_ids (es[i := y]))"
proof -
  note old = slot_map_split[OF assms(1)] and new = slot_map_parts[OF assms(1), of y]
  have "entry_id y \<notin> dom (slot_map (take i es))" using assms(2,4) old(2) by (simp add: dom_slot_map)
  then show "slot_map (es[i := y]) = (slot_map es)(entry_id y \<mapsto> content (entry_buf y))"
    using assms(2,3) old(1) new(1) by (auto simp: map_add_def fun_eq_iff split: option.splits)
  show "set (slot_ids (es[i := y])) = insert (entry_id y) (set (slot_ids es))"
    "distinct (slot_ids es) \<Longrightarrow> distinct (slot_ids (es[i := y]))"
    using assms(2-4) old(2) new(2) by auto
qed

lemma slot_map_deactivate:
  assumes "i < length es" "active (es ! i)" "\<not> active y" "distinct (slot_ids es)"
  shows "slot_map (es[i := y]) = (slot_map es)(entry_id (es ! i) := None)"
    "set (slot_ids (es[i := y])) = set (slot_ids es) - {entry_id (es ! i)}"
    "distinct (slot_ids (es[i := y]))"
proof -
  note old = slot_map_split[OF assms(1)] and new = slot_map_parts[OF assms(1), of y]
  have "entry_id (es ! i) \<notin> dom (slot_map (take i es))" "entry_id (es ! i) \<notin> dom (slot_map (drop (Suc i) es))"
    using assms(2,4) old(2) by (auto simp: dom_slot_map)
  then show "slot_map (es[i := y]) = (slot_map es)(entry_id (es ! i) := None)"
    using assms(2,3) old(1) new(1) by (auto simp: map_add_def fun_eq_iff domIff split: option.splits)
  show "set (slot_ids (es[i := y])) = set (slot_ids es) - {entry_id (es ! i)}"
    "distinct (slot_ids (es[i := y]))"
    using assms(2-4) old(2) new(2) by auto
qed

lemma slot_map_keep:
  assumes "i < length es" "active y = active (es ! i)" "active y \<longrightarrow> entry_id y = entry_id (es ! i)"
    "active y \<longrightarrow> content (entry_buf y) = content (entry_buf (es ! i))"
  shows "slot_map (es[i := y]) = slot_map es" "slot_ids (es[i := y]) = slot_ids es"
  using assms slot_map_split[OF assms(1)] slot_map_parts[OF assms(1), of y] by auto

lemma slot_map_nth:
  assumes "i < length es" "active (es ! i)" "distinct (slot_ids es)"
  shows "slot_map es (entry_id (es ! i)) = Some (content (entry_buf (es ! i)))"
proof -
  note old = slot_map_split[OF assms(1)]
  have "entry_id (es ! i) \<notin> dom (slot_map (take i es))"
    using assms(2,3) old(2) by (auto simp: dom_slot_map)
  then show ?thesis using assms(2) old(1) by (auto simp: map_add_def domIff split: option.splits)
qed

lemma slot_map_SomeD:
  assumes "slot_map es pid = Some c"
  obtains i where "i < length es" "active (es ! i)" "entry_id (es ! i) = pid" "content (entry_buf (es ! i)) = c"
proof -
  obtain e where "e \<in> set es" "active e" "entry_id e = pid" "content (entry_buf e) = c"
    using map_of_SomeD[OF assms[unfolded slot_map_def]] by auto
  then show ?thesis using that by (auto simp: in_set_conv_nth)
qed

text \<open>The invariant of a window: its buffers are live and no identifier is held twice.\<close>

definition rel_ok :: "int \<Rightarrow> reliable \<Rightarrow> bool" where
  "rel_ok cap rel \<longleftrightarrow> wf_rel cap rel \<and> distinct (slot_ids (rel_entries rel))"

lemma dom_slots: "dom (slots rel) = set (slot_ids (rel_entries rel))"
  by (simp add: slots_def dom_slot_map)

lemma slots_rel_id [simp]: "slots (rel\<lparr>rel_id := x\<rparr>) = slots rel"
  by (simp add: slots_def)

lemma rel_ok_rel_id [simp]: "rel_ok cap (rel\<lparr>rel_id := x\<rparr>) = rel_ok cap rel"
  by (simp add: rel_ok_def wf_rel_def)

lemma init_entries_ok:
  assumes "0 \<le> off" "off \<le> buf_size"
  shows "\<exists>es. init_entries junk buf_size off n = Some es \<and> length es = n \<and>
    (\<forall>e \<in> set es. \<not> active e \<and> live_buf (entry_buf e) \<and> capacity (entry_buf e) = buf_size)"
proof -
  let ?b = "snd (buf_init (alloc_buf junk (nat buf_size)) off)"
  have cap: "capacity (alloc_buf junk (nat buf_size)) = buf_size" using assms by (simp add: alloc_buf_def)
  have "buf_init (alloc_buf junk (nat buf_size)) off = (True, ?b)" "live_buf ?b" "capacity ?b = buf_size"
    using assms cap live_buf_init[OF live_alloc_buf, of junk "nat buf_size" off]
    by (auto simp: buf_init_def alloc_buf_def)
  then obtain b where "buf_init (alloc_buf junk (nat buf_size)) off = (True, b)" "live_buf b"
    "capacity b = buf_size" by blast
  then show ?thesis by (induction n) (auto simp: clear_entry_def)
qed

lemma reliable_init_ok:
  assumes "0 < n" "n \<le> 8" "0 \<le> off" "off \<le> buf_size"
  shows "\<exists>rel. reliable_init junk buf_size off n = Some rel \<and> rel_ok buf_size rel \<and>
    rel_id rel = 0 \<and> rel_offset rel = off \<and> rel_size rel = n \<and> slots rel = Map.empty"
proof -
  obtain es where es: "init_entries junk buf_size off (nat n) = Some es" "length es = nat n"
    "\<forall>e \<in> set es. \<not> active e \<and> live_buf (entry_buf e) \<and> capacity (entry_buf e) = buf_size"
    using init_entries_ok[OF assms(3,4)] by blast
  then have none: "filter active es = []" by (auto simp: filter_empty_conv)
  show ?thesis
    using assms es none
    by (auto simp: reliable_init_def rel_ok_def wf_rel_def rel_entries_def slots_def slot_map_def slot_ids_def)
qed

lemma reliable_can_get_iff:
  "reliable_can_get rel \<longleftrightarrow> (\<exists>i < length (rel_entries rel). \<not> active (rel_entries rel ! i))"
  by (auto simp: reliable_can_get_def list_ex_length)

text \<open>A free entry: its buffer is empty and starts at the offset of the window.\<close>

lemma reliable_get_buf_ok:
  assumes ok: "rel_ok cap rel"
  shows "if reliable_can_get rel
    then \<exists>i pre post. i < length (rel_entries rel) \<and> \<not> active (rel_array rel ! i) \<and>
      reliable_get_buf rel = Some (Some i, upd_entry rel i (\<lambda>e. e\<lparr>entry_buf := mk_buf pre [] post\<rparr>)) \<and>
      int (length pre) = rel_offset rel \<and> int (length pre + length post) = cap
    else reliable_get_buf rel = Some (None, rel)"
proof (cases "first_index (\<lambda>e. \<not> active e) (rel_entries rel)")
  case None
  then show ?thesis
    using first_index_None[of "\<lambda>e. \<not> active e"]
    by (auto simp: reliable_get_buf_def reliable_can_get_def list_ex_iff)
next
  case (Some i)
  then have i: "i < length (rel_entries rel)" "\<not> active (rel_array rel ! i)"
    using first_index_SomeD[OF Some] by (auto simp: rel_entries_nth)
  then have can: "reliable_can_get rel" by (auto simp: reliable_can_get_iff rel_entries_nth)
  have wf: "wf_rel cap rel" using ok by (simp add: rel_ok_def)
  let ?b = "entry_buf (rel_array rel ! i)"
  note live = wf_rel_entry[OF wf i(1)]
  obtain m where m: "data ?b = Some m" "int (length m) = cap"
    using live by (auto simp: live_buf_iff)
  have off: "0 \<le> rel_offset rel" "rel_offset rel \<le> cap" using wf by (auto simp: wf_rel_def)
  define pre post where "pre = take (nat (rel_offset rel)) m" and "post = drop (nat (rel_offset rel)) m"
  have "buf_init ?b (rel_offset rel) = (True, mk_buf pre [] post)"
    using buf_init_mk_buf[OF live(1), of "rel_offset rel"] off m live(2) by (simp add: pre_def post_def)
  moreover have "int (length pre) = rel_offset rel" "int (length pre + length post) = cap"
    using off m by (auto simp: min_def pre_def post_def)
  moreover from calculation(1) have
    "reliable_get_buf rel = Some (Some i, upd_entry rel i (\<lambda>e. e\<lparr>entry_buf := mk_buf pre [] post\<rparr>))"
    using Some by (simp add: reliable_get_buf_def)
  ultimately show ?thesis using i unfolding if_P[OF can] by blast
qed

lemma fill_entry_ok:
  assumes ok: "rel_ok cap rel" and i: "i < length (rel_entries rel)" "\<not> active (rel_array rel ! i)"
    and y: "y = f (rel_array rel ! i)" "active y" "entry_id y \<notin> dom (slots rel)"
      "live_buf (entry_buf y)" "capacity (entry_buf y) = cap"
  shows "rel_ok cap (upd_entry rel i f)"
    "slots (upd_entry rel i f) = (slots rel)(entry_id y \<mapsto> content (entry_buf y))"
proof -
  have n: "\<not> active (rel_entries rel ! i)" using i by (simp add: rel_entries_nth)
  have new: "entry_id y \<notin> set (slot_ids (rel_entries rel))" using y(3) by (simp add: dom_slots)
  note act = slot_map_activate[OF i(1) n y(2) new]
  show "rel_ok cap (upd_entry rel i f)"
    using ok act(3) y by (auto simp: rel_ok_def wf_rel_upd i)
  show "slots (upd_entry rel i f) = (slots rel)(entry_id y \<mapsto> content (entry_buf y))"
    using act(1) y(1) by (simp add: slots_def)
qed

lemma drop_entry_ok:
  assumes ok: "rel_ok cap rel" and i: "i < length (rel_entries rel)" "active (rel_array rel ! i)"
  shows "rel_ok cap (upd_entry rel i (\<lambda>e. e\<lparr>active := False\<rparr>))"
    "slots (upd_entry rel i (\<lambda>e. e\<lparr>active := False\<rparr>)) = (slots rel)(entry_id (rel_array rel ! i) := None)"
proof -
  have a: "active (rel_entries rel ! i)" "distinct (slot_ids (rel_entries rel))"
    using i ok by (simp_all add: rel_entries_nth rel_ok_def)
  have wf: "wf_rel cap rel" using ok by (simp add: rel_ok_def)
  note de = slot_map_deactivate[OF i(1) a(1) _ a(2), of "(rel_array rel ! i)\<lparr>active := False\<rparr>"]
  show "rel_ok cap (upd_entry rel i (\<lambda>e. e\<lparr>active := False\<rparr>))"
    using de(3) wf_rel_upd[OF wf i(1), of "\<lambda>e. e\<lparr>active := False\<rparr>"] wf_rel_entry[OF wf i(1)]
    by (simp add: rel_ok_def)
  show "slots (upd_entry rel i (\<lambda>e. e\<lparr>active := False\<rparr>)) = (slots rel)(entry_id (rel_array rel ! i) := None)"
    using de(1) i(1) by (simp add: slots_def rel_entries_nth)
qed

lemma keep_entry_ok:
  assumes ok: "rel_ok cap rel" and i: "i < length (rel_entries rel)"
    and y: "y = f (rel_array rel ! i)" "active y = active (rel_array rel ! i)"
      "active y \<longrightarrow> entry_id y = entry_id (rel_array rel ! i) \<and>
         content (entry_buf y) = content (entry_buf (rel_array rel ! i))"
      "live_buf (entry_buf y)" "capacity (entry_buf y) = cap"
  shows "rel_ok cap (upd_entry rel i f)" "slots (upd_entry rel i f) = slots rel"
proof -
  have "slot_map ((rel_entries rel)[i := y]) = slot_map (rel_entries rel)"
    "slot_ids ((rel_entries rel)[i := y]) = slot_ids (rel_entries rel)"
    using slot_map_keep[OF i(1), of y] y(2,3) i by (simp_all add: rel_entries_nth)
  then show "rel_ok cap (upd_entry rel i f)" "slots (upd_entry rel i f) = slots rel"
    using ok y i by (auto simp: rel_ok_def slots_def wf_rel_upd)
qed

text \<open>The entry that holds an identifier.\<close>

lemma first_index_slot:
  assumes ok: "rel_ok cap rel"
  shows "case first_index (\<lambda>e. active e \<and> entry_id e = pid) (rel_entries rel) of
      None \<Rightarrow> slots rel pid = None
    | Some i \<Rightarrow> i < length (rel_entries rel) \<and> active (rel_array rel ! i) \<and>
        entry_id (rel_array rel ! i) = pid \<and>
        slots rel pid = Some (content (entry_buf (rel_array rel ! i)))"
proof (cases "first_index (\<lambda>e. active e \<and> entry_id e = pid) (rel_entries rel)")
  case None
  then have "pid \<notin> dom (slots rel)" by (auto simp: dom_slots slot_ids_def first_index_None)
  then show ?thesis using None by (auto simp: domIff)
next
  case (Some i)
  then show ?thesis
    using first_index_SomeD[OF Some] slot_map_nth[of i "rel_entries rel"] ok
    by (auto simp: rel_entries_nth slots_def rel_ok_def)
qed

lemma purge_id_ok:
  assumes "rel_ok cap rel"
  shows "rel_ok cap (purge_id rel pid)" "slots (purge_id rel pid) = (slots rel)(pid := None)"
    "rel_id (purge_id rel pid) = rel_id rel" "rel_offset (purge_id rel pid) = rel_offset rel"
    "rel_size (purge_id rel pid) = rel_size rel"
  using assms first_index_slot[OF assms, of pid] drop_entry_ok[OF assms]
  by (auto simp: purge_id_def split: option.splits)

lemma reliable_send_purge_ok:
  assumes "rel_ok cap rel"
  shows "rel_ok cap (reliable_send_purge rel ack) \<and>
    slots (reliable_send_purge rel ack) = slots rel |` (- set (ack_set ack)) \<and>
    rel_id (reliable_send_purge rel ack) = rel_id rel \<and>
    rel_offset (reliable_send_purge rel ack) = rel_offset rel \<and>
    rel_size (reliable_send_purge rel ack) = rel_size rel"
proof -
  have "rel_ok cap (foldl purge_id rel pids) \<and>
    slots (foldl purge_id rel pids) = slots rel |` (- set pids) \<and>
    rel_id (foldl purge_id rel pids) = rel_id rel \<and>
    rel_offset (foldl purge_id rel pids) = rel_offset rel \<and>
    rel_size (foldl purge_id rel pids) = rel_size rel" for pids
    using assms
  proof (induction pids arbitrary: rel)
    case (Cons pid pids)
    note p = purge_id_ok[OF Cons.prems, of pid]
    show ?case using Cons.IH[OF p(1)] p by (auto simp: fun_eq_iff restrict_map_def)
  qed (simp add: restrict_map_def)
  then show ?thesis by (simp add: reliable_send_purge_def ack_set_def)
qed

text \<open>Queueing a payload for transmission.\<close>

definition reliable_queue :: "reliable \<Rightarrow> byte list \<Rightarrow> int \<Rightarrow> reliable option" where
  "reliable_queue rel p op1 = do {
     (i, rel) \<leftarrow> reliable_get_buf_output_sequenced rel;
     i \<leftarrow> i;
     (ok, b) \<leftarrow> buf_write (entry_buf (rel_array rel ! i)) p (int (length p));
     ASSERT ok;
     reliable_mark_active_outgoing (upd_entry rel i (\<lambda>e. e\<lparr>entry_buf := b\<rparr>)) i op1
   }"

lemma upd_entry_twice: "i < length (rel_array rel) \<Longrightarrow> upd_entry (upd_entry rel i f) i g = upd_entry rel i (g \<circ> f)"
  by (simp add: upd_entry_def)

lemma upd_entry_nth: "i < length (rel_array rel) \<Longrightarrow> rel_array (upd_entry rel i f) ! i = f (rel_array rel ! i)"
  by (simp add: upd_entry_def)

lemma upd_entry_rel_id: "upd_entry (rel\<lparr>rel_id := x\<rparr>) i f = (upd_entry rel i f)\<lparr>rel_id := x\<rparr>"
  by (simp add: upd_entry_def)

lemma entries_le_array: "wf_rel cap rel \<Longrightarrow> i < length (rel_entries rel) \<Longrightarrow> i < length (rel_array rel)"
  by (auto simp: wf_rel_def rel_entries_def)

lemma output_sequenced_get_buf:
  "reliable_get_buf_output_sequenced rel = Some (Some i, rel') \<Longrightarrow> reliable_get_buf rel = Some (Some i, rel')"
  by (auto simp: reliable_get_buf_output_sequenced_def split: option.splits if_splits)

lemma reliable_queue_ok:
  assumes ok: "rel_ok cap rel" and q: "reliable_queue rel p op1 = Some rel'"
    and fresh: "rel_id rel \<notin> dom (slots rel)"
  shows "rel_ok cap rel'" "slots rel' = (slots rel)(rel_id rel \<mapsto> be32 (rel_id rel) @ p)"
    "rel_id rel' = rel_id rel + 1" "rel_offset rel' = rel_offset rel" "rel_size rel' = rel_size rel"
    "int (length p) \<le> cap - rel_offset rel"
proof -
  have wf: "wf_rel cap rel" using ok by (simp add: rel_ok_def)
  obtain i rel1 where out: "reliable_get_buf_output_sequenced rel = Some (Some i, rel1)"
    using q by (auto simp: reliable_queue_def split: Option.bind_splits)
  note get = output_sequenced_get_buf[OF out]
  obtain pre post where i: "i < length (rel_entries rel)" "\<not> active (rel_array rel ! i)"
    "rel1 = upd_entry rel i (\<lambda>e. e\<lparr>entry_buf := mk_buf pre [] post\<rparr>)"
    and len: "int (length pre) = rel_offset rel" "int (length pre + length post) = cap"
    using reliable_get_buf_ok[OF ok] get by (auto split: if_splits)
  note arr = entries_le_array[OF wf i(1)]
  have fits: "length p \<le> length post" "4 \<le> length pre"
    using q out arr i
    by (auto simp: reliable_queue_def upd_entry_nth upd_entry_twice reliable_mark_active_outgoing_def
        Let_def split: if_splits Option.bind_splits)
  let ?b = "mk_buf (take (length pre - 4) pre) (be32 (rel_id rel) @ p) (drop (length p) post)"
  let ?f = "\<lambda>e. e\<lparr>entry_id := rel_id rel, entry_buf := ?b, active := True, opcode := op1, next_try := 0,
                  timeout := initial_timeout rel\<rparr>"
  have rel': "rel' = (upd_entry rel i ?f)\<lparr>rel_id := rel_id rel + 1\<rparr>"
    using q out arr i fits
    by (auto simp: reliable_queue_def upd_entry_nth upd_entry_twice reliable_mark_active_outgoing_def
        upd_entry_rel_id comp_def Let_def split: if_splits Option.bind_splits)
  have cap: "capacity ?b = cap" using fits len by (simp add: of_nat_diff)
  note fill = fill_entry_ok[OF ok i(1,2) refl, of ?f]
  show "rel_ok cap rel'" "slots rel' = (slots rel)(rel_id rel \<mapsto> be32 (rel_id rel) @ p)"
    using fill cap fresh by (simp_all add: rel')
  show "rel_id rel' = rel_id rel + 1" "rel_offset rel' = rel_offset rel" "rel_size rel' = rel_size rel"
    by (simp_all add: rel')
  show "int (length p) \<le> cap - rel_offset rel" using fits len by simp
qed


text \<open>Storing an incoming packet, and handing the next one to the TLS layer.\<close>

lemma reliable_not_replay_iff:
  "reliable_not_replay rel pid \<longleftrightarrow> rel_id rel \<le> pid \<and> pid \<notin> dom (slots rel)"
  by (auto simp: reliable_not_replay_def dom_slots slot_ids_def list_ex_iff)

lemma control_incoming_ok:
  assumes ok: "rel_ok cap rel" and ack: "wf_ack ack"
    and fits: "int (length p) \<le> cap - rel_offset rel"
    and b: "b = mk_buf pre (be32 pid @ p) post"
  shows "\<exists>rel' ack' b'. control_incoming op1 rel ack b = Some (rel', ack', b') \<and>
    rel_ok cap rel' \<and> wf_ack ack' \<and> rel_id rel' = rel_id rel \<and> rel_offset rel' = rel_offset rel \<and>
    rel_size rel' = rel_size rel \<and>
    (if op1 \<noteq> 5 \<and> reliable_can_get rel \<and> reliable_wont_break_sequentiality rel pid
     then slots rel' = (if reliable_not_replay rel pid then (slots rel)(pid \<mapsto> p) else slots rel) \<and>
          set (ack_set ack') \<subseteq> insert pid (set (ack_set ack))
     else slots rel' = slots rel \<and> ack' = ack)"
proof (cases "op1 \<noteq> 5 \<and> reliable_can_get rel \<and> reliable_wont_break_sequentiality rel pid")
  case False
  then show ?thesis
    using ok ack by (auto simp: control_incoming_def reliable_ack_read_packet_id_def b)
next
  case True
  note ack' = reliable_ack_acknowledge_abs[OF ack, of pid]
  have read: "reliable_ack_read_packet_id b = Some (Some pid, mk_buf (pre @ be32 pid) p post)"
    by (simp add: reliable_ack_read_packet_id_def b)
  show ?thesis
  proof (cases "reliable_not_replay rel pid")
    case False
    then show ?thesis using True ok ack' read by (auto simp: control_incoming_def)
  next
    case new: True
    have wf: "wf_rel cap rel" using ok by (simp add: rel_ok_def)
    obtain i pr po where i: "i < length (rel_entries rel)" "\<not> active (rel_array rel ! i)"
      "reliable_get_buf rel = Some (Some i, upd_entry rel i (\<lambda>e. e\<lparr>entry_buf := mk_buf pr [] po\<rparr>))"
      and len: "int (length pr) = rel_offset rel" "int (length pr + length po) = cap"
      using reliable_get_buf_ok[OF ok] True by auto
    note arr = entries_le_array[OF wf i(1)]
    have po: "length p \<le> length po" using fits len by simp
    have size: "int i < rel_size rel" using i(1) length_rel_entries[OF wf] by simp
    let ?b = "mk_buf pr p (drop (length p) po)"
    let ?f = "\<lambda>e. e\<lparr>entry_buf := ?b, active := True, entry_id := pid, opcode := op1, next_try := 0,
                    timeout := 0\<rparr>"
    have ci: "control_incoming op1 rel ack b = Some (upd_entry rel i ?f,
        snd (reliable_ack_acknowledge_packet_id ack pid), mk_buf (pre @ be32 pid) p post)"
      using True new read i arr po size
      by (simp add: control_incoming_def upd_entry_nth upd_entry_twice reliable_mark_active_incoming_def
          reliable_not_replay_iff comp_def)
    have "capacity ?b = cap" using po len by simp
    then have "rel_ok cap (upd_entry rel i ?f)" "slots (upd_entry rel i ?f) = (slots rel)(pid \<mapsto> p)"
      using fill_entry_ok[OF ok i(1,2) refl, of ?f] new by (simp_all add: reliable_not_replay_iff)
    then show ?thesis using ci True new ack' by auto
  qed
qed

lemma reliable_deliver_ok:
  assumes ok: "rel_ok cap rel" and seq: "reliable_get_buf_sequenced rel = Some i"
    and del: "reliable_mark_deleted rel i True = Some rel'"
  shows "slots rel (rel_id rel) = Some (content (entry_buf (rel_array rel ! i)))"
    "rel_ok cap rel'" "slots rel' = (slots rel)(rel_id rel := None)" "rel_id rel' = rel_id rel + 1"
    "rel_offset rel' = rel_offset rel" "rel_size rel' = rel_size rel"
  using first_index_slot[OF ok, of "rel_id rel"] seq del drop_entry_ok[OF ok, of i]
  by (auto simp: reliable_get_buf_sequenced_def reliable_mark_deleted_def Let_def split: if_splits)

lemma reliable_sequenced_iff:
  assumes "rel_ok cap rel"
  shows "(\<exists>i. reliable_get_buf_sequenced rel = Some i) \<longleftrightarrow> rel_id rel \<in> dom (slots rel)"
  using first_index_slot[OF assms, of "rel_id rel"]
  by (auto simp: reliable_get_buf_sequenced_def split: option.splits)

lemma best_entry_ok:
  assumes "\<forall>j p. best = Some (j, p) \<longrightarrow> j < i"
  shows "case best_entry now es i best of
      None \<Rightarrow> best = None \<and> (\<forall>e \<in> set es. \<not> (active e \<and> next_try e \<le> now))
    | Some (j, p) \<Rightarrow>
        (best = Some (j, p) \<or> i \<le> j \<and> j < i + length es \<and> active (es ! (j - i)) \<and>
            next_try (es ! (j - i)) \<le> now \<and> entry_id (es ! (j - i)) = p) \<and>
        (\<forall>e \<in> set es. active e \<and> next_try e \<le> now \<longrightarrow> p \<le> entry_id e) \<and>
        (\<forall>k q. best = Some (k, q) \<longrightarrow> p \<le> q)"
  using assms
proof (induction es arbitrary: i best)
  case (Cons e es)
  let ?b = "if active e \<and> now \<ge> next_try e \<and> (case best of None \<Rightarrow> True | Some (j, p) \<Rightarrow> entry_id e < p)
        then Some (i, entry_id e) else best"
  have pre: "\<forall>j p. ?b = Some (j, p) \<longrightarrow> j < Suc i" using Cons.prems by auto
  show ?case
  proof (cases "best_entry now es (Suc i) ?b")
    case None
    then have "?b = None" "\<forall>e \<in> set es. \<not> (active e \<and> next_try e \<le> now)"
      using Cons.IH[OF pre] by auto
    then show ?thesis using None by (auto split: if_splits option.splits)
  next
    case (Some jp)
    obtain j p where jp: "jp = (j, p)" by (cases jp)
    have ih: "?b = Some (j, p) \<or> Suc i \<le> j \<and> j < Suc i + length es \<and> active (es ! (j - Suc i)) \<and>
            next_try (es ! (j - Suc i)) \<le> now \<and> entry_id (es ! (j - Suc i)) = p"
      "\<forall>e \<in> set es. active e \<and> next_try e \<le> now \<longrightarrow> p \<le> entry_id e"
      "\<forall>k q. ?b = Some (k, q) \<longrightarrow> p \<le> q"
      using Cons.IH[OF pre] Some jp by auto
    have "active e \<and> next_try e \<le> now \<longrightarrow> p \<le> entry_id e"
      using ih(3) by (auto split: option.splits if_splits simp: not_less) 
    moreover have "\<forall>k q. best = Some (k, q) \<longrightarrow> p \<le> q"
      using ih(3) by (auto split: if_splits)
    moreover have "best = Some (j, p) \<or> i \<le> j \<and> j < i + length (e # es) \<and> active ((e # es) ! (j - i)) \<and>
            next_try ((e # es) ! (j - i)) \<le> now \<and> entry_id ((e # es) ! (j - i)) = p"
      using ih(1) by (auto split: if_splits simp: nth_Cons')
    ultimately show ?thesis using Some jp ih(2) by simp
  qed
qed (auto split: option.splits)

text \<open>
  Retransmission: reliable_send picks the lowest identifier among the entries that are due,
  changes only the time of its next transmission, and finds one whenever reliable_can_send says so.
\<close>

lemma reliable_send_ok:
  assumes ok: "rel_ok cap rel"
  shows "case reliable_send now rel of
      (None, rel') \<Rightarrow> rel' = rel \<and> \<not> reliable_can_send now rel
    | (Some (i, op1), rel') \<Rightarrow> reliable_can_send now rel \<and> rel_ok cap rel' \<and> slots rel' = slots rel \<and>
        rel_id rel' = rel_id rel \<and> rel_offset rel' = rel_offset rel \<and> rel_size rel' = rel_size rel \<and>
        entry_buf (rel_array rel' ! i) = entry_buf (rel_array rel ! i) \<and>
        op1 = opcode (rel_array rel ! i) \<and> i < length (rel_entries rel) \<and> active (rel_array rel ! i) \<and>
        next_try (rel_array rel ! i) \<le> now \<and>
        (\<forall>e \<in> set (rel_entries rel). active e \<and> next_try e \<le> now \<longrightarrow> entry_id (rel_array rel ! i) \<le> entry_id e)"
proof (cases "best_entry now (rel_entries rel) 0 None")
  case None
  then show ?thesis
    using best_entry_ok[of None 0 "rel_entries rel" now]
    by (auto simp: reliable_send_def reliable_can_send_def filter_empty_conv)
next
  case (Some jp)
  obtain i p where jp: "jp = (i, p)" by (cases jp)
  have i: "i < length (rel_entries rel)" "active (rel_array rel ! i)" "next_try (rel_array rel ! i) \<le> now"
    "entry_id (rel_array rel ! i) = p"
    "\<forall>e \<in> set (rel_entries rel). active e \<and> next_try e \<le> now \<longrightarrow> p \<le> entry_id e"
    using best_entry_ok[of None 0 "rel_entries rel" now] Some jp by (auto simp: rel_entries_nth)
  have wf: "wf_rel cap rel" using ok by (simp add: rel_ok_def)
  have "rel_entries rel ! i \<in> set (rel_entries rel)" using i(1) by simp
  then have can: "reliable_can_send now rel"
    using i by (auto simp: reliable_can_send_def filter_empty_conv rel_entries_nth)
  note keep = keep_entry_ok[OF ok i(1) refl, of "\<lambda>e. e\<lparr>next_try := now + timeout e\<rparr>"]
  show ?thesis
    using Some jp i can keep wf_rel_entry[OF wf i(1)] entries_le_array[OF wf i(1)]
    by (auto simp: reliable_send_def upd_entry_nth)
qed

lemma reliable_schedule_now_ok:
  assumes "rel_ok cap rel"
  shows "rel_ok cap (reliable_schedule_now now rel)" "slots (reliable_schedule_now now rel) = slots rel"
    "rel_id (reliable_schedule_now now rel) = rel_id rel"
    "rel_offset (reliable_schedule_now now rel) = rel_offset rel"
    "rel_size (reliable_schedule_now now rel) = rel_size rel"
proof -
  let ?g = "\<lambda>e. if active e then e\<lparr>next_try := now, timeout := initial_timeout rel\<rparr> else e"
  have len: "length (rel_array rel) = 8" "rel_size rel \<le> 8" using assms by (auto simp: rel_ok_def wf_rel_def)
  have es: "rel_entries (reliable_schedule_now now rel) = map ?g (rel_entries rel)"
    using len by (simp add: reliable_schedule_now_def rel_entries_def)
  have "slot_map (map ?g xs) = slot_map xs" "slot_ids (map ?g xs) = slot_ids xs" for xs
    by (induction xs) (auto simp: slot_ids_def slot_map_def)
  then show "slots (reliable_schedule_now now rel) = slots rel" "rel_ok cap (reliable_schedule_now now rel)"
    using es assms by (auto simp: slots_def rel_ok_def wf_rel_def reliable_schedule_now_def rel_entries_def)
qed (simp_all add: reliable_schedule_now_def)

lemma send_timeout_loop_ok:
  assumes "0 \<le> ret"
  shows "send_timeout_loop now es ret = 0 \<longleftrightarrow> ret = 0 \<or> (\<exists>e \<in> set es. active e \<and> next_try e \<le> now)"
    "0 \<le> send_timeout_loop now es ret" "send_timeout_loop now es ret \<le> ret"
    "\<forall>e \<in> set es. active e \<longrightarrow> next_try e \<le> now \<or> send_timeout_loop now es ret \<le> next_try e - now"
  using assms
proof (induction es arbitrary: ret)
  case (Cons e es)
  { case 1 then show ?case using Cons.IH by (auto simp: min_max_int min_def) }
  { case 2 then show ?case using Cons.IH by (auto simp: min_max_int) }
  { case 3 then show ?case using Cons.IH(3)[of "min_int ret (next_try e - now)"] Cons.IH(3)[of ret]
      by (auto simp: min_max_int) }
  { case 4 then show ?case
      using Cons.IH(3)[of "min_int ret (next_try e - now)"] Cons.IH(4)[of "min_int ret (next_try e - now)"]
        Cons.IH(4)[of ret] Cons.IH(2)
      by (auto simp: min_max_int) }
qed auto

end
