(* ===== verification/Replay.thy ===== *)
theory Replay
  imports Packet_Id
begin

text \<open>
  What the replay protection of packet_id.c promises: no identifier is accepted twice, the sliding
  window is exact when nothing expires, packets in order are never lost, identifiers survive the
  wire, and what a state loaded from a file is worth.
\<close>

text \<open>
  C4: no packet identifier is accepted twice.  Starting from a freshly initialised receiver, for
  every replay window and time backtrack that packet_id_init admits (the sequential TCP mode and
  the sliding window of UDP mode alike), any sequence of arrivals is handled without an assertion
  failure or an access outside the window, and the accepted (time, id) pairs are distinct.
\<close>

theorem replay_never_accepted:
  assumes "packet_id_init sb tb = Some p" and "\<forall>(now, k) \<in> set es. now > 1"
  shows "\<exists>ks r. run_receive packet_id_receive es (pid_rec p) = Some (ks, r) \<and> distinct ks"
  using pid_guard.run_accepts_once[OF rec_inv_init[OF assms(1)]] assms(2) by blast

theorem replay_never_accepted_witness:
  "\<exists>ks r. run_receive packet_id_receive
      [(100, \<lparr>pin_id = 1, pin_time = 50\<rparr>), (101, \<lparr>pin_id = 3, pin_time = 50\<rparr>),
       (101, \<lparr>pin_id = 1, pin_time = 50\<rparr>), (102, \<lparr>pin_id = 2, pin_time = 50\<rparr>)]
      (pid_rec (the (packet_id_init 64 15))) = Some (ks, r) \<and> distinct ks"
  by (rule replay_never_accepted[of 64 15]) (simp_all add: packet_id_init_def)

text \<open>
  An identifier that was accepted is rejected for ever after: whatever arrives in between,
  whatever the clock says and whatever the expiry of the window does.
\<close>

theorem accepted_then_rejected:
  assumes "packet_id_init sb tb = Some p" and "\<forall>(now, k) \<in> set es. now > 1"
    and "run_receive packet_id_receive es (pid_rec p) = Some (ks, r)"
    and "k \<in> set ks" and "now > 1"
  shows "\<exists>r'. packet_id_receive now r k = Some (False, r')"
proof -
  have "rec_inv r" "pid_dead r k"
    using pid_guard.run_accepts_once[OF rec_inv_init[OF assms(1)], of es] assms(2-4) by auto
  then show ?thesis using pid_guard.dead_rejected assms(5) by blast
qed

theorem accepted_then_rejected_witness:
  "\<exists>p r. packet_id_init 0 0 = Some p \<and>
     run_receive packet_id_receive [(100, \<lparr>pin_id = 1, pin_time = 50\<rparr>)] (pid_rec p)
       = Some ([\<lparr>pin_id = 1, pin_time = 50\<rparr>], r) \<and>
     (\<exists>r'. packet_id_receive 101 r \<lparr>pin_id = 1, pin_time = 50\<rparr> = Some (False, r'))"
proof -
  let ?k = "\<lparr>pin_id = 1, pin_time = 50\<rparr>"
  let ?p = "packet_id_clear\<lparr>pid_rec := (pid_rec packet_id_clear)\<lparr>initialized := True\<rparr>\<rparr>"
  let ?r = "(pid_rec ?p)\<lparr>rec_time := 50, rec_id := 1, last_reap := 100\<rparr>"
  have init: "packet_id_init 0 0 = Some ?p" by (simp add: packet_id_init_def)
  have run: "run_receive packet_id_receive [(100, ?k)] (pid_rec ?p) = Some ([?k], ?r)"
    by (simp add: packet_id_clear_def packet_id_receive_def packet_id_reap_test_def
        packet_id_reap_def packet_id_test_def packet_id_add_def)
  have "\<exists>r'. packet_id_receive 101 ?r ?k = Some (False, r')"
    by (rule accepted_then_rejected[OF init _ run]) simp_all
  then show ?thesis using init run by blast
qed

section \<open>The window is exact when nothing expires\<close>

text \<open>
  The specification of the sliding window: the newest time, the highest identifier of that time,
  and the identifiers accepted under it.
\<close>

record window_spec =
  ws_time :: time_t
  ws_high :: nat
  ws_seen :: "nat set"

definition window_receive :: "nat \<Rightarrow> window_spec \<Rightarrow> packet_id_net \<Rightarrow> bool \<times> window_spec" where
  "window_receive bt w k =
     (let i = unat (pin_id k) in
      if 0 < i \<and> ws_time w < pin_time k
      then (True, \<lparr>ws_time = pin_time k, ws_high = i, ws_seen = {i}\<rparr>)
      else if 0 < i \<and> pin_time k = ws_time w \<and> ws_high w < i + bt \<and> i \<notin> ws_seen w
      then (True, w\<lparr>ws_high := max (ws_high w) i, ws_seen := insert i (ws_seen w)\<rparr>)
      else (False, w))"

definition window_rel :: "packet_id_rec \<Rightarrow> window_spec \<Rightarrow> bool" where
  "window_rel p w \<longleftrightarrow> wf_rec p \<and> seq_backtrack p \<noteq> 0 \<and> time_backtrack p = 0 \<and>
     rec_time p = ws_time w \<and> unat (rec_id p) = ws_high w \<and>
     length (rec_window p) = min (nat (seq_backtrack p)) (ws_high w) \<and>
     (\<forall>i \<in> ws_seen w. i \<le> ws_high w) \<and>
     (\<forall>d < length (rec_window p). (rec_window p ! d \<noteq> 0) = (ws_high w - d \<in> ws_seen w))"

lemma window_rel_test:
  assumes "window_rel p w"
  shows "packet_id_test p k = Some (fst (window_receive (nat (seq_backtrack p)) w k))"
proof -
  have bt: "wf_rec p" "seq_backtrack p \<noteq> 0" using assms by (auto simp: window_rel_def)
  let ?d = "ws_high w - unat (pin_id k)"
  have high: "ws_high w < unat (pin_id k) \<Longrightarrow> unat (pin_id k) \<notin> ws_seen w"
    using assms by (fastforce simp: window_rel_def)
  have cell: "rec_window p ! ?d = 0 \<longleftrightarrow> unat (pin_id k) \<notin> ws_seen w"
    if "?d < length (rec_window p)" "unat (pin_id k) \<le> ws_high w"
    using assms that by (auto simp: window_rel_def)
  have len: "?d < length (rec_window p) \<longleftrightarrow> ws_high w < unat (pin_id k) + nat (seq_backtrack p)"
    if "0 < unat (pin_id k)" "unat (pin_id k) \<le> ws_high w"
    using assms that by (auto simp: window_rel_def)
  have eqs: "rec_time p = ws_time w" "unat (rec_id p) = ws_high w"
    using assms by (auto simp: window_rel_def)
  have nz: "pin_id k \<noteq> 0 \<longleftrightarrow> 0 < unat (pin_id k)" by (simp add: unat_gt_0)
  show ?thesis
  proof (cases "ws_high w < unat (pin_id k)")
    case True
    then show ?thesis
      using high by (auto simp: packet_id_test_backtrack[OF bt] eqs nz window_receive_def Let_def
          word_less_nat_alt simp del: unat_gt_0)
  next
    case False
    then show ?thesis
      using cell len by (auto simp: packet_id_test_backtrack[OF bt] eqs nz window_receive_def Let_def
          word_less_nat_alt not_less simp del: unat_gt_0)
  qed
qed

lemma packet_id_add_time_backtrack:
  "packet_id_add now p k = Some p' \<Longrightarrow> time_backtrack p' = time_backtrack p"
  by (auto simp: packet_id_add_def pid_restart_def Let_def
      split: option.splits if_splits Option.bind_splits)

lemma window_rel_reap:
  "window_rel p w \<Longrightarrow> \<exists>p'. packet_id_reap_test now p = Some p' \<and> window_rel p' w \<and>
     seq_backtrack p' = seq_backtrack p"
  by (auto simp: packet_id_reap_test_def packet_id_reap_def window_rel_def wf_rec_def rec_window_def
      split: option.splits)

lemma window_rel_restart:
  assumes rel: "window_rel p w" and acc: "fst (window_receive (nat (seq_backtrack p)) w k)"
    and restart: "pid_restarts p k"
    and w': "w' = snd (window_receive (nat (seq_backtrack p)) w k)"
  shows "ws_time w' = pin_time k" "ws_high w' = unat (pin_id k)"
    "\<forall>i \<in> ws_seen w'. i \<le> ws_high w'"
    "d < min (nat (seq_backtrack p)) (unat (pin_id k)) \<Longrightarrow>
       (d = 0) = (unat (pin_id k) - d \<in> ws_seen w')"
proof -
  have empty: "rec_window p = [] \<Longrightarrow> ws_high w = 0"
    using rel by (auto simp: window_rel_def wf_rec_def)
  have jump: "pin_time k = ws_time w \<Longrightarrow> rec_window p = [] \<or> ws_high w + nat (seq_backtrack p) < unat (pin_id k)"
    using restart rel by (auto simp: pid_restarts_def window_rel_def)
  have seen: "i \<in> ws_seen w \<Longrightarrow> i \<le> ws_high w" for i using rel by (auto simp: window_rel_def)
  show time_high: "ws_time w' = pin_time k" "ws_high w' = unat (pin_id k)"
    using acc empty jump by (auto simp: w' window_receive_def Let_def max_def split: if_splits)
  show "\<forall>i \<in> ws_seen w'. i \<le> ws_high w'"
  proof
    fix i assume "i \<in> ws_seen w'"
    then have "i = unat (pin_id k) \<or> i \<le> ws_high w \<and> ws_high w \<le> ws_high w'"
      using acc seen by (auto simp: w' window_receive_def Let_def split: if_splits)
    then show "i \<le> ws_high w'" using time_high by auto
  qed
  show "(d = 0) = (unat (pin_id k) - d \<in> ws_seen w')"
    if "d < min (nat (seq_backtrack p)) (unat (pin_id k))"
    using acc empty jump that seen[of "unat (pin_id k) - d"]
    by (auto simp: w' window_receive_def Let_def split: if_splits)
qed

lemma window_rel_slide:
  assumes rel: "window_rel p w" and acc: "fst (window_receive (nat (seq_backtrack p)) w k)"
    and slide: "\<not> pid_restarts p k"
  shows "snd (window_receive (nat (seq_backtrack p)) w k) =
      w\<lparr>ws_high := max (ws_high w) (unat (pin_id k)), ws_seen := insert (unat (pin_id k)) (ws_seen w)\<rparr>"
    "pin_time k = ws_time w" "pid_base p k = ws_high w"
  using assms by (auto simp: window_receive_def pid_restarts_def pid_base_def window_rel_def Let_def
      split: if_splits)

lemma window_rel_add:
  assumes rel: "window_rel p w" and acc: "fst (window_receive (nat (seq_backtrack p)) w k)"
    and now: "now > 1"
  shows "\<exists>p'. packet_id_add now p k = Some p' \<and> seq_backtrack p' = seq_backtrack p \<and>
    window_rel p' (snd (window_receive (nat (seq_backtrack p)) w k))"
proof -
  have wf: "wf_rec p" "seq_backtrack p \<noteq> 0" "time_backtrack p = 0" using rel by (auto simp: window_rel_def)
  obtain p' where p': "packet_id_add now p k = Some p'" "wf_rec p'"
    and sb: "seq_backtrack p' = seq_backtrack p"
    and time': "rec_time p' = (if pid_restarts p k then pin_time k else rec_time p)"
    and id': "unat (rec_id p') = max (pid_base p k) (unat (pin_id k))"
    and win': "rec_window p' = (pid_cells p k)[unat (rec_id p') - unat (pin_id k) := now]"
    using packet_id_add_backtrack[OF wf(1,2) now] by blast
  have tb: "time_backtrack p' = 0" using packet_id_add_time_backtrack[OF p'(1)] wf by simp
  define w' where "w' = snd (window_receive (nat (seq_backtrack p)) w k)"
  have "window_rel p' w'"
  proof (cases "pid_restarts p k")
    case True
    note w = window_rel_restart[OF rel acc True w'_def]
    have len: "length (pid_cells p k) = min (nat (seq_backtrack p)) (unat (pin_id k))"
      using True by (auto simp: length_pid_cells pid_base_def)
    have id: "unat (rec_id p') = unat (pin_id k)" using True id' by (simp add: pid_base_def)
    have "(rec_window p' ! d \<noteq> 0) = (d = 0)" if "d < length (pid_cells p k)" for d
      using that True now id by (cases "d = 0") (simp_all add: win' pid_cells_nth)
    then show ?thesis
      using True w len p' tb wf sb time' id by (auto simp: window_rel_def win')
  next
    case False
    note w = window_rel_slide[OF rel acc False]
    have old: "rec_time p = ws_time w" "length (rec_window p) = min (nat (seq_backtrack p)) (ws_high w)"
      "\<And>i. i \<in> ws_seen w \<Longrightarrow> i \<le> ws_high w"
      "\<And>d. d < length (rec_window p) \<Longrightarrow> (rec_window p ! d \<noteq> 0) = (ws_high w - d \<in> ws_seen w)"
      using rel by (auto simp: window_rel_def)
    have high': "unat (rec_id p') = ws_high w'" using id' w by (simp add: w'_def)
    have len: "length (pid_cells p k) = min (nat (seq_backtrack p)) (ws_high w')"
      using False w(3) old(2) by (auto simp: length_pid_cells w'_def w(1) min_def max_def)
    have "(rec_window p' ! d \<noteq> 0) = (ws_high w' - d \<in> ws_seen w')" if d: "d < length (pid_cells p k)" for d
    proof (cases "d = ws_high w' - unat (pin_id k)")
      case True
      then show ?thesis using d now by (simp add: win' high' w'_def w(1))
    next
      case other: False
      let ?m = "unat (pin_id k) - ws_high w"
      have "d < ?m \<Longrightarrow> ws_high w < ws_high w' - d" by (simp add: w'_def w(1))
      moreover have "\<not> d < ?m \<Longrightarrow> ws_high w' - d = ws_high w - (d - ?m) \<and> d - ?m < length (rec_window p)"
        using d len old(2) by (auto simp: w'_def w(1) max_def split: if_splits)
      moreover have "ws_high w' - d \<noteq> unat (pin_id k)" using other d len by (auto simp: w'_def w(1) max_def split: if_splits)
      ultimately show ?thesis
        using d other False old(3)[of "ws_high w' - d"] old(4)[of "d - ?m"]
        by (auto simp: win' high' pid_cells_nth w'_def w)
    qed
    then show ?thesis
      using p' tb wf sb time' False len old(1,3) high'
      by (auto simp: window_rel_def win' w'_def w intro: max.coboundedI1)
  qed
  then show ?thesis using p' sb by (auto simp: w'_def)
qed

lemma window_rel_run:
  assumes "window_rel p w" and "\<forall>(now, k) \<in> set es. now > 1" and "n = nat (seq_backtrack p)"
  shows "\<exists>ks r w'. run_receive packet_id_receive es p = Some (ks, r) \<and>
    run_receive (\<lambda>now w k. Some (window_receive n w k)) es w = Some (ks, w') \<and> window_rel r w'"
  using assms
proof (induction es arbitrary: p w)
  case (Cons e es)
  obtain now k where e: "e = (now, k)" by (cases e)
  have now: "now > 1" "\<forall>(now, k) \<in> set es. now > 1" using Cons.prems(2) e by auto
  obtain p1 where p1: "packet_id_reap_test now p = Some p1" "window_rel p1 w"
    "seq_backtrack p1 = seq_backtrack p"
    using window_rel_reap[OF Cons.prems(1)] by blast
  obtain ok w1 where wr: "window_receive n w k = (ok, w1)" by (cases "window_receive n w k")
  obtain p2 where p2: "packet_id_receive now p k = Some (ok, p2)" "window_rel p2 w1"
    "seq_backtrack p2 = seq_backtrack p"
  proof (cases ok)
    case True
    then show ?thesis
      using that window_rel_add[OF p1(2) _ now(1), of k] window_rel_test[OF p1(2), of k] p1 wr Cons.prems(3)
      by (auto simp: packet_id_receive_def)
  next
    case False
    then have "w1 = w" using wr by (auto simp: window_receive_def Let_def split: if_splits)
    then show ?thesis
      using that False window_rel_test[OF p1(2), of k] p1 wr Cons.prems(3)
      by (auto simp: packet_id_receive_def)
  qed
  show ?case using Cons.IH[OF p2(2) now(2)] p2 wr e Cons.prems(3) by auto
qed simp



section \<open>Sender and receiver\<close>

fun alloc_many ::
  "time_t list \<Rightarrow> packet_id_send \<Rightarrow> bool \<Rightarrow> (packet_id_net list \<times> packet_id_send) option" where
  "alloc_many [] p long_form = Some ([], p)"
| "alloc_many (t # ts) p long_form =
     (case packet_id_alloc_outgoing t p long_form of
        None \<Rightarrow> None
      | Some (k, p') \<Rightarrow> map_option (map_prod (Cons k) id) (alloc_many ts p' long_form))"

lemma alloc_many_ids:
  assumes "unat (send_id p) + length ts < 2 ^ 32" "send_time p \<noteq> 0"
  shows "alloc_many ts p long_form =
    Some (map (\<lambda>i. \<lparr>pin_id = send_id p + of_nat (Suc i), pin_time = send_time p\<rparr>) [0..<length ts],
          p\<lparr>send_id := send_id p + of_nat (length ts)\<rparr>)"
  using assms
proof (induction ts arbitrary: p)
  case (Cons t ts)
  have next_id: "unat (send_id p + 1) = unat (send_id p) + 1" using Cons.prems by (intro unat_suc) simp
  then have "send_id p + 1 \<noteq> 0" by (metis unat_0 add_is_0 zero_neq_one)
  then have "packet_id_alloc_outgoing t p long_form =
      Some (\<lparr>pin_id = send_id p + 1, pin_time = send_time p\<rparr>, p\<lparr>send_id := send_id p + 1\<rparr>)"
    using Cons.prems(2) by (simp add: packet_id_alloc_outgoing_def)
  moreover have "map f [0..<Suc n] = f 0 # map (\<lambda>i. f (Suc i)) [0..<n]" for f :: "nat \<Rightarrow> packet_id_net" and n
    by (simp add: upt_rec[of 0] map_Suc_upt[symmetric] comp_def del: upt_Suc)
  ultimately show ?case
    using Cons.IH[of "p\<lparr>send_id := send_id p + 1\<rparr>"] Cons.prems next_id
    by (simp add: algebra_simps del: upt_Suc)
qed simp

lemma reap_test_keeps:
  assumes "rec_inv p" "packet_id_reap_test now p = Some p'"
  shows "rec_time p' = rec_time p" "rec_id p' = rec_id p" "seq_backtrack p' = seq_backtrack p"
  using assms
  by (auto simp: packet_id_reap_test_def packet_id_reap_def
      split: if_splits option.splits Option.bind_splits)

lemma add_newer:
  assumes "rec_inv p" "now > 1" "rec_id p < pin_id k" "rec_time p \<le> pin_time k"
    "packet_id_add now p k = Some p'"
  shows "rec_id p' = pin_id k" "rec_time p' = pin_time k"
proof -
  have wf: "wf_rec p" using assms(1) by (simp add: rec_inv_def)
  have "unat (rec_id p') = unat (pin_id k) \<and> rec_time p' = pin_time k"
  proof (cases "seq_backtrack p = 0")
    case True
    then show ?thesis using wf assms(5) by (auto simp: packet_id_add_def wf_rec_def)
  next
    case False
    have "pid_base p k \<le> unat (pin_id k)"
      using assms(3) by (auto simp: pid_base_def word_less_nat_alt)
    then show ?thesis
      using packet_id_add_backtrack[OF wf False assms(2), of k] assms(4,5)
      by (auto simp: max_def pid_restarts_def split: if_splits)
  qed
  then show "rec_id p' = pin_id k" "rec_time p' = pin_time k" by (simp_all add: word_unat_eq_iff)
qed

text \<open>A fresh identifier that follows the highest one of the same sender time is accepted.\<close>

lemma receive_next:
  assumes inv: "rec_inv p" and now: "now > 1"
    and time: "rec_time p = t \<or> rec_time p < t \<and> rec_id p = 0"
    and nxt: "unat (rec_id p) + 1 < 2 ^ 32"
  shows "\<exists>p'. packet_id_receive now p \<lparr>pin_id = rec_id p + 1, pin_time = t\<rparr> = Some (True, p') \<and>
    rec_inv p' \<and> rec_id p' = rec_id p + 1 \<and> rec_time p' = t"
proof -
  let ?k = "\<lparr>pin_id = rec_id p + 1, pin_time = t\<rparr>"
  obtain p1 where p1: "packet_id_reap_test now p = Some p1" "rec_inv p1"
    using reap_test_dead[OF inv] by blast
  note kept = reap_test_keeps[OF inv p1(1)]
  have wf1: "wf_rec p1" using p1(2) by (simp add: rec_inv_def)
  have id: "rec_id p < rec_id p + 1" "rec_id p + 1 \<noteq> 0"
    using unat_suc[OF nxt] by (auto simp: word_less_nat_alt unat_eq_zero)
  have test: "packet_id_test p1 ?k = Some True"
    using time id kept packet_id_test_backtrack[OF wf1, of ?k] packet_id_test_sequential[OF wf1, of ?k]
    by (cases "seq_backtrack p1 = 0") auto
  obtain p2 where p2: "packet_id_add now p1 ?k = Some p2" "rec_inv p2"
    using add_backtrack_dead[OF p1(2) _ now test] add_sequential_dead[OF p1(2) _ test] by metis
  then show ?thesis
    using p1 test add_newer[OF p1(2) now _ _ p2(1)] id time kept by (auto simp: packet_id_receive_def)
qed

lemma receive_in_order:
  assumes "rec_inv p" "\<forall>now \<in> set nows. now > 1"
    and "rec_time p = t \<or> rec_time p < t \<and> rec_id p = 0"
    and "unat (rec_id p) + length nows < 2 ^ 32"
    and "ks = map (\<lambda>i. \<lparr>pin_id = rec_id p + of_nat (Suc i), pin_time = t\<rparr>) [0..<length nows]"
  shows "\<exists>p'. run_receive packet_id_receive (zip nows ks) p = Some (ks, p')"
  using assms
proof (induction nows arbitrary: p ks)
  case (Cons now nows)
  have "now > 1" and len: "unat (rec_id p) + 1 < 2 ^ 32" using Cons.prems by auto
  then obtain p' where p': "packet_id_receive now p \<lparr>pin_id = rec_id p + 1, pin_time = t\<rparr> = Some (True, p')"
    "rec_inv p'" "rec_id p' = rec_id p + 1" "rec_time p' = t"
    using receive_next[OF Cons.prems(1) _ Cons.prems(3)] by blast
  define ks' where "ks' = map (\<lambda>i. \<lparr>pin_id = rec_id p' + of_nat (Suc i), pin_time = t\<rparr>) [0..<length nows]"
  have ks: "ks = \<lparr>pin_id = rec_id p + 1, pin_time = t\<rparr> # ks'"
    unfolding Cons.prems(5) ks'_def p'(3)
    by (simp add: upt_rec[of 0] map_Suc_upt[symmetric] comp_def algebra_simps del: upt_Suc)
  show ?case
    using Cons.IH[OF p'(2) _ _ _ ks'_def] Cons.prems(2,4) p' unat_suc[OF len] by (auto simp: ks)
qed simp

text \<open>
  C28: packets delivered in order are all accepted.  Whatever identifiers packet_id_alloc_outgoing
  hands out from a fresh sender (fewer than 2^32 of them, at any clock values), a freshly
  initialised receiver of either mode that gets them in order accepts every one.
\<close>

theorem in_order_all_accepted:
  assumes "packet_id_init sb tb = Some p"
    and "alloc_many (t # ts) \<lparr>send_id = 0, send_time = 0\<rparr> long_form = Some (ks, snd_state)"
    and "t > 0" and "length (t # ts) < 2 ^ 32"
    and "length nows = length ks" and "\<forall>now \<in> set nows. now > 1"
  shows "\<exists>r. run_receive packet_id_receive (zip nows ks) (pid_rec p) = Some (ks, r)"
proof -
  have "alloc_many (t # ts) \<lparr>send_id = 0, send_time = 0\<rparr> long_form
      = alloc_many (t # ts) \<lparr>send_id = 0, send_time = t\<rparr> long_form"
    using assms(3) by (simp add: packet_id_alloc_outgoing_def)
  then have ks: "ks = map (\<lambda>i. \<lparr>pin_id = of_nat (Suc i), pin_time = t\<rparr>) [0..<length (t # ts)]"
    using assms(2,3,4) alloc_many_ids[of "\<lparr>send_id = 0, send_time = t\<rparr>" "t # ts" long_form]
    by (simp del: upt_Suc alloc_many.simps)
  then have len: "length nows = length (t # ts)" using assms(5) by simp
  have init: "rec_time (pid_rec p) = 0" "rec_id (pid_rec p) = 0" using wf_rec_init[OF assms(1)] by auto
  show ?thesis
    by (rule receive_in_order[OF rec_inv_init[OF assms(1)] assms(6), of t])
       (use assms(3,4) len ks init in \<open>simp_all del: upt_Suc\<close>)
qed

theorem in_order_all_accepted_witness:
  "\<exists>r. run_receive packet_id_receive
     (zip [100, 101] [\<lparr>pin_id = 1, pin_time = 60\<rparr>, \<lparr>pin_id = 2, pin_time = 60\<rparr>])
     (pid_rec (the (packet_id_init 64 15)))
     = Some ([\<lparr>pin_id = 1, pin_time = 60\<rparr>, \<lparr>pin_id = 2, pin_time = 60\<rparr>], r)"
  by (rule in_order_all_accepted[of 64 15 _ 60 "[61]" True _ "\<lparr>send_id = 2, send_time = 60\<rparr>"])
     (simp_all add: packet_id_init_def packet_id_alloc_outgoing_def)

section \<open>Identifiers on the wire\<close>

definition pid_wire :: "packet_id_net \<Rightarrow> bool \<Rightarrow> byte list" where
  "pid_wire k long_form = be32 (pin_id k) @ (if long_form then be32 (word_of_int (pin_time k)) else [])"

lemma length_pid_wire [codec]: "int (length (pid_wire k long_form)) = packet_id_size long_form"
  by (simp add: pid_wire_def packet_id_size_def)

lemma packet_id_write_prepend_mk_buf:
  assumes "packet_id_size long_form \<le> int (length pre)"
  shows "packet_id_write k (mk_buf pre c post) long_form True
    = Some (True, mk_buf (take (length pre - length (pid_wire k long_form)) pre)
        (pid_wire k long_form @ c) post)"
  using assms
  by (cases long_form)
     (auto simp: packet_id_write_def pid_wire_def packet_id_size_def of_nat_diff min_def)

lemma packet_id_write_append_mk_buf:
  assumes "packet_id_size long_form \<le> int (length post)"
  shows "packet_id_write k (mk_buf pre c post) long_form False
    = Some (True, mk_buf pre (c @ pid_wire k long_form) (drop (length (pid_wire k long_form)) post))"
  using assms by (auto simp: packet_id_write_def pid_wire_def packet_id_size_def)

lemma packet_id_read_mk_buf:
  "packet_id_read (mk_buf pre (pid_wire k long_form @ c) post) long_form
     = Some ((True, \<lparr>pin_id = pin_id k,
                     pin_time = (if long_form then pin_time k mod 2 ^ 32 else 0)\<rparr>),
             mk_buf (pre @ pid_wire k long_form) c post)"
  by (simp add: packet_id_read_def pid_wire_def uint_word_of_int)

lemma packet_id_read_short:
  "int (length c) < packet_id_size long_form \<Longrightarrow>
     \<exists>k b. packet_id_read (mk_buf pre c post) long_form = Some ((False, k), b) \<and> live_buf b"
  by (auto simp: packet_id_read_def packet_id_size_def split: if_splits)

text \<open>
  packet_id_write and packet_id_read are inverse.  A packet identifier prepended to a packet
  with enough headroom is read back by the peer, in the short form (the time is not transmitted
  and reads as zero) and in the long form (the low 32 bits of the time), and the packet behind it
  is unchanged.
\<close>

theorem packet_id_prepend_read:
  assumes "live_buf b" and "packet_id_size long_form \<le> offset b"
  shows "\<exists>b1 b2. packet_id_write k b long_form True = Some (True, b1) \<and>
    packet_id_read b1 long_form
      = Some ((True, \<lparr>pin_id = pin_id k, pin_time = (if long_form then pin_time k mod 2 ^ 32 else 0)\<rparr>), b2) \<and>
    content b2 = content b"
proof -
  obtain pre c post where b: "b = mk_buf pre c post" using assms(1) by (rule live_bufE)
  show ?thesis
    using assms(2) packet_id_write_prepend_mk_buf[of long_form pre k c post]
    by (auto simp: b packet_id_read_mk_buf)
qed

theorem packet_id_prepend_read_witness:
  "\<exists>b1 b2. packet_id_write \<lparr>pin_id = 258, pin_time = 77\<rparr> (mk_buf (replicate 12 0) [1, 2, 3] []) True True
      = Some (True, b1) \<and>
    packet_id_read b1 True
      = Some ((True, \<lparr>pin_id = pin_id \<lparr>pin_id = 258, pin_time = 77\<rparr>,
                pin_time = (if True then pin_time \<lparr>pin_id = 258, pin_time = 77\<rparr> mod 2 ^ 32 else 0)\<rparr>), b2) \<and>
    content b2 = content (mk_buf (replicate 12 0) [1, 2, 3] [])"
  by (rule packet_id_prepend_read) (simp_all add: packet_id_size_def)

lemma reap_no_expiry:
  assumes "wf_rec p" "time_backtrack p = 0"
  shows "\<exists>p'. packet_id_reap_test now p = Some p' \<and> wf_rec p' \<and> rec_window p' = rec_window p \<and>
    seq_backtrack p' = seq_backtrack p \<and> time_backtrack p' = 0 \<and> rec_time p' = rec_time p \<and>
    rec_id p' = rec_id p"
  using assms
  by (auto simp: packet_id_reap_test_def packet_id_reap_def wf_rec_def rec_window_def
      split: option.splits)

section \<open>Replay state loaded from a file\<close>

text \<open>
  A state that packet_id_persist_load_obj restored rejects, as long as nothing new has
  arrived, every identifier up to and including the one that was saved.
\<close>

theorem persist_rejects_saved:
  assumes "packet_id_init sb tb = Some p" "packet_id_persist_enabled s" "persist_time s \<noteq> 0"
    and "pin_time k < persist_time s \<or> pin_time k = persist_time s \<and> pin_id k \<le> persist_id s"
  shows "packet_id_test (pid_rec (packet_id_persist_load_obj s p)) k = Some False"
proof (rule pid_dead_rejected)
  let ?r = "pid_rec (packet_id_persist_load_obj s p)"
  have r: "?r = (pid_rec p)\<lparr>rec_time := persist_time s, rec_id := persist_id s\<rparr>"
    using assms(2,3) by (simp add: packet_id_persist_load_obj_def)
  show "wf_rec ?r" "pid_dead ?r k"
    using wf_rec_init[OF assms(1)] assms(4)
    by (auto simp: r wf_rec_def pid_dead_def rec_window_def Let_def split: option.splits if_splits)
qed

theorem persist_rejects_saved_witness:
  "packet_id_test (pid_rec (packet_id_persist_load_obj
      \<lparr>persist_fd = 3, persist_time = 50, persist_id = 100, time_last_written = 50, id_last_written = 100\<rparr>
      (the (packet_id_init 64 15)))) \<lparr>pin_id = 100, pin_time = 50\<rparr> = Some False"
  by (rule persist_rejects_saved[of 64 15])
     (simp_all add: packet_id_init_def packet_id_persist_enabled_def)



end
