(* ===== verification/Control_Channel.thy ===== *)
theory Control_Channel
  imports Reliable Replay
begin

text \<open>
  The control channel as a transition system over the operations of reliable.c, in the order
  tls_process and tls_pre_decrypt of ssl.c call them: delivery in order, progress, safety of the
  receive path for arbitrary packets, and an attack on the receive window.
\<close>

section \<open>The channel\<close>

text \<open>
  Two peers, one direction: the sender's window, the receiver's window and pending
  acknowledgements, the packets that have been put on the network (it may lose, repeat and
  reorder them, so a packet once sent stays available), the identifiers the receiver has
  acknowledged, and what the TLS layer handed in and got out.
\<close>

record channel =
  ch_send :: reliable
  ch_rec :: reliable
  ch_ack :: reliable_ack
  ch_net :: "byte list set"
  ch_acked :: "packet_id_type set"
  ch_sent :: "byte list list"
  ch_delivered :: "byte list list"

inductive ch_step :: "channel \<Rightarrow> channel \<Rightarrow> bool" where
  queue: "reliable_queue (ch_send s) p op1 = Some rel \<Longrightarrow>
    ch_step s (s\<lparr>ch_send := rel, ch_sent := ch_sent s @ [p]\<rparr>)"
| transmit: "reliable_send now (ch_send s) = (Some (i, op1), rel) \<Longrightarrow>
    ch_step s (s\<lparr>ch_send := rel,
      ch_net := insert (content (entry_buf (rel_array rel ! i))) (ch_net s)\<rparr>)"
| arrive: "content b \<in> ch_net s \<Longrightarrow> live_buf b \<Longrightarrow>
    control_incoming op1 (ch_rec s) (ch_ack s) b = Some (rel, ack, b') \<Longrightarrow>
    ch_step s (s\<lparr>ch_rec := rel, ch_ack := ack\<rparr>)"
| acknowledge: "reliable_ack_write (ch_ack s) b sid mx prepend = Some (True, ack, b') \<Longrightarrow> live_buf b \<Longrightarrow>
    0 \<le> mx \<Longrightarrow>
    ch_step s (s\<lparr>ch_ack := ack, ch_acked := ch_acked s \<union> set (ack_written (ch_ack s) mx)\<rparr>)"
| purge: "set (ack_set ack) \<subseteq> ch_acked s \<Longrightarrow>
    ch_step s (s\<lparr>ch_send := reliable_send_purge (ch_send s) ack\<rparr>)"
| deliver: "reliable_get_buf_sequenced (ch_rec s) = Some i \<Longrightarrow>
    reliable_mark_deleted (ch_rec s) i True = Some rel \<Longrightarrow>
    ch_step s (s\<lparr>ch_rec := rel,
      ch_delivered := ch_delivered s @ [content (entry_buf (rel_array (ch_rec s) ! i))]\<rparr>)"
| reschedule: "ch_step s (s\<lparr>ch_send := reliable_schedule_now now (ch_send s)\<rparr>)"

inductive_cases ch_stepE: "ch_step s s'"

definition ch_init :: "(nat \<Rightarrow> byte) \<Rightarrow> int \<Rightarrow> int \<Rightarrow> channel option" where
  "ch_init junk buf_size off = do {
     send \<leftarrow> reliable_init junk buf_size off 4;
     rcv \<leftarrow> reliable_init junk buf_size off 8;
     Some \<lparr>ch_send = send, ch_rec = rcv, ch_ack = empty_ack, ch_net = {}, ch_acked = {},
           ch_sent = [], ch_delivered = []\<rparr>
   }"

section \<open>Invariant\<close>

text \<open>Identifier \<open>pid\<close> stands for the payload at its position in what was sent.\<close>

definition stands_for :: "byte list list \<Rightarrow> packet_id_type \<Rightarrow> byte list \<Rightarrow> bool" where
  "stands_for sent pid p \<longleftrightarrow> unat pid < length sent \<and> p = sent ! unat pid"

definition ch_received :: "channel \<Rightarrow> packet_id_type \<Rightarrow> bool" where
  "ch_received s pid \<longleftrightarrow> pid < rel_id (ch_rec s) \<or> pid \<in> dom (slots (ch_rec s))"

definition send_inv :: "int \<Rightarrow> int \<Rightarrow> channel \<Rightarrow> bool" where
  "send_inv cap off s \<longleftrightarrow> rel_ok cap (ch_send s) \<and> rel_offset (ch_send s) = off \<and>
     unat (rel_id (ch_send s)) = length (ch_sent s) \<and>
     (\<forall>pid c. slots (ch_send s) pid = Some c \<longrightarrow> (\<exists>p. stands_for (ch_sent s) pid p \<and> c = be32 pid @ p)) \<and>
     (\<forall>pid. unat pid < length (ch_sent s) \<longrightarrow> pid \<in> dom (slots (ch_send s)) \<or> pid \<in> ch_acked s) \<and>
     (\<forall>p \<in> set (ch_sent s). int (length p) \<le> cap - off)"

definition rec_window_inv :: "int \<Rightarrow> int \<Rightarrow> channel \<Rightarrow> bool" where
  "rec_window_inv cap off s \<longleftrightarrow> rel_ok cap (ch_rec s) \<and> rel_offset (ch_rec s) = off \<and>
     rel_size (ch_rec s) = 8 \<and> unat (rel_id (ch_rec s)) \<le> length (ch_sent s) \<and>
     (\<forall>pid p. slots (ch_rec s) pid = Some p \<longrightarrow> stands_for (ch_sent s) pid p \<and>
        rel_id (ch_rec s) \<le> pid \<and> unat pid < unat (rel_id (ch_rec s)) + 8)"

definition net_inv :: "channel \<Rightarrow> bool" where
  "net_inv s \<longleftrightarrow> (\<forall>c \<in> ch_net s. \<exists>pid p. stands_for (ch_sent s) pid p \<and> c = be32 pid @ p) \<and>
     wf_ack (ch_ack s) \<and> (\<forall>pid \<in> set (ack_set (ch_ack s)) \<union> ch_acked s. ch_received s pid)"

definition ch_inv :: "int \<Rightarrow> int \<Rightarrow> channel \<Rightarrow> bool" where
  "ch_inv cap off s \<longleftrightarrow> send_inv cap off s \<and> rec_window_inv cap off s \<and> net_inv s \<and>
     ch_delivered s = take (unat (rel_id (ch_rec s))) (ch_sent s)"

lemma sint_nonneg: "unat (d :: u32) < 2 ^ 31 \<Longrightarrow> sint d = int (unat d)"
proof -
  assume "unat d < 2 ^ 31"
  then have "unat d < 2147483648" by simp
  then have "int (unat d) < 2147483648" by linarith
  then have "uint d < 2147483648" by simp
  moreover have "- (2 ^ 31) \<le> uint d" by (rule order_trans[OF _ uint_ge_0]) simp
  ultimately have "signed_take_bit 31 (uint d) = uint d"
    by (intro signed_take_bit_int_eq_self) simp_all
  then show ?thesis by (simp add: sint_uint)
qed

lemma reliable_ack_write_abs:
  assumes "reliable_ack_write ack b sid mx prepend = Some (True, ack', b')" "wf_ack ack" "0 \<le> mx"
  shows "wf_ack ack'" "ack_set ack' = drop (length (ack_written ack mx)) (ack_set ack)"
proof -
  note cnt = ack_write_count[OF assms(2,3)] and left = ack_left_over[OF assms(2,3)]
  have "n = 0 \<Longrightarrow> length (ack_written ack mx) = 0"
    if "unat n = length (ack_written ack mx)" for n :: byte using that by simp
  then show "wf_ack ack'" "ack_set ack' = drop (length (ack_written ack mx)) (ack_set ack)"
    using assms(1,2) left cnt(1)
    unfolding reliable_ack_write_def
    by (auto simp: Let_def split: if_splits Option.bind_splits prod.splits)
qed

lemma stands_for_snoc: "stands_for sent pid p \<Longrightarrow> stands_for (sent @ [q]) pid p"
  by (auto simp: stands_for_def nth_append)

lemma ch_inv_queue:
  assumes inv: "ch_inv cap off s" and q: "reliable_queue (ch_send s) p op1 = Some rel"
    and bound: "length (ch_sent s) + 1 < 2 ^ 32"
  shows "ch_inv cap off (s\<lparr>ch_send := rel, ch_sent := ch_sent s @ [p]\<rparr>)"
proof -
  let ?s' = "s\<lparr>ch_send := rel, ch_sent := ch_sent s @ [p]\<rparr>" and ?n = "rel_id (ch_send s)"
  have n: "unat ?n = length (ch_sent s)" "unat (?n + 1) = length (ch_sent s) + 1"
    using inv bound unat_suc[of ?n] by (auto simp: ch_inv_def send_inv_def)
  have "unat pid < length (ch_sent s)" if "pid \<in> dom (slots (ch_send s))" for pid
    using inv that unfolding ch_inv_def send_inv_def stands_for_def by blast
  then have fresh: "?n \<notin> dom (slots (ch_send s))" using n(1) by fastforce
  have ok: "rel_ok cap (ch_send s)" using inv by (auto simp: ch_inv_def send_inv_def)
  note q' = reliable_queue_ok[OF ok q fresh]
  have new: "stands_for (ch_sent s @ [p]) ?n p" using n(1) by (simp add: stands_for_def)
  have eqn: "unat pid < Suc (length (ch_sent s)) \<Longrightarrow> unat pid < length (ch_sent s) \<or> pid = ?n" for pid
    using n(1) by (metis less_Suc_eq word_unat_eq_iff)
  have sinv: "send_inv cap off s" using inv by (simp add: ch_inv_def)
  have held: "\<exists>q. stands_for (ch_sent s @ [p]) pid q \<and> c = be32 pid @ q" if "slots rel pid = Some c" for pid c
  proof (cases "pid = ?n")
    case False
    then have "slots (ch_send s) pid = Some c" using that q'(2) by simp
    then obtain q where "stands_for (ch_sent s) pid q" "c = be32 pid @ q"
      using sinv unfolding send_inv_def by blast
    then show ?thesis using stands_for_snoc by blast
  qed (use that q'(2) new in auto)
  have kept: "pid \<in> dom (slots rel) \<or> pid \<in> ch_acked s" if "unat pid < Suc (length (ch_sent s))" for pid
    using eqn[OF that] sinv q'(2) unfolding send_inv_def by auto
  have "send_inv cap off ?s'"
    using sinv q' n held kept by (simp add: send_inv_def)
  moreover have "rec_window_inv cap off ?s'"
    using inv by (auto simp: ch_inv_def rec_window_inv_def stands_for_snoc)
  moreover have "net_inv ?s'"
    using inv stands_for_snoc[of "ch_sent s" _ _ p]
    by (simp add: ch_inv_def net_inv_def ch_received_def) blast
  moreover have "ch_delivered ?s' = take (unat (rel_id (ch_rec ?s'))) (ch_sent ?s')"
    using inv by (auto simp: ch_inv_def rec_window_inv_def)
  ultimately show ?thesis by (simp add: ch_inv_def)
qed

lemma ch_inv_arrive:
  assumes inv: "ch_inv cap off s" and net: "content b \<in> ch_net s" and live: "live_buf b"
    and ci: "control_incoming op1 (ch_rec s) (ch_ack s) b = Some (rel, ack, b')"
    and bound: "length (ch_sent s) + 8 < 2 ^ 31"
  shows "ch_inv cap off (s\<lparr>ch_rec := rel, ch_ack := ack\<rparr>)"
proof -
  let ?s' = "s\<lparr>ch_rec := rel, ch_ack := ack\<rparr>" and ?r = "ch_rec s"
  obtain pid p where p: "stands_for (ch_sent s) pid p" "content b = be32 pid @ p"
    using inv net by (auto simp: ch_inv_def net_inv_def)
  obtain pre post where b: "b = mk_buf pre (be32 pid @ p) post"
    using live p(2) by (rule live_buf_contentE)
  have rec: "rel_ok cap ?r" "rel_offset ?r = off" "rel_size ?r = 8" "unat (rel_id ?r) \<le> length (ch_sent s)"
    and ack0: "wf_ack (ch_ack s)"
    using inv by (auto simp: ch_inv_def rec_window_inv_def net_inv_def)
  have fits: "int (length p) \<le> cap - rel_offset ?r"
    using inv p(1) rec(2) by (auto simp: ch_inv_def send_inv_def stands_for_def)
  have window: "unat pid < unat (rel_id ?r) + 8" if "reliable_wont_break_sequentiality ?r pid"
  proof -
    have "sint pid = int (unat pid)" "sint (rel_id ?r) = int (unat (rel_id ?r))"
      using rec(4) p(1) bound by (auto intro!: sint_nonneg simp only: stands_for_def)
    then show ?thesis
      using that rec(3) unfolding reliable_wont_break_sequentiality_def by linarith
  qed
  note res = control_incoming_ok[OF rec(1) ack0 fits b, of op1]
  have rel: "rel_ok cap rel" "wf_ack ack" "rel_id rel = rel_id ?r" "rel_offset rel = off" "rel_size rel = 8"
    using res ci rec by auto
  have cases: "slots rel = slots ?r \<and> ack = ch_ack s \<or>
      reliable_wont_break_sequentiality ?r pid \<and> set (ack_set ack) \<subseteq> insert pid (set (ack_set (ch_ack s))) \<and>
      slots rel = (if reliable_not_replay ?r pid then (slots ?r)(pid \<mapsto> p) else slots ?r)"
    using res ci by (auto split: if_splits)
  have rw: "rec_window_inv cap off ?s'"
    using cases inv rel p window
    by (auto simp: ch_inv_def rec_window_inv_def reliable_not_replay_iff split: if_splits)
  have mono: "ch_received ?s' k" if "ch_received s k" for k
    using that cases rel(3) by (auto simp: ch_received_def split: if_splits)
  moreover have "ch_received ?s' k" if "k \<in> set (ack_set ack)" for k
  proof (cases "k \<in> set (ack_set (ch_ack s))")
    case True
    then show ?thesis using mono inv by (auto simp: ch_inv_def net_inv_def)
  next
    case False
    then have "k = pid" "slots rel = (if reliable_not_replay ?r pid then (slots ?r)(pid \<mapsto> p) else slots ?r)"
      using that cases by auto
    then show ?thesis using rel(3) by (auto simp: ch_received_def reliable_not_replay_iff split: if_splits)
  qed
  ultimately have "net_inv ?s'"
    using inv rel(2) by (auto simp: ch_inv_def net_inv_def)
  then show ?thesis using inv rel(3) rw by (auto simp: ch_inv_def send_inv_def)
qed

lemma ch_inv_deliver:
  assumes inv: "ch_inv cap off s" and seq: "reliable_get_buf_sequenced (ch_rec s) = Some i"
    and del: "reliable_mark_deleted (ch_rec s) i True = Some rel"
    and bound: "length (ch_sent s) + 8 < 2 ^ 31"
  shows "ch_inv cap off (s\<lparr>ch_rec := rel,
      ch_delivered := ch_delivered s @ [content (entry_buf (rel_array (ch_rec s) ! i))]\<rparr>)"
    (is "ch_inv cap off ?s'")
proof -
  let ?r = "ch_rec s" and ?d = "unat (rel_id (ch_rec s))"
  have rinv: "rec_window_inv cap off s" using inv by (simp add: ch_inv_def)
  have ok: "rel_ok cap ?r" using rinv by (simp add: rec_window_inv_def)
  note d = reliable_deliver_ok[OF ok seq del]
  have head: "?d < length (ch_sent s)" "content (entry_buf (rel_array ?r ! i)) = ch_sent s ! ?d"
    using rinv d(1) unfolding rec_window_inv_def stands_for_def by blast+
  have suc: "unat (rel_id ?r + 1) = ?d + 1" using head(1) bound by (intro unat_suc) simp
  have old: "stands_for (ch_sent s) pid p" "rel_id ?r \<le> pid" "unat pid < ?d + 8"
    if "slots ?r pid = Some p" for pid p using rinv that unfolding rec_window_inv_def by blast+
  have after: "rel_id ?r + 1 \<le> pid" if "slots ?r pid = Some p" "pid \<noteq> rel_id ?r" for pid p
    using old(2)[OF that(1)] that(2) suc by (simp add: word_le_nat_alt) (metis Suc_leI le_neq_implies_less word_unat_eq_iff)
  have "rec_window_inv cap off ?s'"
    using rinv d suc head(1) old after
    by (force simp: rec_window_inv_def split: if_splits)
  moreover have "ch_received ?s' k" if "ch_received s k" for k
    using that d suc by (auto simp: ch_received_def word_less_nat_alt less_Suc_eq word_unat_eq_iff)
  then have "net_inv ?s'" using inv by (auto simp: ch_inv_def net_inv_def)
  moreover have "ch_delivered s @ [ch_sent s ! ?d] = take (?d + 1) (ch_sent s)"
    using inv head(1) by (simp add: ch_inv_def take_Suc_conv_app_nth)
  ultimately show ?thesis
    using inv d(4) suc head(2) by (simp add: ch_inv_def send_inv_def)
qed

lemma ch_inv_transmit:
  assumes inv: "ch_inv cap off s" and snd: "reliable_send now (ch_send s) = (Some (i, op1), rel)"
  shows "ch_inv cap off (s\<lparr>ch_send := rel,
      ch_net := insert (content (entry_buf (rel_array rel ! i))) (ch_net s)\<rparr>)"
proof -
  have sinv: "send_inv cap off s" using inv by (simp add: ch_inv_def)
  then have ok: "rel_ok cap (ch_send s)" by (simp add: send_inv_def)
  have r: "rel_ok cap rel" "slots rel = slots (ch_send s)" "rel_id rel = rel_id (ch_send s)"
    "rel_offset rel = rel_offset (ch_send s)" "i < length (rel_entries (ch_send s))"
    "active (rel_array (ch_send s) ! i)"
    "entry_buf (rel_array rel ! i) = entry_buf (rel_array (ch_send s) ! i)"
    using reliable_send_ok[OF ok, of now] snd by auto
  have "slots (ch_send s) (entry_id (rel_array (ch_send s) ! i)) = Some (content (entry_buf (rel_array rel ! i)))"
    using slot_map_nth[OF r(5)] r ok by (simp add: slots_def rel_ok_def rel_entries_nth)
  then obtain p where "stands_for (ch_sent s) (entry_id (rel_array (ch_send s) ! i)) p"
    "content (entry_buf (rel_array rel ! i)) = be32 (entry_id (rel_array (ch_send s) ! i)) @ p"
    using sinv unfolding send_inv_def by blast
  then show ?thesis
    using inv r by (auto simp: ch_inv_def send_inv_def rec_window_inv_def net_inv_def ch_received_def)
qed

lemma ch_inv_other:
  assumes inv: "ch_inv cap off s"
  shows "ch_inv cap off (s\<lparr>ch_send := reliable_schedule_now now (ch_send s)\<rparr>)"
    and "set (ack_set ack) \<subseteq> ch_acked s \<Longrightarrow>
      ch_inv cap off (s\<lparr>ch_send := reliable_send_purge (ch_send s) ack\<rparr>)"
    and "reliable_ack_write (ch_ack s) b sid mx prepend = Some (True, ack, b') \<Longrightarrow> 0 \<le> mx \<Longrightarrow>
      ch_inv cap off (s\<lparr>ch_ack := ack, ch_acked := ch_acked s \<union> set (ack_written (ch_ack s) mx)\<rparr>)"
proof -
  have ok: "rel_ok cap (ch_send s)" using inv by (simp add: ch_inv_def send_inv_def)
  show "ch_inv cap off (s\<lparr>ch_send := reliable_schedule_now now (ch_send s)\<rparr>)"
    using inv reliable_schedule_now_ok[OF ok, of now]
    by (simp add: ch_inv_def send_inv_def rec_window_inv_def net_inv_def ch_received_def)
  show "ch_inv cap off (s\<lparr>ch_send := reliable_send_purge (ch_send s) ack\<rparr>)" if "set (ack_set ack) \<subseteq> ch_acked s"
    using inv that reliable_send_purge_ok[OF ok, of ack]
    by (auto simp: ch_inv_def send_inv_def rec_window_inv_def net_inv_def ch_received_def restrict_map_def)
  show "ch_inv cap off (s\<lparr>ch_ack := ack, ch_acked := ch_acked s \<union> set (ack_written (ch_ack s) mx)\<rparr>)"
    if w: "reliable_ack_write (ch_ack s) b sid mx prepend = Some (True, ack, b')" and mx: "0 \<le> mx"
  proof -
    have "wf_ack (ch_ack s)" using inv by (simp add: ch_inv_def net_inv_def)
    note a = reliable_ack_write_abs[OF w this mx]
    have "set (ack_written (ch_ack s) mx) \<subseteq> set (ack_set (ch_ack s))"
      by (auto simp: ack_written_def dest: in_set_takeD)
    moreover have "set (ack_set ack) \<subseteq> set (ack_set (ch_ack s))" using a(2) by (auto dest: in_set_dropD)
    ultimately show ?thesis
      using inv a(1) by (auto simp: ch_inv_def send_inv_def rec_window_inv_def net_inv_def ch_received_def)
  qed
qed

lemma ch_step_sent: "ch_step s s' \<Longrightarrow> length (ch_sent s) \<le> length (ch_sent s')"
  by (auto elim!: ch_stepE)

lemma ch_inv_step:
  assumes "ch_inv cap off s" "ch_step s s'" "length (ch_sent s') + 8 < 2 ^ 31"
  shows "ch_inv cap off s'"
  using assms(2)
proof cases
  case (queue p op1 rel)
  then show ?thesis using ch_inv_queue[OF assms(1), of p op1 rel] assms(3) by simp
next
  case (arrive b op1 rel ack b')
  then show ?thesis using ch_inv_arrive[OF assms(1), of b op1 rel ack b'] assms(3) by simp
next
  case (deliver i rel)
  then show ?thesis using ch_inv_deliver[OF assms(1), of i rel] assms(3) by simp
qed (use ch_inv_transmit[OF assms(1)] ch_inv_other[OF assms(1)] in auto)

lemma ch_init_inv:
  assumes "wf_frame f"
  shows "\<exists>s. ch_init junk (BUF_SIZE f) (frame_headroom f 0) = Some s \<and>
    ch_inv (BUF_SIZE f) (frame_headroom f 0) s"
proof -
  have b: "0 \<le> frame_headroom f 0" "frame_headroom f 0 \<le> BUF_SIZE f"
    using frame_headroom_bounds[of f 0] assms by (auto simp: wf_frame_def frame_size_defs)
  obtain r4 r8 where "reliable_init junk (BUF_SIZE f) (frame_headroom f 0) 4 = Some r4"
    "rel_ok (BUF_SIZE f) r4" "rel_id r4 = 0" "rel_offset r4 = frame_headroom f 0" "slots r4 = Map.empty"
    "reliable_init junk (BUF_SIZE f) (frame_headroom f 0) 8 = Some r8"
    "rel_ok (BUF_SIZE f) r8" "rel_id r8 = 0" "rel_offset r8 = frame_headroom f 0" "slots r8 = Map.empty"
    "rel_size r8 = 8"
    using reliable_init_ok[OF _ _ b, of 4 junk] reliable_init_ok[OF _ _ b, of 8 junk] by auto
  then show ?thesis
    by (simp add: ch_init_def ch_inv_def send_inv_def rec_window_inv_def net_inv_def)
qed

lemma ch_inv_reachable:
  assumes "wf_frame f" "ch_init junk (BUF_SIZE f) (frame_headroom f 0) = Some s0"
    and "ch_step\<^sup>*\<^sup>* s0 s" "length (ch_sent s) + 8 < 2 ^ 31"
  shows "ch_inv (BUF_SIZE f) (frame_headroom f 0) s"
  using assms(3,4)
proof (induction rule: rtranclp_induct)
  case base
  then show ?case using ch_init_inv[OF assms(1), of junk] assms(2) by auto
next
  case (step s s')
  have "length (ch_sent s) \<le> length (ch_sent s')" using ch_step_sent step.hyps(2) by blast
  then have "length (ch_sent s) + 8 < 2 ^ 31" using step.prems by linarith
  then show ?case using step.IH ch_inv_step[OF _ step.hyps(2) step.prems] by blast
qed

text \<open>An entry is free if and only if fewer identifiers than entries are held.\<close>

lemma reliable_can_get_card:
  assumes "rel_ok cap rel"
  shows "reliable_can_get rel \<longleftrightarrow> card (dom (slots rel)) < nat (rel_size rel)"
proof -
  have "card (dom (slots rel)) = length (filter active (rel_entries rel))"
    using assms distinct_card[of "slot_ids (rel_entries rel)"]
    by (simp add: dom_slots rel_ok_def) (simp add: slot_ids_def)
  moreover have "length (rel_entries rel) = nat (rel_size rel)"
    using assms length_rel_entries by (auto simp: rel_ok_def)
  ultimately show ?thesis
    using length_filter_less[of _ "rel_entries rel" active]
    by (cases "\<forall>e \<in> set (rel_entries rel). active e") (auto simp: reliable_can_get_def list_ex_iff)
qed

lemma receive_window_not_full:
  assumes "rec_window_inv cap off s" "rel_id (ch_rec s) \<notin> dom (slots (ch_rec s))"
  shows "reliable_can_get (ch_rec s)"
proof -
  let ?r = "ch_rec s" and ?d = "unat (rel_id (ch_rec s))"
  let ?N = "unat ` dom (slots ?r)"
  have "?N \<subseteq> {?d + 1..<?d + 8}"
  proof
    fix n assume "n \<in> ?N"
    then obtain pid p where pid: "n = unat pid" "slots ?r pid = Some p" by auto
    then have "rel_id ?r \<le> pid" "unat pid < ?d + 8" "pid \<noteq> rel_id ?r"
      using assms unfolding rec_window_inv_def by blast+
    then show "n \<in> {?d + 1..<?d + 8}"
      using pid(1) by (auto simp: word_le_nat_alt word_unat_eq_iff)
  qed
  then have "card ?N \<le> 7" using card_mono[of "{?d + 1..<?d + 8}" ?N] by simp
  moreover have "card ?N = card (dom (slots ?r))" by (simp add: card_image inj_on_def word_unat_eq_iff)
  ultimately show ?thesis
    using assms(1) reliable_can_get_card[of cap ?r] by (simp add: rec_window_inv_def)
qed

text \<open>The sender's window takes a payload whenever it is not clogged by an unacknowledged one.\<close>

lemma min_active_id_mem:
  "min_active_id es m = Some i \<Longrightarrow> m = Some i \<or> i \<in> set (slot_ids es)"
  by (induction es arbitrary: m) (fastforce simp: slot_ids_def split: if_splits)+

lemma reliable_queue_succeeds:
  assumes ok: "rel_ok cap rel" and can: "reliable_can_get rel"
    and seq: "\<forall>pid \<in> dom (slots rel). sint (rel_id rel - pid) < rel_size rel"
    and room: "4 \<le> rel_offset rel" "int (length p) \<le> cap - rel_offset rel"
  shows "\<exists>rel'. reliable_queue rel p op1 = Some rel'"
proof -
  have wf: "wf_rel cap rel" using ok by (simp add: rel_ok_def)
  obtain i pre post where i: "i < length (rel_entries rel)"
    "reliable_get_buf rel = Some (Some i, upd_entry rel i (\<lambda>e. e\<lparr>entry_buf := mk_buf pre [] post\<rparr>))"
    and len: "int (length pre) = rel_offset rel" "int (length pre + length post) = cap"
    using reliable_get_buf_ok[OF ok] can by auto
  have "reliable_get_buf_output_sequenced rel = reliable_get_buf rel"
    using seq min_active_id_mem[of "rel_entries rel" None]
    by (auto simp: reliable_get_buf_output_sequenced_def dom_slots split: option.splits)
  moreover have "length p \<le> length post" "4 \<le> length pre" using room len by auto
  moreover have "int i < rel_size rel" using i(1) length_rel_entries[OF wf] by simp
  ultimately show ?thesis
    using i entries_le_array[OF wf i(1)]
    by (simp add: reliable_queue_def upd_entry_nth upd_entry_twice reliable_mark_active_outgoing_def Let_def)
qed

text \<open>A frame with typical sizes, and a channel over it in which one packet is queued.\<close>

definition udp_frame :: frame where
  "udp_frame = \<lparr>link_mtu = 1542, link_mtu_dynamic = 1542, extra_frame = 42, extra_buffer = 139,
     extra_tun = 0, extra_link = 4, align_flags = 0, align_adjust = 0\<rparr>"

lemma wf_udp_frame: "wf_frame udp_frame"
  by (simp add: wf_frame_def frame_size_defs udp_frame_def)

lemma queued_channel:
  obtains s0 s where "ch_init (\<lambda>_. 0) (BUF_SIZE udp_frame) (frame_headroom udp_frame 0) = Some s0"
    "ch_step\<^sup>*\<^sup>* s0 s" "ch_sent s = [[1, 2]]" "ch_delivered s = []"
proof -
  obtain s0 where s0: "ch_init (\<lambda>_. 0) (BUF_SIZE udp_frame) (frame_headroom udp_frame 0) = Some s0"
    "ch_inv (BUF_SIZE udp_frame) (frame_headroom udp_frame 0) s0"
    using ch_init_inv[OF wf_udp_frame] by blast
  have empty: "slots (ch_send s0) = Map.empty" "ch_sent s0 = []" "ch_delivered s0 = []"
    "rel_offset (ch_send s0) = frame_headroom udp_frame 0" "rel_ok (BUF_SIZE udp_frame) (ch_send s0)"
    using s0 reliable_init_ok[of 4 "frame_headroom udp_frame 0" "BUF_SIZE udp_frame" "\<lambda>_. 0"]
      frame_headroom_bounds[of udp_frame 0] wf_udp_frame
    by (auto simp: ch_init_def wf_frame_def frame_size_defs split: Option.bind_splits)
  have "reliable_can_get (ch_send s0)"
  proof -
    have "rel_entries (ch_send s0) \<noteq> []" using empty(5) length_rel_entries[of _ "ch_send s0"]
      by (auto simp: rel_ok_def wf_rel_def)
    moreover have "\<forall>e \<in> set (rel_entries (ch_send s0)). \<not> active e"
      using empty(1) dom_slots[of "ch_send s0"] by (auto simp: slot_ids_def)
    ultimately show ?thesis
      by (cases "rel_entries (ch_send s0)") (auto simp: reliable_can_get_def)
  qed
  then obtain rel where "reliable_queue (ch_send s0) [1, 2] 4 = Some rel"
    using reliable_queue_succeeds[OF empty(5), of "[1, 2]" 4] empty frame_headroom_bounds[of udp_frame 0]
    by (auto simp: udp_frame_def frame_size_defs)
  from ch_step.queue[OF this] have "ch_step s0 (s0\<lparr>ch_send := rel, ch_sent := [[1, 2]]\<rparr>)"
    using empty by simp
  then show ?thesis using that[OF s0(1) r_into_rtranclp] empty(3) by simp
qed

text \<open>
  C3: the control channel delivers in order, without loss, gaps or repetition.  Whatever the
  network does with the packets and acknowledgements (loss, repetition, reordering) and in
  whatever order the two peers queue, transmit, retransmit, acknowledge, purge and deliver, what
  the receiver has handed to its TLS layer is always a prefix of what the sender's TLS layer
  queued, as long as fewer than 2^31 - 8 packets were queued.
\<close>

theorem control_channel_in_order:
  assumes "wf_frame f" "ch_init junk (BUF_SIZE f) (frame_headroom f 0) = Some s0"
    and "ch_step\<^sup>*\<^sup>* s0 s" "length (ch_sent s) + 8 < 2 ^ 31"
  shows "\<exists>rest. ch_sent s = ch_delivered s @ rest"
  using ch_inv_reachable[OF assms] by (metis append_take_drop_id ch_inv_def)

theorem control_channel_in_order_witness:
  "\<exists>s0 s. ch_init (\<lambda>_. 0) (BUF_SIZE udp_frame) (frame_headroom udp_frame 0) = Some s0 \<and>
     ch_step\<^sup>*\<^sup>* s0 s \<and> ch_sent s = [[1, 2]] \<and> (\<exists>rest. ch_sent s = ch_delivered s @ rest)"
proof -
  obtain s0 s where s: "ch_init (\<lambda>_. 0) (BUF_SIZE udp_frame) (frame_headroom udp_frame 0) = Some s0"
    "ch_step\<^sup>*\<^sup>* s0 s" "ch_sent s = [[1, 2]]" by (rule queued_channel)
  show ?thesis using control_channel_in_order[OF wf_udp_frame s(1,2)] s by auto
qed

lemma control_incoming_total:
  assumes "rel_ok cap rel" "wf_ack ack" "live_buf b" "len b \<le> cap - rel_offset rel + 4"
  shows "\<exists>rel' ack' b'. control_incoming op1 rel ack b = Some (rel', ack', b') \<and>
    rel_ok cap rel' \<and> rel_offset rel' = rel_offset rel \<and> wf_ack ack'"
proof -
  obtain pre c post where b: "b = mk_buf pre c post" using assms(3) by (rule live_bufE)
  show ?thesis
  proof (cases "length c < 4")
    case True
    then show ?thesis
      using assms by (auto simp: b control_incoming_def reliable_ack_read_packet_id_def)
  next
    case False
    then have "b = mk_buf pre (be32 (of_be32 (take 4 c)) @ drop 4 c) post"
      by (simp add: b be32_of_be32)
    from control_incoming_ok[OF assms(1,2) _ this, of op1] assms(4) False
    show ?thesis by (fastforce simp: b)
  qed
qed

text \<open>
  No packet makes an assertion of the receive path fail.  For any window that satisfies the
  invariant and any packet the link can deliver, with any content, storing and acknowledging it
  returns: a free buffer is found when one is needed, the packet fits into it, and the replay
  check of reliable_mark_active_incoming holds; and the invariant holds again.
\<close>

theorem control_incoming_safe:
  assumes "wf_frame f" "rel_ok (BUF_SIZE f) rel" "rel_offset rel = frame_headroom f 0" "wf_ack ack"
    and "live_buf b" "len b \<le> MAX_RW_SIZE_LINK f"
  shows "\<exists>rel' ack' b'. control_incoming op1 rel ack b = Some (rel', ack', b') \<and>
    rel_ok (BUF_SIZE f) rel' \<and> rel_offset rel' = frame_headroom f 0 \<and> wf_ack ack'"
proof -
  have "len b \<le> BUF_SIZE f - rel_offset rel + 4"
    using assms(1,3,6) frame_headroom_bounds[of f 0] by (auto simp: wf_frame_def frame_size_defs)
  from control_incoming_total[OF assms(2,4,5) this] show ?thesis using assms(3) by simp
qed

theorem control_incoming_safe_witness:
  "\<exists>rel. reliable_init (\<lambda>_. 0) (BUF_SIZE udp_frame) (frame_headroom udp_frame 0) 8 = Some rel \<and>
    (\<exists>rel' ack' b'. control_incoming 4 rel empty_ack (mk_buf [] [0, 0, 0, 0, 7] []) = Some (rel', ack', b') \<and>
      rel_ok (BUF_SIZE udp_frame) rel' \<and> rel_offset rel' = frame_headroom udp_frame 0 \<and> wf_ack ack')"
proof -
  obtain rel where rel: "reliable_init (\<lambda>_. 0) (BUF_SIZE udp_frame) (frame_headroom udp_frame 0) 8 = Some rel"
    "rel_ok (BUF_SIZE udp_frame) rel" "rel_offset rel = frame_headroom udp_frame 0"
    using reliable_init_ok[of 8 "frame_headroom udp_frame 0" "BUF_SIZE udp_frame" "\<lambda>_. 0"]
      frame_headroom_bounds[of udp_frame 0] wf_udp_frame by (auto simp: wf_frame_def frame_size_defs)
  show ?thesis
    using control_incoming_safe[OF wf_udp_frame rel(2,3), of empty_ack "mk_buf [] [0, 0, 0, 0, 7] []" 4] rel(1)
    by (auto simp: udp_frame_def frame_size_defs)
qed

text \<open>
  C18: the control channel cannot get stuck.  While something queued is not yet delivered, either
  the receiver can deliver the next packet at once, or the sender still holds it for
  retransmission, and when it arrives the receiver takes it and can deliver it.
\<close>

theorem control_channel_progress:
  assumes "wf_frame f" "ch_init junk (BUF_SIZE f) (frame_headroom f 0) = Some s0"
    and "ch_step\<^sup>*\<^sup>* s0 s" "length (ch_sent s) + 8 < 2 ^ 31"
    and "length (ch_delivered s) < length (ch_sent s)" "op1 \<noteq> P_ACK_V1"
  shows "reliable_get_buf_sequenced (ch_rec s) \<noteq> None \<or>
    (\<exists>c. slots (ch_send s) (rel_id (ch_rec s)) = Some c \<and>
      (\<forall>b. live_buf b \<and> content b = c \<longrightarrow>
        (\<exists>rel ack b'. control_incoming op1 (ch_rec s) (ch_ack s) b = Some (rel, ack, b') \<and>
          reliable_get_buf_sequenced rel \<noteq> None)))"
proof (cases "rel_id (ch_rec s) \<in> dom (slots (ch_rec s))")
  note inv = ch_inv_reachable[OF assms(1-4)]
  let ?r = "ch_rec s" and ?d = "rel_id (ch_rec s)"
  have ok: "rel_ok (BUF_SIZE f) ?r" and rinv: "rec_window_inv (BUF_SIZE f) (frame_headroom f 0) s"
    and sinv: "send_inv (BUF_SIZE f) (frame_headroom f 0) s" and ninv: "net_inv s"
    using inv by (auto simp: ch_inv_def rec_window_inv_def)
  {
    case True
    then show ?thesis using reliable_sequenced_iff[OF ok] by auto
  next
    case False
    have d: "unat ?d < length (ch_sent s)" using inv assms(5) by (auto simp: ch_inv_def)
    have "?d \<notin> ch_acked s" using ninv False by (auto simp: net_inv_def ch_received_def)
    then obtain c where c: "slots (ch_send s) ?d = Some c" using sinv d unfolding send_inv_def by blast
    then obtain p where p: "stands_for (ch_sent s) ?d p" "c = be32 ?d @ p"
      using sinv unfolding send_inv_def by blast
    have fits: "int (length p) \<le> BUF_SIZE f - rel_offset ?r"
      using sinv rinv p(1) by (auto simp: send_inv_def rec_window_inv_def stands_for_def)
    have can: "reliable_can_get ?r" "reliable_wont_break_sequentiality ?r ?d" "reliable_not_replay ?r ?d"
      using receive_window_not_full[OF rinv False] rinv False
      by (auto simp: reliable_wont_break_sequentiality_def reliable_not_replay_iff rec_window_inv_def)
    have wa: "wf_ack (ch_ack s)" using ninv by (simp add: net_inv_def)
    have "\<exists>rel ack b'. control_incoming op1 ?r (ch_ack s) b = Some (rel, ack, b') \<and>
        reliable_get_buf_sequenced rel \<noteq> None" if b0: "live_buf b" "content b = c" for b
    proof -
      obtain pre post where b: "b = mk_buf pre (be32 ?d @ p) post"
        using live_buf_contentE[OF b0] p(2) by blast
      obtain rel ack b' where r: "control_incoming op1 ?r (ch_ack s) b = Some (rel, ack, b')"
        "rel_ok (BUF_SIZE f) rel" "rel_id rel = ?d" "slots rel = (slots ?r)(?d \<mapsto> p)"
        using control_incoming_ok[OF ok wa fits b, of op1] assms(6) by (simp add: can) blast
      then show ?thesis using reliable_sequenced_iff[OF r(2)] by auto
    qed
    then show ?thesis using c by blast
  }
qed


theorem control_channel_progress_witness:
  "\<exists>s0 s. ch_init (\<lambda>_. 0) (BUF_SIZE udp_frame) (frame_headroom udp_frame 0) = Some s0 \<and>
     ch_step\<^sup>*\<^sup>* s0 s \<and> length (ch_delivered s) < length (ch_sent s) \<and>
     (reliable_get_buf_sequenced (ch_rec s) \<noteq> None \<or>
      (\<exists>c. slots (ch_send s) (rel_id (ch_rec s)) = Some c \<and>
        (\<forall>b. live_buf b \<and> content b = c \<longrightarrow>
          (\<exists>rel ack b'. control_incoming 4 (ch_rec s) (ch_ack s) b = Some (rel, ack, b') \<and>
            reliable_get_buf_sequenced rel \<noteq> None))))"
proof -
  obtain s0 s where s: "ch_init (\<lambda>_. 0) (BUF_SIZE udp_frame) (frame_headroom udp_frame 0) = Some s0"
    "ch_step\<^sup>*\<^sup>* s0 s" "ch_sent s = [[1, 2]]" "ch_delivered s = []" by (rule queued_channel)
  show ?thesis
    by (intro exI[of _ s0] exI[of _ s] conjI control_channel_progress[OF wf_udp_frame s(1,2)])
       (simp_all add: s)
qed

section \<open>A window that identifiers of the upper half can clog\<close>

fun incoming_all ::
  "int \<Rightarrow> reliable \<Rightarrow> reliable_ack \<Rightarrow> buffer list \<Rightarrow> (reliable \<times> reliable_ack) option" where
  "incoming_all op1 rel ack [] = Some (rel, ack)"
| "incoming_all op1 rel ack (b # bs) =
     (case control_incoming op1 rel ack b of
        None \<Rightarrow> None
      | Some (rel, ack, _) \<Rightarrow> incoming_all op1 rel ack bs)"

lemma clogged_stays:
  assumes "\<not> reliable_can_get rel"
  shows "incoming_all op1 rel ack bs = Some (rel, ack)"
  using assms by (induction bs) (simp_all add: control_incoming_def)

lemma upper_half_passes:
  "unat (rel_id rel) + 8 < 2 ^ 31 \<Longrightarrow> 2 ^ 31 \<le> unat pid \<Longrightarrow> 0 < rel_size rel \<Longrightarrow>
     reliable_wont_break_sequentiality rel pid \<and> rel_id rel < pid"
proof -
  assume a: "unat (rel_id rel) + 8 < 2 ^ 31" "2 ^ 31 \<le> unat pid" "0 < rel_size rel"
  have "0 \<le> sint (rel_id rel)" using sint_nonneg[of "rel_id rel"] a(1) by simp
  moreover have "sint pid < 0"
  proof -
    have "unat pid < 2 ^ 32" using unsigned_less[of pid] by simp
    then have "unat pid div 2147483648 = 1" using a(2) by (intro div_nat_eqI) simp_all
    then have "bit (unat pid) 31" by (simp add: bit_iff_odd)
    then have "bit pid 31" by (simp add: bit_unsigned_iff)
    then show ?thesis by (simp add: sint_uint signed_take_bit_negative_iff bit_uint_iff)
  qed
  ultimately show ?thesis
    using a by (auto simp: reliable_wont_break_sequentiality_def word_less_nat_alt)
qed


lemma upper_half_stored:
  assumes ok: "rel_ok cap rel" "rel_size rel = 8" "unat (rel_id rel) + 8 < 2 ^ 31" "wf_ack ack"
      "4 \<le> cap - rel_offset rel" and op1: "op1 \<noteq> 5"
    and pid: "2 ^ 31 \<le> unat pid" "pid \<notin> dom (slots rel)" "card (dom (slots rel)) < 8"
  shows "\<exists>rel' ack' b'. control_incoming op1 rel ack (mk_buf [] (be32 pid) []) = Some (rel', ack', b') \<and>
    rel_ok cap rel' \<and> wf_ack ack' \<and> rel_id rel' = rel_id rel \<and> rel_offset rel' = rel_offset rel \<and>
    rel_size rel' = 8 \<and> dom (slots rel') = insert pid (dom (slots rel))"
proof -
  have can: "reliable_can_get rel" using reliable_can_get_card[OF ok(1)] ok(2) pid(3) by simp
  have pass: "reliable_wont_break_sequentiality rel pid" "reliable_not_replay rel pid"
    using upper_half_passes[OF ok(3) pid(1)] ok(2) pid(2) by (auto simp: reliable_not_replay_iff)
  show ?thesis
    using control_incoming_ok[OF ok(1,4), of "[]" "mk_buf [] (be32 pid) []" "[]" pid "[]" op1] ok(2,5) op1
    by (auto simp: can pass)
qed

lemma upper_half_fill:
  assumes "rel_ok cap rel" "rel_size rel = 8" "unat (rel_id rel) + 8 < 2 ^ 31" "wf_ack ack"
      "4 \<le> cap - rel_offset rel" "op1 \<noteq> 5" "distinct ps" "set ps \<inter> dom (slots rel) = {}"
      "card (dom (slots rel)) + length ps \<le> 8" "\<forall>pid \<in> set ps. 2 ^ 31 \<le> unat pid"
  shows "\<exists>rel' ack'. incoming_all op1 rel ack (map (\<lambda>pid. mk_buf [] (be32 pid) []) ps) = Some (rel', ack') \<and>
      rel_ok cap rel' \<and> rel_id rel' = rel_id rel \<and> rel_size rel' = 8 \<and>
      dom (slots rel') = dom (slots rel) \<union> set ps"
  using assms
proof (induction ps arbitrary: rel ack)
  case (Cons pid ps)
  obtain rel1 ack1 b1 where one: "control_incoming op1 rel ack (mk_buf [] (be32 pid) []) = Some (rel1, ack1, b1)"
    "rel_ok cap rel1" "wf_ack ack1" "rel_id rel1 = rel_id rel" "rel_offset rel1 = rel_offset rel"
    "rel_size rel1 = 8" "dom (slots rel1) = insert pid (dom (slots rel))"
    using upper_half_stored[OF Cons.prems(1-6), of pid] Cons.prems(8-10) by auto
  have "finite (dom (slots rel))" by (simp add: dom_slots)
  then have "card (dom (slots rel1)) + length ps \<le> 8" using one(7) Cons.prems(8,9) by simp
  then obtain rel' ack' where
    "incoming_all op1 rel1 ack1 (map (\<lambda>pid. mk_buf [] (be32 pid) []) ps) = Some (rel', ack')"
    "rel_ok cap rel'" "rel_id rel' = rel_id rel" "rel_size rel' = 8"
    "dom (slots rel') = dom (slots rel1) \<union> set ps"
    using Cons.IH[OF one(2,6) _ one(3)] one(4,5,7) Cons.prems(3,5-8,10) by auto
  then show ?case using one(1,7) by auto
qed simp

text \<open>
  C32: a peer can clog the receive window for good.  reliable_wont_break_sequentiality, which is
  to refuse identifiers that would deadlock the receive buffer, compares the identifiers as
  signed integers: identifiers of 2^31 and above count as negative and are let through.  Once
  eight of them have arrived, no entry is free, the next expected identifier is not among them,
  and whatever arrives afterwards, in any number, nothing is stored and nothing is delivered.
\<close>

theorem upper_half_clogs:
  assumes ok: "rel_ok cap rel" "rel_size rel = 8" "slots rel = Map.empty"
    and "unat (rel_id rel) + 8 < 2 ^ 31" "wf_ack ack" "op1 \<noteq> P_ACK_V1"
    and "length pids = 8" "distinct pids" "\<forall>pid \<in> set pids. 2 ^ 31 \<le> unat pid"
    and "4 \<le> cap - rel_offset rel"
  shows "\<exists>rel' ack'. incoming_all op1 rel ack (map (\<lambda>pid. mk_buf [] (be32 pid) []) pids) = Some (rel', ack') \<and>
    reliable_get_buf_sequenced rel' = None \<and>
    (\<forall>bs. incoming_all op1 rel' ack' bs = Some (rel', ack'))"
proof -
  obtain rel' ack' where r: "incoming_all op1 rel ack (map (\<lambda>pid. mk_buf [] (be32 pid) []) pids) = Some (rel', ack')"
    "rel_ok cap rel'" "rel_id rel' = rel_id rel" "rel_size rel' = 8" "dom (slots rel') = set pids"
    using upper_half_fill[OF ok(1,2) assms(4,5,10,6,8)] assms(3,7,9) by auto
  have "rel_id rel' \<notin> dom (slots rel')"
  proof
    assume "rel_id rel' \<in> dom (slots rel')"
    then have "2 ^ 31 \<le> unat (rel_id rel)" using r(3,5) assms(9) by simp
    then show False using assms(4) by simp
  qed
  then have "reliable_get_buf_sequenced rel' = None" using reliable_sequenced_iff[OF r(2)] by auto
  moreover have "\<not> reliable_can_get rel'"
    using reliable_can_get_card[OF r(2)] r(4,5) assms(7,8) by (simp add: distinct_card)
  ultimately show ?thesis using r(1) clogged_stays by blast
qed

theorem upper_half_clogs_witness:
  "\<exists>rel. reliable_init (\<lambda>_. 0) (BUF_SIZE udp_frame) (frame_headroom udp_frame 0) 8 = Some rel \<and>
    (\<exists>rel' ack'. incoming_all 4 rel empty_ack (map (\<lambda>pid. mk_buf [] (be32 pid) [])
        [0x80000000, 0x80000001, 0x80000002, 0x80000003, 0x80000004, 0x80000005, 0x80000006, 0x80000007])
        = Some (rel', ack') \<and>
      reliable_get_buf_sequenced rel' = None \<and>
      (\<forall>bs. incoming_all 4 rel' ack' bs = Some (rel', ack')))"
proof -
  let ?c = "BUF_SIZE udp_frame" and ?o = "frame_headroom udp_frame 0"
  have c: "0 \<le> ?o" "?o \<le> ?c" "4 \<le> ?c - ?o"
    using frame_headroom_bounds[of udp_frame 0] by (auto simp: udp_frame_def frame_size_defs)
  obtain rel where rel: "reliable_init (\<lambda>_. 0) ?c ?o 8 = Some rel" "rel_ok ?c rel" "rel_size rel = 8"
    "slots rel = Map.empty" "rel_id rel = 0" "rel_offset rel = ?o"
    using reliable_init_ok[of 8 ?o ?c "\<lambda>_. 0"] c by auto
  show ?thesis
    by (intro exI[of _ rel] conjI rel(1) upper_half_clogs[OF rel(2-4)]) (simp_all add: rel c)
qed

end
