(* ===== verification/Otime.thy ===== *)
theory Otime
  imports Integer_Ops
begin

text \<open>
  Time: otime.h, otime.c, interval.h, interval.c and the wake-up arithmetic of shaper.c.  The
  clock (the global \<^verbatim>\<open>now\<close>, \<^verbatim>\<open>gettimeofday\<close>) is an argument; formatting of times is left out.
\<close>

section \<open>Time values\<close>

datatype timeval = Timeval (tv_sec: int) (tv_usec: int)

definition tv_clear :: timeval where
  "tv_clear = Timeval 0 0"

definition tv_defined :: "timeval \<Rightarrow> bool" where
  "tv_defined tv = (tv_sec tv > 0 \<and> tv_usec tv > 0)"

definition tv_subtract :: "timeval \<Rightarrow> timeval \<Rightarrow> int \<Rightarrow> int" where
  "tv_subtract tv1 tv2 max_seconds =
     (let max_usec = max_seconds * 1000000;
          sec_diff = tv_sec tv1 - tv_sec tv2
      in if sec_diff > max_seconds + 10 then max_usec
         else if sec_diff < - (max_seconds + 10) then - max_usec
         else constrain_int (sec_diff * 1000000 + (tv_usec tv1 - tv_usec tv2)) (- max_usec) max_usec)"

definition tv_add :: "timeval \<Rightarrow> timeval \<Rightarrow> timeval" where
  "tv_add dest src =
     (let sec = tv_sec dest + tv_sec src;
          usec = tv_usec dest + tv_usec src;
          sec = sec + drop_bit 20 usec;
          usec = usec AND 0x000FFFFF
      in if usec \<ge> 1000000 then Timeval (sec + 1) (usec - 1000000) else Timeval sec usec)"

definition tv_lt :: "timeval \<Rightarrow> timeval \<Rightarrow> bool" where
  "tv_lt t1 t2 =
     (if tv_sec t1 < tv_sec t2 then True
      else if tv_sec t1 > tv_sec t2 then False
      else tv_usec t1 < tv_usec t2)"

definition tv_le :: "timeval \<Rightarrow> timeval \<Rightarrow> bool" where
  "tv_le t1 t2 =
     (if tv_sec t1 < tv_sec t2 then True
      else if tv_sec t1 > tv_sec t2 then False
      else tv_usec t1 \<le> tv_usec t2)"

definition tv_ge :: "timeval \<Rightarrow> timeval \<Rightarrow> bool" where
  "tv_ge t1 t2 =
     (if tv_sec t1 > tv_sec t2 then True
      else if tv_sec t1 < tv_sec t2 then False
      else tv_usec t1 \<ge> tv_usec t2)"

definition tv_gt :: "timeval \<Rightarrow> timeval \<Rightarrow> bool" where
  "tv_gt t1 t2 =
     (if tv_sec t1 > tv_sec t2 then True
      else if tv_sec t1 < tv_sec t2 then False
      else tv_usec t1 > tv_usec t2)"

definition tv_eq :: "timeval \<Rightarrow> timeval \<Rightarrow> bool" where
  "tv_eq t1 t2 = (tv_sec t1 = tv_sec t2 \<and> tv_usec t1 = tv_usec t2)"

text \<open>The loop of tv_delta that borrows seconds.\<close>

function tv_borrow :: "int \<Rightarrow> int \<Rightarrow> int \<times> int" where
  "tv_borrow sec usec = (if usec < 0 then tv_borrow (sec - 1) (usec + 1000000) else (sec, usec))"
  by pat_completeness auto
termination by (relation "measure (\<lambda>(_, usec). nat (- usec))") auto

declare tv_borrow.simps [simp del]

definition tv_delta :: "timeval \<Rightarrow> timeval \<Rightarrow> timeval" where
  "tv_delta t1 t2 =
     (let (sec, usec) = tv_borrow (tv_sec t2 - tv_sec t1) (tv_usec t2 - tv_usec t1)
      in if sec < 0 then Timeval 0 0 else Timeval sec usec)"

definition tv_within_sigma :: "timeval \<Rightarrow> timeval \<Rightarrow> int \<Rightarrow> bool" where
  "tv_within_sigma t1 t2 sigma =
     (let delta = tv_subtract t1 t2 600 in - sigma \<le> delta \<and> delta \<le> sigma)"

definition interval_earliest_wakeup :: "int \<Rightarrow> time_t \<Rightarrow> time_t \<Rightarrow> int" where
  "interval_earliest_wakeup wakeup at current =
     (if at > current then
        let delta = at - current;
            wakeup = (if delta < wakeup then delta else wakeup)
        in if wakeup < 0 then 0 else wakeup
      else wakeup)"

definition shaper_soonest_event :: "timeval \<Rightarrow> int \<Rightarrow> bool \<times> timeval" where
  "shaper_soonest_event tv delay =
     (if delay < 1000000 then
        if tv_sec tv \<noteq> 0 then (True, Timeval 0 delay)
        else if delay < tv_usec tv then (True, Timeval (tv_sec tv) delay)
        else (False, tv)
      else
        let sec = delay div 1000000; usec = delay mod 1000000
        in if sec < tv_sec tv then (True, Timeval sec usec)
           else if sec = tv_sec tv \<and> usec < tv_usec tv then (True, Timeval (tv_sec tv) usec)
           else (False, tv))"

section \<open>Event frequency\<close>

record frequency_limit =
  fl_max :: int
  fl_per :: int
  fl_n :: int
  fl_reset :: time_t

definition frequency_limit_init :: "int \<Rightarrow> int \<Rightarrow> frequency_limit option" where
  "frequency_limit_init mx per = do {
     ASSERT (mx \<ge> 0 \<and> per \<ge> 0);
     Some \<lparr>fl_max = mx, fl_per = per, fl_n = 0, fl_reset = 0\<rparr>
   }"

definition frequency_limit_event_allowed :: "time_t \<Rightarrow> frequency_limit \<Rightarrow> bool \<times> frequency_limit" where
  "frequency_limit_event_allowed now f =
     (if fl_per f \<noteq> 0 then
        let f = (if now \<ge> fl_reset f + fl_per f then f\<lparr>fl_reset := now, fl_n := 0\<rparr> else f);
            f = f\<lparr>fl_n := fl_n f + 1\<rparr>
        in (fl_n f \<le> fl_max f, f)
      else (True, f))"

section \<open>Intervals and timers\<close>

record interval =
  refresh :: int
  horizon :: int
  future_trigger :: time_t
  last_action :: time_t
  last_test_true :: time_t

definition interval_init :: "int \<Rightarrow> int \<Rightarrow> interval" where
  "interval_init hor ref =
     \<lparr>refresh = ref, horizon = hor, future_trigger = 0, last_action = 0, last_test_true = 0\<rparr>"

definition interval_test :: "time_t \<Rightarrow> interval \<Rightarrow> bool \<times> interval" where
  "interval_test now iv =
     (let trigger = (future_trigger iv \<noteq> 0 \<and> now \<ge> future_trigger iv);
          iv = (if trigger then iv\<lparr>future_trigger := 0\<rparr> else iv)
      in if last_action iv + horizon iv > now \<or> last_test_true iv + refresh iv \<le> now \<or> trigger
         then (True, iv\<lparr>last_test_true := now\<rparr>)
         else (False, iv))"

definition interval_schedule_wakeup :: "time_t \<Rightarrow> interval \<Rightarrow> int \<Rightarrow> int" where
  "interval_schedule_wakeup now iv wakeup =
     interval_earliest_wakeup
       (interval_earliest_wakeup wakeup (last_test_true iv + refresh iv) now) (future_trigger iv) now"

definition interval_future_trigger :: "time_t \<Rightarrow> interval \<Rightarrow> int \<Rightarrow> interval" where
  "interval_future_trigger now iv wakeup =
     (if wakeup \<noteq> 0 then iv\<lparr>future_trigger := now + wakeup\<rparr> else iv)"

definition interval_action :: "time_t \<Rightarrow> interval \<Rightarrow> interval" where
  "interval_action now iv = iv\<lparr>last_action := now\<rparr>"

record event_timeout =
  et_defined :: bool
  et_n :: int
  et_last :: time_t

definition event_timeout_clear :: event_timeout where
  "event_timeout_clear = \<lparr>et_defined = False, et_n = 0, et_last = 0\<rparr>"

definition event_timeout_init :: "int \<Rightarrow> time_t \<Rightarrow> event_timeout" where
  "event_timeout_init n local_now =
     \<lparr>et_defined = True, et_n = (if n \<ge> 0 then n else 0), et_last = local_now\<rparr>"

definition event_timeout_reset :: "time_t \<Rightarrow> event_timeout \<Rightarrow> event_timeout" where
  "event_timeout_reset now et = (if et_defined et then et\<lparr>et_last := now\<rparr> else et)"

definition event_timeout_trigger ::
  "time_t \<Rightarrow> event_timeout \<Rightarrow> timeval option \<Rightarrow> int \<Rightarrow> bool \<times> event_timeout \<times> timeval option" where
  "event_timeout_trigger now et tv et_const_retry =
     (if et_defined et then
        let wakeup = et_last et + et_n et - now;
            (ret, et, wakeup) =
              (if wakeup \<le> 0 then
                 if et_const_retry < 0 then (True, et\<lparr>et_last := now\<rparr>, et_n et)
                 else (False, et, et_const_retry)
               else (False, et, wakeup))
        in (ret, et,
            case tv of None \<Rightarrow> None | Some t \<Rightarrow> Some (if wakeup < tv_sec t then Timeval wakeup 0 else t))
      else (False, et, tv))"

section \<open>Order and arithmetic of time values\<close>

instantiation timeval :: linorder
begin

definition less_eq_timeval :: "timeval \<Rightarrow> timeval \<Rightarrow> bool" where
  "less_eq_timeval t1 t2 = tv_le t1 t2"

definition less_timeval :: "timeval \<Rightarrow> timeval \<Rightarrow> bool" where
  "less_timeval t1 t2 = tv_lt t1 t2"

instance
  by standard
     (auto simp: less_eq_timeval_def less_timeval_def tv_le_def tv_lt_def timeval.expand split: if_splits)

end

lemma tv_compare: "tv_lt t1 t2 = (t1 < t2)" "tv_le t1 t2 = (t1 \<le> t2)" "tv_gt t1 t2 = (t2 < t1)"
  "tv_ge t1 t2 = (t2 \<le> t1)" "tv_eq t1 t2 = (t1 = t2)"
  by (auto simp: less_eq_timeval_def less_timeval_def tv_le_def tv_lt_def tv_gt_def tv_ge_def tv_eq_def
      timeval.expand)

definition tv_total :: "timeval \<Rightarrow> int" where
  "tv_total t = tv_sec t * 1000000 + tv_usec t"

definition tv_normal :: "timeval \<Rightarrow> bool" where
  "tv_normal t \<longleftrightarrow> 0 \<le> tv_usec t \<and> tv_usec t < 1000000"

lemma tv_total_less: "tv_normal t1 \<Longrightarrow> tv_normal t2 \<Longrightarrow> t1 < t2 \<longleftrightarrow> tv_total t1 < tv_total t2"
  by (auto simp: tv_total_def tv_normal_def less_timeval_def tv_lt_def)

lemma and_mask_20: "(x :: int) AND 0x000FFFFF = x mod 2 ^ 20"
  using take_bit_eq_mod[of 20 x] take_bit_eq_mask[of 20 x] by (simp add: mask_eq_exp_minus_1)

text \<open>
  C39: tv_add is exact only while the microseconds of the two operands add up to less than 2^20.
  The code carries with a shift by 20 bits, so every carry counts 1048576 microseconds as one
  second: each loses 48576 microseconds.  The result is always normalised.
\<close>

theorem tv_add_loses_time:
  assumes "0 \<le> tv_usec d" "0 \<le> tv_usec s"
  shows "tv_total (tv_add d s) = tv_total d + tv_total s - 48576 * ((tv_usec d + tv_usec s) div 2 ^ 20) \<and>
    tv_normal (tv_add d s)"
proof -
  define u where "u = tv_usec d + tv_usec s"
  have u: "u = 1048576 * (u div 1048576) + u mod 1048576" "0 \<le> u mod 1048576" "u mod 1048576 < 1048576"
    by simp_all
  have "tv_add d s = (if u mod 1048576 \<ge> 1000000
      then Timeval (tv_sec d + tv_sec s + u div 1048576 + 1) (u mod 1048576 - 1000000)
      else Timeval (tv_sec d + tv_sec s + u div 1048576) (u mod 1048576))"
    by (simp add: tv_add_def Let_def and_mask_20 drop_bit_eq_div u_def)
  then show ?thesis
    using u unfolding u_def[symmetric] by (auto simp: tv_total_def tv_normal_def u_def)
qed

theorem tv_add_loses_time_witness:
  "tv_total (tv_add (Timeval 5 0) (Timeval 0 10000000))
     = tv_total (Timeval 5 0) + tv_total (Timeval 0 10000000)
       - 48576 * ((tv_usec (Timeval 5 0) + tv_usec (Timeval 0 10000000)) div 2 ^ 20) \<and>
   tv_normal (tv_add (Timeval 5 0) (Timeval 0 10000000))"
  by (rule tv_add_loses_time) simp_all

lemma tv_borrow_eq: "tv_borrow s u = (s + u div 1000000, u mod 1000000)" if "u < 1000000"
  using that
proof (induction s u rule: tv_borrow.induct)
  case (1 s u)
  show ?case
  proof (cases "u < 0")
    case True
    then show ?thesis using 1 by (simp add: tv_borrow.simps[of s u] div_add_self2)
  next
    case False
    then show ?thesis using 1(2) by (simp add: tv_borrow.simps[of s u])
  qed
qed

text \<open>
  Tv_delta computes the time from t1 to t2, and zero when t2 lies before t1.
\<close>

theorem tv_delta_exact:
  assumes "tv_normal t1" "tv_normal t2"
  shows "tv_total (tv_delta t1 t2) = max 0 (tv_total t2 - tv_total t1) \<and> tv_normal (tv_delta t1 t2)"
proof -
  define s where "s = tv_sec t2 - tv_sec t1"
  define u where "u = tv_usec t2 - tv_usec t1"
  have u: "- 1000000 < u" "u < 1000000" using assms by (auto simp: u_def tv_normal_def)
  have d: "tv_total t2 - tv_total t1 = s * 1000000 + u" by (simp add: tv_total_def s_def u_def)
  have dm: "u = u div 1000000 * 1000000 + u mod 1000000" "0 \<le> u mod 1000000" "u mod 1000000 < 1000000"
    by simp_all
  have delta: "tv_delta t1 t2 = (if s + u div 1000000 < 0 then Timeval 0 0
      else Timeval (s + u div 1000000) (u mod 1000000))"
    using tv_borrow_eq[OF u(2), of s] by (simp add: tv_delta_def s_def u_def)
  show ?thesis
  proof (cases "s + u div 1000000 < 0")
    case True
    then have "s * 1000000 + u < 0" using dm by linarith
    then show ?thesis using True delta d by (simp add: tv_total_def tv_normal_def)
  next
    case False
    then have "0 \<le> s * 1000000 + u" using dm by linarith
    moreover have "(s + u div 1000000) * 1000000 + u mod 1000000 = s * 1000000 + u"
      by (simp add: distrib_right add.assoc)
    ultimately show ?thesis using False delta d by (simp add: tv_total_def tv_normal_def)
  qed
qed

theorem tv_delta_exact_witness:
  "tv_total (tv_delta (Timeval 7 900000) (Timeval 9 100000))
     = max 0 (tv_total (Timeval 9 100000) - tv_total (Timeval 7 900000)) \<and>
   tv_normal (tv_delta (Timeval 7 900000) (Timeval 9 100000))"
  by (rule tv_delta_exact) (simp_all add: tv_normal_def)

lemma shaper_soonest_event_min:
  assumes "tv_normal tv" "0 \<le> tv_sec tv" "0 \<le> delay"
  shows "tv_total (snd (shaper_soonest_event tv delay)) = min (tv_total tv) delay"
    "tv_normal (snd (shaper_soonest_event tv delay))"
proof -
  obtain q r where qr: "delay div 1000000 = q" "delay mod 1000000 = r" "delay = q * 1000000 + r"
    "0 \<le> r" "r < 1000000"
    using div_mult_mod_eq[of delay 1000000, symmetric] by (metis pos_mod_bound pos_mod_sign zero_less_numeral)
  show "tv_total (snd (shaper_soonest_event tv delay)) = min (tv_total tv) delay"
    "tv_normal (snd (shaper_soonest_event tv delay))"
    using assms qr(3-5) unfolding shaper_soonest_event_def qr(1,2)
    by (auto simp: tv_total_def tv_normal_def Let_def min_def)
qed

section \<open>Rate of events\<close>

fun allowed_events :: "time_t list \<Rightarrow> frequency_limit \<Rightarrow> bool list" where
  "allowed_events [] f = []"
| "allowed_events (t # ts) f =
     (let (ok, f) = frequency_limit_event_allowed t f in ok # allowed_events ts f)"

lemma allowed_in_window:
  assumes "\<forall>t \<in> set ts. t < fl_reset f + fl_per f" "fl_per f \<noteq> 0" "0 \<le> fl_n f"
  shows "allowed_events ts f = map (\<lambda>i. fl_n f + int i < fl_max f) [0..<length ts]"
  using assms
proof (induction ts arbitrary: f)
  case (Cons t ts)
  let ?f = "f\<lparr>fl_n := fl_n f + 1\<rparr>"
  have step: "frequency_limit_event_allowed t f = (fl_n f + 1 \<le> fl_max f, ?f)"
    using Cons.prems by (simp add: frequency_limit_event_allowed_def)
  have "allowed_events ts ?f = map (\<lambda>i. fl_n f + 1 + int i < fl_max f) [0..<length ts]"
    using Cons.IH[of ?f] Cons.prems by simp
  then show ?case
    using step by (simp add: upt_rec[of 0] map_Suc_upt[symmetric] comp_def del: upt_Suc) (auto simp: ac_simps)
qed simp

text \<open>
  C31: a frequency limit of max events per period lets exactly the first max events of a period
  through: if the previous period is over when the first event occurs, then among the events of
  the following period the first max are allowed and all others are refused.
\<close>

theorem frequency_limited:
  assumes "fl_per f > 0" "fl_max f \<ge> 0" "t \<ge> fl_reset f + fl_per f"
    and "\<forall>t' \<in> set ts. t' < t + fl_per f"
  shows "allowed_events (t # ts) f = map (\<lambda>i. int i < fl_max f) [0..<length (t # ts)]"
proof -
  let ?f = "f\<lparr>fl_reset := t, fl_n := 1\<rparr>"
  have "frequency_limit_event_allowed t f = (1 \<le> fl_max f, ?f)"
    using assms(1,3) by (simp add: frequency_limit_event_allowed_def Let_def)
  moreover have "allowed_events ts ?f = map (\<lambda>i. 1 + int i < fl_max f) [0..<length ts]"
    using allowed_in_window[of ts ?f] assms(1,4) by simp
  ultimately show ?thesis
    by (simp add: upt_rec[of 0] map_Suc_upt[symmetric] comp_def del: upt_Suc) (auto simp: ac_simps)
qed

theorem frequency_limited_witness:
  "allowed_events [1000, 1000, 1001, 1009] \<lparr>fl_max = 2, fl_per = 10, fl_n = 2, fl_reset = 980\<rparr>
     = map (\<lambda>i. int i < fl_max \<lparr>fl_max = 2, fl_per = 10, fl_n = 2, fl_reset = 980\<rparr>)
         [0..<length [1000, 1000, 1001, 1009 :: time_t]]"
  by (rule frequency_limited) simp_all

text \<open>
  a recurring timer.  event_timeout_trigger with the default retry signals if and only if the
  period has elapsed since the last event, and then re-arms itself: it cannot signal again before
  a full period has passed.  With a constant retry (et_const_retry not negative) it never signals,
  although interval.h documents that it returns true.
\<close>

theorem event_timeout_trigger_signal:
  assumes "et_defined et" "event_timeout_trigger now et tv retry = (ret, et', tv')"
  shows "(ret \<longleftrightarrow> retry < 0 \<and> et_last et + et_n et \<le> now) \<and>
    (if ret then et' = et\<lparr>et_last := now\<rparr> else et' = et) \<and>
    (ret \<longrightarrow> now' < now + et_n et \<longrightarrow> \<not> fst (event_timeout_trigger now' et' tv retry))"
  using assms by (auto simp: event_timeout_trigger_def Let_def split: if_splits)

theorem event_timeout_trigger_signal_witness:
  "event_timeout_trigger 105 \<lparr>et_defined = True, et_n = 5, et_last = 100\<rparr> None (-1)
      = (True, \<lparr>et_defined = True, et_n = 5, et_last = 105\<rparr>, None) \<and>
   \<not> fst (event_timeout_trigger 109 \<lparr>et_defined = True, et_n = 5, et_last = 105\<rparr> None (-1))"
proof -
  have fired: "event_timeout_trigger 105 \<lparr>et_defined = True, et_n = 5, et_last = 100\<rparr> None (-1)
      = (True, \<lparr>et_defined = True, et_n = 5, et_last = 105\<rparr>, None)"
    by (simp add: event_timeout_trigger_def)
  have "et_defined \<lparr>et_defined = True, et_n = 5, et_last = 100\<rparr>" by simp
  from conjunct2[OF conjunct2[OF event_timeout_trigger_signal[OF this fired, of 109]]]
  have "\<not> fst (event_timeout_trigger 109 \<lparr>et_defined = True, et_n = 5, et_last = 105\<rparr> None (-1))" by simp
  then show ?thesis using fired by blast
qed

end
