(* ===== verification/Fragment.thy ===== *)
theory Fragment
  imports Mtu Otime
begin

text \<open>
  Datagram fragmentation: fragment.h and fragment.c.

  A datagram larger than the dynamic payload size is sent as up to 32 fragments, each with a
  header word that holds its type, the sequence number of the datagram, its index, and, in the
  last fragment, the size of the others.  The receiver keeps 25 assembly buffers in a window over
  the sequence numbers.  The random start of the sequence numbers and the clock are arguments.
  Where the code lets the caller's buffer share the block of an assembly or return buffer, the
  model copies it: the code initialises both again before their next use.
\<close>

section \<open>Data\<close>

abbreviation (input) "N_FRAG_BUF \<equiv> (25 :: int)"
abbreviation (input) "FRAG_TTL_SEC \<equiv> (10 :: int)"
abbreviation (input) "FRAG_WAKEUP_INTERVAL \<equiv> (5 :: int)"
abbreviation (input) "FRAG_MAP_MASK \<equiv> (0xFFFFFFFF :: u32)"
abbreviation (input) "MAX_FRAGS \<equiv> (32 :: int)"
abbreviation (input) "N_SEQ_ID \<equiv> (256 :: int)"
abbreviation (input) "FRAG_WHOLE \<equiv> (0 :: int)"
abbreviation (input) "FRAG_YES_NOTLAST \<equiv> (1 :: int)"
abbreviation (input) "FRAG_YES_LAST \<equiv> (2 :: int)"
abbreviation (input) "FRAG_TEST \<equiv> (3 :: int)"
abbreviation (input) "FRAG_TYPE_MASK \<equiv> (0x00000003 :: u32)"
abbreviation (input) "FRAG_SEQ_ID_MASK \<equiv> (0x000000ff :: u32)"
abbreviation (input) "FRAG_ID_MASK \<equiv> (0x0000001f :: u32)"
abbreviation (input) "FRAG_SIZE_MASK \<equiv> (0x00003fff :: u32)"
abbreviation (input) "FRAG_SIZE_ROUND_MASK \<equiv> (3 :: int)"
abbreviation (input) "FRAME_HEADROOM_MARKER_FRAGMENT \<equiv> (2 :: u32)"

record fragment =
  frag_defined :: bool
  max_frag_size :: int
  frag_map :: u32
  frag_timestamp :: time_t
  frag_buf :: buffer

record fragment_list =
  fl_seq_id :: int
  fl_index :: int
  fl_fragments :: "fragment list"

record fragment_master =
  fm_wakeup :: event_timeout
  received_os_mtu_hint :: bool
  outgoing_seq_id :: int
  outgoing_frag_size :: int
  outgoing_frag_id :: int
  fm_outgoing :: buffer
  outgoing_return :: buffer
  fm_incoming :: fragment_list

section \<open>Operations\<close>

definition upd_frag :: "fragment_list \<Rightarrow> nat \<Rightarrow> (fragment \<Rightarrow> fragment) \<Rightarrow> fragment_list" where
  "upd_frag l i g = l\<lparr>fl_fragments := (fl_fragments l)[i := g (fl_fragments l ! i)]\<rparr>"

definition fragment_list_buf_init :: "(nat \<Rightarrow> byte) \<Rightarrow> fragment_list \<Rightarrow> frame \<Rightarrow> fragment_list" where
  "fragment_list_buf_init junk l f =
     l\<lparr>fl_fragments := map (\<lambda>g. g\<lparr>frag_buf := alloc_buf junk (nat (BUF_SIZE f))\<rparr>) (fl_fragments l)\<rparr>"

definition fragment_list_buf_free :: "fragment_list \<Rightarrow> fragment_list" where
  "fragment_list_buf_free l =
     l\<lparr>fl_fragments := map (\<lambda>g. g\<lparr>frag_buf := free_buf (frag_buf g)\<rparr>) (fl_fragments l)\<rparr>"

text \<open>The loop \<^verbatim>\<open>while (diff > 0)\<close> of fragment_list_get_buf.\<close>

fun frag_advance :: "nat \<Rightarrow> fragment_list \<Rightarrow> fragment_list option" where
  "frag_advance 0 l = Some l"
| "frag_advance (Suc diff) l = do {
     i \<leftarrow> modulo_add (fl_index l) 1 N_FRAG_BUF;
     let l = upd_frag (l\<lparr>fl_index := i\<rparr>) (nat i) (\<lambda>g. g\<lparr>frag_defined := False\<rparr>);
     s \<leftarrow> modulo_add (fl_seq_id l) 1 N_SEQ_ID;
     frag_advance diff (l\<lparr>fl_seq_id := s\<rparr>)
   }"

definition fragment_list_get_buf :: "fragment_list \<Rightarrow> int \<Rightarrow> (nat \<times> fragment_list) option" where
  "fragment_list_get_buf l seq_id = do {
     diff \<leftarrow> modulo_subtract seq_id (fl_seq_id l) N_SEQ_ID;
     let (diff, l) = (if \<bar>diff\<bar> \<ge> N_FRAG_BUF
       then (0, l\<lparr>fl_fragments := map (\<lambda>g. g\<lparr>frag_defined := False\<rparr>) (fl_fragments l),
                   fl_index := 0, fl_seq_id := seq_id\<rparr>)
       else (diff, l));
     l \<leftarrow> frag_advance (nat diff) l;
     i \<leftarrow> modulo_add (fl_index l) (if diff > 0 then 0 else diff) N_FRAG_BUF;
     Some (nat i, l)
   }"

definition clear_fragment :: fragment where
  "clear_fragment = \<lparr>frag_defined = False, max_frag_size = 0, frag_map = 0, frag_timestamp = 0,
                     frag_buf = clear_buf\<rparr>"

definition fragment_init :: "time_t \<Rightarrow> int \<Rightarrow> frame \<Rightarrow> fragment_master \<times> frame" where
  "fragment_init now rnd f =
     (\<lparr>fm_wakeup = event_timeout_init FRAG_WAKEUP_INTERVAL now, received_os_mtu_hint = False,
       outgoing_seq_id = rnd AND (N_SEQ_ID - 1), outgoing_frag_size = 0, outgoing_frag_id = 0,
       fm_outgoing = clear_buf, outgoing_return = clear_buf,
       fm_incoming = \<lparr>fl_seq_id = 0, fl_index = 0, fl_fragments = replicate 25 clear_fragment\<rparr>\<rparr>,
      frame_add_to_extra_frame f 4)"

definition fragment_free :: "fragment_master \<Rightarrow> fragment_master" where
  "fragment_free fm =
     fm\<lparr>fm_incoming := fragment_list_buf_free (fm_incoming fm), fm_outgoing := free_buf (fm_outgoing fm),
        outgoing_return := free_buf (outgoing_return fm)\<rparr>"

definition fragment_frame_init :: "(nat \<Rightarrow> byte) \<Rightarrow> fragment_master \<Rightarrow> frame \<Rightarrow> fragment_master" where
  "fragment_frame_init junk fm f =
     fm\<lparr>fm_incoming := fragment_list_buf_init junk (fm_incoming fm) f,
        fm_outgoing := alloc_buf junk (nat (BUF_SIZE f)),
        outgoing_return := alloc_buf junk (nat (BUF_SIZE f))\<rparr>"

text \<open>
  fragment_incoming once the header says that the packet \<open>b\<close> is fragment \<open>n\<close> of datagram
  \<open>seq_id\<close> and the others have \<open>size\<close> bytes.
\<close>

definition fragment_assemble ::
  "time_t \<Rightarrow> fragment_master \<Rightarrow> buffer \<Rightarrow> frame \<Rightarrow> bool \<Rightarrow> int \<Rightarrow> int \<Rightarrow> int
    \<Rightarrow> (fragment_master \<times> buffer) option" where
  "fragment_assemble now fm b f is_last seq_id n sz = do {
     (i, l) \<leftarrow> fragment_list_get_buf (fm_incoming fm) seq_id;
     if sz AND FRAG_SIZE_ROUND_MASK \<noteq> 0 then Some (fm\<lparr>fm_incoming := l\<rparr>, b\<lparr>len := 0\<rparr>)
     else do {
       let frag = fl_fragments l ! i;
       frag \<leftarrow> (if \<not> frag_defined frag \<or> (frag_defined frag \<and> max_frag_size frag \<noteq> sz)
         then do {
           let (ok, fb) = buf_init (frag_buf frag) (frame_headroom f FRAME_HEADROOM_MARKER_FRAGMENT);
           ASSERT ok;
           Some (frag\<lparr>frag_defined := True, max_frag_size := sz, frag_map := 0, frag_buf := fb\<rparr>)
         } else Some frag);
       (ok, fb) \<leftarrow> buf_copy_range (frag_buf frag) (n * sz) b 0 (len b);
       let frag = frag\<lparr>frag_buf := fb\<rparr>;
       if \<not> ok then Some (fm\<lparr>fm_incoming := upd_frag l i (\<lambda>_. frag)\<rparr>, b\<lparr>len := 0\<rparr>)
       else do {
         let frag = frag\<lparr>frag_map := frag_map frag OR push_bit (nat n) (if is_last then FRAG_MAP_MASK else 1),
                         frag_timestamp := now\<rparr>;
         if frag_map frag AND FRAG_MAP_MASK = FRAG_MAP_MASK
         then let frag = frag\<lparr>frag_defined := False\<rparr>
              in Some (fm\<lparr>fm_incoming := upd_frag l i (\<lambda>_. frag)\<rparr>, frag_buf frag)
         else Some (fm\<lparr>fm_incoming := upd_frag l i (\<lambda>_. frag)\<rparr>, b\<lparr>len := 0\<rparr>)
       }
     }
   }"

definition fragment_incoming ::
  "time_t \<Rightarrow> fragment_master \<Rightarrow> buffer \<Rightarrow> frame \<Rightarrow> (fragment_master \<times> buffer) option" where
  "fragment_incoming now fm b f =
     (if len b > 0 then do {
        (r, b) \<leftarrow> buf_read b 4;
        (case r of
           None \<Rightarrow> Some (fm, b\<lparr>len := 0\<rparr>)
         | Some bs \<Rightarrow>
             (let flags = of_be32 bs;
                  frag_type = uint (flags AND FRAG_TYPE_MASK)
              in if frag_type = FRAG_WHOLE then
                   (if flags AND (FRAG_SEQ_ID_MASK OR FRAG_ID_MASK) \<noteq> 0 then Some (fm, b\<lparr>len := 0\<rparr>)
                    else Some (fm, b))
                 else if frag_type = FRAG_YES_NOTLAST \<or> frag_type = FRAG_YES_LAST then
                   (let seq_id = uint (drop_bit 2 flags AND FRAG_SEQ_ID_MASK);
                        n = uint (drop_bit 10 flags AND FRAG_ID_MASK);
                        sz = (if frag_type = FRAG_YES_LAST
                              then uint (push_bit 2 (drop_bit 15 flags AND FRAG_SIZE_MASK)) else len b)
                    in fragment_assemble now fm b f (frag_type = FRAG_YES_LAST) seq_id n sz)
                 else Some (fm, b\<lparr>len := 0\<rparr>)))
      } else Some (fm, b))"

definition fragment_flags :: "int \<Rightarrow> int \<Rightarrow> int \<Rightarrow> int \<Rightarrow> u32" where
  "fragment_flags frag_type seq_id frag_id frag_size =
     (let flags = (word_of_int frag_type AND FRAG_TYPE_MASK)
            OR push_bit 2 (word_of_int seq_id AND FRAG_SEQ_ID_MASK)
            OR push_bit 10 (word_of_int frag_id AND FRAG_ID_MASK)
      in if frag_type = FRAG_WHOLE \<or> frag_type = FRAG_YES_NOTLAST then flags
         else flags OR push_bit 15 (word_of_int (drop_bit 2 frag_size) AND FRAG_SIZE_MASK))"

definition fragment_prepend_flags :: "buffer \<Rightarrow> int \<Rightarrow> int \<Rightarrow> int \<Rightarrow> int \<Rightarrow> buffer option" where
  "fragment_prepend_flags b frag_type seq_id frag_id frag_size = do {
     (ok, b) \<leftarrow> buf_write_prepend b (be32 (fragment_flags frag_type seq_id frag_id frag_size)) 4;
     ASSERT ok;
     Some b
   }"

text \<open>
  optimal_fragment_size; the division by an aligned size of zero is undefined behaviour.  The
  sizes it is called with are positive, so \<^verbatim>\<open>div\<close> and \<^verbatim>\<open>mod\<close> are the operators of C.
\<close>

definition optimal_fragment_size :: "int \<Rightarrow> int \<Rightarrow> int option" where
  "optimal_fragment_size ln mx = do {
     let mfs_aligned = mx AND NOT FRAG_SIZE_ROUND_MASK;
     ASSERT (mfs_aligned \<noteq> 0);
     let dv = ln div mfs_aligned;
     let md = ln mod mfs_aligned;
     Some (if dv > 0 \<and> md > 0 \<and> md < mfs_aligned * 3 div 4
           then min_int mfs_aligned
             ((mx - ((mx - md) div (dv + 1)) + FRAG_SIZE_ROUND_MASK) AND NOT FRAG_SIZE_ROUND_MASK)
           else mfs_aligned)
   }"

definition fragment_outgoing_defined :: "fragment_master \<Rightarrow> bool" where
  "fragment_outgoing_defined fm = (len (fm_outgoing fm) > 0)"

definition fragment_ready_to_send ::
  "fragment_master \<Rightarrow> buffer \<Rightarrow> frame \<Rightarrow> (bool \<times> fragment_master \<times> buffer) option" where
  "fragment_ready_to_send fm b f =
     (if fragment_outgoing_defined fm then do {
        let last1 = (len (fm_outgoing fm) \<le> outgoing_frag_size fm);
        let sz = (if last1 then len (fm_outgoing fm) else outgoing_frag_size fm);
        let (ok, b) = buf_init (outgoing_return fm) (frame_headroom f 0);
        ASSERT ok;
        (ok, b, out) \<leftarrow> buf_copy_n b (fm_outgoing fm) sz;
        ASSERT ok;
        let fm = fm\<lparr>fm_outgoing := out\<rparr>;
        b \<leftarrow> fragment_prepend_flags b (if last1 then FRAG_YES_LAST else FRAG_YES_NOTLAST)
               (outgoing_seq_id fm) (outgoing_frag_id fm) (outgoing_frag_size fm);
        let fm = fm\<lparr>outgoing_frag_id := outgoing_frag_id fm + 1\<rparr>;
        ASSERT (\<not> last1 \<or> len (fm_outgoing fm) = 0);
        Some (True, fm, b)
      } else Some (False, fm, b))"

definition fragment_outgoing ::
  "fragment_master \<Rightarrow> buffer \<Rightarrow> frame \<Rightarrow> (fragment_master \<times> buffer) option" where
  "fragment_outgoing fm b f =
     (if len b > 0 then
        if len b > PAYLOAD_SIZE_DYNAMIC f then do {
          sz \<leftarrow> optimal_fragment_size (len b) (PAYLOAD_SIZE_DYNAMIC f);
          let fm = fm\<lparr>outgoing_frag_size := sz\<rparr>;
          if len b > sz * MAX_FRAGS then Some (fm, b\<lparr>len := 0\<rparr>)
          else do {
            let (ok, out) = buf_init (fm_outgoing fm) (frame_headroom f 0);
            ASSERT ok;
            (ok, out) \<leftarrow> buf_copy out b;
            ASSERT ok;
            s \<leftarrow> modulo_add (outgoing_seq_id fm) 1 N_SEQ_ID;
            (ok, fm, b) \<leftarrow> fragment_ready_to_send
              (fm\<lparr>fm_outgoing := out, outgoing_seq_id := s, outgoing_frag_id := 0\<rparr>) (b\<lparr>len := 0\<rparr>) f;
            ASSERT ok;
            Some (fm, b)
          }
        }
        else do {
          b \<leftarrow> fragment_prepend_flags b FRAG_WHOLE 0 0 0;
          Some (fm, b)
        }
      else Some (fm, b))"

definition fragment_ttl_reap :: "time_t \<Rightarrow> fragment_master \<Rightarrow> fragment_master" where
  "fragment_ttl_reap now fm =
     fm\<lparr>fm_incoming := (fm_incoming fm)\<lparr>fl_fragments :=
        map (\<lambda>g. if frag_defined g \<and> frag_timestamp g + FRAG_TTL_SEC \<le> now
                 then g\<lparr>frag_defined := False\<rparr> else g) (fl_fragments (fm_incoming fm))\<rparr>\<rparr>"

definition fragment_wakeup :: "time_t \<Rightarrow> fragment_master \<Rightarrow> fragment_master" where
  "fragment_wakeup now fm = fragment_ttl_reap now fm"

definition fragment_housekeeping ::
  "time_t \<Rightarrow> fragment_master \<Rightarrow> timeval option \<Rightarrow> fragment_master \<times> timeval option" where
  "fragment_housekeeping now fm tv =
     (case event_timeout_trigger now (fm_wakeup fm) tv (-1) of
        (ret, et, tv) \<Rightarrow>
          let fm = fm\<lparr>fm_wakeup := et\<rparr> in (if ret then fragment_wakeup now fm else fm, tv))"

section \<open>The header word\<close>

lemma frag_masks: "(0x00000003 :: u32) = mask 2" "(0x000000ff :: u32) = mask 8"
  "(0x0000001f :: u32) = mask 5" "(0x00003fff :: u32) = mask 14"
  by (simp_all add: mask_eq_exp_minus_1)

lemma uint_masked: "0 \<le> x \<Longrightarrow> x < 2 ^ n \<Longrightarrow> n \<le> 32 \<Longrightarrow> uint ((word_of_int x :: u32) AND mask n) = x"
proof -
  assume x: "0 \<le> x" "x < 2 ^ n" "n \<le> 32"
  have "uint ((word_of_int x :: u32) AND mask n) = take_bit n (take_bit 32 x)"
    by (simp only: take_bit_eq_mask[symmetric] unsigned_take_bit_eq uint_word_of_int_eq) simp
  also have "\<dots> = x" using x by (simp add: min_def take_bit_int_eq_self)
  finally show ?thesis .
qed

lemma fragment_flags_bits:
  "fragment_flags t s i z AND mask 2 = word_of_int t AND mask 2"
  "drop_bit 2 (fragment_flags t s i z) AND mask 8 = word_of_int s AND mask 8"
  "drop_bit 10 (fragment_flags t s i z) AND mask 5 = word_of_int i AND mask 5"
  "t \<noteq> 0 \<Longrightarrow> t \<noteq> 1 \<Longrightarrow>
     drop_bit 15 (fragment_flags t s i z) AND mask 14 = word_of_int (drop_bit 2 z) AND mask 14"
  unfolding fragment_flags_def Let_def frag_masks
  by (auto intro!: bit_word_eqI simp: bit_simps)

lemma fragment_flags_fields:
  assumes "0 \<le> t" "t < 4" "0 \<le> s" "s < 256" "0 \<le> i" "i < 32"
  shows "uint (fragment_flags t s i z AND FRAG_TYPE_MASK) = t"
    "uint (drop_bit 2 (fragment_flags t s i z) AND FRAG_SEQ_ID_MASK) = s"
    "uint (drop_bit 10 (fragment_flags t s i z) AND FRAG_ID_MASK) = i"
  unfolding frag_masks fragment_flags_bits
  using assms uint_masked[of t 2] uint_masked[of s 8] uint_masked[of i 5] by simp_all

lemma fragment_flags_size:
  assumes "t = 2 \<or> t = 3" "0 \<le> z" "z < 65536" "z mod 4 = 0"
  shows "uint (push_bit 2 (drop_bit 15 (fragment_flags t s i z) AND FRAG_SIZE_MASK)) = z"
proof -
  have m: "uint ((word_of_int (z div 4) :: u32) AND mask 14) = z div 4"
    using assms by (intro uint_masked) auto
  have "drop_bit 15 (fragment_flags t s i z) AND FRAG_SIZE_MASK = word_of_int (z div 4) AND mask 14"
    unfolding frag_masks using fragment_flags_bits(4)[of t s i z] assms(1) by (auto simp: drop_bit_eq_div)
  then have "uint (push_bit 2 (drop_bit 15 (fragment_flags t s i z) AND FRAG_SIZE_MASK))
      = take_bit 32 (4 * (z div 4))"
    using m by (simp only: unsigned_push_bit_eq) (simp add: push_bit_eq_mult mult.commute)
  also have "4 * (z div 4) = z" using assms(4) by presburger
  also have "take_bit 32 z = z" using assms by (simp add: take_bit_int_eq_self)
  finally show ?thesis .
qed

section \<open>The size of fragments\<close>

text \<open>The number of fragments of \<open>sz\<close> bytes that a datagram of \<open>ln\<close> bytes takes.\<close>

definition frag_count :: "int \<Rightarrow> int \<Rightarrow> int" where
  "frag_count ln sz = (ln + sz - 1) div sz"

lemma frag_count_eqI:
  assumes "0 < sz" "(k - 1) * sz < ln" "ln \<le> k * sz"
  shows "frag_count ln sz = k"
proof -
  have "k * sz \<le> ln + sz - 1" "ln + sz - 1 < (k + 1) * sz" using assms by (simp_all add: algebra_simps)
  then show ?thesis unfolding frag_count_def using assms(1)
    by (intro int_div_pos_eq[of _ sz _ "ln + sz - 1 - k * sz"]) (simp_all add: algebra_simps)
qed

lemma round_up_bounds: "(x :: int) \<le> (x + 3) - (x + 3) mod 4" "(x + 3) - (x + 3) mod 4 \<le> x + 3"
  by presburger+

lemma optimal_fragment_size_ok:
  assumes "4 \<le> mx" "0 < ln"
  shows "\<exists>sz. optimal_fragment_size ln mx = Some sz \<and> 0 < sz \<and> sz \<le> mx \<and> sz mod 4 = 0 \<and>
    frag_count ln sz = frag_count ln (mx - mx mod 4)"
proof -
  define A dv md where "A = mx - mx mod 4" and "dv = ln div A" and "md = ln mod A"
  have A: "0 < A" "A \<le> mx" "A mod 4 = 0" using assms(1) by (auto simp: A_def) 
  have ln: "ln = dv * A + md" "0 \<le> md" "md < A" using A(1) by (simp_all add: dv_def md_def)
  define q where "q = (mx - md) div (dv + 1)"
  define s where "s = (mx - q + 3) - (mx - q + 3) mod 4"
  have opt: "optimal_fragment_size ln mx
      = Some (if dv > 0 \<and> md > 0 \<and> md < A * 3 div 4 then min A s else A)"
    using A(1) unfolding optimal_fragment_size_def and_not_3 Let_def A_def[symmetric]
    by (simp add: min_max_int s_def q_def dv_def md_def)
  show ?thesis
  proof (cases "dv > 0 \<and> md > 0 \<and> md < A * 3 div 4")
    case False
    then have "optimal_fragment_size ln mx = Some A" using opt by (simp only: if_False)
    then show ?thesis
      unfolding A_def[symmetric] by (intro exI[of _ A] conjI A refl)
  next
    case True
    then have res: "optimal_fragment_size ln mx = Some (min A s)" using opt by simp
    have "0 \<le> (mx - md) mod (dv + 1)" using True by simp
    then have q: "(dv + 1) * q \<le> mx - md"
      using mult_div_mod_eq[of "dv + 1" "mx - md"] unfolding q_def by linarith
    have s: "mx - q \<le> s" "s mod 4 = 0" using round_up_bounds(1)[of "mx - q"] by (auto simp: s_def)
    have "ln \<le> (dv + 1) * (mx - q)"
    proof -
      have "dv * A \<le> dv * mx" using A(2) True by simp
      then show ?thesis using q ln(1) by (simp add: algebra_simps)
    qed
    also have "\<dots> \<le> (dv + 1) * s" using s(1) True by simp
    finally have up: "ln \<le> (dv + 1) * min A s" using ln True by (auto simp: min_def algebra_simps)
    have "0 < (dv + 1) * min A s" using up assms(2) by linarith
    then have pos: "0 < min A s" using True by (simp add: zero_less_mult_iff)
    have "dv * min A s \<le> dv * A" using True by simp
    then have low: "dv * min A s < ln" using ln(1) True by linarith
    have "frag_count ln (min A s) = dv + 1" using frag_count_eqI[OF pos _ up] low by simp
    moreover have "frag_count ln A = dv + 1"
      using ln True by (intro frag_count_eqI A(1)) (auto simp: algebra_simps)
    moreover have "min A s mod 4 = 0" using A(3) s(2) by (auto simp: min_def)
    moreover have "min A s \<le> mx" using A(2) by simp
    ultimately show ?thesis
      unfolding A_def[symmetric] by (intro exI[of _ "min A s"] conjI res pos) simp_all
  qed
qed

text \<open>
  Optimal_fragment_size makes the fragments of a datagram more even without sending more of
  them: the size it returns is a positive multiple of 4 not above the maximum, and the datagram
  takes exactly as many fragments of that size as of the largest aligned size.
\<close>

theorem optimal_fragment_size_same_count:
  assumes "4 \<le> mx" "0 < ln"
  shows "\<exists>sz. optimal_fragment_size ln mx = Some sz \<and> 0 < sz \<and> sz \<le> mx \<and> sz mod 4 = 0 \<and>
    frag_count ln sz = frag_count ln (mx - mx mod 4)"
  using assms by (rule optimal_fragment_size_ok)

theorem optimal_fragment_size_same_count_witness:
  "\<exists>sz. optimal_fragment_size 1600 1402 = Some sz \<and> 0 < sz \<and> sz \<le> 1402 \<and> sz mod 4 = 0 \<and>
    frag_count 1600 sz = frag_count 1600 (1402 - 1402 mod 4)"
  by (rule optimal_fragment_size_same_count) simp_all

section \<open>The fragments of a datagram\<close>

definition frag_packet :: "int \<Rightarrow> nat \<Rightarrow> byte list \<Rightarrow> nat \<Rightarrow> byte list" where
  "frag_packet seq z d i =
     be32 (fragment_flags (if length d \<le> (i + 1) * z then 2 else 1) seq (int i) (int z)) @ take z (drop (i * z) d)"

text \<open>Sending until nothing is left, with at most \<open>n\<close> more fragments.\<close>

fun fragment_drain :: "nat \<Rightarrow> fragment_master \<Rightarrow> frame \<Rightarrow> (byte list list \<times> fragment_master) option" where
  "fragment_drain 0 fm f = Some ([], fm)"
| "fragment_drain (Suc n) fm f =
     (if fragment_outgoing_defined fm then
        case fragment_ready_to_send fm clear_buf f of
          Some (True, fm, b) \<Rightarrow> map_option (map_prod (Cons (content b)) id) (fragment_drain n fm f)
        | _ \<Rightarrow> None
      else Some ([], fm))"

definition fragment_send :: "fragment_master \<Rightarrow> buffer \<Rightarrow> frame \<Rightarrow> (byte list list \<times> fragment_master) option" where
  "fragment_send fm b f = do {
     (fm, b) \<leftarrow> fragment_outgoing fm b f;
     (ps, fm) \<leftarrow> fragment_drain 31 fm f;
     Some (content b # ps, fm)
   }"

lemma fragment_prepend_flags_mk_buf:
  "4 \<le> length pre \<Longrightarrow> fragment_prepend_flags (mk_buf pre c post) t s i z
     = Some (mk_buf (take (length pre - 4) pre) (be32 (fragment_flags t s i z) @ c) post)"
  by (simp add: fragment_prepend_flags_def)

lemma outgoing_defined_iff:
  "live_buf (fm_outgoing fm) \<Longrightarrow> fragment_outgoing_defined fm \<longleftrightarrow> content (fm_outgoing fm) \<noteq> []"
  by (erule live_bufE) (simp add: fragment_outgoing_defined_def)

text \<open>A sender with the remainder \<open>c\<close> of a datagram in its outgoing buffer.\<close>

definition sending :: "frame \<Rightarrow> fragment_master \<Rightarrow> int \<Rightarrow> nat \<Rightarrow> nat \<Rightarrow> byte list \<Rightarrow> bool" where
  "sending f fm seq z i c \<longleftrightarrow> live_buf (fm_outgoing fm) \<and> content (fm_outgoing fm) = c \<and>
     live_buf (outgoing_return fm) \<and> capacity (outgoing_return fm) = BUF_SIZE f \<and>
     outgoing_seq_id fm = seq \<and> outgoing_frag_size fm = int z \<and> outgoing_frag_id fm = int i"

lemma fragment_ready_to_send_step:
  assumes s: "sending f fm seq z i c" and c: "c \<noteq> []" "0 < z"
    and room: "4 \<le> frame_headroom f 0" "frame_headroom f 0 + int (length c) \<le> BUF_SIZE f"
  shows "\<exists>fm' b'. fragment_ready_to_send fm b f = Some (True, fm', b') \<and> live_buf b' \<and>
    content b' = be32 (fragment_flags (if length c \<le> z then 2 else 1) seq (int i) (int z)) @ take z c \<and>
    sending f fm' seq z (Suc i) (drop z c)"
proof -
  obtain pre post where out: "fm_outgoing fm = mk_buf pre c post"
    using s live_buf_contentE[of "fm_outgoing fm" c] by (auto simp: sending_def)
  obtain pr po where ret: "buf_init (outgoing_return fm) (frame_headroom f 0) = (True, mk_buf pr [] po)"
    "int (length pr) = frame_headroom f 0" "int (length pr + length po) = BUF_SIZE f"
    using s room buf_init_live[of "outgoing_return fm" "frame_headroom f 0"] by (auto simp: sending_def)
  have fits: "length c \<le> length po" "4 \<le> length pr" using ret room by linarith+
  show ?thesis
  proof (cases "length c \<le> z")
    case True
    then show ?thesis
      using s c out ret fits
      by (simp add: fragment_ready_to_send_def fragment_outgoing_defined_def sending_def
          fragment_prepend_flags_mk_buf)
  next
    case False
    then show ?thesis
      using s c out ret fits
      by (simp add: fragment_ready_to_send_def fragment_outgoing_defined_def sending_def
          fragment_prepend_flags_mk_buf)
  qed
qed

lemma fragment_drain_packets:
  assumes "sending f fm seq z i (drop (i * z) d)" "0 < z"
    and "4 \<le> frame_headroom f 0" "frame_headroom f 0 + int (length d) \<le> BUF_SIZE f"
    and "k = n + i" "(k - 1) * z < length d \<or> k = i" "length d \<le> k * z" "n \<le> fuel"
  shows "\<exists>fm'. fragment_drain fuel fm f = Some (map (frag_packet seq z d) [i..<k], fm') \<and>
    \<not> fragment_outgoing_defined fm' \<and> outgoing_seq_id fm' = seq"
  using assms
proof (induction n arbitrary: i fm fuel)
  case 0
  then have "\<not> fragment_outgoing_defined fm" by (simp add: sending_def outgoing_defined_iff)
  then show ?case using 0 by (cases fuel) (auto simp: sending_def)
next
  case (Suc n)
  obtain fuel' where fuel: "fuel = Suc fuel'" using Suc.prems(8) by (cases fuel) auto
  have "i * z \<le> (k - 1) * z" using Suc.prems(5) by (intro mult_le_mono1) simp
  also have "\<dots> < length d" using Suc.prems(5,6) by auto
  finally have ne: "i * z < length d" .
  have "frame_headroom f 0 + int (length (drop (i * z) d)) \<le> BUF_SIZE f" using Suc.prems(4) by simp
  then obtain fm1 b1 where step: "fragment_ready_to_send fm clear_buf f = Some (True, fm1, b1)"
    "content b1 = be32 (fragment_flags (if length (drop (i * z) d) \<le> z then 2 else 1) seq (int i) (int z))
       @ take z (drop (i * z) d)"
    "sending f fm1 seq z (Suc i) (drop z (drop (i * z) d))"
    using fragment_ready_to_send_step[OF Suc.prems(1) _ Suc.prems(2,3), of clear_buf] ne by auto
  have "length (drop (i * z) d) \<le> z \<longleftrightarrow> length d \<le> (i + 1) * z" using ne by auto
  then have pkt: "content b1 = frag_packet seq z d i" using step(2) by (simp add: frag_packet_def)
  have def: "fragment_outgoing_defined fm"
    using Suc.prems(1) ne by (simp add: sending_def outgoing_defined_iff)
  have next_state: "sending f fm1 seq z (Suc i) (drop (Suc i * z) d)" using step(3) by (simp add: add.commute)
  obtain fm' where "fragment_drain fuel' fm1 f = Some (map (frag_packet seq z d) [Suc i..<k], fm')"
    "\<not> fragment_outgoing_defined fm'" "outgoing_seq_id fm' = seq"
    using Suc.IH[OF next_state Suc.prems(2-4) _ _ Suc.prems(7), of fuel'] Suc.prems(5,6,8) fuel by auto
  moreover have "[i..<k] = i # [Suc i..<k]" using Suc.prems(5) by (simp add: upt_conv_Cons)
  ultimately show ?case using fuel step(1) def pkt by simp
qed

text \<open>The whole of a datagram on the wire, whole or in fragments.\<close>

definition frag_ready :: "frame \<Rightarrow> fragment_master \<Rightarrow> bool" where
  "frag_ready f fm \<longleftrightarrow> live_buf (fm_outgoing fm) \<and> capacity (fm_outgoing fm) = BUF_SIZE f \<and>
     live_buf (outgoing_return fm) \<and> capacity (outgoing_return fm) = BUF_SIZE f \<and>
     0 \<le> outgoing_seq_id fm \<and> outgoing_seq_id fm < 256"

lemma frame_room:
  assumes "wf_frame f" "int n \<le> MAX_RW_SIZE_LINK f"
  shows "4 \<le> frame_headroom f m" "frame_headroom f m + int n \<le> BUF_SIZE f"
  using assms frame_headroom_bounds[of f m] by (auto simp: wf_frame_def frame_size_defs)

lemma fragment_send_packets:
  assumes f: "wf_frame f" and fm: "frag_ready f fm" and b: "live_buf b" "content b = d"
    and big: "PAYLOAD_SIZE_DYNAMIC f < int (length d)" "int (length d) \<le> MAX_RW_SIZE_LINK f"
    and sz: "optimal_fragment_size (int (length d)) (PAYLOAD_SIZE_DYNAMIC f) = Some (int z)"
    and k: "k \<le> 32" "(k - 1) * z < length d" "length d \<le> k * z"
    and seq: "seq = (outgoing_seq_id fm + 1) mod 256"
  shows "\<exists>fm'. fragment_send fm b f = Some (map (frag_packet seq z d) [0..<k], fm')"
proof -
  obtain pre post where b': "b = mk_buf pre d post" using b by (rule live_buf_contentE)
  have z: "0 < z" "0 < k" using k(2,3) by (auto intro: ccontr)
  have dyn: "4 \<le> PAYLOAD_SIZE_DYNAMIC f" using f by (auto simp: wf_frame_def frame_size_defs PAYLOAD_SIZE_DYNAMIC_def)
  note room = frame_room[OF f big(2), of 0]
  obtain pr po where out: "buf_init (fm_outgoing fm) (frame_headroom f 0) = (True, mk_buf pr [] po)"
    "int (length pr) = frame_headroom f 0" "int (length pr + length po) = BUF_SIZE f"
    using fm room buf_init_live[of "fm_outgoing fm" "frame_headroom f 0"] by (auto simp: frag_ready_def)
  have fits: "length d \<le> length po" using out room by linarith
  have seq_add: "modulo_add (outgoing_seq_id fm) 1 256 = Some seq"
    using fm by (simp add: modulo_add_eq frag_ready_def seq)
  have few: "int (length d) \<le> int z * 32"
  proof -
    have "k * z \<le> 32 * z" using k(1) by simp
    then show ?thesis using k(3) by linarith
  qed
  let ?fm = "fm\<lparr>outgoing_frag_size := int z, fm_outgoing := mk_buf pr d (drop (length d) po),
    outgoing_seq_id := seq, outgoing_frag_id := 0\<rparr>"
  have s0: "sending f ?fm seq z 0 d" using fm by (simp add: sending_def frag_ready_def)
  have ne: "d \<noteq> []" using k(2) by auto
  obtain fm1 b1 where first: "fragment_ready_to_send ?fm (b\<lparr>len := 0\<rparr>) f = Some (True, fm1, b1)"
    "content b1 = frag_packet seq z d 0" "sending f fm1 seq z (Suc 0) (drop (Suc 0 * z) d)"
    using fragment_ready_to_send_step[OF s0 ne z(1) room, of "b\<lparr>len := 0\<rparr>"] by (auto simp: frag_packet_def)
  have "(k - 1) * z < length d \<or> k = Suc 0" "k = (k - 1) + Suc 0" "k - 1 \<le> 31" using k z by auto
  then obtain fm' where "fragment_drain 31 fm1 f = Some (map (frag_packet seq z d) [Suc 0..<k], fm')"
    using fragment_drain_packets[OF first(3) z(1) room _ _ k(3), of "k - 1" 31] by blast
  moreover have "fragment_outgoing fm b f = Some (fm1, b1)"
    using b' big dyn sz out fits few seq_add first(1) ne
    by (simp add: fragment_outgoing_def not_less)
  moreover have "[0..<k] = 0 # [Suc 0..<k]" using z(2) by (simp add: upt_conv_Cons)
  ultimately show ?thesis using first(2) by (simp add: fragment_send_def)
qed

section \<open>The window of assembly buffers\<close>

definition wf_fl :: "frame \<Rightarrow> fragment_list \<Rightarrow> bool" where
  "wf_fl f l \<longleftrightarrow> length (fl_fragments l) = 25 \<and> 0 \<le> fl_index l \<and> fl_index l < 25 \<and>
     0 \<le> fl_seq_id l \<and> fl_seq_id l < 256 \<and>
     (\<forall>g \<in> set (fl_fragments l). live_buf (frag_buf g) \<and> capacity (frag_buf g) = BUF_SIZE f)"

lemma wf_fl_upd [wf_intros]:
  assumes "wf_fl f l" "i < 25" "live_buf (frag_buf (h (fl_fragments l ! i)))"
    "capacity (frag_buf (h (fl_fragments l ! i))) = BUF_SIZE f"
  shows "wf_fl f (upd_frag l i h)"
  using assms by (auto simp: wf_fl_def upd_frag_def dest!: set_update_subset_insert[THEN subsetD])

lemma wf_fl_nth:
  assumes "wf_fl f l" "i < 25"
  shows "live_buf (frag_buf (fl_fragments l ! i))" "capacity (frag_buf (fl_fragments l ! i)) = BUF_SIZE f"
  using assms nth_mem[of i "fl_fragments l"] by (auto simp: wf_fl_def)

lemma frag_advance_ok:
  assumes "wf_fl f l"
  shows "\<exists>l'. frag_advance n l = Some l' \<and> wf_fl f l' \<and> fl_seq_id l' = (fl_seq_id l + int n) mod 256 \<and>
    (0 < n \<longrightarrow> \<not> frag_defined (fl_fragments l' ! nat (fl_index l')))"
  using assms
proof (induction n arbitrary: l)
  case 0
  then show ?case by (simp add: wf_fl_def)
next
  case (Suc n)
  let ?i = "(fl_index l + 1) mod 25" and ?s = "(fl_seq_id l + 1) mod 256"
  let ?l = "(upd_frag (l\<lparr>fl_index := ?i\<rparr>) (nat ?i) (\<lambda>g. g\<lparr>frag_defined := False\<rparr>))\<lparr>fl_seq_id := ?s\<rparr>"
  have i: "0 \<le> ?i" "?i < 25" by simp_all
  then have i': "nat ?i < 25" by linarith
  have wf: "wf_fl f ?l"
    using wf_fl_upd[OF Suc.prems i', of "\<lambda>g. g\<lparr>frag_defined := False\<rparr>"] wf_fl_nth[OF Suc.prems i'] i
    by (simp add: upd_frag_def wf_fl_def)
  have undefd: "\<not> frag_defined (fl_fragments ?l ! nat (fl_index ?l))"
    using i' Suc.prems by (simp add: upd_frag_def wf_fl_def)
  have step: "frag_advance (Suc n) l = frag_advance n ?l"
    using Suc.prems by (simp add: modulo_add_eq wf_fl_def upd_frag_def Let_def)
  obtain l' where l': "frag_advance n ?l = Some l'" "wf_fl f l'"
    "fl_seq_id l' = (fl_seq_id ?l + int n) mod 256"
    "0 < n \<longrightarrow> \<not> frag_defined (fl_fragments l' ! nat (fl_index l'))"
    using Suc.IH[OF wf] by blast
  have "fl_seq_id l' = (fl_seq_id l + int (Suc n)) mod 256"
    using l'(3) by (simp add: mod_simps algebra_simps)
  moreover have "\<not> frag_defined (fl_fragments l' ! nat (fl_index l'))"
    using l'(1,4) undefd by (cases n) auto
  ultimately show ?case using step l'(1,2) by simp
qed

lemma modulo_subtract_self: "0 \<le> x \<Longrightarrow> x < md \<Longrightarrow> modulo_subtract x x md = Some 0"
  by (simp add: modulo_subtract_def)

text \<open>Buffer \<open>n\<close> is the one for sequence number \<open>seq\<close>, and looking it up moves nothing.\<close>

definition fl_at :: "fragment_list \<Rightarrow> int \<Rightarrow> nat \<Rightarrow> bool" where
  "fl_at l seq n \<longleftrightarrow> (case modulo_subtract seq (fl_seq_id l) 256 of None \<Rightarrow> False
     | Some d \<Rightarrow> - 25 < d \<and> d \<le> 0 \<and> n = nat ((fl_index l + d) mod 25))"

lemma fl_at_get_buf: "wf_fl f l \<Longrightarrow> fl_at l seq n \<Longrightarrow> fragment_list_get_buf l seq = Some (n, l)"
  by (auto simp: fl_at_def fragment_list_get_buf_def modulo_add_eq wf_fl_def split: option.splits)

lemma fl_at_upd [simp]: "fl_at (upd_frag l i h) seq n = fl_at l seq n"
  by (simp add: fl_at_def upd_frag_def split: option.splits)

text \<open>
  Looking up a sequence number returns a valid buffer, keeps the window well-formed, and a second
  look-up of the same number finds the same buffer and moves nothing.
\<close>

lemma fragment_list_get_buf_ok:
  assumes wf: "wf_fl f l" and seq: "0 \<le> seq" "seq < 256"
  shows "\<exists>i l'. fragment_list_get_buf l seq = Some (i, l') \<and> i < 25 \<and> wf_fl f l' \<and>
    fl_at l' seq i \<and> (l' = l \<or> \<not> frag_defined (fl_fragments l' ! i))"
proof -
  obtain d where d: "modulo_subtract seq (fl_seq_id l) 256 = Some d" "(fl_seq_id l + d) mod 256 = seq"
    using modulo_subtract_cong[of seq 256 "fl_seq_id l"] wf seq by (auto simp: wf_fl_def)
  show ?thesis
  proof (cases "\<bar>d\<bar> \<ge> 25")
    case True
    let ?l = "l\<lparr>fl_fragments := map (\<lambda>g. g\<lparr>frag_defined := False\<rparr>) (fl_fragments l),
                fl_index := 0, fl_seq_id := seq\<rparr>"
    have "wf_fl f ?l" using wf seq by (auto simp: wf_fl_def)
    moreover have "fragment_list_get_buf l seq = Some (0, ?l)" "fl_at ?l seq 0"
      using True d seq by (simp_all add: fragment_list_get_buf_def fl_at_def modulo_subtract_self modulo_add_eq)
    ultimately show ?thesis using wf by (auto simp: wf_fl_def)
  next
    case False
    show ?thesis
    proof (cases "d > 0")
      case True
      obtain l' where l': "frag_advance (nat d) l = Some l'" "wf_fl f l'" "fl_seq_id l' = seq"
        "\<not> frag_defined (fl_fragments l' ! nat (fl_index l'))"
        using frag_advance_ok[OF wf, of "nat d"] True d(2) by auto
      have "fragment_list_get_buf l seq = Some (nat (fl_index l'), l')"
        "fl_at l' seq (nat (fl_index l'))"
        using True False d(1) l' seq
        by (simp_all add: fragment_list_get_buf_def fl_at_def modulo_subtract_self modulo_add_eq wf_fl_def)
      then show ?thesis using l' by (auto simp: wf_fl_def)
    next
      case nonpos: False
      let ?i = "nat ((fl_index l + d) mod 25)"
      have "fragment_list_get_buf l seq = Some (?i, l)"
        using nonpos False d(1) wf by (simp add: fragment_list_get_buf_def modulo_add_eq wf_fl_def)
      moreover have "?i < 25" using pos_mod_bound[of 25 "fl_index l + d"] by linarith
      moreover have "fl_at l seq ?i" using nonpos False d(1) by (simp add: fl_at_def)
      ultimately show ?thesis using wf by auto
    qed
  qed
qed

section \<open>Reassembly\<close>

text \<open>
  Fragments of a datagram \<open>d\<close> with \<open>k\<close> fragments of \<open>z\<close> bytes.  The assembly buffer \<open>g\<close> has
  received exactly the fragments of the set \<open>S\<close>.
\<close>

definition frag_geom :: "frame \<Rightarrow> nat \<Rightarrow> nat \<Rightarrow> byte list \<Rightarrow> bool" where
  "frag_geom f z k d \<longleftrightarrow> wf_frame f \<and> 0 < z \<and> z mod 4 = 0 \<and> z < 65536 \<and> 2 \<le> k \<and> k \<le> 32 \<and>
     (k - 1) * z < length d \<and> length d \<le> k * z \<and> int (length d) \<le> MAX_RW_SIZE_LINK f"

definition frag_end :: "nat \<Rightarrow> byte list \<Rightarrow> nat \<Rightarrow> nat" where
  "frag_end z d i = min ((i + 1) * z) (length d)"

definition map_bits :: "nat \<Rightarrow> nat set \<Rightarrow> nat \<Rightarrow> bool" where
  "map_bits k S j \<longleftrightarrow> j \<in> S \<or> k - 1 \<in> S \<and> k - 1 \<le> j"

definition assembling :: "frame \<Rightarrow> nat \<Rightarrow> nat \<Rightarrow> byte list \<Rightarrow> nat set \<Rightarrow> fragment \<Rightarrow> bool" where
  "assembling f z k d S g \<longleftrightarrow> frag_defined g \<and> max_frag_size g = int z \<and> S \<subseteq> {..<k} \<and>
     (\<forall>j < 32. bit (frag_map g) j = map_bits k S j) \<and>
     (\<exists>pre c post. frag_buf g = mk_buf pre c post \<and> int (length pre) = frame_headroom f 2 \<and>
        int (length pre + length c + length post) = BUF_SIZE f \<and> length c \<le> length d \<and>
        (k - 1 \<in> S \<longrightarrow> length c = length d) \<and>
        (\<forall>j \<in> S. \<forall>t. j * z \<le> t \<and> t < frag_end z d j \<longrightarrow> (c @ post) ! t = d ! t))"

lemma frag_geom_index:
  assumes "frag_geom f z k d" "i < k"
  shows "i * z < length d" "i * z < frag_end z d i" "i < 32" "(i + 1 = k) = (length d \<le> (i + 1) * z)"
    "length (take z (drop (i * z) d)) = frag_end z d i - i * z"
proof -
  have "i * z \<le> (k - 1) * z" using assms(2) by (intro mult_le_mono1) simp
  also have "\<dots> < length d" using assms(1) by (simp add: frag_geom_def)
  finally show lt: "i * z < length d" .
  then show "i * z < frag_end z d i" using assms(1) by (simp add: frag_end_def frag_geom_def)
  show "i < 32" using assms by (simp add: frag_geom_def)
  show "(i + 1 = k) = (length d \<le> (i + 1) * z)"
  proof
    assume "i + 1 = k"
    then show "length d \<le> (i + 1) * z" using assms(1) by (simp add: frag_geom_def)
  next
    assume "length d \<le> (i + 1) * z"
    then have "(k - 1) * z < (i + 1) * z" using assms(1) by (simp add: frag_geom_def)
    then have "k - 1 < i + 1" using mult_less_cancel2[of "k - 1" z "i + 1"] by blast
    then show "i + 1 = k" using assms(2) by simp
  qed
  show "length (take z (drop (i * z) d)) = frag_end z d i - i * z"
    using lt by (auto simp: frag_end_def min_def)
qed

lemma all_ones: "(0xFFFFFFFF :: u32) = - 1"
  by simp

lemma map_full_iff:
  "((m :: u32) AND 0xFFFFFFFF = 0xFFFFFFFF) \<longleftrightarrow> (\<forall>j < 32. bit m j)"
  unfolding all_ones by (auto simp: bit_eq_iff)

text \<open>The map is full if and only if every fragment has arrived.\<close>

lemma map_bits_full:
  assumes "2 \<le> k" "k \<le> 32" "S \<subseteq> {..<k}"
  shows "(\<forall>j < 32. map_bits k S j) \<longleftrightarrow> S = {..<k}"
proof
  assume full: "\<forall>j < 32. map_bits k S j"
  have "{..<k} \<subseteq> S"
  proof
    fix j assume j: "j \<in> {..<k}"
    then have "map_bits k S j" using full assms by auto
    moreover have "map_bits k S (k - 1)" using full assms by simp
    moreover have "j \<le> k - 1" using j by simp
    ultimately show "j \<in> S" by (cases "j = k - 1") (auto simp: map_bits_def)
  qed
  then show "S = {..<k}" using assms(3) by auto
next
  assume "S = {..<k}"
  then show "\<forall>j < 32. map_bits k S j" using assms by (auto simp: map_bits_def)
qed

lemma map_bits_insert:
  assumes "i < k" "j < 32"
  shows "bit (push_bit i (if i + 1 = k then 0xFFFFFFFF else (1 :: u32))) j \<or> map_bits k S j
    \<longleftrightarrow> map_bits k (insert i S) j"
  unfolding all_ones using assms by (auto simp: map_bits_def bit_simps)

lemma assemblingI:
  assumes "frag_defined g" "max_frag_size g = int z" "S \<subseteq> {..<k}"
    "\<And>j. j < 32 \<Longrightarrow> bit (frag_map g) j = map_bits k S j"
    "frag_buf g = mk_buf pre c post" "int (length pre) = frame_headroom f 2"
    "int (length pre + length c + length post) = BUF_SIZE f" "length c \<le> length d"
    "k - 1 \<in> S \<Longrightarrow> length c = length d"
    "\<And>j t. j \<in> S \<Longrightarrow> j * z \<le> t \<Longrightarrow> t < frag_end z d j \<Longrightarrow> (c @ post) ! t = d ! t"
  shows "assembling f z k d S g"
  unfolding assembling_def using assms by blast

lemma assembling_fill:
  assumes geom: "frag_geom f z k d" and i: "i < k" and asm: "assembling f z k d S g"
    and chunk: "ch = take z (drop (i * z) d)"
  shows "\<exists>fb. buf_copy_range (frag_buf g) (int i * int z) (mk_buf bp ch bq) 0 (int (length ch)) = Some (True, fb) \<and>
    assembling f z k d (insert i S) (g\<lparr>frag_buf := fb,
      frag_map := frag_map g OR push_bit i (if i + 1 = k then FRAG_MAP_MASK else 1), frag_timestamp := now\<rparr>)"
proof -
  note ix = frag_geom_index[OF geom i]
  obtain pre c post where buf: "frag_buf g = mk_buf pre c post" "int (length pre) = frame_headroom f 2"
    "int (length pre + length c + length post) = BUF_SIZE f" "length c \<le> length d"
    "k - 1 \<in> S \<longrightarrow> length c = length d"
    "\<forall>j \<in> S. \<forall>t. j * z \<le> t \<and> t < frag_end z d j \<longrightarrow> (c @ post) ! t = d ! t"
    using asm by (auto simp: assembling_def)
  have len: "length ch = frag_end z d i - i * z" using ix(5) by (simp add: chunk)
  have e: "i * z + length ch = frag_end z d i" "frag_end z d i \<le> length d" using ix(2) len by (auto simp: frag_end_def)
  have "frame_headroom f 2 + int (length d) \<le> BUF_SIZE f"
    using frame_room(2)[of f "length d" 2] geom by (simp add: frag_geom_def)
  then have room: "length d \<le> length (c @ post)" using buf(2,3) by simp
  define r where "r = patch (c @ post) (i * z) ch"
  define n where "n = max (length c) (i * z + length ch)"
  have fits: "i * z + length ch \<le> length (c @ post)" using e room by linarith
  have copy: "buf_copy_range (frag_buf g) (int i * int z) (mk_buf bp ch bq) 0 (int (length ch))
      = Some (True, mk_buf pre (take n r) (drop n r))"
    using buf_copy_range_mk_buf[of 0 "int (length ch)" ch "i * z" c post ch r n pre bp bq] fits
    by (simp add: buf(1) r_def n_def)
  have len_r: "length r = length (c @ post)" using fits by (simp add: r_def)
  have n: "n \<le> length d" "n \<le> length r" using e buf(4) room len_r by (auto simp: n_def)
  have data: "r ! t = d ! t" if "j \<in> insert i S" "j * z \<le> t" "t < frag_end z d j" for j t
  proof (cases "i * z \<le> t \<and> t < i * z + length ch")
    case True
    then have "r ! t = ch ! (t - i * z)" using fits by (simp add: r_def nth_patch)
    also have "\<dots> = d ! t" using True by (auto simp: chunk)
    finally show ?thesis .
  next
    case False
    then have "j \<in> S" using that e by auto
    moreover have "t < length (c @ post)" using that(3) room by (simp add: frag_end_def)
    ultimately show ?thesis using False that buf(6) fits by (auto simp: r_def nth_patch)
  qed
  have last: "length (take n r) = length d" if "k - 1 \<in> insert i S"
  proof -
    have "i * z + length ch = length d" if "k - 1 = i"
    proof -
      have "i + 1 = k" using that i by simp
      then have "length d \<le> (i + 1) * z" using ix(4) by blast
      then show ?thesis using e(1) by (simp add: frag_end_def min_def)
    qed
    then show ?thesis using that buf(4,5) n e by (auto simp: n_def max_def split: if_splits)
  qed
  have bits: "bit (frag_map g OR push_bit i (if i + 1 = k then FRAG_MAP_MASK else 1)) j = map_bits k (insert i S) j"
    if "j < 32" for j
    using map_bits_insert[OF i that, of S] asm that by (auto simp: assembling_def bit_or_iff)
  have "assembling f z k d (insert i S) (g\<lparr>frag_buf := mk_buf pre (take n r) (drop n r),
      frag_map := frag_map g OR push_bit i (if i + 1 = k then FRAG_MAP_MASK else 1), frag_timestamp := now\<rparr>)"
    by (rule assemblingI[of _ _ _ _ pre "take n r" "drop n r"])
       (use asm i bits buf(2,3) n len_r last data in \<open>auto simp: assembling_def\<close>)
  then show ?thesis using copy by blast
qed

lemma assembling_start:
  assumes "frag_geom f z k d" "buf_init b (frame_headroom f 2) = (True, mk_buf pre [] post)"
    "int (length pre) = frame_headroom f 2" "int (length pre + length post) = BUF_SIZE f"
  shows "assembling f z k d {} (g\<lparr>frag_defined := True, max_frag_size := int z, frag_map := 0,
      frag_buf := mk_buf pre [] post\<rparr>)"
  by (rule assemblingI[of _ _ _ _ pre "[]" post]) (use assms in \<open>simp_all add: map_bits_def\<close>)

lemma assembling_complete:
  assumes geom: "frag_geom f z k d" and asm: "assembling f z k d {..<k} g"
  shows "content (frag_buf g) = d" "live_buf (frag_buf g)" "capacity (frag_buf g) = BUF_SIZE f"
proof -
  obtain pre c post where buf: "frag_buf g = mk_buf pre c post" "length c = length d"
    "int (length pre + length c + length post) = BUF_SIZE f"
    "\<forall>j \<in> {..<k}. \<forall>t. j * z \<le> t \<and> t < frag_end z d j \<longrightarrow> (c @ post) ! t = d ! t"
    using asm geom by (auto simp: assembling_def frag_geom_def)
  have z: "0 < z" "length d \<le> k * z" using geom by (auto simp: frag_geom_def)
  have "c ! t = d ! t" if t: "t < length d" for t
  proof -
    have "t div z < k" using t z by (simp add: less_mult_imp_div_less order_less_le_trans)
    moreover have "t div z * z \<le> t" "t < (t div z + 1) * z"
      using z(1) dividend_less_div_times[of z t] by (auto simp: algebra_simps)
    ultimately have "(c @ post) ! t = d ! t" using buf(4) t by (simp add: frag_end_def)
    then show ?thesis using t buf(2) by (simp add: nth_append)
  qed
  then show "content (frag_buf g) = d" "live_buf (frag_buf g)" "capacity (frag_buf g) = BUF_SIZE f"
    using buf by (auto intro: nth_equalityI)
qed

text \<open>
  A receiver that has got the fragments of \<open>S\<close> of datagram \<open>seq\<close>, in assembly buffer \<open>n\<close>.
\<close>

definition receiving ::
  "frame \<Rightarrow> int \<Rightarrow> nat \<Rightarrow> nat \<Rightarrow> byte list \<Rightarrow> nat \<Rightarrow> nat set \<Rightarrow> fragment_master \<Rightarrow> bool" where
  "receiving f seq z k d n S fm \<longleftrightarrow> n < 25 \<and> wf_fl f (fm_incoming fm) \<and> fl_at (fm_incoming fm) seq n \<and>
     (let g = fl_fragments (fm_incoming fm) ! n
      in if S = {} then \<not> frag_defined g else assembling f z k d S g)"

lemma assembling_live:
  "assembling f z k d S g \<Longrightarrow> live_buf (frag_buf g) \<and> capacity (frag_buf g) = BUF_SIZE f"
  by (auto simp: assembling_def)

lemma upd_frag_nth: "wf_fl f l \<Longrightarrow> n < 25 \<Longrightarrow> fl_fragments (upd_frag l n h) ! n = h (fl_fragments l ! n)"
  by (simp add: upd_frag_def wf_fl_def)

text \<open>One more fragment: nothing comes out until the last missing one arrives.\<close>

lemma fragment_assemble_step:
  assumes geom: "frag_geom f z k d" and i: "i < k" and rcv: "receiving f seq z k d n S fm"
    and get: "fragment_list_get_buf l0 seq = Some (n, fm_incoming fm)"
    and b: "b = mk_buf bp (take z (drop (i * z) d)) bq"
  shows "\<exists>fm' b'. fragment_assemble now (fm\<lparr>fm_incoming := l0\<rparr>) b f (i + 1 = k) seq (int i) (int z) = Some (fm', b') \<and>
    (if insert i S = {..<k} then live_buf b' \<and> content b' = d \<and> receiving f seq z k d n {} fm'
     else len b' = 0 \<and> receiving f seq z k d n (insert i S) fm')"
proof -
  let ?l = "fm_incoming fm" and ?g = "fl_fragments (fm_incoming fm) ! n"
  let ?m = "push_bit i (if i + 1 = k then FRAG_MAP_MASK else 1)"
  have wf: "wf_fl f ?l" "n < 25" using rcv by (auto simp: receiving_def)
  have "int z mod 4 = 0" using geom zmod_int[of z 4] by (simp add: frag_geom_def)
  then have align: "int z AND 3 = 0" by (simp add: and_3)
  obtain g where g: "assembling f z k d S g"
    "(if \<not> frag_defined ?g \<or> (frag_defined ?g \<and> max_frag_size ?g \<noteq> int z)
      then do { let (ok, fb) = buf_init (frag_buf ?g) (frame_headroom f FRAME_HEADROOM_MARKER_FRAGMENT);
                ASSERT ok;
                Some (?g\<lparr>frag_defined := True, max_frag_size := int z, frag_map := 0, frag_buf := fb\<rparr>) }
      else Some ?g) = Some g"
  proof (cases "S = {}")
    case True
    have "0 \<le> frame_headroom f 2" "frame_headroom f 2 \<le> BUF_SIZE f"
      using frame_room[of f "length d" 2] geom by (auto simp: frag_geom_def)
    then obtain pre post where bi: "buf_init (frag_buf ?g) (frame_headroom f 2) = (True, mk_buf pre [] post)"
      "int (length pre) = frame_headroom f 2" "int (length pre + length post) = BUF_SIZE f"
      using buf_init_live[of "frag_buf ?g" "frame_headroom f 2"] wf_fl_nth[OF wf] by metis
    show ?thesis
      using that[of "?g\<lparr>frag_defined := True, max_frag_size := int z, frag_map := 0, frag_buf := mk_buf pre [] post\<rparr>"]
        assembling_start[OF geom bi] bi True rcv by (simp add: receiving_def)
  next
    case False
    then have a: "assembling f z k d S ?g" using rcv by (simp add: receiving_def Let_def)
    then have "frag_defined ?g" "max_frag_size ?g = int z" by (auto simp: assembling_def)
    then show ?thesis using that[of ?g] a by simp
  qed
  obtain fb where fb: "buf_copy_range (frag_buf g) (int i * int z) b 0 (len b) = Some (True, fb)"
    "assembling f z k d (insert i S) (g\<lparr>frag_buf := fb, frag_map := frag_map g OR ?m, frag_timestamp := now\<rparr>)"
    using assembling_fill[OF geom i g(1) refl, of bp bq now] by (auto simp: b)
  let ?g' = "g\<lparr>frag_buf := fb, frag_map := frag_map g OR ?m, frag_timestamp := now\<rparr>"
  have full: "frag_map ?g' AND FRAG_MAP_MASK = FRAG_MAP_MASK \<longleftrightarrow> insert i S = {..<k}"
    using fb(2) map_bits_full[of k "insert i S"] geom
    unfolding map_full_iff by (simp add: assembling_def frag_geom_def)
  have live: "live_buf fb" "capacity fb = BUF_SIZE f" using assembling_live[OF fb(2)] by simp_all
  have upd: "wf_fl f (upd_frag ?l n (\<lambda>_. y))" "fl_fragments (upd_frag ?l n (\<lambda>_. y)) ! n = y"
    if "frag_buf y = fb" for y
    using wf_fl_upd[OF wf, of "\<lambda>_. y"] upd_frag_nth[OF wf] that live by simp_all
  have at: "fl_at ?l seq n" using rcv by (simp add: receiving_def)
  have "fragment_assemble now (fm\<lparr>fm_incoming := l0\<rparr>) b f (i + 1 = k) seq (int i) (int z) =
      (if frag_map ?g' AND FRAG_MAP_MASK = FRAG_MAP_MASK
       then Some (fm\<lparr>fm_incoming := upd_frag ?l n (\<lambda>_. ?g'\<lparr>frag_defined := False\<rparr>)\<rparr>, fb)
       else Some (fm\<lparr>fm_incoming := upd_frag ?l n (\<lambda>_. ?g')\<rparr>, b\<lparr>len := 0\<rparr>))"
    using get align g(2) fb(1) unfolding fragment_assemble_def Let_def by simp
  note res = this
  show ?thesis
  proof (cases "insert i S = {..<k}")
    case True
    have "assembling f z k d {..<k} ?g'" using fb(2) True by simp
    from assembling_complete(1)[OF geom this] have "content fb = d" by simp
    moreover have "receiving f seq z k d n {} (fm\<lparr>fm_incoming := upd_frag ?l n (\<lambda>_. ?g'\<lparr>frag_defined := False\<rparr>)\<rparr>)"
      using upd[of "?g'\<lparr>frag_defined := False\<rparr>"] at wf(2) by (simp add: receiving_def)
    ultimately show ?thesis using res True live(1) full by simp
  next
    case False
    have "receiving f seq z k d n (insert i S) (fm\<lparr>fm_incoming := upd_frag ?l n (\<lambda>_. ?g')\<rparr>)"
      using upd[of ?g'] at wf(2) fb(2) by (simp add: receiving_def)
    then show ?thesis using res False full by simp
  qed
qed

lemma fragment_incoming_packet:
  assumes geom: "frag_geom f z k d" and i: "i < k" and seq: "0 \<le> seq" "seq < 256"
    and b: "b = mk_buf bp (frag_packet seq z d i) bq"
  shows "fragment_incoming now fm b f = fragment_assemble now fm
    (mk_buf (bp @ take 4 (frag_packet seq z d i)) (take z (drop (i * z) d)) bq) f (i + 1 = k) seq (int i) (int z)"
proof -
  note ix = frag_geom_index[OF geom i]
  let ?fl = "\<lambda>t. fragment_flags t seq (int i) (int z)" and ?ch = "take z (drop (i * z) d)"
  have fields: "uint (?fl t AND FRAG_TYPE_MASK) = t" "uint (drop_bit 2 (?fl t) AND FRAG_SEQ_ID_MASK) = seq"
    "uint (drop_bit 10 (?fl t) AND FRAG_ID_MASK) = int i" if "t = 1 \<or> t = 2" for t
    using fragment_flags_fields[of t seq "int i" "int z"] seq ix(3) that by auto
  have z: "int z mod 4 = 0" "int z < 65536" using geom zmod_int[of z 4] by (auto simp: frag_geom_def)
  show ?thesis
  proof (cases "i + 1 = k")
    case True
    have pkt: "frag_packet seq z d i = be32 (?fl 2) @ ?ch" using True ix(4) by (simp add: frag_packet_def)
    have "uint (push_bit 2 (drop_bit 15 (?fl 2) AND FRAG_SIZE_MASK)) = int z"
      using z by (intro fragment_flags_size) simp_all
    then show ?thesis
      using True fields[of 2] by (simp add: fragment_incoming_def b pkt Let_def)
  next
    case False
    then have big: "\<not> length d \<le> (i + 1) * z" using ix(4) by simp
    then have pkt: "frag_packet seq z d i = be32 (?fl 1) @ ?ch" by (simp add: frag_packet_def)
    have "length ?ch = z" using big by auto
    then show ?thesis
      using False fields[of 1] by (simp add: fragment_incoming_def b pkt Let_def)
  qed
qed

text \<open>Feeding packets to a receiver: the datagrams that come out.\<close>

fun fragment_receive ::
  "(time_t \<times> buffer) list \<Rightarrow> fragment_master \<Rightarrow> frame \<Rightarrow> (byte list list \<times> fragment_master) option" where
  "fragment_receive [] fm f = Some ([], fm)"
| "fragment_receive ((now, b) # qs) fm f =
     (case fragment_incoming now fm b f of
        None \<Rightarrow> None
      | Some (fm, b) \<Rightarrow>
          map_option (map_prod (if len b > 0 then Cons (content b) else id) id) (fragment_receive qs fm f))"

lemma receiving_first:
  assumes "wf_fl f (fm_incoming fm)" "0 \<le> seq" "seq < 256"
    and "fragment_list_get_buf (fm_incoming fm) seq = Some (n, l)" "\<not> frag_defined (fl_fragments l ! n)"
  shows "receiving f seq z k d n {} (fm\<lparr>fm_incoming := l\<rparr>)"
  using fragment_list_get_buf_ok[OF assms(1-3)] assms(4,5) by (auto simp: receiving_def)

lemma fragment_incoming_step:
  assumes geom: "frag_geom f z k d" and i: "i < k" and seq: "0 \<le> seq" "seq < 256"
    and rcv: "receiving f seq z k d n S fm"
    and get: "fragment_list_get_buf l0 seq = Some (n, fm_incoming fm)"
    and b: "live_buf b" "content b = frag_packet seq z d i"
  shows "\<exists>fm' b'. fragment_incoming now (fm\<lparr>fm_incoming := l0\<rparr>) b f = Some (fm', b') \<and>
    (if insert i S = {..<k} then live_buf b' \<and> content b' = d \<and> receiving f seq z k d n {} fm'
     else len b' = 0 \<and> receiving f seq z k d n (insert i S) fm')"
proof -
  obtain bp bq where "b = mk_buf bp (frag_packet seq z d i) bq" using b by (rule live_buf_contentE)
  from fragment_incoming_packet[OF geom i seq this]
    fragment_assemble_step[OF geom i rcv get refl, of now "bp @ take 4 (frag_packet seq z d i)" bq]
  show ?thesis by simp
qed

lemma fragment_receive_all:
  assumes geom: "frag_geom f z k d" and seq: "0 \<le> seq" "seq < 256"
    and "receiving f seq z k d n S fm" "fragment_list_get_buf l0 seq = Some (n, fm_incoming fm)"
    and "set (js @ [i]) \<union> S = {..<k}" "i \<notin> set js" "i \<notin> S"
    and "\<forall>(t, q) \<in> set qs. live_buf q" "map (\<lambda>x. content (snd x)) qs = map (frag_packet seq z d) (js @ [i])"
  shows "\<exists>fm'. fragment_receive qs (fm\<lparr>fm_incoming := l0\<rparr>) f = Some ([d], fm') \<and> receiving f seq z k d n {} fm'"
  using assms(4-)
proof (induction js arbitrary: S fm l0 qs)
  case Nil
  obtain t q where qs: "qs = [(t, q)]" "live_buf q" "content q = frag_packet seq z d i"
    using Nil.prems(6,7) by (cases qs) auto
  have i: "i < k" "insert i S = {..<k}" using Nil.prems(3) by auto
  obtain fm' b' where r: "fragment_incoming t (fm\<lparr>fm_incoming := l0\<rparr>) q f = Some (fm', b')"
    "live_buf b'" "content b' = d" "receiving f seq z k d n {} fm'"
    using fragment_incoming_step[OF geom i(1) seq Nil.prems(1,2) qs(2,3), of t] i(2) by auto
  have "d \<noteq> []" using geom by (auto simp: frag_geom_def)
  then have "0 < len b'" using r(2,3) live_bufE[OF r(2)] by (metis content_mk_buf length_greater_0_conv mk_buf_sel(2) of_nat_0_less_iff)
  then show ?case using qs(1) r by simp
next
  case (Cons j js)
  obtain t q qs' where qs: "qs = (t, q) # qs'" "live_buf q" "content q = frag_packet seq z d j"
    "\<forall>(t, q) \<in> set qs'. live_buf q" "map (\<lambda>x. content (snd x)) qs' = map (frag_packet seq z d) (js @ [i])"
    using Cons.prems(6,7) by (cases qs) auto
  have j: "j < k" "insert j S \<noteq> {..<k}" "i \<noteq> j"
    using Cons.prems(3,4,5) by auto
  obtain fm' b' where r: "fragment_incoming t (fm\<lparr>fm_incoming := l0\<rparr>) q f = Some (fm', b')" "len b' = 0"
    "receiving f seq z k d n (insert j S) fm'"
    using fragment_incoming_step[OF geom j(1) seq Cons.prems(1,2) qs(2,3), of t] j(2) by auto
  have "fragment_list_get_buf (fm_incoming fm') seq = Some (n, fm_incoming fm')"
    using r(3) fl_at_get_buf by (auto simp: receiving_def)
  note IH = Cons.IH[OF r(3) this _ _ _ qs(4,5)]
  obtain fm'' where "fragment_receive qs' (fm'\<lparr>fm_incoming := fm_incoming fm'\<rparr>) f = Some ([d], fm'')"
    "receiving f seq z k d n {} fm''"
    using IH Cons.prems(3-5) j(3) by auto
  then show ?case using r qs(1) by simp
qed

lemma frag_count_bounds:
  assumes "0 < z" "0 < ln"
  shows "(frag_count ln z - 1) * z < ln" "ln \<le> frag_count ln z * z" "0 < frag_count ln z"
proof -
  have "ln + z - 1 = z * frag_count ln z + (ln + z - 1) mod z" "0 \<le> (ln + z - 1) mod z" "(ln + z - 1) mod z < z"
    using assms by (simp_all add: frag_count_def)
  then show "(frag_count ln z - 1) * z < ln" "ln \<le> frag_count ln z * z" by (simp_all add: algebra_simps)
  then show "0 < frag_count ln z" using assms by (metis zero_less_mult_pos2 order_less_le_trans mult.commute)
qed

text \<open>
  C6: fragmentation is transparent.  A datagram larger than the dynamic payload size (and within
  32 fragments of the chosen size) is sent by fragment_outgoing and fragment_ready_to_send,
  without a failed assertion, as frag_count fragments; and if the receiver gets these fragments
  in any order, each at least once and with any repetitions before the last missing one, it
  returns nothing until that one arrives and then returns exactly the datagram.  Sender and
  receiver use the same frame, and the receiver has no unfinished datagram of the same sequence
  number.
\<close>

theorem fragments_reassemble:
  assumes f: "wf_frame f" "PAYLOAD_SIZE_DYNAMIC f < 65536"
    and tx: "frag_ready f tx" and b: "live_buf b" "content b = d"
    and big: "PAYLOAD_SIZE_DYNAMIC f < int (length d)" "int (length d) \<le> MAX_RW_SIZE_LINK f"
    and sz: "optimal_fragment_size (int (length d)) (PAYLOAD_SIZE_DYNAMIC f) = Some sz"
      "int (length d) \<le> sz * MAX_FRAGS"
    and rx: "wf_fl f (fm_incoming rx)"
      "fragment_list_get_buf (fm_incoming rx) ((outgoing_seq_id tx + 1) mod 256) = Some (n, l)"
      "\<not> frag_defined (fl_fragments l ! n)"
  shows "\<exists>ps tx'. fragment_send tx b f = Some (ps, tx') \<and> int (length ps) = frag_count (int (length d)) sz \<and>
    (\<forall>js i qs. set (js @ [i]) = {..<length ps} \<and> i \<notin> set js \<and> (\<forall>(t, q) \<in> set qs. live_buf q) \<and>
       map (\<lambda>x. content (snd x)) qs = map (\<lambda>j. ps ! j) (js @ [i]) \<longrightarrow>
       (\<exists>rx'. fragment_receive qs rx f = Some ([d], rx')))"
proof -
  let ?seq = "(outgoing_seq_id tx + 1) mod 256"
  define z k where "z = nat sz" and "k = nat (frag_count (int (length d)) sz)"
  have dyn: "4 \<le> PAYLOAD_SIZE_DYNAMIC f" "0 < int (length d)"
    using f(1) big(1) by (auto simp: wf_frame_def frame_size_defs PAYLOAD_SIZE_DYNAMIC_def)
  obtain "0 < sz" "sz \<le> PAYLOAD_SIZE_DYNAMIC f" "sz mod 4 = 0"
    using optimal_fragment_size_ok[OF dyn] sz(1) by auto
  then have z: "int z = sz" "0 < z" "z mod 4 = 0" "z < 65536"
    using f(2) zmod_int[of z 4] by (auto simp: z_def)
  note cnt = frag_count_bounds[OF \<open>0 < sz\<close> dyn(2)]
  have k: "int k = frag_count (int (length d)) sz" "(k - 1) * z < length d" "length d \<le> k * z" "0 < k"
  proof -
    show ik: "int k = frag_count (int (length d)) sz" "0 < k" using cnt(3) by (simp_all add: k_def)
    have "int ((k - 1) * z) < int (length d)" "int (length d) \<le> int (k * z)"
      using cnt(1,2) ik z(1) by (simp_all add: of_nat_diff)
    then show "(k - 1) * z < length d" "length d \<le> k * z" by linarith+
  qed
  have "int ((k - 1) * z) < int (32 * z)" using k(2) sz(2) z(1) by linarith
  then have "(k - 1) * z < 32 * z" by linarith
  then have "k - 1 < 32" using mult_less_cancel2[of "k - 1" z 32] by blast
  then have k32: "k \<le> 32" by simp
  have k2: "2 \<le> k"
  proof (rule ccontr)
    assume "\<not> 2 \<le> k"
    then have "k = 1" using k(4) by simp
    then show False using k(3) z(1) \<open>sz \<le> PAYLOAD_SIZE_DYNAMIC f\<close> big(1) by simp
  qed
  have geom: "frag_geom f z k d" using f z k k2 k32 big(2) by (simp add: frag_geom_def)
  obtain tx' where send: "fragment_send tx b f = Some (map (frag_packet ?seq z d) [0..<k], tx')"
    using fragment_send_packets[OF f(1) tx b big _ k32 k(2,3) refl] sz(1) z(1) by auto
  have seq: "0 \<le> ?seq" "?seq < 256" by simp_all
  note first = receiving_first[OF rx(1) seq rx(2,3), of z k d]
  have "\<exists>rx'. fragment_receive qs rx f = Some ([d], rx')"
    if "set (js @ [i]) = {..<k}" "i \<notin> set js" "\<forall>(t, q) \<in> set qs. live_buf q"
      "map (\<lambda>x. content (snd x)) qs = map (\<lambda>j. map (frag_packet ?seq z d) [0..<k] ! j) (js @ [i])" for js i qs
  proof -
    have ps: "map (\<lambda>j. map (frag_packet ?seq z d) [0..<k] ! j) (js @ [i]) = map (frag_packet ?seq z d) (js @ [i])"
      using that(1) by (intro map_cong) auto
    have un: "set (js @ [i]) \<union> {} = {..<k}" using that(1) by simp
    show ?thesis
      using fragment_receive_all[OF geom seq first _ un that(2) _ that(3) that(4)[unfolded ps], of "fm_incoming rx"] rx(2)
      by auto
  qed
  then show ?thesis using send k(1) by auto
qed


text \<open>A frame with a dynamic payload of 100 bytes, and a fresh fragmentation state over it.\<close>

definition frag_frame :: frame where
  "frag_frame = \<lparr>link_mtu = 1542, link_mtu_dynamic = 142, extra_frame = 42, extra_buffer = 139,
     extra_tun = 0, extra_link = 4, align_flags = 0, align_adjust = 0\<rparr>"

definition frag_fresh :: fragment_master where
  "frag_fresh = fragment_frame_init (\<lambda>_. 0) (fst (fragment_init 1000 7 frag_frame)) frag_frame"

lemma frag_fresh_ok:
  "wf_frame frag_frame" "PAYLOAD_SIZE_DYNAMIC frag_frame = 100" "MAX_RW_SIZE_LINK frag_frame = 1546"
  "frag_ready frag_frame frag_fresh" "wf_fl frag_frame (fm_incoming frag_fresh)"
  "outgoing_seq_id frag_fresh = 7"
proof -
  have size: "BUF_SIZE frag_frame = 1870" by (simp add: frag_frame_def frame_size_defs)
  have cap: "capacity (alloc_buf (\<lambda>_. 0) 1870) = 1870" by (simp add: alloc_buf_def)
  show "wf_frame frag_frame" "PAYLOAD_SIZE_DYNAMIC frag_frame = 100" "MAX_RW_SIZE_LINK frag_frame = 1546"
    by (simp_all add: frag_frame_def wf_frame_def frame_size_defs PAYLOAD_SIZE_DYNAMIC_def)
  show seq: "outgoing_seq_id frag_fresh = 7"
    by (simp add: frag_fresh_def fragment_frame_init_def fragment_init_def)
  show "frag_ready frag_frame frag_fresh" "wf_fl frag_frame (fm_incoming frag_fresh)"
    using seq size cap
    by (simp_all add: frag_ready_def wf_fl_def frag_fresh_def fragment_frame_init_def fragment_init_def
        fragment_list_buf_init_def)
qed

lemma frag_fresh_get_buf:
  "\<exists>n l. fragment_list_get_buf (fm_incoming frag_fresh) 8 = Some (n, l) \<and> \<not> frag_defined (fl_fragments l ! n)"
proof -
  have "\<not> frag_defined (fl_fragments (fm_incoming frag_fresh) ! i)" if "i < 25" for i
    using that by (simp add: frag_fresh_def fragment_frame_init_def fragment_init_def
        fragment_list_buf_init_def clear_fragment_def)
  then show ?thesis using fragment_list_get_buf_ok[OF frag_fresh_ok(5), of 8] by fastforce
qed

theorem fragments_reassemble_witness:
  "\<exists>ps tx'. fragment_send frag_fresh (mk_buf [] (replicate 150 5) []) frag_frame = Some (ps, tx') \<and>
    int (length ps) = frag_count (int (length (replicate 150 (5 :: byte)))) 76 \<and>
    (\<forall>js i qs. set (js @ [i]) = {..<length ps} \<and> i \<notin> set js \<and> (\<forall>(t, q) \<in> set qs. live_buf q) \<and>
       map (\<lambda>x. content (snd x)) qs = map (\<lambda>j. ps ! j) (js @ [i]) \<longrightarrow>
       (\<exists>rx'. fragment_receive qs frag_fresh frag_frame = Some ([replicate 150 5], rx')))"
proof -
  obtain n l where slot: "fragment_list_get_buf (fm_incoming frag_fresh) 8 = Some (n, l)"
    "\<not> frag_defined (fl_fragments l ! n)" using frag_fresh_get_buf by blast
  have "optimal_fragment_size 150 100 = Some 76"
    by (simp add: optimal_fragment_size_def and_not_3 min_int_def)
  then show ?thesis
    by (intro fragments_reassemble[where n = n and l = l])
       (use frag_fresh_ok slot in simp_all)
qed

text \<open>
  A datagram that fits is sent whole and received unchanged, without touching the fragmentation
  state of either side.
\<close>

theorem whole_datagram_roundtrip:
  assumes "live_buf b" "content b = d" "d \<noteq> []" "4 \<le> offset b" "int (length d) \<le> PAYLOAD_SIZE_DYNAMIC f"
  shows "\<exists>b1 b2. fragment_outgoing tx b f = Some (tx, b1) \<and>
    fragment_incoming now rx b1 f = Some (rx, b2) \<and> content b2 = d \<and> offset b2 = offset b"
proof -
  obtain pre post where b: "b = mk_buf pre d post" using assms(1,2) by (rule live_buf_contentE)
  have "uint (fragment_flags 0 0 0 0 AND 3) = 0" "fragment_flags 0 0 0 0 = 0"
    by (simp_all add: fragment_flags_def)
  then show ?thesis
    using assms(3-5)
    by (simp add: b fragment_outgoing_def fragment_prepend_flags_mk_buf fragment_incoming_def not_less)
qed

theorem whole_datagram_roundtrip_witness:
  "\<exists>b1 b2. fragment_outgoing frag_fresh (mk_buf [0, 0, 0, 0] [1, 2, 3] []) frag_frame = Some (frag_fresh, b1) \<and>
    fragment_incoming 1000 frag_fresh b1 frag_frame = Some (frag_fresh, b2) \<and> content b2 = [1, 2, 3] \<and>
    offset b2 = offset (mk_buf [0, 0, 0, 0] [1, 2, 3] [])"
  by (rule whole_datagram_roundtrip) (simp_all add: frag_fresh_ok)

text \<open>
  C40: the check for spurious flags of a whole datagram misses most of them.  fragment_incoming
  masks the header word with FRAG_SEQ_ID_MASK and FRAG_ID_MASK without shifting them into place,
  so only the low eight bits are tested: any header whose low eight bits are zero is accepted,
  also with a fragment identifier (bits 10 to 14) or a sequence number of 64 and more.
\<close>

theorem whole_flags_unchecked:
  assumes "live_buf b" "content b = be32 flags @ d" "flags AND 0xff = 0"
  shows "\<exists>b'. fragment_incoming now rx b f = Some (rx, b') \<and> content b' = d"
proof -
  obtain pre post where b: "b = mk_buf pre (be32 flags @ d) post" using assms(1,2) by (rule live_buf_contentE)
  have "flags AND 3 = (flags AND 0xff) AND 3" by (simp add: ac_simps)
  then have "flags AND 3 = 0" using assms(3) by simp
  then show ?thesis using assms(3) by (simp add: b fragment_incoming_def)
qed

theorem whole_flags_unchecked_witness:
  "\<exists>b'. fragment_incoming 1000 frag_fresh (mk_buf [] (be32 0x7F00 @ [1, 2]) []) frag_frame
       = Some (frag_fresh, b') \<and> content b' = [1, 2]"
proof -
  have z: "(0x7F00 :: u32) AND 0xff = 0" by code_simp
  show ?thesis by (rule whole_flags_unchecked[where flags = "0x7F00"]) (use z in simp_all)
qed

end
