(* ===== verification/Crypto.thy ===== *)
theory Crypto
  imports Replay Mtu
begin

text \<open>
  The data channel: openvpn_encrypt and openvpn_decrypt of crypto.c.

  OpenSSL is a parameter.  A cipher context that was set up with a key is a record of what the
  code asks of it: its mode, the sizes of its IV and block, and what EVP_CipherInit,
  EVP_CipherUpdate and EVP_CipherFinal give for an IV and an input; an HMAC context is the size
  and the digest function.  What the theorems rely on is stated as \<open>hmac_ok\<close>, \<open>decrypt_fits\<close>
  and \<open>cbc_pair\<close>.  The pseudo-random bytes of prng_bytes are an argument.

  The functions return \<^const>\<open>None\<close> for a failed assertion and for a store outside the work
  buffer or the local arrays.
\<close>

section \<open>Data\<close>

datatype cipher_mode = EVP_CIPH_CBC_MODE | EVP_CIPH_CFB_MODE | EVP_CIPH_OFB_MODE | EVP_CIPH_OTHER_MODE

record evp_cipher_ctx =
  EVP_CIPHER_CTX_mode :: cipher_mode
  EVP_CIPHER_CTX_iv_length :: int
  EVP_CIPHER_CTX_block_size :: int
  EVP_CipherInit :: "byte list \<Rightarrow> bool"
  EVP_CipherUpdate :: "byte list \<Rightarrow> byte list \<Rightarrow> byte list option"
  EVP_CipherFinal :: "byte list \<Rightarrow> byte list \<Rightarrow> byte list option"

record hmac_ctx =
  HMAC_size :: int
  HMAC_digest :: "byte list \<Rightarrow> byte list"

record key_ctx =
  ctx_cipher :: "evp_cipher_ctx option"
  ctx_hmac :: "hmac_ctx option"

record key_ctx_bi =
  kc_encrypt :: key_ctx
  kc_decrypt :: key_ctx

record crypto_options =
  co_key_ctx_bi :: "key_ctx_bi option"
  co_packet_id :: "packet_id option"
  co_pid_persist :: "packet_id_persist option"
  co_flags :: u32

abbreviation (input) "CO_PACKET_ID_LONG_FORM \<equiv> (1 :: u32)"
abbreviation (input) "CO_USE_IV \<equiv> (2 :: u32)"
abbreviation (input) "CO_IGNORE_PACKET_ID \<equiv> (4 :: u32)"
abbreviation (input) "CO_MUTE_REPLAY_WARNINGS \<equiv> (8 :: u32)"
abbreviation (input) "EVP_MAX_IV_LENGTH \<equiv> (16 :: nat)"
abbreviation (input) "MAX_HMAC_KEY_LENGTH \<equiv> (64 :: int)"
abbreviation (input) "FRAME_HEADROOM_MARKER_DECRYPT \<equiv> (1 :: u32)"

definition co_flag :: "crypto_options \<Rightarrow> u32 \<Rightarrow> bool" where
  "co_flag opt f \<longleftrightarrow> co_flags opt AND f \<noteq> 0"

section \<open>Encryption\<close>

text \<open>The packet identifier put in front of the plaintext.\<close>

definition crypto_prepend_packet_id ::
  "time_t \<Rightarrow> crypto_options \<Rightarrow> buffer \<Rightarrow> (buffer \<times> crypto_options) option" where
  "crypto_prepend_packet_id now opt b =
     (case co_packet_id opt of
        None \<Rightarrow> Some (b, opt)
      | Some p \<Rightarrow> do {
          (pin, s) \<leftarrow> packet_id_alloc_outgoing now (pid_send p) (co_flag opt CO_PACKET_ID_LONG_FORM);
          (ok, b) \<leftarrow> packet_id_write pin b (co_flag opt CO_PACKET_ID_LONG_FORM) True;
          ASSERT ok;
          Some (b, opt\<lparr>co_packet_id := Some (p\<lparr>pid_send := s\<rparr>)\<rparr>)
        })"

text \<open>
  The IV.  In CBC mode it is random or zero and the identifier goes into the plaintext; in CFB and
  OFB mode the IV is the identifier.
\<close>

definition encrypt_iv ::
  "time_t \<Rightarrow> byte list \<Rightarrow> evp_cipher_ctx \<Rightarrow> crypto_options \<Rightarrow> buffer \<Rightarrow>
   (byte list \<times> buffer \<times> crypto_options) option" where
  "encrypt_iv now rand c opt b = (let iv_size = EVP_CIPHER_CTX_iv_length c in
     case EVP_CIPHER_CTX_mode c of
       EVP_CIPH_CBC_MODE \<Rightarrow> do {
         let iv_buf = replicate EVP_MAX_IV_LENGTH 0;
         iv_buf \<leftarrow> (if co_flag opt CO_USE_IV
                    then do { r \<leftarrow> src_bytes rand iv_size; mem_write iv_buf 0 r }
                    else Some iv_buf);
         (b, opt) \<leftarrow> crypto_prepend_packet_id now opt b;
         Some (iv_buf, b, opt)
       }
     | EVP_CIPH_OTHER_MODE \<Rightarrow> None
     | _ \<Rightarrow> do {
         ASSERT (co_flag opt CO_USE_IV);
         p \<leftarrow> co_packet_id opt;
         (pin, s) \<leftarrow> packet_id_alloc_outgoing now (pid_send p) True;
         iv_buf \<leftarrow> mem_write (replicate EVP_MAX_IV_LENGTH 0) 0 (replicate (nat iv_size) 0);
         ib \<leftarrow> buf_set_write (Some iv_buf) iv_size;
         (ok, ib) \<leftarrow> packet_id_write pin ib True False;
         ASSERT ok;
         iv_buf \<leftarrow> data ib;
         Some (iv_buf, b, opt\<lparr>co_packet_id := Some (p\<lparr>pid_send := s\<rparr>)\<rparr>)
       })"

text \<open>From \<open>buf\<close> to \<open>work\<close>; the inner \<^const>\<open>None\<close> is the exit \<^verbatim>\<open>goto err\<close>.\<close>

definition encrypt_cipher ::
  "byte list \<Rightarrow> evp_cipher_ctx \<Rightarrow> crypto_options \<Rightarrow> frame \<Rightarrow> buffer \<Rightarrow> buffer \<Rightarrow> buffer option option" where
  "encrypt_cipher iv_buf c opt f b work = do {
     let iv_size = EVP_CIPHER_CTX_iv_length c;
     let (ok, work) = buf_init work (frame_headroom f 0);
     ASSERT ok;
     iv \<leftarrow> mem_read iv_buf 0 iv_size;
     ASSERT (EVP_CipherInit c iv);
     if \<not> buf_safe work (len b + EVP_CIPHER_CTX_block_size c) then Some None
     else do {
       bs \<leftarrow> buf_load b (offset b) (len b);
       out \<leftarrow> EVP_CipherUpdate c iv bs;
       let outlen = int (length out);
       work \<leftarrow> buf_store work (offset work) out;
       let work = work\<lparr>len := len work + outlen\<rparr>;
       fin \<leftarrow> EVP_CipherFinal c iv bs;
       work \<leftarrow> buf_store work (offset work + outlen) fin;
       let outlen = int (length fin);
       let work = work\<lparr>len := len work + outlen\<rparr>;
       ASSERT (outlen = iv_size);
       work \<leftarrow> (if co_flag opt CO_USE_IV then do {
                  let (output, work) = buf_prepend work iv_size;
                  p \<leftarrow> output;
                  buf_store work p iv
                } else Some work);
       Some (Some work)
     }
   }"

definition encrypt_hmac :: "hmac_ctx option \<Rightarrow> buffer \<Rightarrow> buffer option" where
  "encrypt_hmac hm work = (case hm of
     None \<Rightarrow> Some work
   | Some h \<Rightarrow> do {
       bs \<leftarrow> buf_load work (offset work) (len work);
       let (output, work) = buf_prepend work (HMAC_size h);
       p \<leftarrow> output;
       work \<leftarrow> buf_store work p (HMAC_digest h bs);
       ASSERT (int (length (HMAC_digest h bs)) = HMAC_size h);
       Some work
     })"

definition openvpn_encrypt ::
  "time_t \<Rightarrow> byte list \<Rightarrow> buffer \<Rightarrow> buffer \<Rightarrow> crypto_options \<Rightarrow> frame \<Rightarrow>
   (buffer \<times> crypto_options) option" where
  "openvpn_encrypt now rand b work opt f =
     (case co_key_ctx_bi opt of
        None \<Rightarrow> Some (b, opt)
      | Some kcb \<Rightarrow>
          if len b > 0 then do {
            let ctx = kc_encrypt kcb;
            (r, b, opt) \<leftarrow> (case ctx_cipher ctx of
                Some c \<Rightarrow> do {
                  (iv_buf, b, opt) \<leftarrow> encrypt_iv now rand c opt b;
                  r \<leftarrow> encrypt_cipher iv_buf c opt f b work;
                  Some (r, b, opt)
                }
              | None \<Rightarrow> do {
                  (b, opt) \<leftarrow> crypto_prepend_packet_id now opt b;
                  Some (Some b, b, opt)
                });
            (case r of
               None \<Rightarrow> Some (b\<lparr>len := 0\<rparr>, opt)
             | Some work \<Rightarrow> do {
                 work \<leftarrow> encrypt_hmac (ctx_hmac ctx) work;
                 Some (work, opt)
               })
          } else Some (b, opt))"

section \<open>Decryption\<close>

text \<open>Verify the HMAC and step over it; \<^const>\<open>False\<close> is CRYPT_ERROR.\<close>

definition decrypt_hmac :: "hmac_ctx option \<Rightarrow> buffer \<Rightarrow> (bool \<times> buffer) option" where
  "decrypt_hmac hm b = (case hm of
     None \<Rightarrow> Some (True, b)
   | Some h \<Rightarrow>
       (let hmac_len = HMAC_size h in
        if len b < hmac_len then Some (False, b)
        else do {
          rest \<leftarrow> buf_load b (offset b + hmac_len) (len b - hmac_len);
          local_hmac \<leftarrow> mem_write (replicate (nat MAX_HMAC_KEY_LENGTH) 0) 0 (HMAC_digest h rest);
          ASSERT (hmac_len = int (length (HMAC_digest h rest)));
          lh \<leftarrow> mem_read local_hmac 0 hmac_len;
          ph \<leftarrow> buf_load b (offset b) hmac_len;
          if lh \<noteq> ph then Some (False, b)
          else do {
            let (ok, b) = buf_advance b hmac_len;
            ASSERT ok;
            Some (True, b)
          }
        }))"

text \<open>
  The identifier of a decrypted packet, from the plaintext or from the IV; the inner \<^const>\<open>None\<close>
  is CRYPT_ERROR, and the first component of the pair is \<^verbatim>\<open>pin\<close> when \<^verbatim>\<open>have_pin\<close> is set.
\<close>

definition decrypt_packet_id ::
  "cipher_mode \<Rightarrow> byte list \<Rightarrow> int \<Rightarrow> crypto_options \<Rightarrow> buffer \<Rightarrow>
   ((packet_id_net option \<times> buffer) option) option" where
  "decrypt_packet_id mode iv_buf iv_size opt work = (case mode of
     EVP_CIPH_CBC_MODE \<Rightarrow>
       (if co_packet_id opt \<noteq> None then do {
          ((ok, pin), work) \<leftarrow> packet_id_read work (co_flag opt CO_PACKET_ID_LONG_FORM);
          Some (if ok then Some (Some pin, work) else None)
        } else Some (Some (None, work)))
   | EVP_CIPH_OTHER_MODE \<Rightarrow> None
   | _ \<Rightarrow> do {
       ASSERT (co_flag opt CO_USE_IV);
       ASSERT (co_packet_id opt \<noteq> None);
       ((ok, pin), ib) \<leftarrow> packet_id_read (buf_set_read (Some iv_buf) iv_size) True;
       Some (if ok then Some (Some pin, work) else None)
     })"

text \<open>Take the IV from the packet; the inner \<^const>\<open>None\<close> is CRYPT_ERROR.\<close>

definition decrypt_read_iv ::
  "evp_cipher_ctx \<Rightarrow> crypto_options \<Rightarrow> buffer \<Rightarrow> ((byte list \<times> buffer) option) option" where
  "decrypt_read_iv c opt b =
     (let iv_size = EVP_CIPHER_CTX_iv_length c; iv_buf = replicate EVP_MAX_IV_LENGTH 0 in
      if co_flag opt CO_USE_IV then
        (if len b < iv_size then Some None
         else do {
           bs \<leftarrow> buf_load b (offset b) iv_size;
           iv_buf \<leftarrow> mem_write iv_buf 0 bs;
           let (ok, b) = buf_advance b iv_size;
           ASSERT ok;
           Some (Some (iv_buf, b))
         })
      else Some (Some (iv_buf, b)))"

text \<open>Decrypt from \<open>buf\<close> to \<open>work\<close>.\<close>

definition decrypt_body ::
  "evp_cipher_ctx \<Rightarrow> crypto_options \<Rightarrow> byte list \<Rightarrow> buffer \<Rightarrow> buffer \<Rightarrow>
   ((packet_id_net option \<times> buffer) option) option" where
  "decrypt_body c opt iv_buf b work = do {
     let iv_size = EVP_CIPHER_CTX_iv_length c;
     iv \<leftarrow> mem_read iv_buf 0 iv_size;
     if len b < 1 then Some None
     else if \<not> EVP_CipherInit c iv then Some None
     else if \<not> buf_safe work (len b) then Some None
     else do {
       bs \<leftarrow> buf_load b (offset b) (len b);
       (case EVP_CipherUpdate c iv bs of
          None \<Rightarrow> Some None
        | Some out \<Rightarrow> do {
            let outlen = int (length out);
            work \<leftarrow> buf_store work (offset work) out;
            let work = work\<lparr>len := len work + outlen\<rparr>;
            (case EVP_CipherFinal c iv bs of
               None \<Rightarrow> Some None
             | Some fin \<Rightarrow> do {
                 work \<leftarrow> buf_store work (offset work + outlen) fin;
                 let work = work\<lparr>len := len work + int (length fin)\<rparr>;
                 decrypt_packet_id (EVP_CIPHER_CTX_mode c) iv_buf iv_size opt work
               })
          })
     }
   }"

definition decrypt_cipher ::
  "evp_cipher_ctx \<Rightarrow> crypto_options \<Rightarrow> frame \<Rightarrow> buffer \<Rightarrow> buffer \<Rightarrow>
   ((packet_id_net option \<times> buffer) option \<times> buffer) option" where
  "decrypt_cipher c opt f b work = do {
     let (ok, work) = buf_init work (frame_headroom f FRAME_HEADROOM_MARKER_DECRYPT);
     ASSERT ok;
     r \<leftarrow> decrypt_read_iv c opt b;
     (case r of
        None \<Rightarrow> Some (None, b)
      | Some (iv_buf, b) \<Rightarrow> do {
          r \<leftarrow> decrypt_body c opt iv_buf b work;
          Some (r, b)
        })
   }"

definition decrypt_no_cipher ::
  "crypto_options \<Rightarrow> buffer \<Rightarrow> ((packet_id_net option \<times> buffer) option \<times> buffer) option" where
  "decrypt_no_cipher opt b =
     (if co_packet_id opt \<noteq> None then do {
        ((ok, pin), work) \<leftarrow> packet_id_read b (co_flag opt CO_PACKET_ID_LONG_FORM);
        Some (if ok then Some (if co_flag opt CO_IGNORE_PACKET_ID then None else Some pin, work) else None, b)
      } else Some (Some (None, b), b))"

text \<open>The replay check, with the record kept for the next session.\<close>

definition decrypt_replay ::
  "time_t \<Rightarrow> packet_id_net option \<Rightarrow> crypto_options \<Rightarrow> (bool \<times> crypto_options) option" where
  "decrypt_replay now pin opt = (case pin of
     None \<Rightarrow> Some (True, opt)
   | Some pin \<Rightarrow> do {
       p \<leftarrow> co_packet_id opt;
       (ok, r) \<leftarrow> packet_id_receive now (pid_rec p) pin;
       let p = p\<lparr>pid_rec := r\<rparr>;
       let opt = opt\<lparr>co_packet_id := Some p\<rparr>;
       Some (ok, if ok \<and> co_flag opt CO_PACKET_ID_LONG_FORM
                 then opt\<lparr>co_pid_persist := map_option (\<lambda>s. packet_id_persist_save_obj s p) (co_pid_persist opt)\<rparr>
                 else opt)
     })"

definition openvpn_decrypt ::
  "time_t \<Rightarrow> buffer \<Rightarrow> buffer \<Rightarrow> crypto_options \<Rightarrow> frame \<Rightarrow>
   (bool \<times> buffer \<times> crypto_options) option" where
  "openvpn_decrypt now b work opt f =
     (case co_key_ctx_bi opt of
        None \<Rightarrow> Some (True, b, opt)
      | Some kcb \<Rightarrow>
          if len b > 0 then do {
            let ctx = kc_decrypt kcb;
            (ok, b) \<leftarrow> decrypt_hmac (ctx_hmac ctx) b;
            if \<not> ok then Some (False, b\<lparr>len := 0\<rparr>, opt)
            else do {
              (r, b) \<leftarrow> (case ctx_cipher ctx of
                  Some c \<Rightarrow> decrypt_cipher c opt f b work
                | None \<Rightarrow> decrypt_no_cipher opt b);
              (case r of
                 None \<Rightarrow> Some (False, b\<lparr>len := 0\<rparr>, opt)
               | Some (pin, work) \<Rightarrow> do {
                   (ok, opt) \<leftarrow> decrypt_replay now pin opt;
                   Some (if ok then (True, work, opt) else (False, b\<lparr>len := 0\<rparr>, opt))
                 })
            }
          } else Some (True, b, opt))"

definition crypto_adjust_frame_parameters ::
  "frame \<Rightarrow> int \<Rightarrow> int \<Rightarrow> int \<Rightarrow> bool \<Rightarrow> bool \<Rightarrow> bool \<Rightarrow> bool \<Rightarrow> frame" where
  "crypto_adjust_frame_parameters f cipher_iv cipher_block hmac_len cipher_defined use_iv packet_id long_form =
     frame_add_to_extra_frame f
       ((if packet_id then packet_id_size long_form else 0) +
        (if cipher_defined \<and> use_iv then cipher_iv else 0) +
        (if cipher_defined then cipher_block else 0) +
        hmac_len)"

section \<open>What a packet says\<close>

text \<open>
  The reading of a packet as byte strings, without buffers and without the replay state: the
  identifier, if one is expected, and the payload; \<^const>\<open>None\<close> for a packet that is refused.
\<close>

definition open_pid :: "bool \<Rightarrow> bool \<Rightarrow> byte list \<Rightarrow> (packet_id_net option \<times> byte list) option" where
  "open_pid present long_form d =
     (if \<not> present then Some (None, d)
      else if packet_id_size long_form \<le> int (length d)
      then Some (Some \<lparr>pin_id = of_be32 (take 4 d),
                       pin_time = (if long_form then uint (of_be32 (take 4 (drop 4 d))) else 0)\<rparr>,
                 drop (nat (packet_id_size long_form)) d)
      else None)"

definition open_hmac :: "hmac_ctx option \<Rightarrow> byte list \<Rightarrow> byte list option" where
  "open_hmac hm k = (case hm of
     None \<Rightarrow> Some k
   | Some h \<Rightarrow> (let n = nat (HMAC_size h) in
       if n \<le> length k \<and> take n k = HMAC_digest h (drop n k) then Some (drop n k) else None))"

definition packet_iv :: "evp_cipher_ctx \<Rightarrow> bool \<Rightarrow> byte list \<Rightarrow> byte list" where
  "packet_iv c use_iv k =
     (let n = nat (EVP_CIPHER_CTX_iv_length c) in if use_iv then take n k else replicate n 0)"

definition packet_body :: "evp_cipher_ctx \<Rightarrow> bool \<Rightarrow> byte list \<Rightarrow> byte list" where
  "packet_body c use_iv k = (if use_iv then drop (nat (EVP_CIPHER_CTX_iv_length c)) k else k)"

definition open_cipher ::
  "evp_cipher_ctx \<Rightarrow> bool \<Rightarrow> bool \<Rightarrow> bool \<Rightarrow> byte list \<Rightarrow> (packet_id_net option \<times> byte list) option" where
  "open_cipher c use_iv present long_form k =
     (let iv = packet_iv c use_iv k; body = packet_body c use_iv k in
      if use_iv \<and> int (length k) < EVP_CIPHER_CTX_iv_length c \<or> body = [] \<or> \<not> EVP_CipherInit c iv
      then None
      else do {
        y \<leftarrow> EVP_CipherUpdate c iv body;
        z \<leftarrow> EVP_CipherFinal c iv body;
        (case EVP_CIPHER_CTX_mode c of
           EVP_CIPH_CBC_MODE \<Rightarrow> open_pid present long_form (y @ z)
         | _ \<Rightarrow> do { (pin, _) \<leftarrow> open_pid True True iv; Some (pin, y @ z) })
      })"

definition packet_open ::
  "key_ctx \<Rightarrow> bool \<Rightarrow> u32 \<Rightarrow> byte list \<Rightarrow> (packet_id_net option \<times> byte list) option" where
  "packet_open ctx present flags k = do {
     c \<leftarrow> open_hmac (ctx_hmac ctx) k;
     (case ctx_cipher ctx of
        Some ci \<Rightarrow> open_cipher ci (flags AND CO_USE_IV \<noteq> 0) present (flags AND CO_PACKET_ID_LONG_FORM \<noteq> 0) c
      | None \<Rightarrow> do {
          (pin, d) \<leftarrow> open_pid present (flags AND CO_PACKET_ID_LONG_FORM \<noteq> 0) c;
          Some (if flags AND CO_IGNORE_PACKET_ID \<noteq> 0 then None else pin, d) })
   }"

text \<open>
  What the code relies on of OpenSSL: a digest has the announced size and fits the local array,
  an IV fits its array, and decryption never gives more bytes than it got.
\<close>

definition hmac_ok :: "hmac_ctx option \<Rightarrow> bool" where
  "hmac_ok hm \<longleftrightarrow> (\<forall>h. hm = Some h \<longrightarrow> 0 \<le> HMAC_size h \<and> HMAC_size h \<le> MAX_HMAC_KEY_LENGTH \<and>
     (\<forall>x. int (length (HMAC_digest h x)) = HMAC_size h))"

definition decrypt_fits :: "evp_cipher_ctx \<Rightarrow> bool" where
  "decrypt_fits c \<longleftrightarrow> 0 \<le> EVP_CIPHER_CTX_iv_length c \<and> EVP_CIPHER_CTX_iv_length c \<le> 16 \<and>
     EVP_CIPHER_CTX_mode c \<noteq> EVP_CIPH_OTHER_MODE \<and>
     (\<forall>iv x y. EVP_CipherUpdate c iv x = Some y \<longrightarrow> length y \<le> length x \<and>
        (\<forall>z. EVP_CipherFinal c iv x = Some z \<longrightarrow> length y + length z \<le> length x))"

section \<open>Decryption reads the packet\<close>

lemma packet_id_read_open:
  "open_pid True long_form c = Some (pin, d) \<Longrightarrow>
     \<exists>k pre'. pin = Some k \<and> packet_id_read (mk_buf pre c post) long_form = Some ((True, k), mk_buf pre' d post)"
  "open_pid True long_form c = None \<Longrightarrow>
     \<exists>k b. packet_id_read (mk_buf pre c post) long_form = Some ((False, k), b)"
proof -
  show "\<exists>k pre'. pin = Some k \<and> packet_id_read (mk_buf pre c post) long_form = Some ((True, k), mk_buf pre' d post)"
    if o: "open_pid True long_form c = Some (pin, d)"
  proof -
    have n: "packet_id_size long_form \<le> int (length c)" using o by (auto simp: open_pid_def split: if_splits)
    then have "4 \<le> length c" by (auto simp: packet_id_size_def split: if_splits)
    then show ?thesis
      using o n by (cases long_form) (auto simp: open_pid_def packet_id_read_def packet_id_size_def)
  qed
  show "\<exists>k b. packet_id_read (mk_buf pre c post) long_form = Some ((False, k), b)"
    if "open_pid True long_form c = None"
    using that packet_id_read_short[of c long_form pre post] by (auto simp: open_pid_def split: if_splits)
qed

lemma buf_read_set_read:
  assumes "0 \<le> n" "n \<le> int (length m)" "0 \<le> i" "0 \<le> j"
  shows "buf_read (buf_set_read (Some m) n\<lparr>offset := i, len := n - i\<rparr>) j
    = Some (if j \<le> n - i
            then (Some (take (nat j) (drop (nat i) m)), buf_set_read (Some m) n\<lparr>offset := i + j, len := n - (i + j)\<rparr>)
            else (None, buf_set_read (Some m) n\<lparr>offset := i, len := n - i\<rparr>))"
  using assms
  by (auto simp: buf_read_def buf_read_alloc_def BPTR_def ptr_at_def buf_set_read_def buf_load_def mem_read_def)

lemma packet_id_read_iv:
  assumes "0 \<le> n" "n \<le> int (length m)"
  shows "\<exists>k b. packet_id_read (buf_set_read (Some m) n) True = Some ((open_pid True True (take (nat n) m) \<noteq> None, k), b) \<and>
    (\<forall>pin d. open_pid True True (take (nat n) m) = Some (pin, d) \<longrightarrow> pin = Some k)"
proof -
  have 0: "buf_set_read (Some m) n = buf_set_read (Some m) n\<lparr>offset := 0, len := n - 0\<rparr>"
    by (simp add: buf_set_read_def)
  note rd = buf_read_set_read[OF assms, of 0 4] buf_read_set_read[OF assms, of 4 4]
  have sz: "int (length (take (nat n) m)) = n" using assms by simp
  show ?thesis
  proof (cases "8 \<le> n")
    case True
    have "take 4 (take (nat n) m) = take 4 m" "take 4 (drop 4 (take (nat n) m)) = take 4 (drop 4 m)"
      using nat_mono[OF True] by (simp_all add: drop_take min_def)
    then show ?thesis
      using True rd sz by (subst (1) 0) (simp add: packet_id_read_def open_pid_def packet_id_size_def)
  next
    case False
    then show ?thesis
      using rd sz by (subst (1) 0) (simp add: packet_id_read_def open_pid_def packet_id_size_def)
  qed
qed

lemma decrypt_hmac_open:
  assumes "hmac_ok hm"
  shows "\<exists>b. decrypt_hmac hm (mk_buf pre k post) = Some (open_hmac hm k \<noteq> None, b) \<and>
    (\<forall>c. open_hmac hm k = Some c \<longrightarrow> (\<exists>pre'. b = mk_buf pre' c post))"
proof (cases hm)
  case None
  then show ?thesis by (auto simp: decrypt_hmac_def open_hmac_def)
next
  case (Some h)
  let ?n = "nat (HMAC_size h)"
  have h: "0 \<le> HMAC_size h" "HMAC_size h \<le> 64" "\<And>x. int (length (HMAC_digest h x)) = HMAC_size h"
    using assms Some by (auto simp: hmac_ok_def)
  show ?thesis
  proof (cases "?n \<le> length k")
    case True
    have n: "HMAC_size h \<le> int (length k)" using True h(1) by linarith
    have ld: "buf_load (mk_buf pre k post) (int (length pre) + HMAC_size h) (int (length k) - HMAC_size h)
        = Some (drop ?n k)"
      using buf_load_inside[of "HMAC_size h" "int (length k) - HMAC_size h" k pre post] h(1) n
      by (simp add: nat_diff_distrib)
    have ph: "buf_load (mk_buf pre k post) (int (length pre)) (HMAC_size h) = Some (take ?n k)"
      using buf_load_inside[of 0 "HMAC_size h" k pre post] h(1) n by simp
    have lh: "nat (HMAC_size h) = length (HMAC_digest h x)" for x using h(3)[of x] by linarith
    have lw: "mem_write (replicate 64 0) 0 (HMAC_digest h x)
        = Some (HMAC_digest h x @ replicate (64 - ?n) 0)" for x
      using h(2) h(3)[of x] lh[of x] by (simp add: mem_write_def)
    have lr: "mem_read (HMAC_digest h x @ replicate (64 - ?n) 0) 0 (HMAC_size h) = Some (HMAC_digest h x)" for x
      using h lh[of x] by (simp add: mem_read_def)
    show ?thesis
      using Some n h(1) True
      by (auto simp: decrypt_hmac_def open_hmac_def ld ph lw lr h(3) Let_def)
  next
    case False
    then show ?thesis using Some h(1) by (auto simp: decrypt_hmac_def open_hmac_def Let_def)
  qed
qed

lemma decrypt_packet_id_open:
  assumes mode: "mode \<noteq> EVP_CIPH_OTHER_MODE" "mode \<noteq> EVP_CIPH_CBC_MODE \<longrightarrow> use_iv \<and> present"
    and opt: "use_iv = co_flag opt CO_USE_IV" "present = (co_packet_id opt \<noteq> None)"
      "long_form = co_flag opt CO_PACKET_ID_LONG_FORM"
    and iv: "0 \<le> n" "n \<le> int (length iv_buf)"
    and r: "r = (case mode of
           EVP_CIPH_CBC_MODE \<Rightarrow> open_pid present long_form d
         | _ \<Rightarrow> do { (pin, _) \<leftarrow> open_pid True True (take (nat n) iv_buf); Some (pin, d) })"
  shows "\<exists>r'. decrypt_packet_id mode iv_buf n opt (mk_buf pre d post) = Some r' \<and>
    rel_option (\<lambda>(pin', w) (pin, d). pin' = pin \<and> (\<exists>pre'. w = mk_buf pre' d post)) r' r"
proof (cases "mode = EVP_CIPH_CBC_MODE")
  case True
  show ?thesis
  proof (cases present)
    case p: True
    then show ?thesis
      using True packet_id_read_open(1)[of long_form d _ _ pre post]
        packet_id_read_open(2)[of long_form d pre post] opt
      by (cases "open_pid True long_form d") (fastforce simp: decrypt_packet_id_def r)+
  next
    case False
    then show ?thesis using True opt by (auto simp: decrypt_packet_id_def r open_pid_def)
  qed
next
  case False
  obtain k b where "packet_id_read (buf_set_read (Some iv_buf) n) True
      = Some ((open_pid True True (take (nat n) iv_buf) \<noteq> None, k), b)"
    "\<forall>pin d. open_pid True True (take (nat n) iv_buf) = Some (pin, d) \<longrightarrow> pin = Some k"
    using packet_id_read_iv[OF iv] by blast
  then show ?thesis
    using False mode opt
    by (cases mode; cases "open_pid True True (take (nat n) iv_buf)") (auto simp: decrypt_packet_id_def r)
qed

text \<open>A store of decrypted bytes into the empty work buffer.\<close>

lemma buf_store_out:
  assumes "length y \<le> length post"
  shows "buf_store (mk_buf pre c post) (int (length pre) + int (length c)) y
    = Some (mk_buf pre c (y @ drop (length y) post))"
  using assms mem_write_parts[of y "take (length y) post" "pre @ c" "drop (length y) post"]
  by (simp add: buf_store_def mk_buf_def)

lemma mk_buf_grow:
  "mk_buf pre c (y @ post)\<lparr>len := int (length c) + int (length y)\<rparr> = mk_buf pre (c @ y) post"
  by (simp add: mk_buf_def)

lemma mk_buf_grow_nil: "mk_buf pre [] (y @ post)\<lparr>len := int (length y)\<rparr> = mk_buf pre y post"
  by (simp add: mk_buf_def)

lemmas mk_buf_grow_simps = mk_buf_grow mk_buf_grow_nil

lemma decrypt_read_iv_open:
  assumes n: "0 \<le> EVP_CIPHER_CTX_iv_length c" "EVP_CIPHER_CTX_iv_length c \<le> 16"
    and iv: "use_iv = co_flag opt CO_USE_IV"
  shows "use_iv \<and> int (length k) < EVP_CIPHER_CTX_iv_length c \<Longrightarrow>
      decrypt_read_iv c opt (mk_buf pre k post) = Some None"
    and "\<not> (use_iv \<and> int (length k) < EVP_CIPHER_CTX_iv_length c) \<Longrightarrow>
      \<exists>iv_buf pre'. decrypt_read_iv c opt (mk_buf pre k post) = Some (Some (iv_buf, mk_buf pre' (packet_body c use_iv k) post)) \<and>
        length iv_buf = 16 \<and> take (nat (EVP_CIPHER_CTX_iv_length c)) iv_buf = packet_iv c use_iv k"
proof -
  let ?n = "EVP_CIPHER_CTX_iv_length c"
  show "use_iv \<and> int (length k) < ?n \<Longrightarrow> decrypt_read_iv c opt (mk_buf pre k post) = Some None"
    using iv by (simp add: decrypt_read_iv_def Let_def)
  assume k: "\<not> (use_iv \<and> int (length k) < ?n)"
  show "\<exists>iv_buf pre'. decrypt_read_iv c opt (mk_buf pre k post) = Some (Some (iv_buf, mk_buf pre' (packet_body c use_iv k) post)) \<and>
        length iv_buf = 16 \<and> take (nat ?n) iv_buf = packet_iv c use_iv k"
  proof (cases use_iv)
    case True
    have "mem_write (replicate 16 0) 0 (take (nat ?n) k) = Some (take (nat ?n) k @ replicate (16 - nat ?n) 0)"
      using k True n by (simp add: mem_write_def)
    then show ?thesis
      using k True n iv buf_load_inside[of 0 ?n k pre post]
      by (auto simp: decrypt_read_iv_def packet_body_def packet_iv_def Let_def)
  next
    case False
    then show ?thesis using n iv by (auto simp: decrypt_read_iv_def packet_body_def packet_iv_def Let_def)
  qed
qed

lemma decrypt_body_open:
  assumes fits: "decrypt_fits c"
    and opt: "use_iv = co_flag opt CO_USE_IV" "present = (co_packet_id opt \<noteq> None)"
      "long_form = co_flag opt CO_PACKET_ID_LONG_FORM"
    and mode: "EVP_CIPHER_CTX_mode c \<noteq> EVP_CIPH_CBC_MODE \<longrightarrow> use_iv \<and> present"
    and iv: "length iv_buf = 16" "take (nat (EVP_CIPHER_CTX_iv_length c)) iv_buf = packet_iv c use_iv k"
    and k: "\<not> (use_iv \<and> int (length k) < EVP_CIPHER_CTX_iv_length c)" "body = packet_body c use_iv k"
  shows "\<exists>r. decrypt_body c opt iv_buf (mk_buf pre body post) (mk_buf wpre [] wpost) = Some r \<and>
    (\<forall>pin w. r = Some (pin, w) \<longrightarrow> live_buf w \<and> open_cipher c use_iv present long_form k = Some (pin, content w)) \<and>
    (length body \<le> length wpost \<and> r = None \<longrightarrow> open_cipher c use_iv present long_form k = None)"
proof -
  let ?n = "EVP_CIPHER_CTX_iv_length c" and ?iv = "packet_iv c use_iv k"
  have n: "0 \<le> ?n" "?n \<le> int (length iv_buf)" "EVP_CIPHER_CTX_mode c \<noteq> EVP_CIPH_OTHER_MODE"
    using fits iv by (auto simp: decrypt_fits_def)
  have rd: "mem_read iv_buf 0 ?n = Some ?iv" using n iv by (simp add: mem_read_def)
  have ld: "buf_load (mk_buf pre body post) (int (length pre)) (int (length body)) = Some body"
    using buf_load_inside[of 0 "int (length body)" body pre post] by simp
  note D = decrypt_body_def open_cipher_def Let_def rd k(2)[symmetric]
  show ?thesis
  proof (cases "body \<noteq> [] \<and> EVP_CipherInit c ?iv \<and> length body \<le> length wpost")
    case False
    then show ?thesis by (auto simp: D Suc_le_eq buf_safe_def)
  next
    case True
    show ?thesis
    proof (cases "EVP_CipherUpdate c ?iv body")
      case None
      then show ?thesis using True ld by (auto simp: D Suc_le_eq buf_safe_def)
    next
      case y: (Some y)
      have ly: "length y \<le> length wpost" using fits y True by (fastforce simp: decrypt_fits_def)
      have sy: "buf_store (mk_buf wpre [] wpost) (int (length wpre)) y
          = Some (mk_buf wpre [] (y @ drop (length y) wpost))"
        using buf_store_out[OF ly, of wpre "[]"] by simp
      show ?thesis
      proof (cases "EVP_CipherFinal c ?iv body")
        case None
        then show ?thesis using True ld y sy by (auto simp: D Suc_le_eq buf_safe_def)
      next
        case z: (Some z)
        let ?post = "drop (length y) wpost"
        have lz: "length z \<le> length ?post" using fits y z True by (fastforce simp: decrypt_fits_def)
        have sz: "buf_store (mk_buf wpre y ?post) (int (length wpre) + int (length y)) z
            = Some (mk_buf wpre y (z @ drop (length z) ?post))"
          using buf_store_out[OF lz] .
        obtain r' where "decrypt_packet_id (EVP_CIPHER_CTX_mode c) iv_buf ?n opt
              (mk_buf wpre (y @ z) (drop (length z) ?post)) = Some r'"
          "rel_option (\<lambda>(pin', w) (pin, d). pin' = pin \<and> (\<exists>pre'. w = mk_buf pre' d (drop (length z) ?post))) r'
             (case EVP_CIPHER_CTX_mode c of EVP_CIPH_CBC_MODE \<Rightarrow> open_pid present long_form (y @ z)
              | _ \<Rightarrow> do { (pin, _) \<leftarrow> open_pid True True ?iv; Some (pin, y @ z) })"
          using decrypt_packet_id_open[OF n(3) mode opt n(1,2) refl] unfolding iv(2) by blast
        moreover have "decrypt_body c opt iv_buf (mk_buf pre body post) (mk_buf wpre [] wpost)
            = decrypt_packet_id (EVP_CIPHER_CTX_mode c) iv_buf ?n opt (mk_buf wpre (y @ z) (drop (length z) ?post))"
          using True ld y z sy sz
          by (simp add: decrypt_body_def rd Suc_le_eq buf_safe_def mk_buf_grow_simps Let_def del: drop_drop)
        moreover have "open_cipher c use_iv present long_form k
            = (case EVP_CIPHER_CTX_mode c of EVP_CIPH_CBC_MODE \<Rightarrow> open_pid present long_form (y @ z)
              | _ \<Rightarrow> do { (pin, _) \<leftarrow> open_pid True True ?iv; Some (pin, y @ z) })"
          using True k y z by (auto simp: open_cipher_def Let_def)
        ultimately show ?thesis
          by (cases r') (auto simp: option_rel_Some1)
      qed
    qed
  qed
qed

text \<open>The decrypting side, as the options set it up.\<close>

definition decrypt_ok :: "key_ctx \<Rightarrow> crypto_options \<Rightarrow> bool" where
  "decrypt_ok ctx opt \<longleftrightarrow> map_option kc_decrypt (co_key_ctx_bi opt) = Some ctx \<and> hmac_ok (ctx_hmac ctx) \<and>
     (\<forall>c. ctx_cipher ctx = Some c \<longrightarrow> decrypt_fits c \<and>
       (EVP_CIPHER_CTX_mode c \<noteq> EVP_CIPH_CBC_MODE \<longrightarrow> co_flag opt CO_USE_IV \<and> co_packet_id opt \<noteq> None))"

definition work_ok :: "frame \<Rightarrow> buffer \<Rightarrow> bool" where
  "work_ok f work \<longleftrightarrow> live_buf work \<and> 0 \<le> frame_headroom f FRAME_HEADROOM_MARKER_DECRYPT \<and>
     frame_headroom f FRAME_HEADROOM_MARKER_DECRYPT \<le> capacity work"

abbreviation opt_open :: "key_ctx \<Rightarrow> crypto_options \<Rightarrow> byte list \<Rightarrow> (packet_id_net option \<times> byte list) option" where
  "opt_open ctx opt \<equiv> packet_open ctx (co_packet_id opt \<noteq> None) (co_flags opt)"

lemma decrypt_cipher_open:
  assumes fits: "decrypt_fits c" and work: "work_ok f work"
    and opt: "use_iv = co_flag opt CO_USE_IV" "present = (co_packet_id opt \<noteq> None)"
      "long_form = co_flag opt CO_PACKET_ID_LONG_FORM"
    and mode: "EVP_CIPHER_CTX_mode c \<noteq> EVP_CIPH_CBC_MODE \<longrightarrow> use_iv \<and> present"
  shows "\<exists>r b. decrypt_cipher c opt f (mk_buf pre k post) work = Some (r, b) \<and>
    (\<forall>pin w. r = Some (pin, w) \<longrightarrow> live_buf w \<and> open_cipher c use_iv present long_form k = Some (pin, content w)) \<and>
    (frame_headroom f 1 + int (length k) \<le> capacity work \<and> r = None \<longrightarrow>
       open_cipher c use_iv present long_form k = None)"
proof -
  let ?n = "EVP_CIPHER_CTX_iv_length c" and ?body = "packet_body c use_iv k"
  have n: "0 \<le> ?n" "?n \<le> 16" using fits by (auto simp: decrypt_fits_def)
  obtain wpre wpost where w: "buf_init work (frame_headroom f 1) = (True, mk_buf wpre [] wpost)"
    "int (length wpre) = frame_headroom f 1" "int (length wpre + length wpost) = capacity work"
    using buf_init_live[of work "frame_headroom f 1"] work by (auto simp: work_ok_def)
  show ?thesis
  proof (cases "use_iv \<and> int (length k) < ?n")
    case True
    then show ?thesis
      using w decrypt_read_iv_open(1)[OF n opt(1) True, of pre post]
      by (auto simp: decrypt_cipher_def open_cipher_def Let_def)
  next
    case False
    obtain iv_buf pre' where iv: "decrypt_read_iv c opt (mk_buf pre k post) = Some (Some (iv_buf, mk_buf pre' ?body post))"
      "length iv_buf = 16" "take (nat ?n) iv_buf = packet_iv c use_iv k"
      using decrypt_read_iv_open(2)[OF n opt(1) False] by blast
    obtain r where r: "decrypt_body c opt iv_buf (mk_buf pre' ?body post) (mk_buf wpre [] wpost) = Some r"
      "\<forall>pin w. r = Some (pin, w) \<longrightarrow> live_buf w \<and> open_cipher c use_iv present long_form k = Some (pin, content w)"
      "length ?body \<le> length wpost \<and> r = None \<longrightarrow> open_cipher c use_iv present long_form k = None"
      using decrypt_body_open[OF fits opt mode iv(2,3) False refl] by blast
    have "length ?body \<le> length k" by (simp add: packet_body_def)
    then show ?thesis using w iv r by (auto simp: decrypt_cipher_def)
  qed
qed

lemma decrypt_no_cipher_open:
  assumes opt: "present = (co_packet_id opt \<noteq> None)" "long_form = co_flag opt CO_PACKET_ID_LONG_FORM"
  shows "\<exists>r b. decrypt_no_cipher opt (mk_buf pre k post) = Some (r, b) \<and>
    rel_option (\<lambda>(pin', w) (pin, d). pin' = (if co_flag opt CO_IGNORE_PACKET_ID then None else pin) \<and>
      live_buf w \<and> content w = d) r (open_pid present long_form k)"
proof (cases present)
  case True
  then show ?thesis
    using packet_id_read_open(1)[of long_form k _ _ pre post] packet_id_read_open(2)[of long_form k pre post] opt
    by (cases "open_pid True long_form k") (fastforce simp: decrypt_no_cipher_def)+
next
  case False
  then show ?thesis using opt by (auto simp: decrypt_no_cipher_def open_pid_def)
qed

text \<open>
  openvpn_decrypt of any non-empty packet: it returns, and delivers what the packet says when the
  packet is authentic and the replay check accepts its identifier.
\<close>

lemma openvpn_decrypt_open:
  assumes ok: "decrypt_ok ctx opt" and work: "work_ok f work" and k: "k \<noteq> []"
  shows "\<exists>r b. openvpn_decrypt now (mk_buf pre k post) work opt f =
      (case r of None \<Rightarrow> Some (False, b, opt)
       | Some (pin, w) \<Rightarrow> do { (ok, opt) \<leftarrow> decrypt_replay now pin opt; Some (if ok then (True, w, opt) else (False, b, opt)) }) \<and>
    len b = 0 \<and>
    (\<forall>pin w. r = Some (pin, w) \<longrightarrow> live_buf w \<and> opt_open ctx opt k = Some (pin, content w)) \<and>
    (frame_headroom f 1 + int (length k) \<le> capacity work \<and> r = None \<longrightarrow> opt_open ctx opt k = None)"
proof -
  obtain kcb where kcb: "co_key_ctx_bi opt = Some kcb" "kc_decrypt kcb = ctx"
    using ok by (auto simp: decrypt_ok_def)
  have hm: "hmac_ok (ctx_hmac ctx)" using ok by (simp add: decrypt_ok_def)
  obtain b where b: "decrypt_hmac (ctx_hmac ctx) (mk_buf pre k post) = Some (open_hmac (ctx_hmac ctx) k \<noteq> None, b)"
    "\<forall>c. open_hmac (ctx_hmac ctx) k = Some c \<longrightarrow> (\<exists>pre'. b = mk_buf pre' c post)"
    using decrypt_hmac_open[OF hm] by blast
  note D = openvpn_decrypt_def kcb b(1) packet_open_def
  show ?thesis
  proof (cases "open_hmac (ctx_hmac ctx) k")
    case None
    then show ?thesis
      using k by (intro exI[of _ None] exI[of _ "b\<lparr>len := 0\<rparr>"]) (simp add: D)
  next
    case (Some c)
    obtain pre' where b': "b = mk_buf pre' c post" using b Some by blast
    have lc: "length c \<le> length k" using Some by (auto simp: open_hmac_def Let_def split: option.splits if_splits)
    show ?thesis
    proof (cases "ctx_cipher ctx")
      case None
      obtain r b2 where "decrypt_no_cipher opt b = Some (r, b2)"
        "rel_option (\<lambda>(pin', w) (pin, d). pin' = (if co_flag opt CO_IGNORE_PACKET_ID then None else pin) \<and>
           live_buf w \<and> content w = d) r (open_pid (co_packet_id opt \<noteq> None) (co_flag opt CO_PACKET_ID_LONG_FORM) c)"
        using decrypt_no_cipher_open[OF refl refl] b' by blast
      then show ?thesis
        using k Some None
        by (intro exI[of _ r] exI[of _ "b2\<lparr>len := 0\<rparr>"])
           (cases r; auto simp: D co_flag_def option_rel_Some1 split: option.splits intro!: bind_option_cong)
    next
      case ci: (Some ci)
      have fits: "decrypt_fits ci" and mode: "EVP_CIPHER_CTX_mode ci \<noteq> EVP_CIPH_CBC_MODE \<longrightarrow>
          co_flag opt CO_USE_IV \<and> co_packet_id opt \<noteq> None"
        using ok ci by (auto simp: decrypt_ok_def)
      obtain r b2 where r: "decrypt_cipher ci opt f b work = Some (r, b2)"
        "\<forall>pin w. r = Some (pin, w) \<longrightarrow> live_buf w \<and> open_cipher ci (co_flag opt CO_USE_IV) (co_packet_id opt \<noteq> None)
            (co_flag opt CO_PACKET_ID_LONG_FORM) c = Some (pin, content w)"
        "frame_headroom f 1 + int (length c) \<le> capacity work \<and> r = None \<longrightarrow>
           open_cipher ci (co_flag opt CO_USE_IV) (co_packet_id opt \<noteq> None) (co_flag opt CO_PACKET_ID_LONG_FORM) c = None"
        using decrypt_cipher_open[OF fits work refl refl refl mode, of pre' c post] b' by blast
      then show ?thesis
        using k Some ci lc
        by (intro exI[of _ r] exI[of _ "b2\<lparr>len := 0\<rparr>"])
           (cases r; auto simp: D co_flag_def split: option.splits intro!: bind_option_cong)
    qed
  qed
qed

lemma openvpn_decrypt_accepts:
  assumes ok: "decrypt_ok ctx opt" and work: "work_ok f work" and k: "k \<noteq> []"
    and room: "frame_headroom f 1 + int (length k) \<le> capacity work"
    and opn: "opt_open ctx opt k = Some (pin, d)" and rep: "decrypt_replay now pin opt = Some (True, opt')"
  shows "\<exists>w. openvpn_decrypt now (mk_buf pre k post) work opt f = Some (True, w, opt') \<and> live_buf w \<and> content w = d"
  using openvpn_decrypt_open[OF ok work k, of now pre post]
proof (elim exE conjE, goal_cases)
  case (1 r b)
  show ?case
  proof (cases r)
    case None
    then show ?thesis using 1(4) opn room by simp
  next
    case (Some pw)
    obtain pin' w where pw: "r = Some (pin', w)" using Some by (cases pw) auto
    then have w: "live_buf w" "opt_open ctx opt k = Some (pin', content w)" using 1(3) by blast+
    then have "pin' = pin" "content w = d" using opn by simp_all
    then show ?thesis using 1(1) pw w(1) rep by simp
  qed
qed

end
