(* ===== verification/Data_Channel.thy ===== *)
theory Data_Channel
  imports Crypto
begin

text \<open>
  The data channel as a whole.  The receiving side is an instance of \<open>replay_guard\<close>: any
  sequence of packets, forged or replayed, is handled, and each packet is accepted at most once
  and only with a valid HMAC.  Together with the sending side it delivers every payload.
\<close>

section \<open>No packet is accepted twice\<close>

text \<open>
  The arrival of the packet \<open>k\<close> at time \<open>now\<close>, in a buffer with the bytes \<open>pre\<close> before and
  \<open>post\<close> behind it, with the given work buffer.  An empty buffer stands for no packet.
\<close>

definition crypto_receive ::
  "frame \<Rightarrow> time_t \<times> byte list \<times> byte list \<times> buffer \<Rightarrow> crypto_options \<Rightarrow> byte list \<Rightarrow>
   (bool \<times> crypto_options) option" where
  "crypto_receive f = (\<lambda>(now, pre, post, work) opt k. do {
     (ok, b, opt) \<leftarrow> openvpn_decrypt now (mk_buf pre k post) work opt f;
     Some (ok \<and> k \<noteq> [], opt)
   })"

definition crypto_inv :: "key_ctx \<Rightarrow> crypto_options \<Rightarrow> bool" where
  "crypto_inv ctx opt \<longleftrightarrow> decrypt_ok ctx opt \<and> (ctx_cipher ctx = None \<longrightarrow> \<not> co_flag opt CO_IGNORE_PACKET_ID) \<and>
     (\<exists>p. co_packet_id opt = Some p \<and> rec_inv (pid_rec p))"

definition crypto_usable :: "frame \<Rightarrow> time_t \<times> byte list \<times> byte list \<times> buffer \<Rightarrow> bool" where
  "crypto_usable f = (\<lambda>(now, pre, post, work). now > 1 \<and> work_ok f work)"

definition packet_dead :: "key_ctx \<Rightarrow> crypto_options \<Rightarrow> byte list \<Rightarrow> bool" where
  "packet_dead ctx opt k \<longleftrightarrow> k = [] \<or>
     (\<forall>pin d. opt_open ctx opt k = Some (Some pin, d) \<longrightarrow> (\<forall>p. co_packet_id opt = Some p \<longrightarrow> pid_dead (pid_rec p) pin))"

lemma open_pid_pin: "open_pid True lf d = Some (x, r) \<Longrightarrow> \<exists>pin. x = Some pin"
  by (auto simp: open_pid_def split: if_splits)

lemma open_cipher_pin:
  assumes "open_cipher c u True lf k = Some (x, d)"
  shows "\<exists>pin. x = Some pin"
proof -
  obtain y z where "(case EVP_CIPHER_CTX_mode c of
      EVP_CIPH_CBC_MODE \<Rightarrow> open_pid True lf (y @ z)
    | _ \<Rightarrow> do { (pin, _) \<leftarrow> open_pid True True (packet_iv c u k); Some (pin, y @ z) }) = Some (x, d)"
    using assms by (auto simp: open_cipher_def Let_def bind_eq_Some_conv split: if_splits)
  then show ?thesis
    by (cases "EVP_CIPHER_CTX_mode c") (auto simp: bind_eq_Some_conv dest: open_pid_pin)
qed

lemma packet_open_pin:
  assumes "packet_open ctx True flags k = Some (x, d)" "ctx_cipher ctx = None \<longrightarrow> flags AND 4 = 0"
  shows "\<exists>pin. x = Some pin"
proof (cases "ctx_cipher ctx")
  case None
  then show ?thesis using assms by (auto simp: packet_open_def bind_eq_Some_conv dest: open_pid_pin)
next
  case (Some c)
  then show ?thesis using assms by (auto simp: packet_open_def bind_eq_Some_conv dest: open_cipher_pin)
qed

lemma decrypt_replay_step:
  assumes "co_packet_id opt = Some p" "rec_inv (pid_rec p)" "now > 1"
  shows "\<exists>ok opt' r. decrypt_replay now (Some pin) opt = Some (ok, opt') \<and>
    packet_id_receive now (pid_rec p) pin = Some (ok, r) \<and>
    co_packet_id opt' = Some (p\<lparr>pid_rec := r\<rparr>) \<and> co_key_ctx_bi opt' = co_key_ctx_bi opt \<and> co_flags opt' = co_flags opt"
proof -
  obtain ok r where "packet_id_receive now (pid_rec p) pin = Some (ok, r)"
    using pid_guard.receive_step[OF assms(2,3)] by blast
  then show ?thesis using assms by (simp add: decrypt_replay_def Let_def)
qed

text \<open>One arrival: what is accepted is authentic and was not accepted before.\<close>

lemma crypto_receive_step:
  assumes inv: "crypto_inv ctx opt" and us: "crypto_usable f e"
  shows "\<exists>ok opt'. crypto_receive f e opt k = Some (ok, opt') \<and> crypto_inv ctx opt' \<and>
    (ok \<longrightarrow> \<not> packet_dead ctx opt k \<and> packet_dead ctx opt' k \<and> open_hmac (ctx_hmac ctx) k \<noteq> None) \<and>
    (\<forall>k'. packet_dead ctx opt k' \<longrightarrow> packet_dead ctx opt' k')"
proof -
  obtain now pre post work where e: "e = (now, pre, post, work)" by (cases e) auto
  have now: "now > 1" and work: "work_ok f work" using us by (auto simp: crypto_usable_def e)
  obtain p where p: "co_packet_id opt = Some p" "rec_inv (pid_rec p)" using inv by (auto simp: crypto_inv_def)
  have dok: "decrypt_ok ctx opt" and ign: "ctx_cipher ctx = None \<longrightarrow> co_flags opt AND 4 = 0"
    using inv by (auto simp: crypto_inv_def co_flag_def)
  show ?thesis
  proof (cases "k = []")
    case True
    have "openvpn_decrypt now (mk_buf pre k post) work opt f = Some (True, mk_buf pre k post, opt)"
      using True by (simp add: openvpn_decrypt_def split: option.split)
    then show ?thesis using inv True by (auto simp: crypto_receive_def e)
  next
    case False
    obtain r b where dec: "openvpn_decrypt now (mk_buf pre k post) work opt f =
        (case r of None \<Rightarrow> Some (False, b, opt)
         | Some (pin, w) \<Rightarrow> do { (ok, opt) \<leftarrow> decrypt_replay now pin opt; Some (if ok then (True, w, opt) else (False, b, opt)) })"
      and opn: "\<forall>pin w. r = Some (pin, w) \<longrightarrow> live_buf w \<and> opt_open ctx opt k = Some (pin, content w)"
      using openvpn_decrypt_open[OF dok work False, of now pre post] by blast
    show ?thesis
    proof (cases r)
      case None
      then show ?thesis using dec inv by (auto simp: crypto_receive_def e)
    next
      case (Some pw)
      obtain x w where pw: "pw = (x, w)" by (cases pw)
      have po: "packet_open ctx True (co_flags opt) k = Some (x, content w)" using opn Some pw p by simp
      obtain pin where x: "x = Some pin" using packet_open_pin[OF po ign] by blast
      have hm: "open_hmac (ctx_hmac ctx) k \<noteq> None" using po by (auto simp: packet_open_def bind_eq_Some_conv)
      obtain ok opt' r' where rp: "decrypt_replay now (Some pin) opt = Some (ok, opt')"
        "packet_id_receive now (pid_rec p) pin = Some (ok, r')"
        "co_packet_id opt' = Some (p\<lparr>pid_rec := r'\<rparr>)" "co_key_ctx_bi opt' = co_key_ctx_bi opt" "co_flags opt' = co_flags opt"
        using decrypt_replay_step[OF p now] by metis
      have r': "rec_inv r'" "ok \<longrightarrow> pid_dead r' pin" "\<forall>k'. pid_dead (pid_rec p) k' \<longrightarrow> pid_dead r' k'"
        "ok \<longrightarrow> \<not> pid_dead (pid_rec p) pin"
        using pid_guard.receive_step[OF p(2) now, of pin] pid_guard.dead_rejected[OF p(2) now, of pin] rp(2) by auto
      have "crypto_receive f e opt k = Some (ok, opt')"
        using dec Some pw x rp(1) False by (simp add: crypto_receive_def e)
      moreover have "crypto_inv ctx opt'"
        using inv rp r'(1) by (auto simp: crypto_inv_def decrypt_ok_def co_flag_def)
      moreover have "packet_dead ctx opt' k'" if "packet_dead ctx opt k'" for k'
        using that rp r'(3) p by (auto simp: packet_dead_def)
      moreover have "ok \<longrightarrow> packet_dead ctx opt' k" "ok \<longrightarrow> \<not> packet_dead ctx opt k"
        using po x rp r' p False by (auto simp: packet_dead_def)
      ultimately show ?thesis using hm by blast
    qed
  qed
qed

interpretation crypto_guard: replay_guard "crypto_receive f" "crypto_inv ctx" "crypto_usable f" "packet_dead ctx"
proof
  fix opt and e :: "time_t \<times> byte list \<times> byte list \<times> buffer" and k :: "byte list"
  assume "crypto_inv ctx opt" "crypto_usable f e"
  note step = crypto_receive_step[OF this, of k]
  show "\<exists>ok opt'. crypto_receive f e opt k = Some (ok, opt') \<and> crypto_inv ctx opt' \<and> (ok \<longrightarrow> packet_dead ctx opt' k) \<and>
      (\<forall>k'. packet_dead ctx opt k' \<longrightarrow> packet_dead ctx opt' k')"
    using step by blast
  show "packet_dead ctx opt k \<Longrightarrow> \<exists>s'. crypto_receive f e opt k = Some (False, s')"
    using step by (metis (full_types))
qed

text \<open>
  C1: the data channel against an active attacker.  Whatever packets arrive, at whatever times and
  in whatever order, openvpn_decrypt returns on each of them (no assertion fails and no byte is
  written outside the buffers), every accepted packet carries the HMAC of its contents under the
  receiving key, and no packet is accepted twice.
\<close>

theorem data_channel_secure:
  assumes "crypto_inv ctx opt" and "\<forall>(e, k) \<in> set es. crypto_usable f e"
  shows "\<exists>ks opt'. run_receive (crypto_receive f) es opt = Some (ks, opt') \<and> distinct ks \<and>
    (\<forall>k \<in> set ks. open_hmac (ctx_hmac ctx) k \<noteq> None)"
proof -
  obtain ks opt' where run: "run_receive (crypto_receive f) es opt = Some (ks, opt')" "distinct ks"
    using crypto_guard.run_accepts_once[OF assms] by blast
  moreover have "\<forall>k \<in> set ks. open_hmac (ctx_hmac ctx) k \<noteq> None"
    by (rule crypto_guard.run_accepted[OF assms run(1)]) (use crypto_receive_step in force)
  ultimately show ?thesis by blast
qed

section \<open>What is encrypted can be decrypted\<close>

text \<open>The identifier of the next packet, as the receiver will see it.\<close>

definition pin_on_wire :: "bool \<Rightarrow> packet_id_net \<Rightarrow> packet_id_net" where
  "pin_on_wire long_form k = \<lparr>pin_id = pin_id k, pin_time = (if long_form then pin_time k mod 2 ^ 32 else 0)\<rparr>"

definition next_pin :: "time_t \<Rightarrow> crypto_options \<Rightarrow> (packet_id_net option \<times> crypto_options) option" where
  "next_pin now opt = (case co_packet_id opt of
     None \<Rightarrow> Some (None, opt)
   | Some p \<Rightarrow> do {
       (k, s) \<leftarrow> packet_id_alloc_outgoing now (pid_send p) (co_flag opt CO_PACKET_ID_LONG_FORM);
       Some (Some (pin_on_wire (co_flag opt CO_PACKET_ID_LONG_FORM) k), opt\<lparr>co_packet_id := Some (p\<lparr>pid_send := s\<rparr>)\<rparr>)
     })"

text \<open>
  A pair of CBC contexts, one to encrypt and one to decrypt with the same key: decryption inverts
  encryption, padding adds at most a block, and the final call gives exactly one block, which is
  as long as the IV.
\<close>

definition cbc_pair :: "evp_cipher_ctx \<Rightarrow> evp_cipher_ctx \<Rightarrow> bool" where
  "cbc_pair ce cd \<longleftrightarrow> EVP_CIPHER_CTX_mode ce = EVP_CIPH_CBC_MODE \<and> EVP_CIPHER_CTX_mode cd = EVP_CIPH_CBC_MODE \<and>
     EVP_CIPHER_CTX_iv_length cd = EVP_CIPHER_CTX_iv_length ce \<and>
     0 < EVP_CIPHER_CTX_iv_length ce \<and> EVP_CIPHER_CTX_iv_length ce \<le> 16 \<and>
     (\<forall>iv x. int (length iv) = EVP_CIPHER_CTX_iv_length ce \<longrightarrow> EVP_CipherInit ce iv \<and> EVP_CipherInit cd iv \<and>
       (\<exists>y z. EVP_CipherUpdate ce iv x = Some y \<and> EVP_CipherFinal ce iv x = Some z \<and>
         int (length z) = EVP_CIPHER_CTX_iv_length ce \<and>
         int (length (y @ z)) \<le> int (length x) + EVP_CIPHER_CTX_block_size ce \<and>
         (\<exists>u v. EVP_CipherUpdate cd iv (y @ z) = Some u \<and> EVP_CipherFinal cd iv (y @ z) = Some v \<and> u @ v = x)))"

definition keys_match :: "key_ctx \<Rightarrow> key_ctx \<Rightarrow> bool" where
  "keys_match ke kd \<longleftrightarrow> ctx_hmac ke = ctx_hmac kd \<and>
     rel_option cbc_pair (ctx_cipher ke) (ctx_cipher kd)"

definition hmac_room :: "key_ctx \<Rightarrow> int" where
  "hmac_room ctx = (case ctx_hmac ctx of None \<Rightarrow> 0 | Some h \<Rightarrow> HMAC_size h)"

definition pid_room :: "crypto_options \<Rightarrow> int" where
  "pid_room opt = (if co_packet_id opt = None then 0 else packet_id_size (co_flag opt CO_PACKET_ID_LONG_FORM))"

lemma open_pid_wire: "open_pid True lf (pid_wire k lf @ d) = Some (Some (pin_on_wire lf k), d)"
proof -
  have "take 4 (be32 w @ x) = be32 w" "drop 4 (be32 w @ x) = x" "drop 8 (be32 w @ be32 v @ x) = x" for w v x
    by simp_all
  then show ?thesis
    by (cases lf) (simp_all add: open_pid_def pid_wire_def packet_id_size_def pin_on_wire_def uint_word_of_int)
qed

lemma crypto_prepend_open:
  assumes "next_pin now opt = Some (pin, opt')" "pid_room opt \<le> int (length pre)"
  shows "\<exists>pre' c. crypto_prepend_packet_id now opt (mk_buf pre d post) = Some (mk_buf pre' c post, opt') \<and>
    open_pid (co_packet_id opt \<noteq> None) (co_flag opt CO_PACKET_ID_LONG_FORM) c = Some (pin, d) \<and>
    int (length c) = int (length d) + pid_room opt \<and> int (length pre') = int (length pre) - pid_room opt"
proof (cases "co_packet_id opt")
  case None
  then show ?thesis using assms by (auto simp: next_pin_def crypto_prepend_packet_id_def pid_room_def open_pid_def)
next
  case (Some p)
  let ?lf = "co_flag opt CO_PACKET_ID_LONG_FORM"
  obtain k s where ks: "packet_id_alloc_outgoing now (pid_send p) ?lf = Some (k, s)" "pin = Some (pin_on_wire ?lf k)"
    "opt' = opt\<lparr>co_packet_id := Some (p\<lparr>pid_send := s\<rparr>)\<rparr>"
    using assms Some by (auto simp: next_pin_def bind_eq_Some_conv)
  have room: "packet_id_size ?lf \<le> int (length pre)" using assms Some by (simp add: pid_room_def)
  then have "length (pid_wire k ?lf) \<le> length pre" using length_pid_wire[of k ?lf] by linarith
  then show ?thesis
    using ks Some packet_id_write_prepend_mk_buf[OF room, of k d post] open_pid_wire[of ?lf k d] length_pid_wire[of k ?lf]
    by - (rule exI[of _ "take (length pre - length (pid_wire k ?lf)) pre"], rule exI[of _ "pid_wire k ?lf @ d"],
        simp add: crypto_prepend_packet_id_def pid_room_def of_nat_diff)
qed

lemma buf_store_prepended:
  assumes "int (length bs) = n" "n \<le> int (length pre)"
  shows "buf_store (mk_buf (take (length pre - nat n) pre) (drop (length pre - nat n) pre @ c) post) (int (length pre) - n) bs
    = Some (mk_buf (take (length pre - nat n) pre) (bs @ c) post)"
proof -
  have "nat n = length bs" "length bs \<le> length pre" using assms by linarith+
  then show ?thesis
    using buf_write_prepend_mk_buf[of n bs pre c post] assms
    by (auto simp: buf_write_prepend_def src_bytes_def bind_eq_Some_conv)
qed

lemma encrypt_hmac_open:
  assumes ok: "hmac_ok (ctx_hmac ctx)" and room: "hmac_room ctx \<le> int (length pre)"
  shows "\<exists>pre' k. encrypt_hmac (ctx_hmac ctx) (mk_buf pre c post) = Some (mk_buf pre' k post) \<and>
    open_hmac (ctx_hmac ctx) k = Some c \<and> int (length k) = int (length c) + hmac_room ctx"
proof (cases "ctx_hmac ctx")
  case None
  then show ?thesis by (auto simp: encrypt_hmac_def open_hmac_def hmac_room_def)
next
  case (Some h)
  let ?m = "HMAC_digest h c" and ?n = "nat (HMAC_size h)"
  have h: "0 \<le> HMAC_size h" "int (length ?m) = HMAC_size h" using ok Some by (auto simp: hmac_ok_def)
  have n: "length ?m = ?n" "HMAC_size h \<le> int (length pre)" using h room Some by (auto simp: hmac_room_def)
  have ld: "buf_load (mk_buf pre c post) (int (length pre)) (int (length c)) = Some c"
    using buf_load_inside[of 0 "int (length c)" c pre post] by simp
  note st = buf_store_prepended[OF h(2) n(2), of c post]
  show ?thesis
    using Some h(1) n ld st
    by - (rule exI[of _ "take (length pre - ?n) pre"], rule exI[of _ "?m @ c"],
        simp add: encrypt_hmac_def open_hmac_def hmac_room_def)
qed

lemma encrypt_cipher_open:
  assumes pair: "cbc_pair ce cd" and work: "live_buf work"
    and room: "EVP_CIPHER_CTX_iv_length ce + hm \<le> frame_headroom f 0" "0 \<le> hm"
      "frame_headroom f 0 + int (length c) + EVP_CIPHER_CTX_block_size ce \<le> capacity work"
      "0 \<le> EVP_CIPHER_CTX_block_size ce"
    and iv: "length iv_buf = 16" "\<not> co_flag opt CO_USE_IV \<longrightarrow> iv_buf = replicate 16 0"
  shows "\<exists>pre' k post'. encrypt_cipher iv_buf ce opt f (mk_buf pre c post) work = Some (Some (mk_buf pre' k post')) \<and>
    (\<forall>present lf r. open_pid present lf c = Some r \<longrightarrow>
       open_cipher cd (co_flag opt CO_USE_IV) present lf k = Some r) \<and>
    hm \<le> int (length pre') \<and> k \<noteq> [] \<and>
    int (length k) \<le> int (length c) + EVP_CIPHER_CTX_iv_length ce + EVP_CIPHER_CTX_block_size ce"
proof -
  let ?n = "EVP_CIPHER_CTX_iv_length ce"
  define ivs where "ivs = take (nat ?n) iv_buf"
  have n: "0 < ?n" "?n \<le> 16" "EVP_CIPHER_CTX_iv_length cd = ?n" "int (length ivs) = ?n"
    and mode: "EVP_CIPHER_CTX_mode cd = EVP_CIPH_CBC_MODE"
    using pair iv by (auto simp: cbc_pair_def ivs_def)
  obtain y z u v where e: "EVP_CipherInit ce ivs" "EVP_CipherUpdate ce ivs c = Some y" "EVP_CipherFinal ce ivs c = Some z"
      "int (length z) = ?n" "int (length (y @ z)) \<le> int (length c) + EVP_CIPHER_CTX_block_size ce"
    and d: "EVP_CipherInit cd ivs" "EVP_CipherUpdate cd ivs (y @ z) = Some u" "EVP_CipherFinal cd ivs (y @ z) = Some v" "u @ v = c"
    using pair n(4) unfolding cbc_pair_def by metis
  have "0 \<le> frame_headroom f 0" "frame_headroom f 0 \<le> capacity work" using room n by linarith+
  then obtain wpre wpost where w: "buf_init work (frame_headroom f 0) = (True, mk_buf wpre [] wpost)"
    "int (length wpre) = frame_headroom f 0" "int (length wpre + length wpost) = capacity work"
    using buf_init_live[OF work] by blast
  have ly: "length y \<le> length wpost" and lz: "length z \<le> length (drop (length y) wpost)"
    using w room e(5) by auto
  have safe: "buf_safe (mk_buf wpre [] wpost) (int (length c) + EVP_CIPHER_CTX_block_size ce)"
    using w room by (simp add: buf_safe_def)
  have rd: "mem_read iv_buf 0 ?n = Some ivs" using n iv by (simp add: mem_read_def ivs_def)
  have ld: "buf_load (mk_buf pre c post) (int (length pre)) (int (length c)) = Some c"
    using buf_load_inside[of 0 "int (length c)" c pre post] by simp
  have sy: "buf_store (mk_buf wpre [] wpost) (int (length wpre)) y = Some (mk_buf wpre [] (y @ drop (length y) wpost))"
    using buf_store_out[OF ly, of wpre "[]"] by simp
  let ?post = "drop (length z) (drop (length y) wpost)"
  have sz: "buf_store (mk_buf wpre y (drop (length y) wpost)) (int (length wpre) + int (length y)) z
      = Some (mk_buf wpre y (z @ ?post))"
    using buf_store_out[OF lz] .
  have np: "?n \<le> int (length wpre)" "nat ?n \<le> length wpre" using w room by linarith+
  note si = buf_store_prepended[OF n(4), of wpre "y @ z" ?post]
  have enc: "encrypt_cipher iv_buf ce opt f (mk_buf pre c post) work =
      Some (Some (if co_flag opt CO_USE_IV then mk_buf (take (length wpre - nat ?n) wpre) (ivs @ y @ z) ?post
                  else mk_buf wpre (y @ z) ?post))"
    using w(1) rd e(1-3) e(4)[symmetric] safe ld sy sz si[OF np(1)] n np(1)
    by (simp add: encrypt_cipher_def mk_buf_grow_simps Let_def nat_le_iff del: drop_drop)
  have yz: "y @ z \<noteq> []" using e(4) n(1) by auto
  show ?thesis
  proof (cases "co_flag opt CO_USE_IV")
    case True
    have k: "packet_iv cd True (ivs @ y @ z) = ivs" "packet_body cd True (ivs @ y @ z) = y @ z"
      "\<not> int (length (ivs @ y @ z)) < EVP_CIPHER_CTX_iv_length cd"
      using n by (simp_all add: packet_iv_def packet_body_def Let_def)
    then show ?thesis
      using True enc d yz mode np w(2) room e(5) n
      by - (rule exI[of _ "take (length wpre - nat ?n) wpre"], rule exI[of _ "ivs @ y @ z"], rule exI[of _ ?post],
          auto simp: open_cipher_def Let_def of_nat_diff nat_diff_distrib)
  next
    case False
    have "ivs = replicate (nat ?n) 0" using iv False n by (simp add: ivs_def min_def)
    then have k: "packet_iv cd False (y @ z) = ivs" "packet_body cd False (y @ z) = y @ z"
      using n by (simp_all add: packet_iv_def packet_body_def Let_def)
    then show ?thesis
      using False enc d yz mode w(2) room e(5) n
      by - (rule exI[of _ wpre], rule exI[of _ "y @ z"], rule exI[of _ ?post],
          auto simp: open_cipher_def Let_def)
  qed
qed

text \<open>The room that the buffers of the sender must have for a packet with payload \<open>d\<close>.\<close>

definition encrypt_room :: "frame \<Rightarrow> crypto_options \<Rightarrow> key_ctx \<Rightarrow> byte list \<Rightarrow> byte list \<Rightarrow> byte list \<Rightarrow> buffer \<Rightarrow> bool" where
  "encrypt_room f opt ctx rand pre d work \<longleftrightarrow> (case ctx_cipher ctx of
     None \<Rightarrow> pid_room opt + hmac_room ctx \<le> int (length pre)
   | Some c \<Rightarrow> live_buf work \<and> pid_room opt \<le> int (length pre) \<and>
       EVP_CIPHER_CTX_iv_length c \<le> int (length rand) \<and> 0 \<le> EVP_CIPHER_CTX_block_size c \<and>
       EVP_CIPHER_CTX_iv_length c + hmac_room ctx \<le> frame_headroom f 0 \<and>
       frame_headroom f 0 + int (length d) + pid_room opt + EVP_CIPHER_CTX_block_size c \<le> capacity work)"

lemma encrypt_iv_cbc:
  assumes pair: "cbc_pair ce cd" and pin: "next_pin now opt = Some (pin, opt')"
    and room: "pid_room opt \<le> int (length pre)" "EVP_CIPHER_CTX_iv_length ce \<le> int (length rand)"
  shows "\<exists>iv_buf pre' c. encrypt_iv now rand ce opt (mk_buf pre d post) = Some (iv_buf, mk_buf pre' c post, opt') \<and>
    length iv_buf = 16 \<and> (\<not> co_flag opt CO_USE_IV \<longrightarrow> iv_buf = replicate 16 0) \<and>
    open_pid (co_packet_id opt \<noteq> None) (co_flag opt CO_PACKET_ID_LONG_FORM) c = Some (pin, d) \<and>
    int (length c) = int (length d) + pid_room opt"
proof -
  let ?n = "EVP_CIPHER_CTX_iv_length ce"
  have n: "EVP_CIPHER_CTX_mode ce = EVP_CIPH_CBC_MODE" "0 < ?n" "?n \<le> 16" using pair by (auto simp: cbc_pair_def)
  obtain pre' c where c: "crypto_prepend_packet_id now opt (mk_buf pre d post) = Some (mk_buf pre' c post, opt')"
    "open_pid (co_packet_id opt \<noteq> None) (co_flag opt CO_PACKET_ID_LONG_FORM) c = Some (pin, d)"
    "int (length c) = int (length d) + pid_room opt"
    using crypto_prepend_open[OF pin room(1)] by metis
  define ivb where "ivb = (if co_flag opt CO_USE_IV then take (nat ?n) rand @ replicate (16 - nat ?n) 0 else replicate 16 0)"
  have "(if co_flag opt CO_USE_IV then do { r \<leftarrow> src_bytes rand ?n; mem_write (replicate 16 0) 0 r }
      else Some (replicate 16 0)) = Some ivb"
    using n room(2) by (simp add: src_bytes_def mem_write_def ivb_def nat_le_iff)
  then have "encrypt_iv now rand ce opt (mk_buf pre d post) = Some (ivb, mk_buf pre' c post, opt')"
    using n(1) c(1) by (simp add: encrypt_iv_def Let_def)
  moreover have "length ivb = 16" "\<not> co_flag opt CO_USE_IV \<longrightarrow> ivb = replicate 16 0"
    using n room(2) by (auto simp: ivb_def)
  ultimately show ?thesis using c by blast
qed

lemma next_pin_keeps:
  assumes "next_pin now opt = Some (pin, opt')"
  shows "co_flags opt' = co_flags opt" "co_key_ctx_bi opt' = co_key_ctx_bi opt"
    "co_flag opt' x = co_flag opt x" "co_packet_id opt' = None \<longleftrightarrow> co_packet_id opt = None"
  using assms by (auto simp: next_pin_def co_flag_def bind_eq_Some_conv split: option.splits)

text \<open>What the receiver takes for the identifier: without a cipher it may be told to ignore it.\<close>

definition seen_pin :: "key_ctx \<Rightarrow> crypto_options \<Rightarrow> packet_id_net option \<Rightarrow> packet_id_net option" where
  "seen_pin ctx opt pin = (if ctx_cipher ctx = None \<and> co_flag opt CO_IGNORE_PACKET_ID then None else pin)"

lemma openvpn_encrypt_open:
  assumes kcb: "map_option kc_encrypt (co_key_ctx_bi opt) = Some ke" and m: "keys_match ke kd" and hm: "hmac_ok (ctx_hmac ke)"
    and pin: "next_pin now opt = Some (pin, opt')" and d: "d \<noteq> []"
    and room: "encrypt_room f opt ke rand pre d work"
  shows "\<exists>pre' k post'. openvpn_encrypt now rand (mk_buf pre d post) work opt f = Some (mk_buf pre' k post', opt') \<and>
    packet_open kd (co_packet_id opt \<noteq> None) (co_flags opt) k = Some (seen_pin kd opt pin, d) \<and> k \<noteq> [] \<and>
    int (length k) \<le> int (length d) + pid_room opt + hmac_room ke +
      (case ctx_cipher ke of None \<Rightarrow> 0 | Some c \<Rightarrow> EVP_CIPHER_CTX_iv_length c + EVP_CIPHER_CTX_block_size c)"
proof -
  have hmk: "ctx_hmac kd = ctx_hmac ke" using m by (simp add: keys_match_def)
  have hm0: "0 \<le> hmac_room ke" "0 \<le> pid_room opt"
    using hm by (auto simp: hmac_room_def hmac_ok_def pid_room_def packet_id_size_def split: option.split)
  obtain kb where kb: "co_key_ctx_bi opt = Some kb" "kc_encrypt kb = ke" using kcb by auto
  note D = openvpn_encrypt_def kb packet_open_def hmk seen_pin_def
  show ?thesis
  proof (cases "ctx_cipher ke")
    case None
    then have kdn: "ctx_cipher kd = None" using m by (simp add: keys_match_def)
    obtain pre1 c where c: "crypto_prepend_packet_id now opt (mk_buf pre d post) = Some (mk_buf pre1 c post, opt')"
      "open_pid (co_packet_id opt \<noteq> None) (co_flag opt CO_PACKET_ID_LONG_FORM) c = Some (pin, d)"
      "int (length c) = int (length d) + pid_room opt" "int (length pre1) = int (length pre) - pid_room opt"
      using crypto_prepend_open[OF pin, of pre d post] room None hm0 by (auto simp: encrypt_room_def)
    obtain pre2 k where k: "encrypt_hmac (ctx_hmac ke) (mk_buf pre1 c post) = Some (mk_buf pre2 k post)"
      "open_hmac (ctx_hmac ke) k = Some c" "int (length k) = int (length c) + hmac_room ke"
      using encrypt_hmac_open[OF hm, of pre1 c post] room None c(4) by (auto simp: encrypt_room_def)
    have "0 < int (length d)" using d by simp
    then have "0 < int (length k)" using k(3) c(3) hm0 by linarith
    then have "k \<noteq> []" by auto
    then show ?thesis
      using c k None kdn d
      by - (rule exI[of _ pre2], rule exI[of _ k], rule exI[of _ post], simp add: D co_flag_def)
  next
    case (Some ce)
    then obtain cd where cd: "ctx_cipher kd = Some cd" "cbc_pair ce cd"
      using m by (auto simp: keys_match_def option_rel_Some1)
    have rm: "live_buf work" "pid_room opt \<le> int (length pre)" "EVP_CIPHER_CTX_iv_length ce \<le> int (length rand)"
      "0 \<le> EVP_CIPHER_CTX_block_size ce" "EVP_CIPHER_CTX_iv_length ce + hmac_room ke \<le> frame_headroom f 0"
      "frame_headroom f 0 + int (length d) + pid_room opt + EVP_CIPHER_CTX_block_size ce \<le> capacity work"
      using room Some by (auto simp: encrypt_room_def)
    obtain iv_buf pre1 c where c: "encrypt_iv now rand ce opt (mk_buf pre d post) = Some (iv_buf, mk_buf pre1 c post, opt')"
      "length iv_buf = 16" "\<not> co_flag opt CO_USE_IV \<longrightarrow> iv_buf = replicate 16 0"
      "open_pid (co_packet_id opt \<noteq> None) (co_flag opt CO_PACKET_ID_LONG_FORM) c = Some (pin, d)"
      "int (length c) = int (length d) + pid_room opt"
      using encrypt_iv_cbc[OF cd(2) pin rm(2,3)] by metis
    have fits: "frame_headroom f 0 + int (length c) + EVP_CIPHER_CTX_block_size ce \<le> capacity work"
      using rm c by linarith
    obtain pre2 k1 post2 where k1: "encrypt_cipher iv_buf ce opt' f (mk_buf pre1 c post) work = Some (Some (mk_buf pre2 k1 post2))"
      "\<forall>present lf r. open_pid present lf c = Some r \<longrightarrow> open_cipher cd (co_flag opt' CO_USE_IV) present lf k1 = Some r"
      "hmac_room ke \<le> int (length pre2)" "k1 \<noteq> []"
      "int (length k1) \<le> int (length c) + EVP_CIPHER_CTX_iv_length ce + EVP_CIPHER_CTX_block_size ce"
      using encrypt_cipher_open[OF cd(2) rm(1,5) hm0(1) fits rm(4) c(2), of opt' pre1 post] c(3) next_pin_keeps(3)[OF pin] by auto
    obtain pre3 k where k: "encrypt_hmac (ctx_hmac ke) (mk_buf pre2 k1 post2) = Some (mk_buf pre3 k post2)"
      "open_hmac (ctx_hmac ke) k = Some k1" "int (length k) = int (length k1) + hmac_room ke"
      using encrypt_hmac_open[OF hm k1(3)] by metis
    have "k \<noteq> []" using k(2) k1(4) by (auto simp: open_hmac_def Let_def split: option.splits if_splits)
    then show ?thesis
      using c(1,4,5) k k1 cd Some d next_pin_keeps(3)[OF pin]
      by - (rule exI[of _ pre3], rule exI[of _ k], rule exI[of _ post2], simp add: D co_flag_def)
  qed
qed

text \<open>
  A stream of payloads from one peer to the other, without loss or reordering: each is encrypted
  by the sender (with the random bytes and the buffers of the event) and decrypted by the
  receiver, which may drop it.
\<close>

record crypto_event =
  ev_now :: time_t
  ev_rand :: "byte list"
  ev_pre :: "byte list"
  ev_payload :: "byte list"
  ev_post :: "byte list"
  ev_work :: buffer
  ev_now' :: time_t
  ev_work' :: buffer

fun crypto_stream ::
  "frame \<Rightarrow> crypto_event list \<Rightarrow> crypto_options \<Rightarrow> crypto_options \<Rightarrow> byte list list option" where
  "crypto_stream f [] so ro = Some []"
| "crypto_stream f (e # es) so ro = do {
     (b, so) \<leftarrow> openvpn_encrypt (ev_now e) (ev_rand e) (mk_buf (ev_pre e) (ev_payload e) (ev_post e)) (ev_work e) so f;
     (ok, b, ro) \<leftarrow> openvpn_decrypt (ev_now' e) b (ev_work' e) ro f;
     ds \<leftarrow> crypto_stream f es so ro;
     Some (if ok then content b # ds else ds)
   }"

text \<open>The two sides agree on the keys and the flags, and the receiver has seen all that was sent.\<close>

definition pid_sync :: "bool \<Rightarrow> packet_id \<Rightarrow> packet_id \<Rightarrow> bool" where
  "pid_sync lf sp rp \<longleftrightarrow> rec_inv (pid_rec rp) \<and> send_id (pid_send sp) = rec_id (pid_rec rp) \<and>
     (if send_time (pid_send sp) = 0 then rec_id (pid_rec rp) = 0 \<and> rec_time (pid_rec rp) = 0
      else 0 < send_time (pid_send sp) \<and> send_time (pid_send sp) < 2 ^ 32 \<and>
           rec_time (pid_rec rp) = (if lf then send_time (pid_send sp) else 0))"

definition crypto_sync :: "key_ctx \<Rightarrow> key_ctx \<Rightarrow> crypto_options \<Rightarrow> crypto_options \<Rightarrow> bool" where
  "crypto_sync ke kd so ro \<longleftrightarrow> map_option kc_encrypt (co_key_ctx_bi so) = Some ke \<and> decrypt_ok kd ro \<and>
     keys_match ke kd \<and> co_flags so = co_flags ro \<and> (ctx_cipher kd = None \<longrightarrow> \<not> co_flag ro CO_IGNORE_PACKET_ID) \<and>
     rel_option (pid_sync (co_flag so CO_PACKET_ID_LONG_FORM)) (co_packet_id so) (co_packet_id ro)"

definition event_ok :: "frame \<Rightarrow> key_ctx \<Rightarrow> crypto_options \<Rightarrow> crypto_event \<Rightarrow> bool" where
  "event_ok f ke so e \<longleftrightarrow> 0 < ev_now e \<and> ev_now e < 2 ^ 32 \<and> 1 < ev_now' e \<and> ev_payload e \<noteq> [] \<and>
     encrypt_room f so ke (ev_rand e) (ev_pre e) (ev_payload e) (ev_work e) \<and> work_ok f (ev_work' e) \<and>
     frame_headroom f FRAME_HEADROOM_MARKER_DECRYPT + int (length (ev_payload e)) + pid_room so + hmac_room ke +
      (case ctx_cipher ke of None \<Rightarrow> 0 | Some c \<Rightarrow> EVP_CIPHER_CTX_iv_length c + EVP_CIPHER_CTX_block_size c)
       \<le> capacity (ev_work' e)"

lemma next_pin_received:
  assumes sync: "pid_sync lf sp rp" and so: "co_packet_id so = Some sp" "lf = co_flag so CO_PACKET_ID_LONG_FORM"
    and now: "0 < now" "now < 2 ^ 32" "1 < now'" and n: "unat (send_id (pid_send sp)) + 1 < 2 ^ 32"
  shows "\<exists>s k r. next_pin now so = Some (Some k, so\<lparr>co_packet_id := Some (sp\<lparr>pid_send := s\<rparr>)\<rparr>) \<and>
    packet_id_receive now' (pid_rec rp) k = Some (True, r) \<and> send_id s = send_id (pid_send sp) + 1 \<and>
    pid_sync lf (sp\<lparr>pid_send := s\<rparr>) (rp\<lparr>pid_rec := r\<rparr>)"
proof -
  let ?s = "pid_send sp" and ?t = "if send_time (pid_send sp) = 0 then now else send_time (pid_send sp)"
  define s where "s = \<lparr>send_id = send_id ?s + 1, send_time = ?t\<rparr>"
  have nz: "send_id ?s + 1 \<noteq> 0" using unat_suc[OF n] by auto
  have alloc: "packet_id_alloc_outgoing now ?s lf = Some (\<lparr>pin_id = send_id ?s + 1, pin_time = ?t\<rparr>, s)"
    using nz by (auto simp: packet_id_alloc_outgoing_def s_def Let_def)
  have t: "0 < ?t" "?t < 2 ^ 32" using sync now by (auto simp: pid_sync_def split: if_splits)
  define t' where "t' = (if lf then ?t else 0)"
  have wire: "pin_on_wire lf \<lparr>pin_id = send_id ?s + 1, pin_time = ?t\<rparr> = \<lparr>pin_id = rec_id (pid_rec rp) + 1, pin_time = t'\<rparr>"
    using t sync by (auto simp: pin_on_wire_def t'_def pid_sync_def)
  have "rec_time (pid_rec rp) = t' \<or> rec_time (pid_rec rp) < t' \<and> rec_id (pid_rec rp) = 0"
    using sync t by (auto simp: pid_sync_def t'_def split: if_splits)
  moreover have "rec_inv (pid_rec rp)" "unat (rec_id (pid_rec rp)) + 1 < 2 ^ 32"
    using sync n by (auto simp: pid_sync_def)
  ultimately obtain r where r: "packet_id_receive now' (pid_rec rp) \<lparr>pin_id = rec_id (pid_rec rp) + 1, pin_time = t'\<rparr> = Some (True, r)"
    "rec_inv r" "rec_id r = rec_id (pid_rec rp) + 1" "rec_time r = t'"
    using receive_next now(3) by blast
  have "pid_sync lf (sp\<lparr>pid_send := s\<rparr>) (rp\<lparr>pid_rec := r\<rparr>)"
    using r t sync by (auto simp: pid_sync_def s_def t'_def)
  then show ?thesis
    using alloc wire r so by (auto simp: next_pin_def s_def)
qed

lemma decrypt_replay_accept:
  assumes "co_packet_id opt = Some p" "packet_id_receive now (pid_rec p) pin = Some (True, r)"
  shows "\<exists>opt'. decrypt_replay now (Some pin) opt = Some (True, opt') \<and> co_packet_id opt' = Some (p\<lparr>pid_rec := r\<rparr>) \<and>
    co_key_ctx_bi opt' = co_key_ctx_bi opt \<and> co_flags opt' = co_flags opt"
  using assms by (simp add: decrypt_replay_def Let_def)

definition ids_left :: "crypto_options \<Rightarrow> nat \<Rightarrow> bool" where
  "ids_left so n \<longleftrightarrow> (\<forall>sp. co_packet_id so = Some sp \<longrightarrow> unat (send_id (pid_send sp)) + n < 2 ^ 32)"

lemma receiver_accepts:
  assumes sync: "crypto_sync ke kd so ro"
    and now: "0 < now" "now < 2 ^ 32" "1 < now'" and left: "ids_left so (Suc n)"
  shows "\<exists>pin so' ro'. next_pin now so = Some (pin, so') \<and> decrypt_replay now' (seen_pin kd so pin) ro = Some (True, ro') \<and>
    crypto_sync ke kd so' ro' \<and> ids_left so' n"
proof (cases "co_packet_id so")
  case None
  then show ?thesis using sync by (auto simp: next_pin_def seen_pin_def decrypt_replay_def ids_left_def)
next
  case (Some sp)
  let ?lf = "co_flag so CO_PACKET_ID_LONG_FORM"
  obtain rp where rp: "co_packet_id ro = Some rp" "pid_sync ?lf sp rp"
    using sync Some by (auto simp: crypto_sync_def option_rel_Some1)
  have seen: "seen_pin kd so pin = pin" for pin
    using sync by (auto simp: crypto_sync_def seen_pin_def co_flag_def)
  have n: "unat (send_id (pid_send sp)) + 1 < 2 ^ 32" using left Some by (auto simp: ids_left_def)
  obtain s k r where s: "next_pin now so = Some (Some k, so\<lparr>co_packet_id := Some (sp\<lparr>pid_send := s\<rparr>)\<rparr>)"
    "packet_id_receive now' (pid_rec rp) k = Some (True, r)" "send_id s = send_id (pid_send sp) + 1"
    "pid_sync ?lf (sp\<lparr>pid_send := s\<rparr>) (rp\<lparr>pid_rec := r\<rparr>)"
    using next_pin_received[OF rp(2) Some refl now n] by blast
  obtain ro' where ro': "decrypt_replay now' (Some k) ro = Some (True, ro')" "co_packet_id ro' = Some (rp\<lparr>pid_rec := r\<rparr>)"
    "co_key_ctx_bi ro' = co_key_ctx_bi ro" "co_flags ro' = co_flags ro"
    using decrypt_replay_accept[OF rp(1) s(2)] by blast
  have "crypto_sync ke kd (so\<lparr>co_packet_id := Some (sp\<lparr>pid_send := s\<rparr>)\<rparr>) ro'"
    using sync ro' s(4) Some rp(1) by (simp add: crypto_sync_def decrypt_ok_def co_flag_def)
  moreover have "ids_left (so\<lparr>co_packet_id := Some (sp\<lparr>pid_send := s\<rparr>)\<rparr>) n"
    using left Some s(3) unat_suc[OF n] by (simp add: ids_left_def)
  ultimately show ?thesis using s(1) ro'(1) seen by metis
qed

lemma crypto_stream_step:
  assumes sync: "crypto_sync ke kd so ro" and e: "event_ok f ke so e" and left: "ids_left so (Suc n)"
  shows "\<exists>b so' w ro'. openvpn_encrypt (ev_now e) (ev_rand e) (mk_buf (ev_pre e) (ev_payload e) (ev_post e)) (ev_work e) so f
      = Some (b, so') \<and> openvpn_decrypt (ev_now' e) b (ev_work' e) ro f = Some (True, w, ro') \<and>
    content w = ev_payload e \<and> crypto_sync ke kd so' ro' \<and> ids_left so' n \<and> pid_room so' = pid_room so"
proof -
  have ke: "map_option kc_encrypt (co_key_ctx_bi so) = Some ke" "keys_match ke kd" and dok: "decrypt_ok kd ro"
    and hm: "hmac_ok (ctx_hmac ke)" and fl: "co_flags so = co_flags ro"
    and pres: "co_packet_id so \<noteq> None \<longleftrightarrow> co_packet_id ro \<noteq> None"
    using sync by (auto simp: crypto_sync_def decrypt_ok_def keys_match_def option_rel_Some1 option_rel_Some2)
  have now: "0 < ev_now e" "ev_now e < 2 ^ 32" "1 < ev_now' e" using e by (auto simp: event_ok_def)
  obtain pin so' ro' where p: "next_pin (ev_now e) so = Some (pin, so')"
    "decrypt_replay (ev_now' e) (seen_pin kd so pin) ro = Some (True, ro')" "crypto_sync ke kd so' ro'" "ids_left so' n"
    using receiver_accepts[OF sync now left] by blast
  have room: "ev_payload e \<noteq> []" "encrypt_room f so ke (ev_rand e) (ev_pre e) (ev_payload e) (ev_work e)"
    using e by (auto simp: event_ok_def)
  obtain pre k post where k: "openvpn_encrypt (ev_now e) (ev_rand e) (mk_buf (ev_pre e) (ev_payload e) (ev_post e)) (ev_work e) so f
      = Some (mk_buf pre k post, so')"
    "packet_open kd (co_packet_id so \<noteq> None) (co_flags so) k = Some (seen_pin kd so pin, ev_payload e)" "k \<noteq> []"
    "int (length k) \<le> int (length (ev_payload e)) + pid_room so + hmac_room ke +
      (case ctx_cipher ke of None \<Rightarrow> 0 | Some c \<Rightarrow> EVP_CIPHER_CTX_iv_length c + EVP_CIPHER_CTX_block_size c)"
    using openvpn_encrypt_open[OF ke(1,2) hm p(1) room] by blast
  have fits: "frame_headroom f 1 + int (length k) \<le> capacity (ev_work' e)" and wk: "work_ok f (ev_work' e)"
    using e k(4) by (auto simp: event_ok_def)
  have "opt_open kd ro k = Some (seen_pin kd so pin, ev_payload e)" using k(2) fl pres by simp
  from openvpn_decrypt_accepts[OF dok wk k(3) fits this p(2)]
  obtain w where "openvpn_decrypt (ev_now' e) (mk_buf pre k post) (ev_work' e) ro f = Some (True, w, ro')"
    "content w = ev_payload e" by blast
  moreover have "pid_room so' = pid_room so" using next_pin_keeps[OF p(1)] by (auto simp: pid_room_def)
  ultimately show ?thesis using k(1) p by blast
qed

text \<open>
  C2: the tunnel delivers.  When two peers share the keys and the flags and nothing is lost, every
  payload that is encrypted is decrypted to itself, in order, with the HMAC verified and the
  replay check passed, in every combination of cipher (CBC), HMAC, IV and packet identifiers, as
  long as the identifiers do not wrap and the buffers have room.
\<close>

theorem data_channel_delivers:
  assumes "crypto_sync ke kd so ro" "\<forall>e \<in> set es. event_ok f ke so e" "ids_left so (length es)"
  shows "crypto_stream f es so ro = Some (map ev_payload es)"
  using assms
proof (induction es arbitrary: so ro)
  case (Cons e es)
  have e: "event_ok f ke so e" "ids_left so (Suc (length es))" using Cons.prems by auto
  obtain b so' w ro' where s: "openvpn_encrypt (ev_now e) (ev_rand e) (mk_buf (ev_pre e) (ev_payload e) (ev_post e)) (ev_work e) so f
      = Some (b, so')" "openvpn_decrypt (ev_now' e) b (ev_work' e) ro f = Some (True, w, ro')"
    "content w = ev_payload e" "crypto_sync ke kd so' ro'" "ids_left so' (length es)" "pid_room so' = pid_room so"
    using crypto_stream_step[OF Cons.prems(1) e] by blast
  have "event_ok f ke so' = event_ok f ke so"
    unfolding event_ok_def[abs_def] encrypt_room_def s(6) by simp
  then have "\<forall>e \<in> set es. event_ok f ke so' e" using Cons.prems(2) by simp
  then show ?case using Cons.IH[OF s(4) _ s(5)] s by simp
qed simp

section \<open>Instances\<close>

text \<open>
  Contexts that satisfy what is asked of OpenSSL: a one-byte checksum as digest, and a cipher that
  adds a constant and pads with one block.
\<close>

definition sum_hmac :: hmac_ctx where
  "sum_hmac = \<lparr>HMAC_size = 1, HMAC_digest = (\<lambda>x. [sum_list x + 7])\<rparr>"

definition pad_encrypt :: evp_cipher_ctx where
  "pad_encrypt = \<lparr>EVP_CIPHER_CTX_mode = EVP_CIPH_CBC_MODE, EVP_CIPHER_CTX_iv_length = 4, EVP_CIPHER_CTX_block_size = 4,
     EVP_CipherInit = (\<lambda>iv. True), EVP_CipherUpdate = (\<lambda>iv x. Some (map (\<lambda>c. c + 90) x)),
     EVP_CipherFinal = (\<lambda>iv x. Some [4, 4, 4, 4])\<rparr>"

definition pad_decrypt :: evp_cipher_ctx where
  "pad_decrypt = pad_encrypt\<lparr>
     EVP_CipherUpdate := (\<lambda>iv x. Some (map (\<lambda>c. c - 90) (take (length x - 4) x))),
     EVP_CipherFinal := (\<lambda>iv x. if drop (length x - 4) x = [4, 4, 4, 4] then Some [] else None)\<rparr>"

definition cfb_encrypt :: evp_cipher_ctx where
  "cfb_encrypt = \<lparr>EVP_CIPHER_CTX_mode = EVP_CIPH_CFB_MODE, EVP_CIPHER_CTX_iv_length = 8, EVP_CIPHER_CTX_block_size = 1,
     EVP_CipherInit = (\<lambda>iv. True), EVP_CipherUpdate = (\<lambda>iv x. Some (map (\<lambda>c. c + 90) x)),
     EVP_CipherFinal = (\<lambda>iv x. Some [])\<rparr>"

definition demo_keys :: key_ctx_bi where
  "demo_keys = \<lparr>kc_encrypt = \<lparr>ctx_cipher = Some pad_encrypt, ctx_hmac = Some sum_hmac\<rparr>,
     kc_decrypt = \<lparr>ctx_cipher = Some pad_decrypt, ctx_hmac = Some sum_hmac\<rparr>\<rparr>"

definition demo_crypto :: crypto_options where
  "demo_crypto = \<lparr>co_key_ctx_bi = Some demo_keys, co_packet_id = packet_id_init 64 15, co_pid_persist = None, co_flags = 3\<rparr>"

definition demo_frame :: frame where
  "demo_frame = \<lparr>link_mtu = 1542, link_mtu_dynamic = 1542, extra_frame = 42, extra_buffer = 4, extra_tun = 0,
     extra_link = 0, align_flags = 0, align_adjust = 0\<rparr>"

lemma pad_pair: "cbc_pair pad_encrypt pad_decrypt"
  by (auto simp: cbc_pair_def pad_encrypt_def pad_decrypt_def comp_def)

lemma pad_fits: "decrypt_fits pad_decrypt"
  by (auto simp: decrypt_fits_def pad_encrypt_def pad_decrypt_def)

lemma sum_hmac_ok: "hmac_ok (Some sum_hmac)"
  by (simp add: hmac_ok_def sum_hmac_def)

lemma demo_pid: "\<exists>p. packet_id_init 64 15 = Some p \<and> rec_inv (pid_rec p) \<and> send_id (pid_send p) = 0 \<and>
    send_time (pid_send p) = 0 \<and> rec_id (pid_rec p) = 0 \<and> rec_time (pid_rec p) = 0"
proof -
  obtain p where p: "packet_id_init 64 15 = Some p" by (simp add: packet_id_init_def)
  then show ?thesis using rec_inv_init[OF p] by (auto simp: packet_id_init_def packet_id_clear_def)
qed

lemma demo_decrypt_ok: "decrypt_ok (kc_decrypt demo_keys) demo_crypto"
  using pad_fits sum_hmac_ok
  by (auto simp: decrypt_ok_def demo_crypto_def demo_keys_def pad_decrypt_def pad_encrypt_def)

lemma demo_headroom: "frame_headroom demo_frame 0 = 48" "frame_headroom demo_frame 1 = 48"
  by (simp_all add: frame_headroom_def demo_frame_def frame_size_defs and_3)

text \<open>A forged packet, a genuine one, and the genuine one again.\<close>

theorem data_channel_secure_witness:
  "\<exists>ks opt'. run_receive (crypto_receive demo_frame)
      [((100, [], [], mk_buf [] [] (replicate 100 0)), [1, 2, 3, 4, 5]),
       ((101, [], [], mk_buf [] [] (replicate 100 0)), HMAC_digest sum_hmac [9] @ [9]),
       ((102, [], [], mk_buf [] [] (replicate 100 0)), HMAC_digest sum_hmac [9] @ [9])] demo_crypto = Some (ks, opt') \<and>
    distinct ks \<and> (\<forall>k \<in> set ks. open_hmac (ctx_hmac (kc_decrypt demo_keys)) k \<noteq> None)"
proof (rule data_channel_secure)
  show "crypto_inv (kc_decrypt demo_keys) demo_crypto"
    using demo_decrypt_ok demo_pid by (auto simp: crypto_inv_def demo_crypto_def demo_keys_def)
qed (simp add: crypto_usable_def work_ok_def demo_headroom)

theorem data_channel_delivers_witness:
  "crypto_stream demo_frame
     [\<lparr>ev_now = 50, ev_rand = [1, 2, 3, 4], ev_pre = replicate 12 0, ev_payload = [10, 20, 30], ev_post = [],
       ev_work = mk_buf [] [] (replicate 100 0), ev_now' = 50, ev_work' = mk_buf [] [] (replicate 100 0)\<rparr>,
      \<lparr>ev_now = 51, ev_rand = [5, 6, 7, 8], ev_pre = replicate 12 0, ev_payload = [40], ev_post = [],
       ev_work = mk_buf [] [] (replicate 100 0), ev_now' = 51, ev_work' = mk_buf [] [] (replicate 100 0)\<rparr>]
     demo_crypto demo_crypto = Some [[10, 20, 30], [40]]"
proof -
  obtain p where p: "packet_id_init 64 15 = Some p" "rec_inv (pid_rec p)" "send_id (pid_send p) = 0"
    "send_time (pid_send p) = 0" "rec_id (pid_rec p) = 0" "rec_time (pid_rec p) = 0" using demo_pid by blast
  have sync: "crypto_sync (kc_encrypt demo_keys) (kc_decrypt demo_keys) demo_crypto demo_crypto"
    using demo_decrypt_ok pad_pair p
    by (simp add: crypto_sync_def keys_match_def pid_sync_def demo_crypto_def demo_keys_def)
  have left: "ids_left demo_crypto (Suc (Suc 0))" using p by (simp add: ids_left_def demo_crypto_def)
  have room: "pid_room demo_crypto = 8" "hmac_room (kc_encrypt demo_keys) = 1"
    using p by (simp_all add: pid_room_def demo_crypto_def packet_id_size_def co_flag_def hmac_room_def demo_keys_def sum_hmac_def)
  have ci: "ctx_cipher (kc_encrypt demo_keys) = Some pad_encrypt" by (simp add: demo_keys_def)
  have sz: "EVP_CIPHER_CTX_iv_length pad_encrypt = 4" "EVP_CIPHER_CTX_block_size pad_encrypt = 4"
    by (simp_all add: pad_encrypt_def)
  note D = event_ok_def encrypt_room_def work_ok_def room ci sz demo_headroom
  show ?thesis
    by (subst data_channel_delivers[OF sync _ ]) (simp_all add: D left)
qed

section \<open>CFB and OFB\<close>

text \<open>
  C38: encryption in CFB and OFB mode always ends the program.  In these modes a cipher works on
  bytes and EVP_CipherFinal has nothing left to give, but openvpn_encrypt asserts in every mode
  that the final call gave as many bytes as the IV has.
\<close>

theorem stream_mode_asserts:
  assumes "co_key_ctx_bi opt = Some kcb" "ctx_cipher (kc_encrypt kcb) = Some c"
    and "EVP_CIPHER_CTX_mode c \<in> {EVP_CIPH_CFB_MODE, EVP_CIPH_OFB_MODE}" "0 < EVP_CIPHER_CTX_iv_length c"
    and "\<forall>iv x. EVP_CipherFinal c iv x = Some []"
    and "len b > 0" "buf_safe (snd (buf_init work (frame_headroom f 0))) (len b + EVP_CIPHER_CTX_block_size c)"
  shows "openvpn_encrypt now rand b work opt f = None"
proof -
  have "encrypt_cipher iv_buf c opt' f b work = None" for iv_buf opt'
    using assms(4,5,7) by (auto simp: encrypt_cipher_def Let_def bind_eq_None_conv split: prod.splits)
  moreover have "b' = b" if "encrypt_iv now rand c opt b = Some (iv_buf, b', opt')" for iv_buf b' opt'
    using that assms(3) by (auto simp: encrypt_iv_def Let_def bind_eq_Some_conv split: if_splits)
  ultimately show ?thesis
    using assms(1,2,6) by (auto simp: openvpn_encrypt_def bind_eq_None_conv split: option.splits)
qed

theorem stream_mode_asserts_witness:
  "openvpn_encrypt 100 [] (mk_buf [] [1, 2, 3] []) (mk_buf [] [] (replicate 100 0))
     (demo_crypto\<lparr>co_key_ctx_bi := Some \<lparr>kc_encrypt = \<lparr>ctx_cipher = Some cfb_encrypt, ctx_hmac = None\<rparr>,
        kc_decrypt = \<lparr>ctx_cipher = None, ctx_hmac = None\<rparr>\<rparr>\<rparr>) demo_frame = None"
  by (rule stream_mode_asserts[where c = cfb_encrypt and
        kcb = "\<lparr>kc_encrypt = \<lparr>ctx_cipher = Some cfb_encrypt, ctx_hmac = None\<rparr>,
          kc_decrypt = \<lparr>ctx_cipher = None, ctx_hmac = None\<rparr>\<rparr>"])
     (simp_all add: demo_headroom cfb_encrypt_def buf_init_mk_buf buf_safe_def)

end
