(* ===== verification/Keys.thy ===== *)
theory Keys
  imports Crypto
begin

text \<open>
  Keys of \<^verbatim>\<open>crypto.c\<close>: the key structures, the DES parity and weak key checks, generation of random
  keys, the directions in which two keys are used, and the exchange of a key in a control message
  (write_key and read_key).  The DES routines of the cryptographic library and its random numbers are
  parameters.
\<close>

section \<open>Data\<close>

definition ascii :: "string \<Rightarrow> byte list" where
  "ascii s = map of_char s"

abbreviation (input) "MAX_CIPHER_KEY_LENGTH \<equiv> (64 :: int)"

text \<open>What the code asks OpenSSL about a cipher: its name, the length of its key and its mode.\<close>

record evp_cipher =
  evp_name :: "byte list option"
  evp_key_length :: int
  evp_mode :: cipher_mode

record key_type =
  cipher_length :: byte
  hmac_length :: byte
  kt_cipher :: "evp_cipher option"
  kt_digest :: bool

text \<open>struct key, two arrays of 64 bytes that lie one after the other.\<close>

record key =
  key_cipher :: "byte list"
  key_hmac :: "byte list"

definition wf_key :: "key \<Rightarrow> bool" where
  "wf_key k \<longleftrightarrow> length (key_cipher k) = 64 \<and> length (key_hmac k) = 64"

definition key_block :: "key \<Rightarrow> byte list" where
  "key_block k = key_cipher k @ key_hmac k"

definition block_key :: "byte list \<Rightarrow> key" where
  "block_key m = \<lparr>key_cipher = take 64 m, key_hmac = take 64 (drop 64 m)\<rparr>"

definition clear_key :: key where
  "clear_key = \<lparr>key_cipher = replicate 64 0, key_hmac = replicate 64 0\<rparr>"

record key2 =
  key2_n :: int
  key2_keys :: "key list"

record key_direction_state =
  out_key :: int
  in_key :: int
  need_keys :: int

text \<open>The functions of the DES library that the key checks use, on blocks of eight bytes.\<close>

record des_lib =
  DES_is_weak_key :: "byte list \<Rightarrow> bool"
  DES_check_key_parity :: "byte list \<Rightarrow> bool"
  DES_set_odd_parity :: "byte list \<Rightarrow> byte list"

section \<open>Checks of a key\<close>

definition n_DES_cblocks :: "evp_cipher \<Rightarrow> int" where
  "n_DES_cblocks c = (case evp_name c of
     None \<Rightarrow> 0
   | Some name \<Rightarrow>
       if take 4 name = ascii ''DES-'' then evp_key_length c div 8
       else if take 5 name = ascii ''DESX-'' then 1 else 0)"

text \<open>The loop of check_key_DES over the blocks of \<open>b\<close>.\<close>

fun check_DES_loop :: "des_lib \<Rightarrow> nat \<Rightarrow> buffer \<Rightarrow> bool option" where
  "check_DES_loop des 0 b = Some True"
| "check_DES_loop des (Suc n) b =
     (case buf_read_alloc b 8 of
        (None, b) \<Rightarrow> Some False
      | (Some p, b) \<Rightarrow> do {
          dc \<leftarrow> buf_load b p 8;
          if DES_is_weak_key des dc then Some False
          else if \<not> DES_check_key_parity des dc then Some False
          else check_DES_loop des n b
        })"

definition check_key_DES :: "des_lib \<Rightarrow> key \<Rightarrow> key_type \<Rightarrow> int \<Rightarrow> bool option" where
  "check_key_DES des k kt ndc =
     check_DES_loop des (nat ndc) (buf_set_read (Some (key_block k)) (uint (cipher_length kt)))"

fun fixup_DES_loop :: "des_lib \<Rightarrow> nat \<Rightarrow> buffer \<Rightarrow> buffer option" where
  "fixup_DES_loop des 0 b = Some b"
| "fixup_DES_loop des (Suc n) b =
     (case buf_read_alloc b 8 of
        (None, b) \<Rightarrow> Some b
      | (Some p, b) \<Rightarrow> do {
          dc \<leftarrow> buf_load b p 8;
          b \<leftarrow> buf_store b p (DES_set_odd_parity des dc);
          fixup_DES_loop des n b
        })"

definition fixup_key_DES :: "des_lib \<Rightarrow> key \<Rightarrow> key_type \<Rightarrow> int \<Rightarrow> key option" where
  "fixup_key_DES des k kt ndc = do {
     b \<leftarrow> fixup_DES_loop des (nat ndc) (buf_set_read (Some (key_block k)) (uint (cipher_length kt)));
     m \<leftarrow> data b;
     Some (block_key m)
   }"

text \<open>The array holds 64 bytes; a longer cipher_length reads on into the HMAC key and beyond.\<close>

definition key_is_zero :: "key \<Rightarrow> key_type \<Rightarrow> bool option" where
  "key_is_zero k kt = do {
     bs \<leftarrow> mem_read (key_block k) 0 (uint (cipher_length kt));
     Some (\<not> list_ex (\<lambda>c. c \<noteq> 0) bs)
   }"

definition check_key :: "des_lib \<Rightarrow> key \<Rightarrow> key_type \<Rightarrow> bool option" where
  "check_key des k kt = (case kt_cipher kt of
     None \<Rightarrow> Some True
   | Some c \<Rightarrow> do {
       z \<leftarrow> key_is_zero k kt;
       if z then Some False
       else (let ndc = n_DES_cblocks c in if ndc \<noteq> 0 then check_key_DES des k kt ndc else Some True)
     })"

definition fixup_key :: "des_lib \<Rightarrow> key \<Rightarrow> key_type \<Rightarrow> key option" where
  "fixup_key des k kt = (case kt_cipher kt of
     None \<Rightarrow> Some k
   | Some c \<Rightarrow> (let ndc = n_DES_cblocks c in if ndc \<noteq> 0 then fixup_key_DES des k kt ndc else Some k))"

definition cfb_ofb_mode :: "key_type \<Rightarrow> bool" where
  "cfb_ofb_mode kt = (case kt_cipher kt of
     None \<Rightarrow> False
   | Some c \<Rightarrow> evp_mode c = EVP_CIPH_CFB_MODE \<or> evp_mode c = EVP_CIPH_OFB_MODE)"

definition check_replay_iv_consistency :: "key_type \<Rightarrow> bool \<Rightarrow> bool \<Rightarrow> unit option" where
  "check_replay_iv_consistency kt pid use_iv = ASSERT (\<not> (cfb_ofb_mode kt \<and> \<not> (pid \<and> use_iv)))"

text \<open>
  generate_key_random.  \<open>rnd\<close> are the results of the calls of RAND_bytes, two for each round;
  \<^const>\<open>None\<close> is a generator without entropy, and an exhausted list a loop that has not ended.
\<close>

fun generate_key_random :: "des_lib \<Rightarrow> key_type option \<Rightarrow> (byte list \<times> byte list) option list \<Rightarrow> int \<Rightarrow> int \<Rightarrow> key option" where
  "generate_key_random des kt [] cipher_len hmac_len = None"
| "generate_key_random des kt (None # rnd) cipher_len hmac_len = None"
| "generate_key_random des kt (Some (rc, rh) # rnd) cipher_len hmac_len =
     (let cipher_len = (case kt of
            Some t \<Rightarrow> if kt_cipher t \<noteq> None \<and> 0 < uint (cipher_length t) \<and> uint (cipher_length t) \<le> cipher_len
                      then uint (cipher_length t) else cipher_len
          | None \<Rightarrow> cipher_len);
          hmac_len = (case kt of
            Some t \<Rightarrow> if kt_digest t \<and> 0 < uint (hmac_length t) \<and> uint (hmac_length t) \<le> hmac_len
                      then uint (hmac_length t) else hmac_len
          | None \<Rightarrow> hmac_len)
      in do {
        rc' \<leftarrow> src_bytes rc cipher_len;
        c \<leftarrow> mem_write (key_cipher clear_key) 0 rc';
        rh' \<leftarrow> src_bytes rh hmac_len;
        h \<leftarrow> mem_write (key_hmac clear_key) 0 rh';
        let k = \<lparr>key_cipher = c, key_hmac = h\<rparr>;
        (case kt of
           None \<Rightarrow> Some k
         | Some t \<Rightarrow> do {
             k \<leftarrow> fixup_key des k t;
             good \<leftarrow> check_key des k t;
             if good then Some k else generate_key_random des kt rnd cipher_len hmac_len
           })
      })"

fun verify_fix_loop :: "des_lib \<Rightarrow> key_type \<Rightarrow> nat \<Rightarrow> nat \<Rightarrow> key2 \<Rightarrow> key2 option" where
  "verify_fix_loop des kt 0 i k2 = Some k2"
| "verify_fix_loop des kt (Suc n) i k2 = do {
     k \<leftarrow> fixup_key des (key2_keys k2 ! i) kt;
     good \<leftarrow> check_key des k kt;
     ASSERT good;
     verify_fix_loop des kt n (Suc i) (k2\<lparr>key2_keys := (key2_keys k2)[i := k]\<rparr>)
   }"

definition verify_fix_key2 :: "des_lib \<Rightarrow> key2 \<Rightarrow> key_type \<Rightarrow> key2 option" where
  "verify_fix_key2 des k2 kt = verify_fix_loop des kt (nat (key2_n k2)) 0 k2"

definition must_have_n_keys :: "key2 \<Rightarrow> int \<Rightarrow> unit option" where
  "must_have_n_keys k2 n = ASSERT (\<not> key2_n k2 < n)"

section \<open>Directions\<close>

abbreviation (input) "KEY_DIRECTION_BIDIRECTIONAL \<equiv> (0 :: int)"
abbreviation (input) "KEY_DIRECTION_NORMAL \<equiv> (1 :: int)"
abbreviation (input) "KEY_DIRECTION_INVERSE \<equiv> (2 :: int)"

definition ascii2keydirection :: "byte list option \<Rightarrow> int" where
  "ascii2keydirection str = (case str of
     None \<Rightarrow> KEY_DIRECTION_BIDIRECTIONAL
   | Some s \<Rightarrow> if s = ascii ''0'' then KEY_DIRECTION_NORMAL
               else if s = ascii ''1'' then KEY_DIRECTION_INVERSE else -1)"

definition keydirection2ascii :: "int \<Rightarrow> bool \<Rightarrow> byte list option option" where
  "keydirection2ascii kd remote =
     (if kd = KEY_DIRECTION_BIDIRECTIONAL then Some None
      else if kd = KEY_DIRECTION_NORMAL then Some (Some (if remote then ascii ''1'' else ascii ''0''))
      else if kd = KEY_DIRECTION_INVERSE then Some (Some (if remote then ascii ''0'' else ascii ''1''))
      else None)"

definition key_direction_state_init :: "int \<Rightarrow> key_direction_state option" where
  "key_direction_state_init d =
     (if d = KEY_DIRECTION_NORMAL then Some \<lparr>out_key = 0, in_key = 1, need_keys = 2\<rparr>
      else if d = KEY_DIRECTION_INVERSE then Some \<lparr>out_key = 1, in_key = 0, need_keys = 2\<rparr>
      else if d = KEY_DIRECTION_BIDIRECTIONAL then Some \<lparr>out_key = 0, in_key = 0, need_keys = 1\<rparr>
      else None)"

section \<open>Keys on the control channel\<close>

definition write_key :: "key \<Rightarrow> key_type \<Rightarrow> buffer \<Rightarrow> (bool \<times> buffer) option" where
  "write_key k kt b = do {
     ASSERT (uint (cipher_length kt) \<le> MAX_CIPHER_KEY_LENGTH \<and> uint (hmac_length kt) \<le> MAX_HMAC_KEY_LENGTH);
     (ok, b) \<leftarrow> buf_write b [cipher_length kt] 1;
     if \<not> ok then Some (False, b) else do {
     (ok, b) \<leftarrow> buf_write b [hmac_length kt] 1;
     if \<not> ok then Some (False, b) else do {
     (ok, b) \<leftarrow> buf_write b (key_cipher k) (uint (cipher_length kt));
     if \<not> ok then Some (False, b) else
     buf_write b (key_hmac k) (uint (hmac_length kt))
   }}}"

text \<open>
  read_key: the result is 1, -1 or 0 and the key.  The bytes go to the arrays of struct key by the
  lengths that the peer sent; a store past the struct is \<^const>\<open>None\<close>.
\<close>

definition read_key :: "key_type \<Rightarrow> buffer \<Rightarrow> (int \<times> key \<times> buffer) option" where
  "read_key kt b = do {
     let m = key_block clear_key;
     (cl, b) \<leftarrow> buf_read b 1;
     case cl of None \<Rightarrow> Some (-1, block_key m, b) | Some cl \<Rightarrow> do {
     (hl, b) \<leftarrow> buf_read b 1;
     case hl of None \<Rightarrow> Some (-1, block_key m, b) | Some hl \<Rightarrow> do {
     (c, b) \<leftarrow> buf_read b (uint (hd cl));
     case c of None \<Rightarrow> Some (-1, block_key m, b) | Some c \<Rightarrow> do {
     m \<leftarrow> mem_write m 0 c;
     (h, b) \<leftarrow> buf_read b (uint (hd hl));
     case h of None \<Rightarrow> Some (-1, block_key m, b) | Some h \<Rightarrow> do {
     m \<leftarrow> mem_write m 64 h;
     if hd cl \<noteq> cipher_length kt \<or> hd hl \<noteq> hmac_length kt then Some (0, block_key m, b)
     else Some (1, block_key m, b)
   }}}}}"

section \<open>The key that arrives\<close>

lemma buf_write_prefix:
  assumes "n \<le> length post" "n \<le> length s"
  shows "buf_write (mk_buf pre c post) s (int n) = Some (True, mk_buf pre (c @ take n s) (drop n post))"
proof -
  have eq: "src_bytes s (int n) = src_bytes (take n s) (int n)" using assms(2) by (simp add: src_bytes_def)
  have "buf_write (mk_buf pre c post) s (int n) = buf_write (mk_buf pre c post) (take n s) (int n)"
    unfolding buf_write_def eq by (rule refl)
  also have "\<dots> = Some (True, mk_buf pre (c @ take n s) (drop n post))"
    using assms buf_write_mk_buf[of "int n" "take n s" pre c post] by (simp add: min_def)
  finally show ?thesis .
qed

lemma write_key_mk_buf:
  assumes k: "wf_key k" and len: "unat (cipher_length kt) \<le> 64" "unat (hmac_length kt) \<le> 64"
    and room: "2 + unat (cipher_length kt) + unat (hmac_length kt) \<le> length post"
  shows "\<exists>post'. write_key k kt (mk_buf pre c post) = Some (True, mk_buf pre
    (c @ [cipher_length kt, hmac_length kt] @ take (unat (cipher_length kt)) (key_cipher k) @
       take (unat (hmac_length kt)) (key_hmac k)) post')"
proof -
  define nc where "nc = unat (cipher_length kt)"
  define nh where "nh = unat (hmac_length kt)"
  have u: "uint (cipher_length kt) = int nc" "uint (hmac_length kt) = int nh" by (simp_all add: nc_def nh_def)
  have "write_key k kt (mk_buf pre c post) = Some (True, mk_buf pre
      (c @ [cipher_length kt, hmac_length kt] @ take nc (key_cipher k) @ take nh (key_hmac k))
      (drop (2 + nc + nh) post))"
    using k len room unfolding write_key_def u
    by (simp add: wf_key_def buf_write_prefix nc_def[symmetric] nh_def[symmetric] add.commute)
  then show ?thesis unfolding nc_def nh_def by blast
qed

lemma key_block_clear: "key_block clear_key = replicate 128 0"
  by (simp add: key_block_def clear_key_def flip: replicate_add)

lemma key_store_None:
  "mem_write (replicate 128 0) 0 c \<bind> (\<lambda>m. mem_write m 64 h) = None \<longleftrightarrow> 128 < length c \<or> 64 < length h"
  by (auto simp: mem_write_def)

lemma key_store_Some:
  assumes "length c \<le> 64" "length h \<le> 64"
  shows "mem_write (replicate 128 0) 0 c \<bind> (\<lambda>m. mem_write m 64 h) =
    Some (c @ replicate (64 - length c) 0 @ h @ replicate (64 - length h) 0)"
  using assms by (simp add: mem_write_def)

text \<open>The bytes that read_key stores, for a message that holds as many as its lengths say.\<close>

lemma read_key_stores:
  assumes "content b = cl # hl # c @ h @ rest" "live_buf b" "length c = unat cl" "length h = unat hl"
  shows "\<exists>b'. live_buf b' \<and> content b' = rest \<and> read_key kt b = do {
      m \<leftarrow> mem_write (replicate 128 0) 0 c;
      m \<leftarrow> mem_write m 64 h;
      Some (if cl \<noteq> cipher_length kt \<or> hl \<noteq> hmac_length kt then 0 else 1, block_key m, b')
    }"
proof -
  obtain pre post where b: "b = mk_buf pre (cl # hl # c @ h @ rest) post"
    using assms(2,1) by (rule live_buf_contentE)
  have u: "uint cl = int (length c)" "uint hl = int (length h)" using assms(3,4) by simp_all
  show ?thesis
    by (rule exI[of _ "mk_buf (pre @ [cl, hl] @ c @ h) rest post"])
       (simp add: read_key_def b u key_block_clear split: option.splits)
qed

text \<open>
  an exchanged key is the key that was sent.  What write_key puts into a message read_key takes out
  with result 1: the leading bytes of both keys, and zeros behind them.
\<close>

theorem key_exchange_roundtrip:
  assumes "wf_key k" "unat (cipher_length kt) \<le> 64" "unat (hmac_length kt) \<le> 64"
    and "2 + unat (cipher_length kt) + unat (hmac_length kt) \<le> length post"
  shows "\<exists>b b' k'. write_key k kt (mk_buf pre [] post) = Some (True, b) \<and>
    read_key kt b = Some (1, k', b') \<and> content b' = [] \<and>
    key_cipher k' = take (unat (cipher_length kt)) (key_cipher k) @ replicate (64 - unat (cipher_length kt)) 0 \<and>
    key_hmac k' = take (unat (hmac_length kt)) (key_hmac k) @ replicate (64 - unat (hmac_length kt)) 0"
proof -
  let ?c = "take (unat (cipher_length kt)) (key_cipher k)" and ?h = "take (unat (hmac_length kt)) (key_hmac k)"
  have l: "length ?c = unat (cipher_length kt)" "length ?h = unat (hmac_length kt)"
    using assms(1-3) by (simp_all add: wf_key_def)
  obtain post' where w: "write_key k kt (mk_buf pre [] post) =
      Some (True, mk_buf pre (cipher_length kt # hmac_length kt # ?c @ ?h) post')"
    using write_key_mk_buf[OF assms, of pre "[]"] by auto
  let ?b = "mk_buf pre (cipher_length kt # hmac_length kt # ?c @ ?h) post'"
  define m where "m = ?c @ replicate (64 - unat (cipher_length kt)) 0 @ ?h @ replicate (64 - unat (hmac_length kt)) 0"
  have m: "mem_write (replicate 128 0) 0 ?c \<bind> (\<lambda>m. mem_write m 64 ?h) = Some m"
    using key_store_Some[of ?c ?h] l assms(2,3) unfolding m_def by metis
  obtain b' where b': "content b' = []" "read_key kt ?b = do {
      m \<leftarrow> mem_write (replicate 128 0) 0 ?c; m \<leftarrow> mem_write m 64 ?h;
      Some (if cipher_length kt \<noteq> cipher_length kt \<or> hmac_length kt \<noteq> hmac_length kt then 0 else 1, block_key m, b') }"
    using read_key_stores[of ?b "cipher_length kt" "hmac_length kt" ?c ?h "[]" kt] l by auto
  have "read_key kt ?b = Some (1, block_key m, b')"
    using m unfolding b'(2) by (auto split: bind_splits)
  moreover have "block_key m = \<lparr>key_cipher = ?c @ replicate (64 - unat (cipher_length kt)) 0,
      key_hmac = ?h @ replicate (64 - unat (hmac_length kt)) 0\<rparr>"
    using l assms(2,3) by (simp add: block_key_def m_def)
  ultimately show ?thesis using w b'(1) by auto
qed

definition demo_key :: key where
  "demo_key = \<lparr>key_cipher = replicate 64 7, key_hmac = replicate 64 9\<rparr>"

definition demo_key_type :: key_type where
  "demo_key_type = \<lparr>cipher_length = 16, hmac_length = 20, kt_cipher = None, kt_digest = True\<rparr>"

theorem key_exchange_roundtrip_witness:
  "\<exists>b b' k'. write_key demo_key demo_key_type (mk_buf [] [] (replicate 100 0)) = Some (True, b) \<and>
    read_key demo_key_type b = Some (1, k', b') \<and> content b' = [] \<and>
    key_cipher k' = replicate 16 7 @ replicate 48 0 \<and> key_hmac k' = replicate 20 9 @ replicate 44 0"
  using key_exchange_roundtrip[of demo_key demo_key_type "replicate 100 0" "[]"]
  by (simp add: demo_key_def demo_key_type_def wf_key_def min_def)

text \<open>
  C35: a peer can make read_key write past the key.  The lengths in the message are compared with the
  expected ones only after the bytes are stored: a message that announces (and holds) a cipher
  key of more than 128 bytes or an HMAC key of more than 64 makes read_key store outside of
  struct key, whatever key type is configured.
\<close>

theorem read_key_overflow:
  assumes "live_buf b" "content b = cl # hl # rest" "unat cl + unat hl \<le> length rest"
  shows "read_key kt b = None \<longleftrightarrow> unat cl > 128 \<or> unat hl > 64"
proof -
  let ?c = "take (unat cl) rest" and ?h = "take (unat hl) (drop (unat cl) rest)"
  have l: "length ?c = unat cl" "length ?h = unat hl" using assms(3) by simp_all
  have "content b = cl # hl # ?c @ ?h @ drop (unat hl) (drop (unat cl) rest)"
    using assms(2) by (simp only: append_take_drop_id)
  from read_key_stores[OF this assms(1) l, of kt] obtain b' where "read_key kt b = do {
      m \<leftarrow> mem_write (replicate 128 0) 0 ?c; m \<leftarrow> mem_write m 64 ?h;
      Some (if cl \<noteq> cipher_length kt \<or> hl \<noteq> hmac_length kt then 0 else 1, block_key m, b') }"
    by blast
  moreover have "mem_write (replicate 128 0) 0 ?c \<bind> (\<lambda>m. mem_write m 64 ?h) = None \<longleftrightarrow> unat cl > 128 \<or> unat hl > 64"
    using key_store_None[of ?c ?h] unfolding l .
  ultimately show ?thesis by (auto split: bind_splits)
qed

theorem read_key_overflow_witness:
  "read_key demo_key_type (mk_buf [] (129 # 0 # replicate 129 5) []) = None"
  using read_key_overflow[of "mk_buf [] (129 # 0 # replicate 129 5) []" 129 0 "replicate 129 5" demo_key_type] by simp

section \<open>Key directions\<close>

text \<open>
  Two peers with complementary directions: one sends with the key by which the other receives.
\<close>

lemma key_directions_complement:
  assumes "keydirection2ascii d True = Some s"
  shows "\<exists>kds kds'. key_direction_state_init d = Some kds \<and>
    key_direction_state_init (ascii2keydirection s) = Some kds' \<and>
    out_key kds = in_key kds' \<and> in_key kds = out_key kds' \<and> need_keys kds = need_keys kds'"
  using assms
  by (auto simp: keydirection2ascii_def key_direction_state_init_def ascii2keydirection_def ascii_def split: if_splits)

end
