(* ===== verification/Key_File.thy ===== *)
theory Key_File
  imports Keys
begin

text \<open>
  The static key file of \<^verbatim>\<open>crypto.c\<close>: write_key_file, which formats keys as hexadecimal text between
  a header and a footer line, and read_key_file, a character-driven state machine over the pieces in
  which the system hands out the file.
\<close>

section \<open>Key files\<close>

definition static_key_head :: "byte list" where
  "static_key_head = ascii ''-----BEGIN OpenVPN Static key V1-----''"

definition static_key_foot :: "byte list" where
  "static_key_foot = ascii ''-----END OpenVPN Static key V1-----''"

datatype key_file_state = PARSE_INITIAL | PARSE_HEAD | PARSE_DATA | PARSE_DATA_COMPLETE | PARSE_FOOT | PARSE_FINISHED

record key_parse =
  kp_hex_byte :: "byte list"
  kp_hb_index :: int
  kp_line_num :: int
  kp_line_index :: int
  kp_match :: int
  kp_out :: "byte list"
  kp_count :: int
  kp_state :: key_file_state

text \<open>The value of a hexadecimal digit, and what sscanf reads by the format \<^verbatim>\<open>%x\<close>.\<close>

definition hex_digit :: "byte \<Rightarrow> byte" where
  "hex_digit c = (if c \<le> 57 then c - 48 else if c \<le> 70 then c - 55 else c - 87)"

definition sscanf_x :: "byte list \<Rightarrow> byte option" where
  "sscanf_x s = (let ds = takeWhile isxdigit s in
     if ds = [] then None else Some (foldl (\<lambda>a d. a * 16 + hex_digit d) 0 ds))"

text \<open>A character compared with the header or footer line.\<close>

definition parse_match :: "byte list \<Rightarrow> key_file_state \<Rightarrow> byte \<Rightarrow> key_parse \<Rightarrow> key_parse" where
  "parse_match t next_state c p =
     (if kp_line_index p < int (length t) \<and> c = t ! nat (kp_line_index p)
      then (let p = p\<lparr>kp_match := kp_match p + 1\<rparr>
            in if kp_match p = int (length t) then p\<lparr>kp_state := next_state\<rparr> else p)
      else p)"

text \<open>A character of the key data; a character that does not belong there ends the program.\<close>

definition parse_data :: "byte \<Rightarrow> key_parse \<Rightarrow> key_parse option" where
  "parse_data c p =
     (if isxdigit c then do {
        ASSERT (0 \<le> kp_hb_index p \<and> kp_hb_index p < 2);
        let p = p\<lparr>kp_hex_byte := (kp_hex_byte p)[nat (kp_hb_index p) := c], kp_hb_index := kp_hb_index p + 1\<rparr>;
        if kp_hb_index p = 2 then do {
          u \<leftarrow> sscanf_x (kp_hex_byte p);
          out \<leftarrow> mem_write (kp_out p) (kp_count p) [u];
          let p = p\<lparr>kp_out := out, kp_hb_index := 0, kp_count := kp_count p + 1\<rparr>;
          Some (if kp_count p = 256 then p\<lparr>kp_state := PARSE_DATA_COMPLETE\<rparr> else p)
        } else Some p
      } else if isspace c then Some p
      else None)"

definition key_parse_char :: "key_parse \<Rightarrow> byte \<Rightarrow> key_parse option" where
  "key_parse_char p c =
     (if c = 10 then Some (p\<lparr>kp_line_index := 0, kp_match := 0, kp_line_num := kp_line_num p + 1\<rparr>)
      else do {
        let p = (if kp_line_index p = 0 then
                   (let p = (if kp_state p = PARSE_HEAD then p\<lparr>kp_state := PARSE_DATA\<rparr> else p)
                    in if (kp_state p = PARSE_DATA \<or> kp_state p = PARSE_DATA_COMPLETE) \<and> c = 45
                       then p\<lparr>kp_state := PARSE_FOOT\<rparr> else p)
                 else p);
        let p = (if kp_state p = PARSE_INITIAL then parse_match static_key_head PARSE_HEAD c p else p);
        let p = (if kp_state p = PARSE_FOOT then parse_match static_key_foot PARSE_FINISHED c p else p);
        p \<leftarrow> (if kp_state p = PARSE_DATA then parse_data c p else Some p);
        Some (p\<lparr>kp_line_index := kp_line_index p + 1\<rparr>)
      })"

fun key_parse_chars :: "byte list \<Rightarrow> key_parse \<Rightarrow> key_parse option" where
  "key_parse_chars [] p = Some p"
| "key_parse_chars (c # cs) p = do { p \<leftarrow> key_parse_char p c; key_parse_chars cs p }"

definition key_parse_init :: key_parse where
  "key_parse_init = \<lparr>kp_hex_byte = [0, 0, 0], kp_hb_index = 0, kp_line_num = 1, kp_line_index = 0,
     kp_match = 0, kp_out = replicate 256 0, kp_count = 0, kp_state = PARSE_INITIAL\<rparr>"

text \<open>
  read_key_file on the results of its calls of read: each gives some bytes (at most 64), and the end
  of the file ends the loop.  For an error (-1) the inner loop counts down from -1 and reads past
  the buffer.
\<close>

fun key_file_loop :: "byte list option list \<Rightarrow> key_parse \<Rightarrow> key_parse option" where
  "key_file_loop [] p = Some p"
| "key_file_loop (None # reads) p = None"
| "key_file_loop (Some bs # reads) p = do { p \<leftarrow> key_parse_chars bs p; key_file_loop reads p }"

definition read_key_file :: "byte list option list \<Rightarrow> bool \<Rightarrow> key2 option" where
  "read_key_file reads must_succeed = do {
     p \<leftarrow> key_file_loop reads key_parse_init;
     let n = kp_count p div 128;
     ASSERT (n \<ge> 0 \<and> n \<le> 2);
     ASSERT (must_succeed \<longrightarrow> n \<noteq> 0);
     ASSERT (must_succeed \<longrightarrow> kp_state p = PARSE_FINISHED);
     Some \<lparr>key2_n = n, key2_keys = [block_key (take 128 (kp_out p)), block_key (drop 128 (kp_out p))]\<rparr>
   }"

text \<open>The formats \<^verbatim>\<open>%02x\<close> and \<^verbatim>\<open>%d\<close>.\<close>

definition hex_char :: "byte \<Rightarrow> byte" where
  "hex_char d = (if d < 10 then 48 + d else 87 + d)"

definition format_02x :: "byte \<Rightarrow> byte list" where
  "format_02x x = [hex_char (x div 16), hex_char (x mod 16)]"

fun format_d :: "nat \<Rightarrow> byte list" where
  "format_d n = (if n < 10 then [48 + word_of_nat n] else format_d (n div 10) @ [48 + word_of_nat (n mod 10)])"

fun format_hex_loop :: "byte list \<Rightarrow> int \<Rightarrow> int \<Rightarrow> byte list \<Rightarrow> buffer \<Rightarrow> buffer option" where
  "format_hex_loop [] i space_break separator out = Some out"
| "format_hex_loop (x # xs) i space_break separator out = do {
     out \<leftarrow> (if i \<noteq> 0 \<and> i mod space_break = 0 then buf_printf out separator else Some out);
     out \<leftarrow> buf_printf out (format_02x x);
     format_hex_loop xs (i + 1) space_break separator out
   }"

text \<open>The text that format_hex_ex returns, up to its terminating zero.\<close>

definition format_hex_ex :: "(nat \<Rightarrow> byte) \<Rightarrow> byte list \<Rightarrow> int \<Rightarrow> int \<Rightarrow> byte list \<Rightarrow> byte list option" where
  "format_hex_ex junk dat maxoutput space_break separator = do {
     let sz = int (length dat);
     let out = alloc_buf junk (nat (if maxoutput \<noteq> 0 then maxoutput
                 else sz * 2 + (sz div space_break) * int (length separator) + 2));
     out \<leftarrow> format_hex_loop dat 0 space_break separator out;
     out \<leftarrow> buf_catrunc out (ascii ''[more...]'');
     m \<leftarrow> data out;
     Some (takeWhile (\<lambda>c. c \<noteq> 0) m)
   }"

text \<open>
  The contents of the file that write_key_file writes for the random keys \<open>ks\<close>, and the number of
  bits it returns.
\<close>

fun write_key_loop :: "(nat \<Rightarrow> byte) \<Rightarrow> key list \<Rightarrow> buffer \<Rightarrow> buffer option" where
  "write_key_loop junk [] out = Some out"
| "write_key_loop junk (k # ks) out = do {
     fmt \<leftarrow> format_hex_ex junk (key_block k) 0 16 [10];
     out \<leftarrow> buf_printf out (fmt @ [10]);
     write_key_loop junk ks out
   }"

definition write_key_file :: "(nat \<Rightarrow> byte) \<Rightarrow> key list \<Rightarrow> (byte list \<times> int) option" where
  "write_key_file junk ks = do {
     let nbits = 1024 * length ks;
     out \<leftarrow> buf_printf (alloc_buf junk 2048) (static_key_head @ [10]);
     out \<leftarrow> write_key_loop junk ks out;
     out \<leftarrow> buf_printf out (static_key_foot @ [10]);
     head \<leftarrow> buf_printf (alloc_buf junk 128)
       (ascii ''#'' @ [10] @ ascii ''# '' @ format_d nbits @ ascii '' bit OpenVPN static key'' @ [10] @ ascii ''#'' @ [10]);
     Some (content head @ content out, int nbits)
   }"

subsection \<open>What is written\<close>

lemma buf_printf_fits:
  assumes "length s < length post" "0 \<notin> set s"
  shows "\<exists>post'. buf_printf (mk_buf pre c post) s = Some (mk_buf pre (c @ s) post') \<and>
    length post' = length post - length s \<and> takeWhile (\<lambda>x. x \<noteq> 0) post' = []"
proof -
  define r where "r = drop (length s + 1) post"
  have lr: "length post = length s + 1 + length r" using assms(1) by (simp add: r_def)
  define q where "q = take (length r) (0 # r) @ [0]"
  have q: "length q = 1 + length r" "takeWhile (\<lambda>x. x \<noteq> 0) q = []"
    by (cases r; simp add: q_def)+
  have store1: "buf_store (mk_buf pre c post) (int (length pre) + int (length c)) (s @ [0]) = Some (mk_buf pre c (s @ 0 # r))"
    using lr by (simp add: buf_store_def mem_write_def mk_buf_def r_def nat_add_distrib)
  have store2: "buf_store (mk_buf pre c (s @ 0 # r)) (int (length pre) + (int (length c) + int (length post)) - 1) [0]
      = Some (mk_buf pre c (s @ q))"
    using lr by (simp add: buf_store_def mem_write_def mk_buf_def q_def nat_add_distrib)
  have load: "buf_load (mk_buf pre c (s @ q)) (int (length pre) + int (length c)) (int (length post)) = Some (s @ q)"
    using lr q(1) by (simp add: buf_load_def mem_read_def nat_add_distrib)
  have str: "c_strlen (s @ q) = int (length s)"
    using assms(2) q(2) by (auto simp: c_strlen_def takeWhile_append)
  have grow: "(mk_buf pre c (s @ q))\<lparr>len := int (length c) + int (length s)\<rparr> = mk_buf pre (c @ s) q"
    by (simp add: mk_buf_def)
  have "buf_printf (mk_buf pre c post) s = Some (mk_buf pre (c @ s) q)"
    using lr store1 store2 load str grow q(1)
    by (simp add: buf_printf_def buf_defined_def buf_forward_capacity_def Let_def add.assoc)
  then show ?thesis using q lr by auto
qed

lemma byte_less_16:
  assumes "d < (16 :: byte)"
  shows "d \<in> {0, 1, 2, 3, 4, 5, 6, 7, 8, 9, 10, 11, 12, 13, 14, 15}"
proof -
  have "unat d < 16" using assms by (simp add: word_less_nat_alt)
  moreover have "d = word_of_nat (unat d)" by simp
  moreover have "word_of_nat n \<in> {0, 1, 2, 3, 4, 5, 6, 7, 8, 9, 10, 11, 12, 13, 14, 15 :: byte}" if "n < 16" for n
    using that by (auto simp: less_Suc_eq numeral_eq_Suc)
  ultimately show ?thesis by metis
qed

lemma hex_char_digit:
  assumes "d < (16 :: byte)"
  shows "isxdigit (hex_char d)" "hex_digit (hex_char d) = d" "hex_char d \<noteq> 0" "hex_char d \<noteq> 10" "hex_char d \<noteq> 45"
  using byte_less_16[OF assms] by (auto simp: hex_char_def hex_digit_def isxdigit_def isdigit_def)

lemma byte_nibbles:
  "(x :: byte) div 16 < 16" "x mod 16 < 16" "x div 16 * 16 + x mod 16 = x"
proof -
  have "unat x < 256" using unsigned_less[where ?'a = nat, of x] by simp
  then show "x div 16 < 16" by (simp add: word_less_nat_alt unat_div)
  show "x mod 16 < 16" by (simp add: word_less_nat_alt unat_mod)
  show "x div 16 * 16 + x mod 16 = x" by (rule div_mult_mod_eq)
qed

lemma not_xdigit_0: "\<not> isxdigit 0"
  by (simp add: isxdigit_def isdigit_def)

lemma sscanf_02x: "sscanf_x [hex_char (x div 16), hex_char (x mod 16), 0] = Some x"
  using byte_nibbles[of x] by (simp add: sscanf_x_def hex_char_digit not_xdigit_0 Let_def)

fun hex_text :: "int \<Rightarrow> byte list \<Rightarrow> byte list" where
  "hex_text i [] = []"
| "hex_text i (x # xs) = (if i \<noteq> 0 \<and> i mod 16 = 0 then [10] else []) @ format_02x x @ hex_text (i + 1) xs"

lemma format_02x_no_zero: "0 \<notin> set (format_02x x)"
  using byte_nibbles[of x] hex_char_digit(3) by (auto simp: format_02x_def)

lemma hex_text_no_zero: "0 \<notin> set (hex_text i xs)"
  using format_02x_no_zero by (induction i xs rule: hex_text.induct) auto

lemma hex_text_length:
  "0 \<le> i \<Longrightarrow> int (length (hex_text i xs)) \<le> 2 * int (length xs) + (i + int (length xs) - 1) div 16 - (i - 1) div 16"
proof (induction xs arbitrary: i)
  case (Cons x xs)
  have "int (length (hex_text (i + 1) xs)) \<le> 2 * int (length xs) + (i + int (length xs)) div 16 - i div 16"
    using Cons.IH[of "i + 1"] Cons.prems by simp
  moreover have "(i - 1) div 16 \<le> i div 16" by (simp add: zdiv_mono1)
  moreover have "(i - 1) div 16 = i div 16 - 1" if aligned: "i mod 16 = 0"
  proof -
    obtain j where "i = 16 * j" using mod_0_imp_dvd[OF aligned] by (rule dvdE)
    moreover have "(16 * j - 1) div 16 = j - 1" for j :: int by presburger
    ultimately show ?thesis by simp
  qed
  ultimately show ?case by (auto simp: format_02x_def)
qed simp

lemma format_hex_loop_text:
  assumes "length (hex_text i xs) < length post"
  shows "\<exists>post'. format_hex_loop xs i 16 [10] (mk_buf pre c post) = Some (mk_buf pre (c @ hex_text i xs) post') \<and>
    length post' = length post - length (hex_text i xs) \<and> (xs \<noteq> [] \<longrightarrow> takeWhile (\<lambda>x. x \<noteq> 0) post' = [])"
  using assms
proof (induction xs arbitrary: i c post)
  case (Cons x xs)
  define sep where "sep = (if i \<noteq> 0 \<and> i mod 16 = 0 then [10] else [] :: byte list)"
  have len: "length sep + length (format_02x x) + length (hex_text (i + 1) xs) < length post"
    using Cons.prems by (simp add: sep_def)
  obtain p1 where p1: "(if i \<noteq> 0 \<and> i mod 16 = 0 then buf_printf (mk_buf pre c post) [10] else Some (mk_buf pre c post))
      = Some (mk_buf pre (c @ sep) p1)" "length p1 = length post - length sep"
    using buf_printf_fits[of "[10]" post pre c] len by (cases "i \<noteq> 0 \<and> i mod 16 = 0") (auto simp: sep_def)
  have "length (format_02x x) < length p1" using len p1(2) by simp
  from buf_printf_fits[OF this format_02x_no_zero, of pre "c @ sep"]
  obtain p2 where p2: "buf_printf (mk_buf pre (c @ sep) p1) (format_02x x) = Some (mk_buf pre ((c @ sep) @ format_02x x) p2)"
    "length p2 = length p1 - length (format_02x x)" "takeWhile (\<lambda>x. x \<noteq> 0) p2 = []" by blast
  have "length (hex_text (i + 1) xs) < length p2" using len p1(2) p2(2) by simp
  from Cons.IH[OF this, of "(c @ sep) @ format_02x x"] obtain p3 where p3:
    "format_hex_loop xs (i + 1) 16 [10] (mk_buf pre ((c @ sep) @ format_02x x) p2) =
      Some (mk_buf pre (((c @ sep) @ format_02x x) @ hex_text (i + 1) xs) p3)"
    "length p3 = length p2 - length (hex_text (i + 1) xs)" "xs \<noteq> [] \<longrightarrow> takeWhile (\<lambda>x. x \<noteq> 0) p3 = []" by blast
  have ht: "hex_text i (x # xs) = sep @ format_02x x @ hex_text (i + 1) xs" by (simp add: sep_def)
  have "takeWhile (\<lambda>x. x \<noteq> 0) p3 = []" using p3 p2(3) by (cases xs) (auto simp: mk_buf_def)
  then show ?case using p1 p2 p3 unfolding ht by (intro exI[of _ p3]) simp
qed auto

lemma format_hex_key:
  assumes "length m = 128"
  shows "format_hex_ex junk m 0 16 [10] = Some (hex_text 0 m)"
proof -
  have n: "length (hex_text 0 m) \<le> 264" using hex_text_length[of 0 m] assms by simp
  obtain post where post: "alloc_buf junk 266 = mk_buf [] [] post" "length post = 266"
    by (simp add: alloc_buf_def mk_buf_def Let_def)
  obtain post' where p: "format_hex_loop m 0 16 [10] (mk_buf [] [] post) = Some (mk_buf [] (hex_text 0 m) post')"
    "length post' = 266 - length (hex_text 0 m)" "takeWhile (\<lambda>x. x \<noteq> 0) post' = []"
    using format_hex_loop_text[of 0 m post "[]" "[]"] n post(2) assms by auto
  have "takeWhile (\<lambda>c. c \<noteq> 0) (hex_text 0 m @ post') = hex_text 0 m"
    using hex_text_no_zero[of 0 m] p(3) by (auto simp: takeWhile_append)
  then show ?thesis using n post p assms
    by (simp add: format_hex_ex_def buf_catrunc_def buf_forward_capacity_def)
qed

subsection \<open>What is read\<close>

lemma key_parse_chars_append:
  "key_parse_chars (xs @ ys) p = key_parse_chars xs p \<bind> key_parse_chars ys"
  by (induction xs arbitrary: p) (simp_all cong: Option.bind_cong)

lemma key_file_loop_chunks: "key_file_loop (map Some bss) p = key_parse_chars (concat bss) p"
  by (induction bss arbitrary: p) (simp_all add: key_parse_chars_append cong: Option.bind_cong)

lemma static_key_text:
  "length static_key_head = 37" "length static_key_foot = 35" "10 \<notin> set static_key_head" "10 \<notin> set static_key_foot"
  "0 \<notin> set static_key_head" "0 \<notin> set static_key_foot" "static_key_head ! 0 = 45" "static_key_foot ! 0 = 45"
  by (simp_all add: static_key_head_def static_key_foot_def ascii_def)

text \<open>A line before the header that does not start like it.\<close>

lemma kp_upd_swap:
  "p\<lparr>kp_match := m, kp_line_index := l, kp_line_index := li, kp_match := m'\<rparr> = p\<lparr>kp_line_index := li, kp_match := m'\<rparr>"
  by (cases p) simp

lemma parse_comment:
  assumes "kp_state p = PARSE_INITIAL" "0 < kp_line_index p" "kp_match p < kp_line_index p" "10 \<notin> set t"
  shows "\<exists>p'. key_parse_chars t p = Some p' \<and> kp_state p' = PARSE_INITIAL \<and>
    (\<exists>li m. p' = p\<lparr>kp_line_index := li, kp_match := m\<rparr>)"
  using assms
proof (induction t arbitrary: p)
  case (Cons c t)
  let ?p = "(parse_match static_key_head PARSE_HEAD c p)"
  have m: "kp_state ?p = PARSE_INITIAL" "kp_match ?p \<le> kp_line_index p" "\<exists>m. ?p = p\<lparr>kp_match := m\<rparr>"
    using Cons.prems by (auto simp: parse_match_def Let_def intro: exI[of _ "kp_match p"])
  let ?q = "?p\<lparr>kp_line_index := kp_line_index p + 1\<rparr>"
  have "key_parse_char p c = Some ?q"
    using Cons.prems m by (auto simp: key_parse_char_def Let_def)
  moreover obtain p' where "key_parse_chars t ?q = Some p'" "kp_state p' = PARSE_INITIAL"
    "\<exists>li m. p' = ?q\<lparr>kp_line_index := li, kp_match := m\<rparr>"
    using Cons.IH[of ?q] Cons.prems m by auto
  ultimately show ?case using m(3) by (simp, elim exE) (metis kp_upd_swap)
next
  case Nil
  have "p = p\<lparr>kp_line_index := kp_line_index p, kp_match := kp_match p\<rparr>" by simp
  then show ?case using Nil by (simp only: key_parse_chars.simps) blast
qed

lemma parse_comment_line:
  assumes "kp_state p = PARSE_INITIAL" "kp_line_index p = 0" "kp_match p = 0" "10 \<notin> set t" "c \<noteq> 45" "c \<noteq> 10"
  shows "\<exists>n. key_parse_chars (c # t @ [10]) p = Some (p\<lparr>kp_line_num := n\<rparr>)"
proof -
  let ?q = "p\<lparr>kp_line_index := 1\<rparr>"
  have "key_parse_char p c = Some ?q"
    using assms static_key_text by (simp add: key_parse_char_def parse_match_def)
  moreover obtain p' li m where "key_parse_chars t ?q = Some p'" "p' = ?q\<lparr>kp_line_index := li, kp_match := m\<rparr>"
    using parse_comment[of ?q t] assms by auto
  ultimately have "key_parse_chars (c # t @ [10]) p = Some (p\<lparr>kp_line_index := 0, kp_match := 0, kp_line_num := kp_line_num p + 1\<rparr>)"
    by (simp add: key_parse_chars_append key_parse_char_def)
  moreover have "p\<lparr>kp_line_index := 0, kp_match := 0, kp_line_num := x\<rparr> = p\<lparr>kp_line_num := x\<rparr>" for x
    using assms(2,3) by (cases p) simp
  ultimately show ?thesis by auto
qed

text \<open>The header and footer lines.\<close>

definition key_line :: "key_file_state \<Rightarrow> byte list \<Rightarrow> key_file_state \<Rightarrow> bool" where
  "key_line s t f \<longleftrightarrow> (s, t, f) \<in> {(PARSE_INITIAL, static_key_head, PARSE_HEAD), (PARSE_FOOT, static_key_foot, PARSE_FINISHED)}"

lemma parse_match_sel:
  "kp_state (parse_match t f c p) = kp_state p \<or> kp_state (parse_match t f c p) = f"
  "kp_line_index (parse_match t f c p) = kp_line_index p"
  by (auto simp: parse_match_def Let_def)

lemma parse_line_char:
  assumes "key_line s t f" "kp_state p = s" "s = PARSE_INITIAL \<or> 0 < kp_line_index p" "c \<noteq> 10"
  shows "key_parse_char p c = Some ((parse_match t f c p)\<lparr>kp_line_index := kp_line_index p + 1\<rparr>)"
proof -
  have "(s, t, f) = (PARSE_INITIAL, static_key_head, PARSE_HEAD) \<or> (s, t, f) = (PARSE_FOOT, static_key_foot, PARSE_FINISHED)"
    using assms(1) by (simp add: key_line_def)
  then show ?thesis
  proof
    assume "(s, t, f) = (PARSE_INITIAL, static_key_head, PARSE_HEAD)"
    then show ?thesis using assms(2,4) parse_match_sel[of static_key_head PARSE_HEAD c p]
      by (elim disjE) (simp_all add: key_parse_char_def Let_def)
  next
    assume "(s, t, f) = (PARSE_FOOT, static_key_foot, PARSE_FINISHED)"
    then show ?thesis using assms(2-4) parse_match_sel[of static_key_foot PARSE_FINISHED c p]
      by (elim disjE) (simp_all add: key_parse_char_def Let_def)
  qed
qed

lemma parse_line:
  assumes "key_line s t f" "kp_state p = s" "s = PARSE_INITIAL \<or> 0 < i"
    and "kp_line_index p = int i" "kp_match p = int i" "i < length t"
  shows "key_parse_chars (drop i t) p = Some (p\<lparr>kp_line_index := int (length t), kp_match := int (length t), kp_state := f\<rparr>)"
  using assms
proof (induction "length t - i" arbitrary: i p)
  case (Suc n)
  have d: "drop i t = t ! i # drop (Suc i) t" using Suc.prems(6) by (simp add: Cons_nth_drop_Suc)
  have "t ! i \<in> set t" using Suc.prems(6) by simp
  then have "t ! i \<noteq> 10" using static_key_text(3,4) Suc.prems(1) by (auto simp: key_line_def)
  then have step: "key_parse_char p (t ! i) = Some ((parse_match t f (t ! i) p)\<lparr>kp_line_index := int i + 1\<rparr>)"
    using parse_line_char[OF Suc.prems(1,2)] Suc.prems(3,4) by auto
  show ?case
  proof (cases "Suc i = length t")
    case True
    then show ?thesis unfolding d using step Suc.prems by (simp add: parse_match_def Let_def)
  next
    case False
    let ?p = "p\<lparr>kp_match := int i + 1, kp_line_index := int i + 1\<rparr>"
    have "int i + 1 \<noteq> int (length t)" using False by linarith
    then have "key_parse_char p (t ! i) = Some ?p" using step Suc.prems by (simp add: parse_match_def Let_def)
    then show ?thesis unfolding d using Suc.hyps(1)[of "Suc i" ?p] Suc.hyps(2) Suc.prems False by simp
  qed
qed simp

subsection \<open>The data\<close>

definition data_state :: "byte list \<Rightarrow> nat \<Rightarrow> key_parse \<Rightarrow> bool" where
  "data_state out n p \<longleftrightarrow> kp_out p = out \<and> kp_count p = int n \<and> kp_hb_index p = 0 \<and> 0 \<le> kp_line_index p \<and>
     length (kp_hex_byte p) = 3 \<and> kp_hex_byte p ! 2 = 0 \<and>
     (if n = 256 then kp_state p = PARSE_DATA_COMPLETE
      else kp_state p = PARSE_DATA \<or> kp_state p = PARSE_HEAD \<and> kp_line_index p = 0)"

lemma data_newline:
  assumes "data_state out n p"
  shows "\<exists>p'. key_parse_char p 10 = Some p' \<and> data_state out n p' \<and> kp_line_index p' = 0 \<and> kp_match p' = 0 \<and>
    (kp_state p \<noteq> PARSE_HEAD \<longrightarrow> kp_state p' = kp_state p)"
  using assms by (auto simp: key_parse_char_def data_state_def split: if_splits)

text \<open>Both digits of a byte.\<close>

lemma data_digit:
  assumes "kp_state p = PARSE_DATA \<or> kp_state p = PARSE_HEAD \<and> kp_line_index p = 0"
    and "isxdigit c" "c \<noteq> 10" "c \<noteq> 45"
  shows "key_parse_char p c = map_option (\<lambda>p. p\<lparr>kp_line_index := kp_line_index p + 1\<rparr>) (parse_data c (p\<lparr>kp_state := PARSE_DATA\<rparr>))"
proof -
  have same: "kp_state p = PARSE_DATA \<Longrightarrow> p\<lparr>kp_state := PARSE_DATA\<rparr> = p" by (cases p) simp
  have bind: "(x \<bind> (\<lambda>p. Some (p\<lparr>kp_line_index := kp_line_index p + 1\<rparr>))) =
      map_option (\<lambda>p. p\<lparr>kp_line_index := kp_line_index p + 1\<rparr>) x" for x :: "key_parse option"
    by (cases x) simp_all
  from assms(1) show ?thesis
  proof
    assume "kp_state p = PARSE_DATA"
    then show ?thesis unfolding same[OF \<open>kp_state p = PARSE_DATA\<close>]
      using assms(3,4) by (simp add: key_parse_char_def Let_def bind)
  next
    assume "kp_state p = PARSE_HEAD \<and> kp_line_index p = 0"
    then show ?thesis using assms(3,4) by (simp add: key_parse_char_def Let_def bind)
  qed
qed

lemma data_byte:
  assumes "data_state out n p" "n < 256" "length out = 256"
  shows "\<exists>p'. key_parse_chars (format_02x x) p = Some p' \<and> data_state (out[n := x]) (Suc n) p' \<and> kp_state p' \<noteq> PARSE_HEAD"
proof -
  let ?a = "hex_char (x div 16)" and ?b = "hex_char (x mod 16)"
  note a = hex_char_digit[OF byte_nibbles(1)[of x]] and b = hex_char_digit[OF byte_nibbles(2)[of x]]
  obtain h0 h1 where h: "kp_hex_byte p = [h0, h1, 0]"
    using assms(1) by (auto simp: data_state_def length_Suc_conv numeral_3_eq_3 numeral_2_eq_2)
  let ?p1 = "p\<lparr>kp_state := PARSE_DATA, kp_hex_byte := [?a, h1, 0], kp_hb_index := 1, kp_line_index := kp_line_index p + 1\<rparr>"
  have st: "kp_state p = PARSE_DATA \<or> kp_state p = PARSE_HEAD \<and> kp_line_index p = 0"
    using assms(1,2) by (auto simp: data_state_def)
  have "key_parse_char p ?a = Some ?p1"
    using data_digit[OF st a(1) a(4,5)] assms(1) h a(1) by (simp add: parse_data_def data_state_def)
  moreover have "mem_write out (int n) [x] = Some (out[n := x])"
    using assms(2,3) by (simp add: mem_write_def upd_conv_take_nth_drop)
  then have "\<exists>p'. key_parse_char ?p1 ?b = Some p' \<and> data_state (out[n := x]) (Suc n) p' \<and> kp_state p' \<noteq> PARSE_HEAD"
    using data_digit[of ?p1 ?b] b assms(1) sscanf_02x[of x]
    by (cases "n = 255") (simp_all add: parse_data_def data_state_def Let_def)
  ultimately show ?thesis by (auto simp: format_02x_def)
qed

lemma parse_hex_text:
  assumes "data_state out n p" "length out = 256" "n + length xs \<le> 256"
  shows "\<exists>p'. key_parse_chars (hex_text i xs) p = Some p' \<and> (xs \<noteq> [] \<longrightarrow> kp_state p' \<noteq> PARSE_HEAD) \<and>
    data_state (take n out @ xs @ drop (n + length xs) out) (n + length xs) p'"
  using assms
proof (induction xs arbitrary: out n p i)
  case (Cons x xs)
  define sep where "sep = (if i \<noteq> 0 \<and> i mod 16 = 0 then [10] else [] :: byte list)"
  obtain p1 where p1: "key_parse_chars sep p = Some p1" "data_state out n p1"
    using data_newline[OF Cons.prems(1)] Cons.prems(1) by (cases "i \<noteq> 0 \<and> i mod 16 = 0") (auto simp: sep_def)
  obtain p2 where p2: "key_parse_chars (format_02x x) p1 = Some p2" "data_state (out[n := x]) (Suc n) p2" "kp_state p2 \<noteq> PARSE_HEAD"
    using data_byte[OF p1(2), of x] Cons.prems by auto
  obtain p3 where p3: "key_parse_chars (hex_text (i + 1) xs) p2 = Some p3" "xs \<noteq> [] \<longrightarrow> kp_state p3 \<noteq> PARSE_HEAD"
    "data_state (take (Suc n) (out[n := x]) @ xs @ drop (Suc n + length xs) (out[n := x])) (Suc n + length xs) p3"
    using Cons.IH[OF p2(2), of "i + 1"] Cons.prems by auto
  have "take (Suc n) (out[n := x]) @ xs @ drop (Suc n + length xs) (out[n := x]) =
      take n out @ (x # xs) @ drop (n + length (x # xs)) out"
    using Cons.prems by (simp add: take_Suc_conv_app_nth)
  moreover have "kp_state p3 \<noteq> PARSE_HEAD" using p3 p2(3) by (cases xs) auto
  moreover have "hex_text i (x # xs) = sep @ format_02x x @ hex_text (i + 1) xs" by (simp add: sep_def)
  ultimately show ?case using p1 p2 p3 by (simp add: key_parse_chars_append)
qed simp

lemma parse_key_text:
  assumes "data_state out n p" "length out = 256" "n + length xs \<le> 256" "xs \<noteq> []"
  shows "\<exists>p'. key_parse_chars (hex_text 0 xs @ [10]) p = Some p' \<and> kp_state p' \<noteq> PARSE_HEAD \<and> kp_line_index p' = 0 \<and>
    kp_match p' = 0 \<and> data_state (take n out @ xs @ drop (n + length xs) out) (n + length xs) p'"
proof -
  obtain p1 where p1: "key_parse_chars (hex_text 0 xs) p = Some p1" "kp_state p1 \<noteq> PARSE_HEAD"
    "data_state (take n out @ xs @ drop (n + length xs) out) (n + length xs) p1"
    using parse_hex_text[OF assms(1-3), of 0] assms(4) by blast
  then show ?thesis using data_newline[OF p1(3)] by (auto simp: key_parse_chars_append)
qed

lemma parse_footer:
  assumes "data_state out n p" "kp_state p \<noteq> PARSE_HEAD" "kp_line_index p = 0" "kp_match p = 0"
  shows "\<exists>p'. key_parse_chars (static_key_foot @ [10]) p = Some p' \<and> kp_state p' = PARSE_FINISHED \<and>
    kp_out p' = out \<and> kp_count p' = int n"
proof -
  let ?q = "p\<lparr>kp_state := PARSE_FOOT, kp_match := 1, kp_line_index := 1\<rparr>"
  have "kp_state p = PARSE_DATA \<or> kp_state p = PARSE_DATA_COMPLETE"
    using assms(1,2) by (auto simp: data_state_def split: if_splits)
  then have "key_parse_char p 45 = Some ?q"
    using assms(3,4) static_key_text by (elim disjE) (simp_all add: key_parse_char_def parse_match_def Let_def)
  moreover have "static_key_foot = 45 # drop 1 static_key_foot"
    using static_key_text(2,8) Cons_nth_drop_Suc[of 0 static_key_foot] by simp
  moreover have "key_parse_chars (drop 1 static_key_foot) ?q =
      Some (?q\<lparr>kp_line_index := 35, kp_match := 35, kp_state := PARSE_FINISHED\<rparr>)"
    using parse_line[of PARSE_FOOT static_key_foot PARSE_FINISHED ?q 1] static_key_text(2) by (simp add: key_line_def)
  ultimately have "key_parse_chars static_key_foot p = Some (?q\<lparr>kp_line_index := 35, kp_match := 35, kp_state := PARSE_FINISHED\<rparr>)"
    by (metis bind.bind_lunit key_parse_chars.simps(2))
  then show ?thesis using assms(1) by (simp add: key_parse_chars_append key_parse_char_def data_state_def)
qed

lemma parse_header:
  assumes "kp_state p = PARSE_INITIAL" "kp_line_index p = 0" "kp_match p = 0"
  shows "\<exists>n. key_parse_chars (static_key_head @ [10]) p = Some (p\<lparr>kp_state := PARSE_HEAD, kp_line_num := n\<rparr>)"
proof -
  have "key_parse_chars static_key_head p = Some (p\<lparr>kp_line_index := 37, kp_match := 37, kp_state := PARSE_HEAD\<rparr>)"
    using parse_line[of PARSE_INITIAL static_key_head PARSE_HEAD p 0] assms static_key_text(1) by (simp add: key_line_def)
  then have "key_parse_chars (static_key_head @ [10]) p =
      Some (p\<lparr>kp_state := PARSE_HEAD, kp_line_index := 0, kp_match := 0, kp_line_num := kp_line_num p + 1\<rparr>)"
    by (simp add: key_parse_chars_append key_parse_char_def)
  moreover have "p\<lparr>kp_state := s, kp_line_index := 0, kp_match := 0, kp_line_num := x\<rparr> = p\<lparr>kp_state := s, kp_line_num := x\<rparr>" for x s
    using assms(2,3) by (cases p) simp
  ultimately show ?thesis by auto
qed

definition key_file_head :: "nat \<Rightarrow> byte list" where
  "key_file_head nbits = ascii ''#'' @ [10] @ ascii ''# '' @ format_d nbits @ ascii '' bit OpenVPN static key'' @ [10] @ ascii ''#'' @ [10]"

lemma parse_file_head:
  assumes "kp_state p = PARSE_INITIAL" "kp_line_index p = 0" "kp_match p = 0" "10 \<notin> set (format_d nbits)"
  shows "\<exists>n. key_parse_chars (key_file_head nbits) p = Some (p\<lparr>kp_line_num := n\<rparr>)"
proof -
  let ?t = "32 # format_d nbits @ ascii '' bit OpenVPN static key''"
  have eq: "key_file_head nbits = (35 # [] @ [10]) @ (35 # ?t @ [10]) @ (35 # [] @ [10])"
    by (simp add: key_file_head_def ascii_def)
  have "10 \<notin> set ?t" using assms(4) by (simp add: ascii_def)
  have line: "\<exists>n'. key_parse_chars (35 # u @ [10]) (p\<lparr>kp_line_num := n\<rparr>) = Some (p\<lparr>kp_line_num := n'\<rparr>)" if u: "10 \<notin> set u" for u n
    using parse_comment_line[of "p\<lparr>kp_line_num := n\<rparr>" u 35] assms(1-3) u by simp
  obtain n1 where n1: "key_parse_chars (35 # [] @ [10]) p = Some (p\<lparr>kp_line_num := n1\<rparr>)"
    using line[of "[]" "kp_line_num p"] by auto
  obtain n2 where n2: "key_parse_chars (35 # ?t @ [10]) (p\<lparr>kp_line_num := n1\<rparr>) = Some (p\<lparr>kp_line_num := n2\<rparr>)"
    using line[OF \<open>10 \<notin> set ?t\<close>, of n1] by blast
  obtain n3 where n3: "key_parse_chars (35 # [] @ [10]) (p\<lparr>kp_line_num := n2\<rparr>) = Some (p\<lparr>kp_line_num := n3\<rparr>)"
    using line[of "[]" n2] by auto
  show ?thesis unfolding eq key_parse_chars_append[of "35 # [] @ [10]"] key_parse_chars_append[of "35 # ?t @ [10]"]
    n1 n2 n3 bind.bind_lunit by blast
qed

definition keys_text :: "key list \<Rightarrow> byte list" where
  "keys_text ks = concat (map (\<lambda>k. hex_text 0 (key_block k) @ [10]) ks)"

lemma hex_text_key_length: "wf_key k \<Longrightarrow> length (hex_text 0 (key_block k)) \<le> 264"
  using hex_text_length[of 0 "key_block k"] by (simp add: wf_key_def key_block_def)

lemma write_key_loop_text:
  assumes "\<forall>k \<in> set ks. wf_key k" "265 * length ks < length post"
  shows "\<exists>post'. write_key_loop junk ks (mk_buf pre c post) = Some (mk_buf pre (c @ keys_text ks) post') \<and>
    length post - 265 * length ks \<le> length post'"
  using assms
proof (induction ks arbitrary: c post)
  case (Cons k ks)
  let ?s = "hex_text 0 (key_block k) @ [10]"
  have wf: "wf_key k" using Cons.prems(1) by simp
  have l: "length ?s \<le> 265" using hex_text_key_length[OF wf] by simp
  have "0 \<notin> set ?s" using hex_text_no_zero by simp
  then obtain p1 where p1: "buf_printf (mk_buf pre c post) ?s = Some (mk_buf pre (c @ ?s) p1)" "length p1 = length post - length ?s"
    using buf_printf_fits[of ?s post pre c] l Cons.prems(2) by auto
  have room: "length post - 265 \<le> length p1" "265 * length ks < length p1"
    using p1(2) l Cons.prems(2) by auto
  obtain p2 where p2: "write_key_loop junk ks (mk_buf pre (c @ ?s) p1) = Some (mk_buf pre ((c @ ?s) @ keys_text ks) p2)"
    "length p1 - 265 * length ks \<le> length p2"
    using Cons.IH[of p1 "c @ ?s"] Cons.prems(1) room(2) by auto
  have "length (key_block k) = 128" using wf by (simp add: wf_key_def key_block_def)
  from format_hex_key[OF this, of junk] have "write_key_loop junk (k # ks) (mk_buf pre c post) =
      Some (mk_buf pre (c @ keys_text (k # ks)) p2)"
    using p1(1) p2(1) by (simp add: keys_text_def)
  moreover have "length post - 265 * length (k # ks) \<le> length p2" using p2(2) room by simp
  ultimately show ?case by blast
qed (auto simp: keys_text_def)

lemma format_d_digits: "set (format_d n) \<subseteq> {48..57}"
proof (induction n rule: format_d.induct)
  case (1 n)
  have digit: "48 + (word_of_nat d :: byte) \<in> {48..57}" if "d < 10" for d
  proof -
    have "d \<in> {0, 1, 2, 3, 4, 5, 6, 7, 8, 9}" using that by auto
    then show ?thesis by (elim insertE emptyE) simp_all
  qed
  have "n mod 10 < 10" by simp
  then show ?case using 1 digit[of n] digit[of "n mod 10"] by (subst format_d.simps) (auto simp del: format_d.simps)
qed

lemma format_d_nbits: "length ks \<le> 2 \<Longrightarrow> length (format_d (1024 * length ks)) \<le> 4"
proof -
  assume "length ks \<le> 2"
  then have "length ks = 0 \<or> length ks = 1 \<or> length ks = 2" by linarith
  moreover have "length (format_d 0) \<le> 4" "length (format_d 1024) \<le> 4" "length (format_d 2048) \<le> 4" by simp_all
  ultimately show ?thesis by (elim disjE) (simp_all del: format_d.simps)
qed

definition key_file_text :: "key list \<Rightarrow> byte list" where
  "key_file_text ks = key_file_head (1024 * length ks) @ static_key_head @ [10] @ keys_text ks @ static_key_foot @ [10]"

lemma write_key_file_text:
  assumes "\<forall>k \<in> set ks. wf_key k" "length ks \<le> 2"
  shows "write_key_file junk ks = Some (key_file_text ks, 1024 * int (length ks))"
proof -
  let ?n = "1024 * length ks"
  have alloc: "\<exists>post. alloc_buf junk n = mk_buf [] [] post \<and> length post = n" if "0 < n" for n
    using that by (simp add: alloc_buf_def mk_buf_def Let_def)
  obtain p0 where p0: "alloc_buf junk 2048 = mk_buf [] [] p0" "length p0 = 2048" using alloc[of 2048] by auto
  obtain p1 where p1: "buf_printf (mk_buf [] [] p0) (static_key_head @ [10]) = Some (mk_buf [] (static_key_head @ [10]) p1)"
    "length p1 = 2010"
    using buf_printf_fits[of "static_key_head @ [10]" p0 "[]" "[]"] p0(2) static_key_text(1,5) by auto
  obtain p2 where p2: "write_key_loop junk ks (mk_buf [] (static_key_head @ [10]) p1) =
      Some (mk_buf [] ((static_key_head @ [10]) @ keys_text ks) p2)" "1480 \<le> length p2"
    using write_key_loop_text[OF assms(1), of p1 junk "[]" "static_key_head @ [10]"] p1(2) assms(2) by auto
  obtain p3 where p3: "buf_printf (mk_buf [] ((static_key_head @ [10]) @ keys_text ks) p2) (static_key_foot @ [10]) =
      Some (mk_buf [] (((static_key_head @ [10]) @ keys_text ks) @ static_key_foot @ [10]) p3)"
    using buf_printf_fits[of "static_key_foot @ [10]" p2 "[]"] p2(2) static_key_text(2,6) by fastforce
  obtain q0 where q0: "alloc_buf junk 128 = mk_buf [] [] q0" "length q0 = 128" using alloc[of 128] by auto
  have "length (key_file_head ?n) < 128"
    using format_d_nbits[OF assms(2)] by (simp add: key_file_head_def ascii_def del: format_d.simps)
  moreover have "0 \<notin> set (format_d ?n)" using format_d_digits[of ?n] by (auto simp del: format_d.simps)
  then have "0 \<notin> set (key_file_head ?n)" by (simp add: key_file_head_def ascii_def del: format_d.simps)
  ultimately obtain q1 where q1: "buf_printf (mk_buf [] [] q0) (key_file_head ?n) = Some (mk_buf [] (key_file_head ?n) q1)"
    using buf_printf_fits[of "key_file_head ?n" q0 "[]" "[]"] q0(2) by auto
  show ?thesis using p0 p1 p2 p3 q0 q1
    unfolding write_key_file_def Let_def key_file_head_def[symmetric]
    by (simp add: key_file_text_def del: format_d.simps)
qed

lemma parse_keys_text:
  assumes "\<forall>k \<in> set ks. wf_key k" "128 * (m + length ks) \<le> 256" "ks \<noteq> []"
    and "data_state (out @ replicate (256 - 128 * m) 0) (128 * m) p" "length out = 128 * m"
  shows "\<exists>p'. key_parse_chars (keys_text ks) p = Some p' \<and> kp_state p' \<noteq> PARSE_HEAD \<and> kp_line_index p' = 0 \<and>
    kp_match p' = 0 \<and> data_state (out @ concat (map key_block ks) @ replicate (256 - 128 * (m + length ks)) 0) (128 * (m + length ks)) p'"
  using assms
proof (induction ks arbitrary: m out p)
  case (Cons k ks)
  have lk: "length (key_block k) = 128" using Cons.prems(1) by (simp add: wf_key_def key_block_def)
  have drop: "drop 128 (replicate (256 - 128 * m) (0 :: byte)) = replicate (256 - 128 * Suc m) 0" by simp
  obtain p1 where p1: "key_parse_chars (hex_text 0 (key_block k) @ [10]) p = Some p1" "kp_state p1 \<noteq> PARSE_HEAD"
    "kp_line_index p1 = 0" "kp_match p1 = 0"
    "data_state ((out @ key_block k) @ replicate (256 - 128 * Suc m) 0) (128 * Suc m) p1"
  proof -
    have "length (out @ replicate (256 - 128 * m) (0 :: byte)) = 256" "128 * m + length (key_block k) \<le> 256" "key_block k \<noteq> []"
      using Cons.prems(2,5) lk by auto
    from parse_key_text[OF Cons.prems(4) this] show thesis
      using that Cons.prems(5) lk drop by (auto simp: algebra_simps)
  qed
  show ?case
  proof (cases "ks = []")
    case True
    then show ?thesis using p1 by (auto simp: keys_text_def)
  next
    case False
    then obtain p2 where p2: "key_parse_chars (keys_text ks) p1 = Some p2" "kp_state p2 \<noteq> PARSE_HEAD" "kp_line_index p2 = 0"
      "kp_match p2 = 0" "data_state ((out @ key_block k) @ concat (map key_block ks) @
        replicate (256 - 128 * (Suc m + length ks)) 0) (128 * (Suc m + length ks)) p2"
      using Cons.IH[of "Suc m" "out @ key_block k" p1] Cons.prems lk p1(5) by auto
    moreover have "keys_text (k # ks) = (hex_text 0 (key_block k) @ [10]) @ keys_text ks" by (simp add: keys_text_def)
    then have "key_parse_chars (keys_text (k # ks)) p = key_parse_chars (keys_text ks) p1"
      using p1(1) by (metis key_parse_chars_append bind.bind_lunit)
    ultimately show ?thesis by auto
  qed
qed simp

lemma block_key_block: "wf_key k \<Longrightarrow> block_key (key_block k) = k"
  by (cases k) (simp add: wf_key_def block_key_def key_block_def)

lemma block_key_zero: "block_key (replicate 128 0) = clear_key"
  by (simp add: block_key_def clear_key_def)

lemma parse_key_file_text:
  assumes "\<forall>k \<in> set ks. wf_key k" "1 \<le> length ks" "length ks \<le> 2"
  shows "\<exists>p. key_parse_chars (key_file_text ks) key_parse_init = Some p \<and> kp_state p = PARSE_FINISHED \<and>
    kp_out p = concat (map key_block ks) @ replicate (256 - 128 * length ks) 0 \<and> kp_count p = 128 * int (length ks)"
proof -
  let ?n = "1024 * length ks"
  have "10 \<notin> set (format_d ?n)" using format_d_digits[of ?n] by (auto simp del: format_d.simps)
  then obtain n1 where h1: "key_parse_chars (key_file_head ?n) key_parse_init = Some (key_parse_init\<lparr>kp_line_num := n1\<rparr>)"
    using parse_file_head[of key_parse_init ?n] by (auto simp: key_parse_init_def)
  obtain p1 where h2: "key_parse_chars (static_key_head @ [10]) (key_parse_init\<lparr>kp_line_num := n1\<rparr>) = Some p1"
    "p1 = key_parse_init\<lparr>kp_state := PARSE_HEAD, kp_line_num := kp_line_num p1\<rparr>"
    using parse_header[of "key_parse_init\<lparr>kp_line_num := n1\<rparr>"] by (auto simp: key_parse_init_def)
  have "data_state (replicate 256 0) 0 p1"
    by (subst h2(2)) (simp add: data_state_def key_parse_init_def)
  then obtain p2 where h3: "key_parse_chars (keys_text ks) p1 = Some p2" "kp_state p2 \<noteq> PARSE_HEAD" "kp_line_index p2 = 0"
    "kp_match p2 = 0" "data_state (concat (map key_block ks) @ replicate (256 - 128 * length ks) 0) (128 * length ks) p2"
    using parse_keys_text[OF assms(1), of 0 "[]" p1] assms(2,3) by (cases "ks = []") auto
  obtain p3 where h4: "key_parse_chars (static_key_foot @ [10]) p2 = Some p3" "kp_state p3 = PARSE_FINISHED"
    "kp_out p3 = concat (map key_block ks) @ replicate (256 - 128 * length ks) 0" "kp_count p3 = 128 * int (length ks)"
    using parse_footer[OF h3(5,2,3,4)] by auto
  have "key_file_text ks = key_file_head ?n @ (static_key_head @ [10]) @ keys_text ks @ (static_key_foot @ [10])"
    by (simp add: key_file_text_def)
  then have "key_parse_chars (key_file_text ks) key_parse_init = Some p3"
    by (simp only: key_parse_chars_append[of "key_file_head _"] key_parse_chars_append[of "_ @ [10]" "keys_text ks @ _"]
      key_parse_chars_append[of "keys_text ks"] h1 h2(1) h3(1) h4(1) bind.bind_lunit)
  then show ?thesis using h4 by blast
qed

text \<open>
  C27: What write_key_file writes, read_key_file reads back.  For one or two keys of full size the file
  has 1024 bits for each key, fits the buffers it is formatted in, and however the system hands it
  out in pieces, reading it gives the keys in their order, with the missing second key cleared.
\<close>

theorem key_file_roundtrip:
  assumes "\<forall>k \<in> set ks. wf_key k" "1 \<le> length ks" "length ks \<le> 2"
  shows "\<exists>file. write_key_file junk ks = Some (file, 1024 * int (length ks)) \<and>
    (\<forall>bss. concat bss = file \<longrightarrow>
      read_key_file (map Some bss) must = Some \<lparr>key2_n = int (length ks), key2_keys = take 2 (ks @ [clear_key])\<rparr>)"
proof -
  obtain p where p: "key_parse_chars (key_file_text ks) key_parse_init = Some p" "kp_state p = PARSE_FINISHED"
    "kp_out p = concat (map key_block ks) @ replicate (256 - 128 * length ks) 0" "kp_count p = 128 * int (length ks)"
    using parse_key_file_text[OF assms] by blast
  have "[block_key (take 128 (kp_out p)), block_key (drop 128 (kp_out p))] = take 2 (ks @ [clear_key])"
  proof (cases "length ks = 1")
    case True
    then obtain k where "ks = [k]" by (auto simp: length_Suc_conv)
    moreover have "length (key_block k) = 128" using calculation assms(1) by (simp add: wf_key_def key_block_def)
    ultimately show ?thesis using p(3) assms(1) by (simp add: block_key_block block_key_zero)
  next
    case False
    then have "length ks = 2" using assms(2,3) by linarith
    then obtain k l where "ks = [k, l]" by (auto simp: length_Suc_conv numeral_2_eq_2)
    moreover have "length (key_block k) = 128" using calculation assms(1) by (simp add: wf_key_def key_block_def)
    ultimately show ?thesis using p(3) assms(1) by (simp add: block_key_block)
  qed
  then have "read_key_file (map Some bss) must = Some \<lparr>key2_n = int (length ks), key2_keys = take 2 (ks @ [clear_key])\<rparr>"
    if "concat bss = key_file_text ks" for bss
    using p assms(2,3) by (auto simp: read_key_file_def key_file_loop_chunks that Let_def)
  then show ?thesis using write_key_file_text[OF assms(1,3)] by blast
qed

theorem key_file_roundtrip_witness:
  "\<exists>file. write_key_file (\<lambda>_. 7) [clear_key] = Some (file, 1024) \<and>
    read_key_file [Some (take 64 file), Some (drop 64 file)] True = Some \<lparr>key2_n = 1, key2_keys = [clear_key, clear_key]\<rparr>"
proof -
  have "\<forall>k \<in> set [clear_key]. wf_key k" by (simp add: wf_key_def clear_key_def)
  from key_file_roundtrip[OF this, of "\<lambda>_. 7" True] obtain f where
    "write_key_file (\<lambda>_. 7) [clear_key] = Some (f, 1024)"
    and r: "\<forall>bss. concat bss = f \<longrightarrow> read_key_file (map Some bss) True = Some \<lparr>key2_n = 1, key2_keys = [clear_key, clear_key]\<rparr>"
    by auto
  then show ?thesis using r[THEN spec[of _ "[take 64 f, drop 64 f]"]] by simp
qed

lemma key_file_read_error: "read_key_file (map Some bss @ None # reads) must = None"
proof -
  have "key_file_loop (map Some bss @ None # reads) p = None" for p
    by (induction bss arbitrary: p) (simp_all cong: Option.bind_cong)
  then show ?thesis by (simp add: read_key_file_def)
qed

end
