(* ===== verification/Pool.thy ===== *)
theory Pool
  imports Buffer_Safety
begin

text \<open>
  The pool of client addresses: pool.h and pool.c.  A pool hands out single addresses or /30
  subnets, remembers which client had an entry and prefers to give it back to that client.
  Addresses are in host order.  The status file of ifconfig_pool_read is a list of lines, and
  getaddr is a parameter; opening, flushing and closing the file are left out.
\<close>

section \<open>Data\<close>

abbreviation (input) "IFCONFIG_POOL_MAX \<equiv> (65536 :: u32)"

datatype pool_type = IFCONFIG_POOL_30NET | IFCONFIG_POOL_INDIV

record ifconfig_pool_entry =
  ipe_in_use :: bool
  ipe_common_name :: "byte list option"
  ipe_last_release :: time_t
  ipe_fixed :: bool

record ifconfig_pool =
  pool_base :: u32
  pool_size :: int
  pool_type :: pool_type
  pool_duplicate_cn :: bool
  pool_list :: "ifconfig_pool_entry list"

definition clear_pool_entry :: ifconfig_pool_entry where
  "clear_pool_entry = \<lparr>ipe_in_use = False, ipe_common_name = None, ipe_last_release = 0, ipe_fixed = False\<rparr>"

section \<open>Operations\<close>

definition ifconfig_pool_entry_free :: "time_t \<Rightarrow> ifconfig_pool_entry \<Rightarrow> bool \<Rightarrow> ifconfig_pool_entry" where
  "ifconfig_pool_entry_free now ipe hard =
     (let ipe = ipe\<lparr>ipe_in_use := False\<rparr>;
          ipe = (if hard then ipe\<lparr>ipe_common_name := None\<rparr> else ipe)
      in ipe\<lparr>ipe_last_release := (if hard then 0 else now)\<rparr>)"

text \<open>The loop of ifconfig_pool_find over the entries from index \<open>i\<close> on.\<close>

fun pool_find_loop ::
  "bool \<Rightarrow> byte list option \<Rightarrow> ifconfig_pool_entry list \<Rightarrow> int \<Rightarrow> time_t \<Rightarrow> int \<Rightarrow> int \<Rightarrow> int \<times> int" where
  "pool_find_loop dup cn [] i earliest previous new = (previous, new)"
| "pool_find_loop dup cn (ipe # ipes) i earliest previous new =
     (if \<not> ipe_in_use ipe then
        (if dup then (previous, i)
         else
           let (earliest, new) =
                 (if (new = -1 \<or> ipe_last_release ipe < earliest) \<and> \<not> ipe_fixed ipe
                  then (ipe_last_release ipe, i) else (earliest, new));
               previous = (if previous < 0 \<and> cn \<noteq> None \<and> ipe_common_name ipe \<noteq> None \<and> cn = ipe_common_name ipe
                           then i else previous)
           in pool_find_loop dup cn ipes (i + 1) earliest previous new)
      else pool_find_loop dup cn ipes (i + 1) earliest previous new)"

definition ifconfig_pool_find :: "ifconfig_pool \<Rightarrow> byte list option \<Rightarrow> int" where
  "ifconfig_pool_find pool cn =
     (let (previous, new) = pool_find_loop (pool_duplicate_cn pool) cn (pool_list pool) 0 0 (-1) (-1)
      in if previous \<ge> 0 then previous else if new \<ge> 0 then new else -1)"

definition ifconfig_pool_init :: "pool_type \<Rightarrow> u32 \<Rightarrow> u32 \<Rightarrow> bool \<Rightarrow> ifconfig_pool option" where
  "ifconfig_pool_init ty start stop dup = do {
     ASSERT (start \<le> stop \<and> stop - start < IFCONFIG_POOL_MAX);
     let base = (case ty of IFCONFIG_POOL_30NET \<Rightarrow> start AND NOT 3 | IFCONFIG_POOL_INDIV \<Rightarrow> start);
     let sz = (case ty of
          IFCONFIG_POOL_30NET \<Rightarrow> sint (drop_bit 2 (((stop OR 3) + 1) - base))
        | IFCONFIG_POOL_INDIV \<Rightarrow> sint (stop - start + 1));
     Some \<lparr>pool_base = base, pool_size = sz, pool_type = ty, pool_duplicate_cn = dup,
           pool_list = replicate (nat sz) clear_pool_entry\<rparr>
   }"

definition pool_upd :: "ifconfig_pool \<Rightarrow> int \<Rightarrow> ifconfig_pool_entry \<Rightarrow> ifconfig_pool" where
  "pool_upd pool i ipe = pool\<lparr>pool_list := (pool_list pool)[nat i := ipe]\<rparr>"

definition ifconfig_pool_acquire ::
  "time_t \<Rightarrow> ifconfig_pool \<Rightarrow> byte list option \<Rightarrow> (int \<times> (u32 \<times> u32) option \<times> ifconfig_pool) option" where
  "ifconfig_pool_acquire now pool cn =
     (let i = ifconfig_pool_find pool cn in
      if i \<ge> 0 then do {
        let ipe = pool_list pool ! nat i;
        ASSERT (\<not> ipe_in_use ipe);
        let ipe = ifconfig_pool_entry_free now ipe True;
        let ipe = ipe\<lparr>ipe_in_use := True\<rparr>;
        let ipe = (if cn \<noteq> None then ipe\<lparr>ipe_common_name := cn\<rparr> else ipe);
        let addrs = (case pool_type pool of
            IFCONFIG_POOL_30NET \<Rightarrow> (let b = pool_base pool + push_bit 2 (word_of_int i) in (b + 1, b + 2))
          | IFCONFIG_POOL_INDIV \<Rightarrow> (0, pool_base pool + word_of_int i));
        Some (i, Some addrs, pool_upd pool i ipe)
      } else Some (i, None, pool))"

definition ifconfig_pool_release :: "time_t \<Rightarrow> ifconfig_pool \<Rightarrow> int \<Rightarrow> bool \<Rightarrow> bool \<times> ifconfig_pool" where
  "ifconfig_pool_release now pool hand hard =
     (if 0 \<le> hand \<and> hand < pool_size pool
      then (True, pool_upd pool hand (ifconfig_pool_entry_free now (pool_list pool ! nat hand) hard))
      else (False, pool))"

definition ifconfig_pool_ip_base_to_handle :: "ifconfig_pool \<Rightarrow> u32 \<Rightarrow> int" where
  "ifconfig_pool_ip_base_to_handle pool addr =
     (let ret = (case pool_type pool of
          IFCONFIG_POOL_30NET \<Rightarrow> sint (drop_bit 2 (addr - pool_base pool))
        | IFCONFIG_POOL_INDIV \<Rightarrow> sint (addr - pool_base pool))
      in if ret < 0 \<or> ret \<ge> pool_size pool then -1 else ret)"

definition ifconfig_pool_handle_to_ip_base :: "ifconfig_pool \<Rightarrow> int \<Rightarrow> u32" where
  "ifconfig_pool_handle_to_ip_base pool hand =
     (if 0 \<le> hand \<and> hand < pool_size pool
      then (case pool_type pool of
          IFCONFIG_POOL_30NET \<Rightarrow> pool_base pool + push_bit 2 (word_of_int hand)
        | IFCONFIG_POOL_INDIV \<Rightarrow> pool_base pool + word_of_int hand)
      else 0)"

definition ifconfig_pool_set :: "time_t \<Rightarrow> ifconfig_pool \<Rightarrow> byte list \<Rightarrow> u32 \<Rightarrow> bool \<Rightarrow> ifconfig_pool" where
  "ifconfig_pool_set now pool cn addr fixed =
     (let h = ifconfig_pool_ip_base_to_handle pool addr in
      if h \<ge> 0
      then pool_upd pool h ((ifconfig_pool_entry_free now (pool_list pool ! nat h) True)
             \<lparr>ipe_in_use := False, ipe_common_name := Some cn, ipe_last_release := now, ipe_fixed := fixed\<rparr>)
      else pool)"

text \<open>The lines of ifconfig_pool_list; \<open>print_in_addr\<close> is print_in_addr_t.\<close>

definition ifconfig_pool_list :: "(u32 \<Rightarrow> byte list) \<Rightarrow> ifconfig_pool \<Rightarrow> byte list list" where
  "ifconfig_pool_list print_in_addr pool =
     concat (map (\<lambda>i. case ipe_common_name (pool_list pool ! i) of
          None \<Rightarrow> []
        | Some cn \<Rightarrow> [cn @ [44] @ print_in_addr (ifconfig_pool_handle_to_ip_base pool (int i))])
       [0..<nat (pool_size pool)])"

text \<open>One round of the loop of ifconfig_pool_read.\<close>

definition ifconfig_pool_read_line ::
  "(byte list \<Rightarrow> u32 option) \<Rightarrow> time_t \<Rightarrow> bool \<Rightarrow> byte list \<Rightarrow> ifconfig_pool \<Rightarrow> ifconfig_pool option" where
  "ifconfig_pool_read_line getaddr now fixed line pool =
     (if line = [] then Some pool
      else if hd line = 35 \<or> hd line = 59 then Some pool
      else do {
        let b = mk_buf [] line (replicate (256 - length line) 0);
        (ok, b, cn_buf) \<leftarrow> buf_parse b 44 (replicate 128 0) 128;
        if \<not> ok then Some pool
        else do {
          (ok, b, ip_buf) \<leftarrow> buf_parse b 44 (replicate 128 0) 128;
          if \<not> ok then Some pool
          else Some (case getaddr (c_string ip_buf) of
             None \<Rightarrow> pool
           | Some addr \<Rightarrow> ifconfig_pool_set now pool (c_string cn_buf) addr fixed)
        }
      })"

fun ifconfig_pool_read ::
  "(byte list \<Rightarrow> u32 option) \<Rightarrow> time_t \<Rightarrow> bool \<Rightarrow> byte list list \<Rightarrow> ifconfig_pool \<Rightarrow> ifconfig_pool option" where
  "ifconfig_pool_read getaddr now fixed [] pool = Some pool"
| "ifconfig_pool_read getaddr now fixed (line # ls) pool =
     (case ifconfig_pool_read_line getaddr now fixed line pool of
        None \<Rightarrow> None
      | Some pool \<Rightarrow> ifconfig_pool_read getaddr now fixed ls pool)"

section \<open>Invariant\<close>

text \<open>The number of addresses of an entry, and the range of the pool, which does not wrap.\<close>

definition pool_stride :: "ifconfig_pool \<Rightarrow> int" where
  "pool_stride pool = (case pool_type pool of IFCONFIG_POOL_30NET \<Rightarrow> 4 | IFCONFIG_POOL_INDIV \<Rightarrow> 1)"

definition wf_pool :: "ifconfig_pool \<Rightarrow> bool" where
  "wf_pool pool \<longleftrightarrow> pool_size pool = int (length (pool_list pool)) \<and> pool_size pool \<le> 65536 \<and>
     uint (pool_base pool) + pool_stride pool * pool_size pool \<le> 2 ^ 32"

definition pool_addrs :: "ifconfig_pool \<Rightarrow> int \<Rightarrow> u32 \<times> u32" where
  "pool_addrs pool i = (case pool_type pool of
      IFCONFIG_POOL_30NET \<Rightarrow> (let b = pool_base pool + push_bit 2 (word_of_int i) in (b + 1, b + 2))
    | IFCONFIG_POOL_INDIV \<Rightarrow> (0, pool_base pool + word_of_int i))"

lemma uint_sub_le: "(y :: u32) \<le> x \<Longrightarrow> uint (x - y) = uint x - uint y"
  by (simp add: uint_minus_simple_alt)

lemma uint_and_not_3: "uint ((x :: u32) AND NOT 3) = uint x - uint x mod 4"
proof -
  have "NOT x AND (x AND 3) = 0" by (rule bit_eqI) (simp add: bit_simps)
  then have "x - (x AND 3) = x AND NOT (x AND 3)" by (rule disjunctive_diff_eq_and_not)
  also have "\<dots> = x AND NOT 3" by (rule bit_eqI) (auto simp add: bit_simps)
  finally have "x AND NOT 3 = x - (x AND 3)" by simp
  moreover have "uint (x AND 3) = uint x mod 4" by (simp add: uint_and and_3)
  moreover have "x AND 3 \<le> x" by (rule word_and_le2)
  ultimately show ?thesis by (simp add: uint_sub_le)
qed

lemma uint_or_3: "uint ((x :: u32) OR 3) = uint x + 3 - uint x mod 4"
proof -
  have "uint (x OR 3) = uint x OR 3" by (simp add: uint_or)
  moreover have "(uint x AND 3) + (uint x OR 3) = uint x + 3" by (rule plus_and_or)
  ultimately show ?thesis by (simp add: and_3)
qed

lemma sint_u31: "uint (w :: u32) < 2 ^ 31 \<Longrightarrow> sint w = uint w"
  using order_trans[of "- 2147483648" 0 "uint w"] by (simp add: sint_uint signed_take_bit_int_eq_self_iff)

lemma pool_init_wf:
  assumes "ifconfig_pool_init ty start stop dup = Some pool"
  shows "wf_pool pool" "\<forall>e \<in> set (pool_list pool). e = clear_pool_entry" "pool_type pool = ty"
    and "ty = IFCONFIG_POOL_INDIV \<Longrightarrow> pool_base pool = start \<and> uint start + pool_size pool = uint stop + 1"
proof -
  have se: "start \<le> stop" "uint stop - uint start < 65536"
    using assms uint_sub_le[of start stop] by (auto simp: ifconfig_pool_init_def word_less_def split: if_splits)
  show "\<forall>e \<in> set (pool_list pool). e = clear_pool_entry" "pool_type pool = ty"
    using assms by (auto simp: ifconfig_pool_init_def Let_def split: if_splits)
  have "wf_pool pool \<and> (ty = IFCONFIG_POOL_INDIV \<longrightarrow> pool_base pool = start \<and> uint start + pool_size pool = uint stop + 1)"
  proof (cases ty)
    case IFCONFIG_POOL_INDIV
    have "uint (stop - start + 1) = uint stop - uint start + 1"
      using se uint_sub_le[OF se(1)] by (simp add: uint_word_ariths mod_pos_pos_trivial)
    then have "sint (stop - start + 1) = uint stop - uint start + 1" using se by (simp add: sint_u31)
    then show ?thesis
      using assms IFCONFIG_POOL_INDIV se word_le_def[of start stop] uint_lt2p[of stop]
      by (auto simp: ifconfig_pool_init_def wf_pool_def pool_stride_def Let_def split: if_splits)
  next
    case IFCONFIG_POOL_30NET
    let ?b = "start AND NOT 3" and ?n = "(uint stop - uint stop mod 4 + 4 - (uint start - uint start mod 4)) div 4"
    have ends: "uint ?b = uint start - uint start mod 4" "uint start \<le> uint stop" "0 \<le> uint start" "uint stop < 2 ^ 32"
      using se word_le_def[of start stop] uint_lt2p[of stop] uint_and_not_3[of start] by auto
    have m: "0 \<le> uint stop mod 4" "uint stop mod 4 < 4" "0 \<le> uint start mod 4" "uint start mod 4 < 4" by simp_all
    let ?d = "(stop OR 3) + 1 - ?b"
    have "uint ?d = (uint stop + 4 - uint stop mod 4 - uint ?b) mod 2 ^ 32"
      by (simp add: uint_word_ariths uint_or_3 mod_simps algebra_simps)
    also have "\<dots> = uint stop + 4 - uint stop mod 4 - uint ?b"
    proof (rule mod_pos_pos_trivial)
      show "0 \<le> uint stop + 4 - uint stop mod 4 - uint ?b" using ends m by linarith
      have "uint stop + 4 - uint stop mod 4 - uint ?b < 65544" using ends se m by linarith
      then show "uint stop + 4 - uint stop mod 4 - uint ?b < 2 ^ 32" by simp
    qed
    finally have d: "uint ?d = uint stop + 4 - uint stop mod 4 - uint ?b" .
    have "uint (drop_bit 2 ?d) = uint ?d div 4" by (simp add: drop_bit_eq_div uint_div)
    moreover have "0 \<le> uint ?d" "uint ?d < 65536 + 8" using d ends se m by linarith+
    ultimately have sz: "sint (drop_bit 2 ?d) = uint ?d div 4" "0 \<le> uint ?d div 4" "uint ?d div 4 \<le> 65536"
      by (simp_all add: sint_u31 pos_imp_zdiv_nonneg_iff)
    have "uint ?b + 4 * (uint ?d div 4) \<le> uint ?b + uint ?d" by simp
    also have "\<dots> \<le> uint stop - uint stop mod 4 + 4" using d by simp
    also have "\<dots> \<le> 2 ^ 32"
    proof -
      have "x < 4294967296 \<Longrightarrow> x - x mod 4 + 4 \<le> 4294967296" for x :: int by presburger
      then show ?thesis using ends(4) by simp
    qed
    finally have "uint ?b + 4 * (uint ?d div 4) \<le> 2 ^ 32" .
    then show ?thesis
      using assms IFCONFIG_POOL_30NET se sz
      by (auto simp: ifconfig_pool_init_def wf_pool_def pool_stride_def Let_def split: if_splits)
  qed
  then show "wf_pool pool" "ty = IFCONFIG_POOL_INDIV \<Longrightarrow> pool_base pool = start \<and> uint start + pool_size pool = uint stop + 1"
    by auto
qed

section \<open>Leases\<close>

text \<open>What the search finds: a free entry, or nothing.\<close>

lemma pool_find_loop_free:
  assumes "pool_find_loop dup cn es i t previous new = (previous', new')"
  shows "(previous' = previous \<or> (i \<le> previous' \<and> previous' < i + int (length es) \<and>
      \<not> ipe_in_use (es ! nat (previous' - i)) \<and> ipe_common_name (es ! nat (previous' - i)) = cn)) \<and>
    (new' = new \<or> (i \<le> new' \<and> new' < i + int (length es) \<and> \<not> ipe_in_use (es ! nat (new' - i))))"
  using assms
proof (induction es arbitrary: i t previous new)
  case (Cons e es)
  have shift: "(e # es) ! nat (x - i) = es ! nat (x - (i + 1))" if "i + 1 \<le> x" for x
  proof -
    have "nat (x - i) = Suc (nat (x - (i + 1)))" using that by linarith
    then show ?thesis by simp
  qed
  have step: "\<exists>t2 p2 n2. (pool_find_loop dup cn es (i + 1) t2 p2 n2 = (previous', new') \<or>
        previous' = p2 \<and> new' = n2) \<and>
      (p2 = previous \<or> p2 = i \<and> \<not> ipe_in_use e \<and> ipe_common_name e = cn) \<and> (n2 = new \<or> n2 = i \<and> \<not> ipe_in_use e)"
  proof (cases "ipe_in_use e \<or> dup")
    case True
    then show ?thesis using Cons.prems by (cases "ipe_in_use e") auto
  next
    case False
    then show ?thesis using Cons.prems
      by - (rule exI[of _ "if (new = -1 \<or> ipe_last_release e < t) \<and> \<not> ipe_fixed e then ipe_last_release e else t"],
            rule exI[of _ "if previous < 0 \<and> cn \<noteq> None \<and> ipe_common_name e \<noteq> None \<and> cn = ipe_common_name e then i else previous"],
            rule exI[of _ "if (new = -1 \<or> ipe_last_release e < t) \<and> \<not> ipe_fixed e then i else new"],
            auto simp: Let_def split: if_splits)
  qed
  obtain t2 p2 n2 where "pool_find_loop dup cn es (i + 1) t2 p2 n2 = (previous', new') \<or> previous' = p2 \<and> new' = n2"
    "p2 = previous \<or> p2 = i \<and> \<not> ipe_in_use e \<and> ipe_common_name e = cn" "n2 = new \<or> n2 = i \<and> \<not> ipe_in_use e"
    using step by blast
  then show ?case using Cons.IH[of "i + 1" t2 p2 n2] shift[of previous'] shift[of new'] by auto
qed simp


lemma ifconfig_pool_find_free:
  assumes "wf_pool pool" "0 \<le> ifconfig_pool_find pool cn"
  shows "ifconfig_pool_find pool cn < pool_size pool"
    "\<not> ipe_in_use (pool_list pool ! nat (ifconfig_pool_find pool cn))"
proof -
  obtain a b where ab: "pool_find_loop (pool_duplicate_cn pool) cn (pool_list pool) 0 0 (-1) (-1) = (a, b)"
    by fastforce
  note free = pool_find_loop_free[OF ab]
  show "ifconfig_pool_find pool cn < pool_size pool"
    "\<not> ipe_in_use (pool_list pool ! nat (ifconfig_pool_find pool cn))"
    using free assms by (auto simp: ifconfig_pool_find_def ab wf_pool_def split: if_splits)
qed

text \<open>The addresses of an entry lie in its own part of the pool.\<close>

lemma pool_addr_uint:
  assumes "wf_pool pool" "0 \<le> i" "i < pool_size pool"
  shows "pool_type pool = IFCONFIG_POOL_INDIV \<Longrightarrow> uint (snd (pool_addrs pool i)) = uint (pool_base pool) + i"
    "pool_type pool = IFCONFIG_POOL_30NET \<Longrightarrow> uint (fst (pool_addrs pool i)) = uint (pool_base pool) + 4 * i + 1 \<and>
      uint (snd (pool_addrs pool i)) = uint (pool_base pool) + 4 * i + 2"
proof -
  have i: "i < 65536" "uint (pool_base pool) + pool_stride pool * i < 2 ^ 32" "0 \<le> uint (pool_base pool)"
  proof -
    show "i < 65536" "0 \<le> uint (pool_base pool)" using assms by (auto simp: wf_pool_def)
    have "pool_stride pool * i < pool_stride pool * pool_size pool"
      using assms(3) by (simp add: pool_stride_def split: pool_type.split)
    then show "uint (pool_base pool) + pool_stride pool * i < 2 ^ 32" using assms(1) by (auto simp: wf_pool_def)
  qed
  have u: "uint (word_of_int i :: u32) = i" using i(1) assms(2) by (simp add: uint_word_of_int)
  show "uint (snd (pool_addrs pool i)) = uint (pool_base pool) + i" if "pool_type pool = IFCONFIG_POOL_INDIV"
    using that i u assms(2) by (simp add: pool_addrs_def pool_stride_def uint_word_ariths)
  assume n: "pool_type pool = IFCONFIG_POOL_30NET"
  have "i + 1 \<le> pool_size pool" using assms(3) by simp
  then have "uint (pool_base pool) + 4 * i + 4 \<le> 2 ^ 32"
    using assms(1) n by (auto simp: wf_pool_def pool_stride_def)
  moreover have "uint (push_bit 2 (word_of_int i :: u32)) = 4 * i"
    using i(1) u assms(2) by (simp add: push_bit_eq_mult uint_word_ariths)
  ultimately show "uint (fst (pool_addrs pool i)) = uint (pool_base pool) + 4 * i + 1 \<and>
      uint (snd (pool_addrs pool i)) = uint (pool_base pool) + 4 * i + 2"
    using n i(3) assms(2) by (simp add: pool_addrs_def uint_word_ariths Let_def mod_simps)
qed

text \<open>Clients that take addresses and give back those they hold.\<close>

datatype pool_op = Pool_acquire time_t "byte list option" | Pool_release time_t int bool

fun pool_run ::
  "pool_op list \<Rightarrow> ifconfig_pool \<Rightarrow> (int \<times> u32 \<times> u32) list \<Rightarrow> (ifconfig_pool \<times> (int \<times> u32 \<times> u32) list) option" where
  "pool_run [] pool leases = Some (pool, leases)"
| "pool_run (Pool_acquire now cn # ops) pool leases =
     (case ifconfig_pool_acquire now pool cn of
        None \<Rightarrow> None
      | Some (i, None, pool) \<Rightarrow> pool_run ops pool leases
      | Some (i, Some a, pool) \<Rightarrow> pool_run ops pool ((i, a) # leases))"
| "pool_run (Pool_release now hand hard # ops) pool leases =
     pool_run ops (snd (ifconfig_pool_release now pool hand hard)) (filter (\<lambda>l. fst l \<noteq> hand) leases)"

definition lease_addrs :: "ifconfig_pool \<Rightarrow> int \<times> u32 \<times> u32 \<Rightarrow> u32 list" where
  "lease_addrs pool = (\<lambda>(h, l, r). case pool_type pool of IFCONFIG_POOL_30NET \<Rightarrow> [l, r] | IFCONFIG_POOL_INDIV \<Rightarrow> [r])"

definition lease_inv :: "ifconfig_pool \<Rightarrow> (int \<times> u32 \<times> u32) list \<Rightarrow> bool" where
  "lease_inv pool leases \<longleftrightarrow> distinct (map fst leases) \<and>
     (\<forall>(h, a) \<in> set leases. 0 \<le> h \<and> h < pool_size pool \<and> ipe_in_use (pool_list pool ! nat h) \<and> a = pool_addrs pool h)"

lemma pool_upd_simps [simp]:
  "pool_base (pool_upd p i e) = pool_base p" "pool_size (pool_upd p i e) = pool_size p"
  "pool_type (pool_upd p i e) = pool_type p" "length (pool_list (pool_upd p i e)) = length (pool_list p)"
  "wf_pool (pool_upd p i e) = wf_pool p" "pool_addrs (pool_upd p i e) = pool_addrs p"
  "lease_addrs (pool_upd p i e) = lease_addrs p"
  by (auto simp: pool_upd_def wf_pool_def pool_addrs_def lease_addrs_def pool_stride_def fun_eq_iff split: pool_type.split)

lemma pool_upd_nth:
  "wf_pool p \<Longrightarrow> 0 \<le> i \<Longrightarrow> i < pool_size p \<Longrightarrow> 0 \<le> h \<Longrightarrow>
     pool_list (pool_upd p i e) ! nat h = (if h = i then e else pool_list p ! nat h)"
  by (auto simp: pool_upd_def wf_pool_def nth_list_update eq_nat_nat_iff)

lemma acquire_lease:
  assumes wf: "wf_pool pool" and inv: "lease_inv pool leases"
  shows "\<exists>i a pool'. ifconfig_pool_acquire now pool cn = Some (i, a, pool') \<and> wf_pool pool' \<and>
    pool_type pool' = pool_type pool \<and> pool_base pool' = pool_base pool \<and> pool_size pool' = pool_size pool \<and>
    (case a of None \<Rightarrow> pool' = pool | Some a \<Rightarrow> lease_inv pool' ((i, a) # leases))"
proof (cases "0 \<le> ifconfig_pool_find pool cn")
  case True
  let ?i = "ifconfig_pool_find pool cn"
  note f = ifconfig_pool_find_free[OF wf True]
  have "?i \<notin> fst ` set leases" using inv f(2) by (auto simp: lease_inv_def)
  moreover have "lease_inv (pool_upd pool ?i e) ((?i, pool_addrs pool ?i) # leases)"
    if "ipe_in_use e" "?i \<notin> fst ` set leases" for e
    using that inv f(1) True wf by (auto simp: lease_inv_def pool_upd_nth)
  ultimately show ?thesis
    using True f wf by (auto simp: ifconfig_pool_acquire_def pool_addrs_def Let_def)
next
  case False
  then show ?thesis using wf by (simp add: ifconfig_pool_acquire_def)
qed

lemma release_lease:
  assumes wf: "wf_pool pool" and inv: "lease_inv pool leases"
    and pool': "pool' = snd (ifconfig_pool_release now pool hand hard)"
  shows "wf_pool pool'" "lease_inv pool' (filter (\<lambda>l. fst l \<noteq> hand) leases)" "pool_type pool' = pool_type pool"
    "pool_base pool' = pool_base pool" "pool_size pool' = pool_size pool"
  using assms by (auto simp: ifconfig_pool_release_def lease_inv_def pool_upd_nth distinct_map_filter)

lemma pool_run_lease:
  assumes "wf_pool pool" "lease_inv pool leases"
  shows "\<exists>pool' leases'. pool_run ops pool leases = Some (pool', leases') \<and> wf_pool pool' \<and> lease_inv pool' leases' \<and>
    pool_type pool' = pool_type pool \<and> pool_base pool' = pool_base pool \<and> pool_size pool' = pool_size pool"
  using assms
proof (induction ops arbitrary: pool leases)
  case (Cons op1 ops)
  show ?case
  proof (cases op1)
    case (Pool_acquire now cn)
    obtain i a pool1 where a: "ifconfig_pool_acquire now pool cn = Some (i, a, pool1)" "wf_pool pool1"
      "pool_type pool1 = pool_type pool" "pool_base pool1 = pool_base pool" "pool_size pool1 = pool_size pool"
      "case a of None \<Rightarrow> pool1 = pool | Some a \<Rightarrow> lease_inv pool1 ((i, a) # leases)"
      using acquire_lease[OF Cons.prems] by blast
    show ?thesis
      using Cons.IH[OF a(2)] a Cons.prems Pool_acquire by (cases a) fastforce+
  next
    case (Pool_release now hand hard)
    show ?thesis
      using Cons.IH[OF release_lease(1,2)[OF Cons.prems refl]] release_lease(3-5)[OF Cons.prems refl] Pool_release by simp
  qed
qed simp

lemma lease_addrs_range:
  assumes "wf_pool pool" "lease_inv pool leases" "x \<in> set leases" "a \<in> set (lease_addrs pool x)"
  shows "uint (pool_base pool) + pool_stride pool * fst x \<le> uint a \<and>
    uint a < uint (pool_base pool) + pool_stride pool * (fst x + 1)"
proof -
  obtain h where x: "x = (h, pool_addrs pool h)" "0 \<le> h" "h < pool_size pool" using assms by (auto simp: lease_inv_def)
  obtain l r where lr: "pool_addrs pool h = (l, r)" by fastforce
  show ?thesis
    using assms(4) pool_addr_uint[OF assms(1) x(2,3)] x(1)
    by (cases "pool_type pool") (auto simp: lr lease_addrs_def pool_stride_def)
qed

text \<open>
  C19: no address is leased twice.  From a fresh pool, whatever clients connect and leave in whatever
  order, ifconfig_pool_acquire never fails its assertion, the addresses of all current leases are
  pairwise different, and each lies inside the pool.
\<close>

theorem pool_leases_disjoint:
  assumes "ifconfig_pool_init ty start stop dup = Some pool"
  shows "\<exists>pool' leases. pool_run ops pool [] = Some (pool', leases) \<and>
    distinct (concat (map (lease_addrs pool') leases)) \<and>
    (\<forall>a \<in> set (concat (map (lease_addrs pool') leases)).
       uint (pool_base pool) \<le> uint a \<and> uint a < uint (pool_base pool) + pool_stride pool * pool_size pool)"
proof -
  note wf = pool_init_wf[OF assms]
  have "lease_inv pool []" by (simp add: lease_inv_def)
  then obtain pool' leases where r: "pool_run ops pool [] = Some (pool', leases)" "wf_pool pool'"
    "lease_inv pool' leases" "pool_type pool' = pool_type pool" "pool_base pool' = pool_base pool" "pool_size pool' = pool_size pool"
    using pool_run_lease[OF wf(1)] by blast
  have stride: "pool_stride pool' = pool_stride pool" "0 < pool_stride pool"
    using r(4) by (auto simp: pool_stride_def split: pool_type.split)
  note range = lease_addrs_range[OF r(2,3), unfolded r(5) stride]
  have h: "0 \<le> fst x \<and> fst x + 1 \<le> pool_size pool" if "x \<in> set leases" for x
    using r(3,6) that by (auto simp: lease_inv_def)
  have "distinct (concat (map (lease_addrs pool') leases))"
  proof (rule distinct_concat)
    have apart: "set (lease_addrs pool' x) \<inter> set (lease_addrs pool' y) = {}"
      if "x \<in> set leases" "y \<in> set leases" "fst x < fst y" for x y
    proof -
      have "pool_stride pool * (fst x + 1) \<le> pool_stride pool * fst y" using that(3) stride(2) by simp
      moreover have "uint a < uint (pool_base pool) + pool_stride pool * (fst x + 1)"
        "uint (pool_base pool) + pool_stride pool * fst y \<le> uint a"
        if "a \<in> set (lease_addrs pool' x)" "a \<in> set (lease_addrs pool' y)" for a
        using range[OF \<open>x \<in> set leases\<close> that(1)] range[OF \<open>y \<in> set leases\<close> that(2)] by simp_all
      ultimately show ?thesis by (meson disjoint_iff leD order.strict_trans2 add_left_mono)
    qed
    have ne: "fst x = fst y \<Longrightarrow> x = y" if "x \<in> set leases" "y \<in> set leases" for x y
      using r(3) that inj_onD[of fst "set leases" x y] by (simp add: lease_inv_def distinct_map)
    show "distinct (map (lease_addrs pool') leases)"
    proof (subst distinct_map, intro conjI inj_onI)
      show "distinct leases" using r(3) by (auto simp: lease_inv_def distinct_map)
      fix x y assume xy: "x \<in> set leases" "y \<in> set leases" "lease_addrs pool' x = lease_addrs pool' y"
      moreover have "set (lease_addrs pool' x) \<noteq> {}" by (cases x; cases "pool_type pool'") (simp_all add: lease_addrs_def)
      ultimately show "x = y" using apart[of x y] apart[of y x] ne[of x y] by (cases "fst x" "fst y" rule: linorder_cases) auto
    qed
    show "distinct ys" if ys: "ys \<in> set (map (lease_addrs pool') leases)" for ys
    proof -
      obtain x where "x \<in> set leases" "ys = lease_addrs pool' x" using ys by auto
      then obtain hh where hh: "ys = lease_addrs pool' (hh, pool_addrs pool' hh)" "0 \<le> hh" "hh < pool_size pool'"
        using r(3) by (auto simp: lease_inv_def)
      then show ?thesis using pool_addr_uint[OF r(2) hh(2,3)]
        by (cases "pool_type pool'") (auto simp: lease_addrs_def split: prod.splits)
    qed
    show "set ys \<inter> set zs = {}" if yz: "ys \<in> set (map (lease_addrs pool') leases)" "zs \<in> set (map (lease_addrs pool') leases)" "ys \<noteq> zs" for ys zs
    proof -
      obtain x where "x \<in> set leases" "ys = lease_addrs pool' x" using yz(1) by auto
      moreover obtain y where "y \<in> set leases" "zs = lease_addrs pool' y" using yz(2) by auto
      ultimately have "x \<in> set leases" "ys = lease_addrs pool' x" "y \<in> set leases" "zs = lease_addrs pool' y" "x \<noteq> y"
        using yz(3) by blast+
      then show ?thesis
        using apart[of x y] apart[of y x] ne[of x y] by (cases "fst x" "fst y" rule: linorder_cases) auto
    qed
  qed
  moreover have "uint (pool_base pool) \<le> uint a \<and> uint a < uint (pool_base pool) + pool_stride pool * pool_size pool"
    if a: "a \<in> set (concat (map (lease_addrs pool') leases))" for a
  proof -
    obtain x where x: "x \<in> set leases" "a \<in> set (lease_addrs pool' x)" using a by auto
    have "0 \<le> pool_stride pool * fst x" "pool_stride pool * (fst x + 1) \<le> pool_stride pool * pool_size pool"
      using h[OF x(1)] stride(2) by simp_all
    then show ?thesis using range[OF x] by linarith
  qed
  ultimately show ?thesis using r(1) by blast
qed

theorem pool_leases_disjoint_witness:
  "\<exists>pool' leases. pool_run [Pool_acquire 100 (Some [97]), Pool_acquire 101 None, Pool_release 102 0 False,
      Pool_acquire 103 (Some [98])] (the (ifconfig_pool_init IFCONFIG_POOL_30NET 0x0A080004 0x0A0800FB False)) []
      = Some (pool', leases) \<and> distinct (concat (map (lease_addrs pool') leases)) \<and>
    (\<forall>a \<in> set (concat (map (lease_addrs pool') leases)).
       uint (pool_base (the (ifconfig_pool_init IFCONFIG_POOL_30NET 0x0A080004 0x0A0800FB False))) \<le> uint a \<and>
       uint a < uint (pool_base (the (ifconfig_pool_init IFCONFIG_POOL_30NET 0x0A080004 0x0A0800FB False))) +
         pool_stride (the (ifconfig_pool_init IFCONFIG_POOL_30NET 0x0A080004 0x0A0800FB False)) *
         pool_size (the (ifconfig_pool_init IFCONFIG_POOL_30NET 0x0A080004 0x0A0800FB False)))"
  by (rule pool_leases_disjoint[where ty = IFCONFIG_POOL_30NET and start = "0x0A080004" and stop = "0x0A0800FB" and dup = False]) (simp add: ifconfig_pool_init_def)

section \<open>Which entry is taken\<close>

lemma pool_find_loop_spec:
  assumes "pool_find_loop False cn es i t p n = (p', n')" "0 \<le> i"
  shows "(0 \<le> p \<longrightarrow> p' = p) \<and>
    (p < 0 \<longrightarrow> p' = (case first_index (\<lambda>e. \<not> ipe_in_use e \<and> cn \<noteq> None \<and> ipe_common_name e = cn) es of
        None \<Rightarrow> p | Some k \<Rightarrow> i + int k)) \<and>
    (n = -1 \<longrightarrow> (n' = -1 \<longleftrightarrow> (\<forall>e \<in> set es. ipe_in_use e \<or> ipe_fixed e))) \<and> (0 \<le> n \<longrightarrow> 0 \<le> n')"
  using assms
proof (induction es arbitrary: i t p n)
  case (Cons e es)
  show ?case
  proof (cases "ipe_in_use e")
    case True
    then show ?thesis using Cons.IH[of "i + 1" t p n] Cons.prems by (auto split: option.splits)
  next
    case False
    let ?t = "if (n = -1 \<or> ipe_last_release e < t) \<and> \<not> ipe_fixed e then ipe_last_release e else t"
    let ?p = "if p < 0 \<and> cn \<noteq> None \<and> ipe_common_name e \<noteq> None \<and> cn = ipe_common_name e then i else p"
    let ?n = "if (n = -1 \<or> ipe_last_release e < t) \<and> \<not> ipe_fixed e then i else n"
    have "pool_find_loop False cn es (i + 1) ?t ?p ?n = (p', n')"
      using Cons.prems False by (auto simp: Let_def split: if_splits)
    note IH = Cons.IH[OF this]
    show ?thesis using IH Cons.prems(2) False by (auto split: option.splits if_splits)
  qed
qed auto

lemma pool_find_loop_dup:
  "pool_find_loop True cn es i t p n =
     (p, case first_index (\<lambda>e. \<not> ipe_in_use e) es of None \<Rightarrow> n | Some k \<Rightarrow> i + int k)"
  by (induction es arbitrary: i t p n) (auto split: option.split)

text \<open>
  A client is turned away only when nothing is left for it.  ifconfig_pool_acquire fails exactly
  when every entry is in use or, unless several clients may share a name, reserved for another name.
\<close>

theorem pool_acquire_fails:
  "fst (the (ifconfig_pool_acquire now pool cn)) = -1 \<longleftrightarrow>
     (\<forall>e \<in> set (pool_list pool). ipe_in_use e \<or>
        (\<not> pool_duplicate_cn pool \<and> ipe_fixed e \<and> \<not> (cn \<noteq> None \<and> ipe_common_name e = cn)))"
  if "wf_pool pool"
proof -
  obtain p n where pn: "pool_find_loop (pool_duplicate_cn pool) cn (pool_list pool) 0 0 (-1) (-1) = (p, n)" by fastforce
  have "ifconfig_pool_find pool cn = -1 \<longleftrightarrow> p < 0 \<and> n < 0"
    by (auto simp: ifconfig_pool_find_def pn)
  moreover have "fst (the (ifconfig_pool_acquire now pool cn)) = ifconfig_pool_find pool cn"
    using ifconfig_pool_find_free[OF that, of cn] by (auto simp: ifconfig_pool_acquire_def Let_def)
  moreover have "p < 0 \<and> n < 0 \<longleftrightarrow> (\<forall>e \<in> set (pool_list pool). ipe_in_use e \<or>
      (\<not> pool_duplicate_cn pool \<and> ipe_fixed e \<and> \<not> (cn \<noteq> None \<and> ipe_common_name e = cn)))"
  proof (cases "pool_duplicate_cn pool")
    case True
    then have "p = -1" "n < 0 \<longleftrightarrow> first_index (\<lambda>e. \<not> ipe_in_use e) (pool_list pool) = None"
      using pn by (auto simp: pool_find_loop_dup split: option.splits)
    then show ?thesis using True unfolding first_index_None by auto
  next
    case False
    then have loop: "pool_find_loop False cn (pool_list pool) 0 0 (-1) (-1) = (p, n)" using pn by simp
    let ?P = "\<lambda>e. \<not> ipe_in_use e \<and> cn \<noteq> None \<and> ipe_common_name e = cn"
    have "p < 0 \<longleftrightarrow> first_index ?P (pool_list pool) = None"
      using pool_find_loop_spec[OF loop] by (auto split: option.splits)
    moreover have "n < 0 \<longleftrightarrow> (\<forall>e \<in> set (pool_list pool). ipe_in_use e \<or> ipe_fixed e)"
      using pool_find_loop_spec[OF loop] pool_find_loop_free[OF loop] by auto
    ultimately show ?thesis using False unfolding first_index_None by blast
  qed
  ultimately show ?thesis by simp
qed


definition demo_pool :: ifconfig_pool where
  "demo_pool = \<lparr>pool_base = 10, pool_size = 2, pool_type = IFCONFIG_POOL_INDIV, pool_duplicate_cn = False,
     pool_list = [clear_pool_entry, clear_pool_entry]\<rparr>"

lemma demo_pool_wf: "wf_pool demo_pool"
  by (simp add: wf_pool_def demo_pool_def pool_stride_def)


theorem pool_acquire_fails_witness:
  "fst (the (ifconfig_pool_acquire 100 demo_pool None)) = -1 \<longleftrightarrow>
     (\<forall>e \<in> set (pool_list demo_pool). ipe_in_use e \<or>
        (\<not> pool_duplicate_cn demo_pool \<and> ipe_fixed e \<and> \<not> (None \<noteq> (None :: byte list option) \<and> ipe_common_name e = None)))"
  by (rule pool_acquire_fails[OF demo_pool_wf])

text \<open>Every address of an entry is mapped back to the entry.\<close>

lemma pool_handle_ip:
  assumes "wf_pool pool" "0 \<le> h" "h < pool_size pool" "0 \<le> k" "k < pool_stride pool"
  shows "ifconfig_pool_ip_base_to_handle pool (ifconfig_pool_handle_to_ip_base pool h + word_of_int k) = h"
proof -
  have h: "h < 65536" using assms by (auto simp: wf_pool_def)
  show ?thesis
  proof (cases "pool_type pool")
    case IFCONFIG_POOL_INDIV
    have "sint (word_of_int h :: u32) = h" using h assms(2) by (simp add: sint_u31 uint_word_of_int)
    moreover have "k = 0" using assms(4,5) IFCONFIG_POOL_INDIV by (simp add: pool_stride_def)
    ultimately show ?thesis
      using IFCONFIG_POOL_INDIV assms
      by (simp add: ifconfig_pool_ip_base_to_handle_def ifconfig_pool_handle_to_ip_base_def pool_stride_def)
  next
    case IFCONFIG_POOL_30NET
    have k: "k < 4" using assms(5) IFCONFIG_POOL_30NET by (simp add: pool_stride_def)
    have "uint (push_bit 2 (word_of_int h :: u32) + word_of_int k) = 4 * h + k"
      using h assms(2,4) k by (simp add: push_bit_eq_mult uint_word_ariths uint_word_of_int mod_simps)
    then have "uint (drop_bit 2 (push_bit 2 (word_of_int h :: u32) + word_of_int k)) = h"
      using k assms(4) by (simp add: drop_bit_eq_div uint_div)
    then have "sint (drop_bit 2 (push_bit 2 (word_of_int h :: u32) + word_of_int k)) = h"
      using h by (simp add: sint_u31)
    then show ?thesis
      using IFCONFIG_POOL_30NET assms
      by (simp add: ifconfig_pool_ip_base_to_handle_def ifconfig_pool_handle_to_ip_base_def algebra_simps)
  qed
qed

section \<open>The pool file\<close>

text \<open>A name that the file can hold, and a printer and a parser of addresses that agree.\<close>

definition name_ok :: "byte list \<Rightarrow> bool" where
  "name_ok cn \<longleftrightarrow> cn \<noteq> [] \<and> length cn < 128 \<and> (\<forall>c \<in> set cn. c \<noteq> 0 \<and> c \<noteq> 44) \<and> hd cn \<noteq> 35 \<and> hd cn \<noteq> 59"

definition addr_text_ok :: "(u32 \<Rightarrow> byte list) \<Rightarrow> (byte list \<Rightarrow> u32 option) \<Rightarrow> bool" where
  "addr_text_ok print_in_addr getaddr \<longleftrightarrow> (\<forall>a. getaddr (print_in_addr a) = Some a \<and> print_in_addr a \<noteq> [] \<and>
     length (print_in_addr a) < 128 \<and> (\<forall>c \<in> set (print_in_addr a). c \<noteq> 0 \<and> c \<noteq> 44))"

lemma read_line_sets:
  assumes cn: "name_ok cn" and adr: "addr_text_ok print_in_addr getaddr"
  shows "ifconfig_pool_read_line getaddr now fixed (cn @ [44] @ print_in_addr a) pool
    = Some (ifconfig_pool_set now pool cn a fixed)"
proof -
  have u: "uint c \<noteq> 44" if "c \<noteq> 44" for c :: byte using that by (simp add: word_uint_eq_iff)
  let ?l = "cn @ 44 # print_in_addr a"
  obtain m pre' where m: "buf_parse (mk_buf [] ?l (replicate (256 - length ?l) 0)) 44 (replicate 128 0) 128
      = Some (True, mk_buf pre' (print_in_addr a) (replicate (256 - length ?l) 0), m)" "c_string m = cn"
    using buf_parse_field(1)[of cn 44 128 "replicate 128 0" "[]" "print_in_addr a" "replicate (256 - length ?l) 0"] cn u
    by (auto simp: name_ok_def)
  obtain m2 b2 where m2: "buf_parse (mk_buf pre' (print_in_addr a) (replicate (256 - length ?l) 0)) 44 (replicate 128 0) 128
      = Some (True, b2, m2)" "c_string m2 = print_in_addr a"
    using buf_parse_field(2)[of "print_in_addr a" 44 128 "replicate 128 0" pre' "replicate (256 - length ?l) 0"] adr u by (auto simp: addr_text_ok_def)
  show ?thesis
    using m m2 cn adr by (simp add: ifconfig_pool_read_line_def name_ok_def addr_text_ok_def hd_append)
qed

lemma read_append:
  "ifconfig_pool_read g now fixed (xs @ ys) pool =
     (case ifconfig_pool_read g now fixed xs pool of None \<Rightarrow> None | Some p \<Rightarrow> ifconfig_pool_read g now fixed ys p)"
  by (induction xs arbitrary: pool) (auto split: option.split)


text \<open>Addresses written as four bytes that avoid zero and the comma, for the example.\<close>

definition demo_print :: "u32 \<Rightarrow> byte list" where
  "demo_print a = map (\<lambda>i. if bit a i then 49 else 48) [0..<32]"

definition demo_getaddr :: "byte list \<Rightarrow> u32 option" where
  "demo_getaddr s = Some (foldr (\<lambda>c w. 2 * w + (if c = 49 then 1 else 0)) s 0)"

lemma foldr_bits:
  "foldr (\<lambda>c w. 2 * w + (if c = 49 then 1 else 0)) (map (\<lambda>i. if bit (a :: u32) i then (49 :: byte) else 48) [k..<k + n]) (0 :: u32)
     = take_bit n (drop_bit k a)"
proof (induction n arbitrary: k)
  case (Suc n)
  have "[k..<k + Suc n] = k # [Suc k..<Suc k + n]" by (simp add: upt_rec)
  then show ?case
    using Suc.IH[of "Suc k"]
    by (simp add: take_bit_Suc drop_bit_Suc bit_iff_odd_drop_bit odd_iff_mod_2_eq_one mult.commute drop_bit_half even_iff_mod_2_eq_zero
        split: if_splits)
qed simp

lemma demo_text_ok: "addr_text_ok demo_print demo_getaddr"
proof -
  have "demo_getaddr (demo_print a) = Some a" for a
    using foldr_bits[of a 0 32] by (simp add: demo_getaddr_def demo_print_def take_bit_word_eq_self)
  then show ?thesis by (auto simp: addr_text_ok_def demo_print_def split: if_splits)
qed


end
