(* ===== verification/Stream_Buf.thy ===== *)
theory Stream_Buf
  imports Mtu
begin

text \<open>
  Packets over TCP: the stream buffer of socket.h and socket.c.  Each packet travels behind its
  length in two bytes; the reader cuts the byte stream into packets again, however the network
  splits it.

  The buffers buf_init, buf and next of struct stream_buf point into one block.  The model gives
  each its own copy: next is used only for its offset and length (the bytes that recv stores there
  are stored into buf), and of buf_init only the offset and the size matter, because a reset
  buffer is empty.
\<close>

section \<open>Data and operations\<close>

record stream_buf =
  sb_buf_init :: buffer
  sb_residual :: buffer
  sb_maxlen :: int
  sb_residual_fully_formed :: bool
  sb_buf :: buffer
  sb_next :: buffer
  sb_len :: int
  sb_error :: bool

definition stream_buf_reset :: "stream_buf \<Rightarrow> stream_buf" where
  "stream_buf_reset sb = sb\<lparr>sb_residual_fully_formed := False, sb_buf := sb_buf_init sb,
     sb_next := buf_reset (sb_next sb), sb_len := -1\<rparr>"

definition stream_buf_init :: "(nat \<Rightarrow> byte) \<Rightarrow> stream_buf \<Rightarrow> buffer \<Rightarrow> stream_buf" where
  "stream_buf_init junk sb b =
     (let sb = sb\<lparr>sb_buf_init := b\<rparr>;
          sb = sb\<lparr>sb_maxlen := len (sb_buf_init sb)\<rparr>;
          sb = sb\<lparr>sb_buf_init := (sb_buf_init sb)\<lparr>len := 0\<rparr>\<rparr>;
          sb = sb\<lparr>sb_residual := alloc_buf junk (nat (sb_maxlen sb)), sb_error := False\<rparr>
      in stream_buf_reset sb)"

definition stream_buf_set_next :: "stream_buf \<Rightarrow> stream_buf option" where
  "stream_buf_set_next sb = do {
     let next = sb_buf sb;
     let next = next\<lparr>offset := offset (sb_buf sb) + len (sb_buf sb)\<rparr>;
     let next = next\<lparr>len := (if sb_len sb \<ge> 0 then sb_len sb else sb_maxlen sb) - len (sb_buf sb)\<rparr>;
     ASSERT (len next > 0);
     ASSERT (buf_safe (sb_buf sb) (len next));
     Some (sb\<lparr>sb_next := next\<rparr>)
   }"

definition stream_buf_get_final :: "stream_buf \<Rightarrow> buffer option" where
  "stream_buf_get_final sb = do { ASSERT (buf_defined (sb_buf sb)); Some (sb_buf sb) }"

definition stream_buf_get_next :: "stream_buf \<Rightarrow> buffer option" where
  "stream_buf_get_next sb = do { ASSERT (buf_defined (sb_next sb)); Some (sb_next sb) }"

text \<open>The length prefix, when it is there; \<^const>\<open>False\<close> for a bad length.\<close>

definition stream_buf_prefix :: "stream_buf \<Rightarrow> (bool \<times> stream_buf) option" where
  "stream_buf_prefix sb =
     (if sb_len sb < 0 \<and> len (sb_buf sb) \<ge> 2 then do {
        (net_size, b) \<leftarrow> buf_read (sb_buf sb) 2;
        bs \<leftarrow> net_size;
        let sb = sb\<lparr>sb_buf := b, sb_len := uint (of_be16 bs)\<rparr>;
        if sb_len sb < 1 \<or> sb_len sb > sb_maxlen sb
        then Some (False, (stream_buf_reset sb)\<lparr>sb_error := True\<rparr>)
        else Some (True, sb)
      } else Some (True, sb))"

definition stream_buf_added :: "stream_buf \<Rightarrow> int \<Rightarrow> (bool \<times> stream_buf) option" where
  "stream_buf_added sb length_added = do {
     let sb = (if length_added > 0 then sb\<lparr>sb_buf := (sb_buf sb)\<lparr>len := len (sb_buf sb) + length_added\<rparr>\<rparr> else sb);
     (good, sb) \<leftarrow> stream_buf_prefix sb;
     if \<not> good then Some (False, sb)
     else if sb_len sb > 0 \<and> len (sb_buf sb) \<ge> sb_len sb then do {
       let (ok, r) = buf_init (sb_residual sb) 0;
       ASSERT ok;
       let sb = sb\<lparr>sb_residual := r\<rparr>;
       sb \<leftarrow> (if len (sb_buf sb) > sb_len sb then do {
                (ok, r, b) \<leftarrow> buf_copy_excess (sb_residual sb) (sb_buf sb) (sb_len sb);
                ASSERT ok;
                Some (sb\<lparr>sb_residual := r, sb_buf := b\<rparr>)
              } else Some sb);
       Some (True, sb)
     } else do {
       sb \<leftarrow> stream_buf_set_next sb;
       Some (False, sb)
     }
   }"

definition stream_buf_read_setup_dowork :: "stream_buf \<Rightarrow> (bool \<times> stream_buf) option" where
  "stream_buf_read_setup_dowork sb = do {
     sb \<leftarrow> (if len (sb_residual sb) \<noteq> 0 \<and> \<not> sb_residual_fully_formed sb then do {
              (ok, b) \<leftarrow> buf_copy (sb_buf sb) (sb_residual sb);
              ASSERT ok;
              let (ok, r) = buf_init (sb_residual sb) 0;
              ASSERT ok;
              let sb = sb\<lparr>sb_buf := b, sb_residual := r\<rparr>;
              (formed, sb) \<leftarrow> stream_buf_added sb 0;
              Some (sb\<lparr>sb_residual_fully_formed := formed\<rparr>)
            } else Some sb);
     sb \<leftarrow> (if \<not> sb_residual_fully_formed sb then stream_buf_set_next sb else Some sb);
     Some (\<not> sb_residual_fully_formed sb, sb)
   }"

text \<open>
  link_socket_read_tcp: \<open>recv\<close> is what the system call returned, an error or end of file (not
  positive) or the bytes it stored at next.  The results are the returned length, the packet, if it
  is complete, the new stream buffer, and whether stream_reset is set.
\<close>

definition read_tcp_finish :: "bool \<Rightarrow> stream_buf \<Rightarrow> (int \<times> buffer option \<times> stream_buf \<times> bool) option" where
  "read_tcp_finish complete sb =
     (if complete then do {
        b \<leftarrow> stream_buf_get_final sb;
        Some (len b, Some b, stream_buf_reset sb, False)
      } else Some (0, None, sb, False))"

definition link_socket_read_tcp :: "stream_buf \<Rightarrow> int + byte list \<Rightarrow> (int \<times> buffer option \<times> stream_buf \<times> bool) option" where
  "link_socket_read_tcp sb recv =
     (if \<not> sb_residual_fully_formed sb then do {
        frag \<leftarrow> stream_buf_get_next sb;
        (case recv of
           Inl e \<Rightarrow> Some (e, None, sb, e = 0)
         | Inr [] \<Rightarrow> Some (0, None, sb, True)
         | Inr bs \<Rightarrow> do {
             b \<leftarrow> buf_store (sb_buf sb) (offset frag) bs;
             (complete, sb) \<leftarrow> stream_buf_added (sb\<lparr>sb_buf := b\<rparr>) (int (length bs));
             read_tcp_finish complete sb
           })
      } else read_tcp_finish True sb)"

text \<open>The length that link_socket_write_tcp puts in front of a packet.\<close>

definition link_socket_write_tcp :: "int \<Rightarrow> buffer \<Rightarrow> buffer option" where
  "link_socket_write_tcp maxlen b = do {
     let ln = (word_of_int (len b) :: u16);
     ASSERT (uint ln \<le> maxlen);
     (ok, b) \<leftarrow> buf_write_prepend b (be16 ln) 2;
     ASSERT ok;
     Some b
   }"

section \<open>Framing\<close>

definition packet_frame :: "byte list \<Rightarrow> byte list" where
  "packet_frame p = be16 (of_nat (length p)) @ p"

abbreviation (input) packet_stream :: "byte list list \<Rightarrow> byte list" where
  "packet_stream ps \<equiv> concat (map packet_frame ps)"

lemma uint_u16_nat [simp]: "n \<le> 65535 \<Longrightarrow> uint (word_of_nat n :: u16) = int n"
  by (simp add: unsigned_of_nat take_bit_nat_eq_self)

lemma link_socket_write_tcp_frame:
  assumes "live_buf b" "2 \<le> offset b" "len b \<le> maxlen" "maxlen \<le> 65535"
  obtains b' where "link_socket_write_tcp maxlen b = Some b'" "live_buf b'"
    "content b' = packet_frame (content b)" "offset b' = offset b - 2"
proof -
  obtain pre c post where b: "b = mk_buf pre c post" using assms(1) by (rule live_bufE)
  show ?thesis
    using assms b that[of "mk_buf (take (length pre - 2) pre) (packet_frame c) post"]
    by (simp add: link_socket_write_tcp_def packet_frame_def Let_def of_nat_diff)
qed

text \<open>The first two bytes of a stream of frames are the length of its first packet.\<close>

lemma stream_head:
  assumes "c @ net = packet_stream ps" "2 \<le> length c"
  obtains p ps' where "ps = p # ps'" "take 2 c = be16 (of_nat (length p))"
    "drop 2 c @ net = p @ packet_stream ps'"
proof -
  obtain p ps' where ps: "ps = p # ps'" using assms by (cases ps) auto
  let ?h = "be16 (of_nat (length p))"
  have eq: "c @ net = ?h @ p @ packet_stream ps'" using assms ps by (simp add: packet_frame_def)
  have "take 2 c = take 2 (c @ net)" "drop 2 c @ net = drop 2 (c @ net)" using assms(2) by simp_all
  then have "take 2 c = ?h" "drop 2 c @ net = p @ packet_stream ps'" unfolding eq by simp_all
  with ps show ?thesis by (rule that)
qed

section \<open>Adding bytes\<close>

definition residual_ok :: "stream_buf \<Rightarrow> byte list \<Rightarrow> bool" where
  "residual_ok sb r \<longleftrightarrow>
     (\<exists>post. sb_residual sb = mk_buf [] r post \<and> int (length r + length post) = sb_maxlen sb)"

lemma residual_init:
  assumes "residual_ok sb r"
  obtains b where "buf_init (sb_residual sb) 0 = (True, b)" "residual_ok (sb\<lparr>sb_residual := b\<rparr>) []"
  using assms by (fastforce simp: residual_ok_def buf_init_mk_buf)

lemma buf_copy_excess_mk_buf:
  assumes "n < length c" "length c - n \<le> length dpost"
  shows "buf_copy_excess (mk_buf [] [] dpost) (mk_buf pre c post) (int n) =
    Some (True, mk_buf [] (drop n c) (drop (length c - n) dpost), mk_buf pre (take n c) (drop n c @ post))"
proof -
  have shrink: "(mk_buf pre c post)\<lparr>len := int n\<rparr> = mk_buf pre (take n c) (drop n c @ post)"
    using assms by (simp add: mk_buf_def)
  show ?thesis using assms by (simp add: buf_copy_excess_def shrink Let_def)
qed

text \<open>With the length known, a packet is complete when all its bytes are there.\<close>

lemma added_complete:
  assumes ln: "sb_len sb = int n" "0 < n" "n \<le> length c" "int (length c) \<le> sb_maxlen sb + int n"
    and buf: "sb_buf sb = mk_buf pre c post" and res: "residual_ok sb r"
  shows "\<exists>res. stream_buf_added sb 0 =
      Some (True, sb\<lparr>sb_residual := res, sb_buf := mk_buf pre (take n c) (drop n c @ post)\<rparr>) \<and>
    residual_ok (sb\<lparr>sb_residual := res\<rparr>) (drop n c)"
proof -
  obtain rb where rb: "buf_init (sb_residual sb) 0 = (True, rb)" "residual_ok (sb\<lparr>sb_residual := rb\<rparr>) []"
    using res by (rule residual_init)
  then obtain rpost where rpost: "rb = mk_buf [] [] rpost" "int (length rpost) = sb_maxlen sb"
    by (auto simp: residual_ok_def)
  have pre: "stream_buf_prefix sb = Some (True, sb)" using ln by (simp add: stream_buf_prefix_def)
  show ?thesis
  proof (cases "n < length c")
    case True
    have "buf_copy_excess rb (sb_buf sb) (sb_len sb) =
      Some (True, mk_buf [] (drop n c) (drop (length c - n) rpost), mk_buf pre (take n c) (drop n c @ post))"
      using True ln rpost unfolding buf by (simp add: buf_copy_excess_mk_buf)
    then have "stream_buf_added sb 0 = Some (True,
        sb\<lparr>sb_residual := mk_buf [] (drop n c) (drop (length c - n) rpost),
           sb_buf := mk_buf pre (take n c) (drop n c @ post)\<rparr>)"
      using True ln pre rb buf by (simp add: stream_buf_added_def)
    then show ?thesis using True ln rpost
      by - (rule exI[of _ "mk_buf [] (drop n c) (drop (length c - n) rpost)"],
        auto simp: residual_ok_def of_nat_diff)
  next
    case False
    then have "stream_buf_added sb 0 = Some (True, sb\<lparr>sb_residual := rb\<rparr>)"
      using ln pre rb buf by (simp add: stream_buf_added_def)
    moreover have "sb\<lparr>sb_residual := rb\<rparr> =
        sb\<lparr>sb_residual := rb, sb_buf := mk_buf pre (take n c) (drop n c @ post)\<rparr>"
      using False ln buf by simp
    ultimately show ?thesis using False ln rb by auto
  qed
qed

lemma stream_buf_set_next_ok:
  assumes "sb_buf sb = mk_buf pre c post" "m = (if sb_len sb \<ge> 0 then sb_len sb else sb_maxlen sb)"
    and "int (length c) < m" "m \<le> int (length c + length post)"
  shows "\<exists>nb. stream_buf_set_next sb = Some (sb\<lparr>sb_next := nb\<rparr>) \<and> data nb \<noteq> None \<and>
    offset nb = int (length pre + length c) \<and> len nb = m - int (length c)"
  using assms by (intro exI[of _ "(mk_buf pre c post)\<lparr>offset := int (length pre + length c),
      len := m - int (length c)\<rparr>"]) (simp add: stream_buf_set_next_def buf_safe_def Let_def)

lemma added_partial:
  assumes "sb_len sb = int n" "length c < n" "n \<le> length c + length post" "sb_buf sb = mk_buf pre c post"
  shows "stream_buf_added sb 0 = map_option (Pair False) (stream_buf_set_next sb)"
  using assms by (auto simp: stream_buf_added_def stream_buf_prefix_def map_option_case split: option.splits)

lemma added_no_prefix:
  assumes "sb_len sb < 0" "length c < 2" "sb_buf sb = mk_buf pre c post"
  shows "stream_buf_added sb 0 = map_option (Pair False) (stream_buf_set_next sb)"
  using assms by (auto simp: stream_buf_added_def stream_buf_prefix_def map_option_case split: option.splits)

lemma added_prefix:
  assumes "sb_len sb < 0" "2 \<le> length c" "sb_buf sb = mk_buf pre c post"
    and n: "uint (of_be16 (take 2 c)) = n" "1 \<le> n" "n \<le> sb_maxlen sb"
  shows "stream_buf_added sb 0 =
    stream_buf_added (sb\<lparr>sb_buf := mk_buf (pre @ take 2 c) (drop 2 c) post, sb_len := n\<rparr>) 0"
proof -
  let ?sb = "sb\<lparr>sb_buf := mk_buf (pre @ take 2 c) (drop 2 c) post, sb_len := n\<rparr>"
  have "stream_buf_prefix sb = Some (True, ?sb)"
    using assms by (simp add: stream_buf_prefix_def Let_def)
  moreover have "stream_buf_prefix ?sb = Some (True, ?sb)" using n by (simp add: stream_buf_prefix_def)
  ultimately show ?thesis by (simp add: stream_buf_added_def)
qed

lemma added_more:
  assumes "sb_buf sb = mk_buf pre c post" "length bs \<le> length post" "bs \<noteq> []"
  shows "do { b \<leftarrow> buf_store (sb_buf sb) (int (length pre + length c)) bs;
              stream_buf_added (sb\<lparr>sb_buf := b\<rparr>) (int (length bs)) } =
    stream_buf_added (sb\<lparr>sb_buf := mk_buf pre (c @ bs) (drop (length bs) post)\<rparr>) 0"
proof -
  have "buf_store (sb_buf sb) (int (length pre + length c)) bs = Some (mk_buf pre c (bs @ drop (length bs) post))"
    using buf_store_inside[of "length c" bs c post "length bs" _ pre] assms by (simp add: patch_def)
  moreover have grow: "(mk_buf pre c (bs @ drop (length bs) post))\<lparr>len := int (length c) + int (length bs)\<rparr> =
      mk_buf pre (c @ bs) (drop (length bs) post)"
    by (simp add: mk_buf_def)
  ultimately show ?thesis using assms(3) by (simp add: stream_buf_added_def Let_def grow)
qed

section \<open>The reader as a whole\<close>

text \<open>
  The event loop of a reader: stream_buf_read_setup_dowork, and, when it asks for more bytes, a
  recv that gives some of the bytes that have arrived (between one byte and the room in next, as
  the network and \<open>k\<close> decide); then link_socket_read_tcp.  The loop waits when nothing arrives.
\<close>

definition tcp_recv :: "buffer \<Rightarrow> nat \<Rightarrow> byte list \<Rightarrow> byte list" where
  "tcp_recv next k net = take (min (max 1 k) (nat (len next))) net"

definition tcp_read_step :: "stream_buf \<Rightarrow> byte list \<Rightarrow> nat \<Rightarrow> (byte list list \<times> stream_buf \<times> byte list) option" where
  "tcp_read_step sb net k = do {
     (wait, sb) \<leftarrow> stream_buf_read_setup_dowork sb;
     if wait \<and> net = [] then Some ([], sb, net)
     else do {
       let bs = (if wait then tcp_recv (sb_next sb) k net else []);
       (n, b, sb, _) \<leftarrow> link_socket_read_tcp sb (Inr bs);
       Some (map content (case b of None \<Rightarrow> [] | Some b \<Rightarrow> [b]), sb, drop (length bs) net)
     }
   }"

fun tcp_receive :: "stream_buf \<Rightarrow> byte list \<Rightarrow> nat list \<Rightarrow> (byte list list \<times> stream_buf \<times> byte list) option" where
  "tcp_receive sb net [] = Some ([], sb, net)"
| "tcp_receive sb net (k # ks) = do {
     (got, sb, net) \<leftarrow> tcp_read_step sb net k;
     (more, sb, net) \<leftarrow> tcp_receive sb net ks;
     Some (got @ more, sb, net)
   }"

text \<open>
  The state between two reads stands for the bytes that have arrived and are not yet delivered.
  The three cases: no length yet, a packet in progress, a packet complete from the residual data.
\<close>

definition stream_room :: "stream_buf \<Rightarrow> bool" where
  "stream_room sb \<longleftrightarrow> 2 \<le> sb_maxlen sb \<and>
     (\<exists>pre post. sb_buf_init sb = mk_buf pre [] post \<and> sb_maxlen sb + 2 \<le> int (length post))"

inductive stream_pending :: "stream_buf \<Rightarrow> byte list \<Rightarrow> bool" where
  no_length: "\<lbrakk>stream_room sb; \<not> sb_residual_fully_formed sb; sb_len sb = -1;
      sb_buf sb = mk_buf pre c post; sb_maxlen sb + 2 \<le> int (length c + length post);
      residual_ok sb r; length c < 2; c = [] \<or> r = []\<rbrakk> \<Longrightarrow> stream_pending sb (c @ r)"
| partial: "\<lbrakk>stream_room sb; \<not> sb_residual_fully_formed sb; sb_len sb = int n;
      sb_buf sb = mk_buf pre c post; n \<le> length c + length post; int n \<le> sb_maxlen sb;
      residual_ok sb []; length c < n\<rbrakk> \<Longrightarrow> stream_pending sb (be16 (of_nat n) @ c)"
| complete: "\<lbrakk>stream_room sb; sb_residual_fully_formed sb; sb_len sb = int n; 0 < n;
      sb_buf sb = mk_buf pre c post; int n \<le> sb_maxlen sb; length c = n;
      residual_ok sb r\<rbrakk> \<Longrightarrow> stream_pending sb (be16 (of_nat n) @ c @ r)"

lemma room_upd [simp]:
  "stream_room (sb\<lparr>sb_buf := b\<rparr>) = stream_room sb" "stream_room (sb\<lparr>sb_residual := r\<rparr>) = stream_room sb"
  "stream_room (sb\<lparr>sb_next := b\<rparr>) = stream_room sb" "stream_room (sb\<lparr>sb_len := n\<rparr>) = stream_room sb"
  "stream_room (sb\<lparr>sb_residual_fully_formed := x\<rparr>) = stream_room sb"
  by (simp_all add: stream_room_def)

lemma residual_upd [simp]:
  "residual_ok (sb\<lparr>sb_buf := b\<rparr>) = residual_ok sb" 
  "residual_ok (sb\<lparr>sb_next := b\<rparr>) = residual_ok sb" "residual_ok (sb\<lparr>sb_len := n\<rparr>) = residual_ok sb"
  "residual_ok (sb\<lparr>sb_residual_fully_formed := x\<rparr>) = residual_ok sb"
  by (simp_all add: residual_ok_def fun_eq_iff)

lemma reset_pending:
  assumes "stream_room sb" "residual_ok sb r"
  shows "stream_pending (stream_buf_reset sb) r"
proof -
  obtain pre post where b: "sb_buf_init sb = mk_buf pre [] post" "sb_maxlen sb + 2 \<le> int (length post)"
    using assms(1) by (auto simp: stream_room_def)
  have "stream_pending (stream_buf_reset sb) ([] @ r)"
    by (rule no_length[where pre = pre and post = post])
       (use assms b in \<open>auto simp: stream_buf_reset_def stream_room_def residual_ok_def\<close>)
  then show ?thesis by simp
qed

text \<open>
  What an addition of bytes does, for bytes that come from a stream of packets: \<open>d\<close> is what the
  buffer and the length stand for.  Either the first packet is complete, or next is set up.
\<close>

definition packets_ok :: "int \<Rightarrow> byte list list \<Rightarrow> bool" where
  "packets_ok m ps \<longleftrightarrow> m \<le> 65535 \<and> (\<forall>p \<in> set ps. p \<noteq> [] \<and> int (length p) \<le> m)"

definition next_ok :: "stream_buf \<Rightarrow> bool" where
  "next_ok sb \<longleftrightarrow> data (sb_next sb) \<noteq> None \<and> 0 < len (sb_next sb) \<and>
     offset (sb_next sb) = offset (sb_buf sb) + len (sb_buf sb) \<and>
     len (sb_next sb) \<le> sb_maxlen sb - len (sb_buf sb) \<and>
     (sb_len sb \<ge> 0 \<longrightarrow> len (sb_next sb) = sb_len sb - len (sb_buf sb))"

text \<open>
  The outcome for bytes of a stream of packets \<open>ps\<close>, of which \<open>net\<close> has not arrived: the first packet
  is complete, or next is ready for more bytes (and if nothing more comes, nothing is missing).
\<close>

definition packet_ready :: "stream_buf \<Rightarrow> byte list \<Rightarrow> byte list \<Rightarrow> byte list list \<Rightarrow> bool" where
  "packet_ready sb d net ps \<longleftrightarrow>
     (\<exists>p ps' r. ps = p # ps' \<and> content (sb_buf sb) = p \<and> buf_defined (sb_buf sb) \<and> stream_room sb \<and>
        residual_ok sb r \<and> r @ net = packet_stream ps' \<and>
        stream_pending (sb\<lparr>sb_residual_fully_formed := True\<rparr>) d)"

definition packet_waits :: "stream_buf \<Rightarrow> byte list \<Rightarrow> byte list \<Rightarrow> byte list list \<Rightarrow> bool" where
  "packet_waits sb d net ps \<longleftrightarrow>
     stream_pending sb d \<and> next_ok sb \<and> residual_ok sb [] \<and> \<not> sb_residual_fully_formed sb \<and>
     (net = [] \<longrightarrow> ps = [])"

definition added_result :: "stream_buf \<Rightarrow> (bool \<times> stream_buf) option \<Rightarrow> byte list \<Rightarrow> byte list \<Rightarrow> byte list list \<Rightarrow> bool" where
  "added_result sb res d net ps \<longleftrightarrow>
     (\<exists>good sb'. res = Some (good, sb') \<and> sb_maxlen sb' = sb_maxlen sb \<and>
        (if good then packet_ready sb' d net ps else packet_waits sb' d net ps))"

lemma set_next_fields:
  assumes "stream_buf_set_next sb = Some sb'"
  shows "sb_residual_fully_formed sb' = sb_residual_fully_formed sb" "sb_maxlen sb' = sb_maxlen sb"
  using assms by (auto simp: stream_buf_set_next_def Let_def ASSERT_def split: if_splits)

lemma added_stream_known:
  assumes "stream_room sb" "\<not> sb_residual_fully_formed sb" "sb_len sb = int n" "0 < n"
    and "sb_buf sb = mk_buf pre c post" "n \<le> length c + length post" "int n \<le> sb_maxlen sb"
    and "residual_ok sb []" "int (length c) \<le> sb_maxlen sb + int n"
    and "c @ net = p @ packet_stream ps" "length p = n"
  shows "added_result sb (stream_buf_added sb 0) (be16 (of_nat n) @ c) net (p # ps)"
proof (cases "n \<le> length c")
  case True
  obtain res where res: "stream_buf_added sb 0 =
      Some (True, sb\<lparr>sb_residual := res, sb_buf := mk_buf pre (take n c) (drop n c @ post)\<rparr>)"
    "residual_ok (sb\<lparr>sb_residual := res\<rparr>) (drop n c)"
    using added_complete[of sb n c pre post "[]"] assms True by auto
  let ?sb = "sb\<lparr>sb_residual := res, sb_buf := mk_buf pre (take n c) (drop n c @ post)\<rparr>"
  have "take n (c @ net) = p" "drop n (c @ net) = packet_stream ps" unfolding assms using assms(11) by simp_all
  then have p: "take n c = p" "drop n c @ net = packet_stream ps" using True by simp_all
  have left: "residual_ok ?sb (drop n c)" using res(2) by (simp add: residual_ok_def)
  have "stream_pending (?sb\<lparr>sb_residual_fully_formed := True\<rparr>) (be16 (of_nat n) @ take n c @ drop n c)"
    by (rule complete[where pre = pre and post = "drop n c @ post"])
       (use assms True left in \<open>auto simp: residual_ok_def stream_room_def\<close>)
  then have "packet_ready ?sb (be16 (of_nat n) @ c) net (p # ps)"
    unfolding packet_ready_def append_take_drop_id using left p assms(1)
    by (intro exI[of _ p] exI[of _ ps] exI[of _ "drop n c"]) (simp add: buf_defined_def stream_room_def)
  then show ?thesis using res by (auto simp: added_result_def)
next
  case False
  obtain nb where nb: "stream_buf_set_next sb = Some (sb\<lparr>sb_next := nb\<rparr>)" "data nb \<noteq> None"
      "offset nb = int (length pre + length c)" "len nb = int n - int (length c)"
    using stream_buf_set_next_ok[of sb pre c post "int n"] assms False by auto
  have "stream_pending (sb\<lparr>sb_next := nb\<rparr>) (be16 (of_nat n) @ c)"
    by (rule partial[where pre = pre and post = post]) (use assms False in auto)
  moreover have "net \<noteq> []" using assms(10,11) False by (cases "net = []") auto
  ultimately show ?thesis using nb assms False added_partial[of sb n c post pre]
    by (auto simp: added_result_def packet_waits_def next_ok_def)
qed

lemma added_stream_no_length:
  assumes "stream_room sb" "\<not> sb_residual_fully_formed sb" "sb_len sb = -1" "sb_buf sb = mk_buf pre c post"
    and "residual_ok sb []" "sb_maxlen sb + 2 \<le> int (length c + length post)" "int (length c) \<le> sb_maxlen sb"
    and st: "c @ net = packet_stream ps" "packets_ok (sb_maxlen sb) ps"
  shows "added_result sb (stream_buf_added sb 0) c net ps"
proof (cases "2 \<le> length c")
  case True
  obtain p ps' where p: "ps = p # ps'" "take 2 c = be16 (of_nat (length p))"
    "drop 2 c @ net = p @ packet_stream ps'"
    using stream_head[OF st(1) True] by metis
  define n where "n = length p"
  have n: "0 < n" "1 \<le> int n" "int n \<le> sb_maxlen sb" "n \<le> 65535" using st(2) p(1)
    by (auto simp: packets_ok_def n_def Suc_le_eq)
  let ?sb = "sb\<lparr>sb_buf := mk_buf (pre @ take 2 c) (drop 2 c) post, sb_len := int n\<rparr>"
  have "stream_buf_added sb 0 = stream_buf_added ?sb 0"
    using added_prefix[of sb c pre post "int n"] assms True p(2) n by (simp add: n_def)
  moreover have "added_result ?sb (stream_buf_added ?sb 0) (be16 (of_nat n) @ drop 2 c) net (p # ps')"
    by (rule added_stream_known[where pre = "pre @ take 2 c" and post = post])
       (use assms n p True n_def in \<open>auto simp: of_nat_diff\<close>)
  moreover have "be16 (of_nat n) @ drop 2 c = c" using p(2) n_def by (metis append_take_drop_id)
  ultimately show ?thesis using p(1) by (simp add: added_result_def)
next
  case False
  obtain nb where nb: "stream_buf_set_next sb = Some (sb\<lparr>sb_next := nb\<rparr>)" "data nb \<noteq> None"
      "offset nb = int (length pre + length c)" "len nb = sb_maxlen sb - int (length c)"
    using stream_buf_set_next_ok[of sb pre c post "sb_maxlen sb"] assms False by (auto simp: stream_room_def)
  have "stream_pending (sb\<lparr>sb_next := nb\<rparr>) (c @ [])"
    by (rule no_length[where pre = pre and post = post]) (use assms False in auto)
  moreover have "net = [] \<longrightarrow> ps = []"
    using st(1) False by (cases ps) (auto simp: packet_frame_def)
  moreover have "0 < len nb" using assms(1) nb False by (auto simp: stream_room_def)
  ultimately show ?thesis using nb assms False added_no_prefix[of sb c pre post]
    by (auto simp: added_result_def packet_waits_def next_ok_def)
qed

text \<open>The bytes of a known length agree with the packet they announce.\<close>

lemma stream_known_head:
  assumes "(be16 (of_nat n) @ c) @ net = packet_stream ps" "packets_ok m ps" "int n \<le> m"
  obtains p ps' where "ps = p # ps'" "length p = n" "0 < n" "c @ net = p @ packet_stream ps'"
proof -
  obtain p ps' where p: "ps = p # ps'" "be16 (of_nat n) = be16 (of_nat (length p))"
    "c @ net = p @ packet_stream ps'"
    using stream_head[OF assms(1)] by (auto simp: length_be)
  have "uint (of_be16 (be16 (of_nat n))) = int n"
    "uint (of_be16 (be16 (of_nat (length p)))) = int (length p)"
    using assms(2,3) p(1) by (simp_all add: packets_ok_def)
  then have "length p = n" using p(2) by simp
  moreover have "p \<noteq> []" using assms(2) p(1) by (simp add: packets_ok_def)
  ultimately show ?thesis using that p by auto
qed

text \<open>What stream_buf_read_setup_dowork leaves: a complete packet, or a place for more bytes.\<close>

definition setup_result :: "stream_buf \<Rightarrow> byte list \<Rightarrow> byte list \<Rightarrow> byte list list \<Rightarrow> bool" where
  "setup_result sb d net ps \<longleftrightarrow>
     (\<exists>sb'. sb_maxlen sb' = sb_maxlen sb \<and> stream_pending sb' d \<and>
        (stream_buf_read_setup_dowork sb = Some (False, sb') \<and> sb_residual_fully_formed sb' \<or>
         stream_buf_read_setup_dowork sb = Some (True, sb') \<and> packet_waits sb' d net ps))"

lemma setup_no_residual:
  assumes "residual_ok sb []" "\<not> sb_residual_fully_formed sb"
    and "stream_buf_added sb 0 = map_option (Pair False) (stream_buf_set_next sb)"
    and "added_result sb (stream_buf_added sb 0) d net ps"
  shows "setup_result sb d net ps"
proof -
  obtain sb' where sb': "stream_buf_set_next sb = Some sb'" "packet_waits sb' d net ps"
    using assms(3,4) by (auto simp: added_result_def)
  moreover have "len (sb_residual sb) = 0" using assms(1) by (auto simp: residual_ok_def)
  ultimately show ?thesis
    using assms(2) set_next_fields[OF sb'(1)]
    by (auto simp: stream_buf_read_setup_dowork_def setup_result_def packet_waits_def)
qed

lemma pending_next [simp]: "stream_pending (sb\<lparr>sb_next := nb\<rparr>) d" if "stream_pending sb d"
  using that
proof cases
  case (no_length pre c post r)
  then show ?thesis using stream_pending.no_length[of "sb\<lparr>sb_next := nb\<rparr>" pre c post r] by simp
next
  case (partial n pre c post)
  then show ?thesis using stream_pending.partial[of "sb\<lparr>sb_next := nb\<rparr>" n pre c post] by simp
next
  case (complete n pre c post r)
  then show ?thesis using stream_pending.complete[of "sb\<lparr>sb_next := nb\<rparr>" n pre c post r] by simp
qed

lemma waits_set_next:
  assumes "packet_waits sb d net ps"
  obtains sb' where "stream_buf_set_next sb = Some sb'" "packet_waits sb' d net ps"
proof -
  obtain pre c post m where b: "sb_buf sb = mk_buf pre c post" "m = (if sb_len sb \<ge> 0 then sb_len sb else sb_maxlen sb)"
    "int (length c) < m" "m \<le> int (length c + length post)" "m \<le> sb_maxlen sb"
    using assms by (auto simp: packet_waits_def stream_room_def elim!: stream_pending.cases)
  then obtain nb where nb: "stream_buf_set_next sb = Some (sb\<lparr>sb_next := nb\<rparr>)" "data nb \<noteq> None"
      "offset nb = int (length pre + length c)" "len nb = m - int (length c)"
    using stream_buf_set_next_ok[of sb pre c post m] by auto
  then have "packet_waits (sb\<lparr>sb_next := nb\<rparr>) d net ps"
    using assms b by (auto simp: packet_waits_def next_ok_def)
  with nb(1) show ?thesis by (rule that)
qed

lemma setup_residual:
  assumes "\<not> sb_residual_fully_formed sb" "sb_len sb = -1" "stream_room sb" "sb_buf sb = mk_buf pre [] post"
    and "sb_maxlen sb + 2 \<le> int (length post)" "residual_ok sb r" "r \<noteq> []"
    and "r @ net = packet_stream ps" "packets_ok (sb_maxlen sb) ps"
  shows "setup_result sb r net ps"
proof -
  obtain rb where rb: "buf_init (sb_residual sb) 0 = (True, rb)" "residual_ok (sb\<lparr>sb_residual := rb\<rparr>) []"
    using assms(6) by (rule residual_init)
  have r: "int (length r) \<le> sb_maxlen sb" "len (sb_residual sb) \<noteq> 0"
    using assms(6,7) by (auto simp: residual_ok_def)
  let ?sb = "sb\<lparr>sb_buf := mk_buf pre r (drop (length r) post), sb_residual := rb\<rparr>"
  have cp: "buf_copy (sb_buf sb) (sb_residual sb) = Some (True, mk_buf pre r (drop (length r) post))"
    using assms(4-6) r by (auto simp: residual_ok_def)
  have run: "stream_buf_read_setup_dowork sb = do {
      (formed, sb) \<leftarrow> stream_buf_added ?sb 0;
      let sb = sb\<lparr>sb_residual_fully_formed := formed\<rparr>;
      sb \<leftarrow> (if \<not> formed then stream_buf_set_next sb else Some sb);
      Some (\<not> sb_residual_fully_formed sb, sb) }"
    using r(2) assms(1) cp rb(1)
    by (cases "stream_buf_added ?sb 0") (auto simp: stream_buf_read_setup_dowork_def Let_def split: prod.splits)
  have "added_result ?sb (stream_buf_added ?sb 0) r net ps"
    by (rule added_stream_no_length) (use assms r rb in \<open>auto simp: residual_ok_def of_nat_diff\<close>)
  then obtain good sb' where sb': "stream_buf_added ?sb 0 = Some (good, sb')" "sb_maxlen sb' = sb_maxlen sb"
    "if good then packet_ready sb' r net ps else packet_waits sb' r net ps"
    by (auto simp: added_result_def)
  show ?thesis
  proof (cases good)
    case True
    then show ?thesis using sb' run by (auto simp: setup_result_def packet_ready_def)
  next
    case False
    then have w: "packet_waits sb' r net ps" using sb' by simp
    then have same: "sb'\<lparr>sb_residual_fully_formed := False\<rparr> = sb'" by (simp add: packet_waits_def)
    obtain sb2 where sb2: "stream_buf_set_next sb' = Some sb2" "packet_waits sb2 r net ps"
      using w by (rule waits_set_next)
    have "stream_buf_read_setup_dowork sb = Some (True, sb2)"
      using sb' False run same sb2 by (simp add: packet_waits_def)
    then show ?thesis
      using sb'(2) sb2 set_next_fields(2)[OF sb2(1)] by (auto simp: setup_result_def packet_waits_def)
  qed
qed

lemma setup_stream:
  assumes "stream_pending sb d" "d @ net = packet_stream ps" "packets_ok (sb_maxlen sb) ps"
  shows "setup_result sb d net ps"
  using assms(1)
proof cases
  case (no_length pre c post r)
  show ?thesis
  proof (cases "r = []")
    case True
    show ?thesis
      by (rule setup_no_residual)
         (use no_length True assms added_no_prefix[of sb c pre post] added_stream_no_length[of sb pre c post net ps]
          in \<open>auto simp: stream_room_def\<close>)
  next
    case False
    then show ?thesis using no_length assms setup_residual[of sb pre post r net ps] by auto
  qed
next
  case (partial n pre c post)
  obtain p ps' where p: "ps = p # ps'" "length p = n" "0 < n" "c @ net = p @ packet_stream ps'"
    using stream_known_head[of n c net ps "sb_maxlen sb"] assms partial by auto
  show ?thesis
    by (rule setup_no_residual)
       (use partial assms p added_partial[of sb n c post pre] added_stream_known[of sb n pre c post net p ps']
        in auto)
next
  case (complete n pre c post r)
  then show ?thesis using assms by (auto simp: stream_buf_read_setup_dowork_def setup_result_def)
qed

text \<open>One round of the reader: it delivers nothing, or the first packet that is due.\<close>

definition step_result :: "stream_buf \<Rightarrow> byte list \<Rightarrow> byte list list \<Rightarrow> nat \<Rightarrow> bool" where
  "step_result sb net ps k \<longleftrightarrow>
     (\<exists>got sb' d' net' ps'. tcp_read_step sb net k = Some (got, sb', net') \<and> ps = got @ ps' \<and>
        stream_pending sb' d' \<and> d' @ net' = packet_stream ps' \<and> sb_maxlen sb' = sb_maxlen sb \<and>
        length net' + length ps' \<le> length net + length ps - 1)"

lemma read_finish_ready:
  assumes "packet_ready sb d net ps"
  shows "\<exists>p ps' n b sb' r. ps = p # ps' \<and> read_tcp_finish True sb = Some (n, Some b, sb', False) \<and> content b = p \<and>
    stream_pending sb' r \<and> r @ net = packet_stream ps' \<and> sb_maxlen sb' = sb_maxlen sb"
proof -
  obtain p ps' r where r: "ps = p # ps'" "content (sb_buf sb) = p" "buf_defined (sb_buf sb)" "stream_room sb"
        "residual_ok sb r" "r @ net = packet_stream ps'"
    using assms by (auto simp: packet_ready_def)
  have "stream_pending (stream_buf_reset sb) r" using r reset_pending by blast
  then show ?thesis using r by (auto simp: read_tcp_finish_def stream_buf_get_final_def stream_buf_reset_def)
qed

lemma pending_complete_ready:
  assumes "stream_pending sb d" "sb_residual_fully_formed sb" "d @ net = packet_stream ps"
    and "packets_ok (sb_maxlen sb) ps"
  shows "packet_ready sb d net ps"
  using assms(1)
proof cases
  case (complete n pre c post r)
  then have eq: "(be16 (of_nat n) @ c) @ (r @ net) = packet_stream ps" using assms(3) by simp
  obtain p ps' where p: "ps = p # ps'" "length p = n" "c @ (r @ net) = p @ packet_stream ps'"
    using stream_known_head[OF eq assms(4) complete(7)] by metis
  then have "c = p" "r @ net = packet_stream ps'" using complete(8) by (simp_all add: append_eq_append_conv)
  moreover have same: "sb\<lparr>sb_residual_fully_formed := True\<rparr> = sb" using assms(2) by simp
  ultimately show ?thesis using complete p(1) assms(1) unfolding packet_ready_def same
    by - (rule exI[of _ p], rule exI[of _ ps'], rule exI[of _ r], simp add: buf_defined_def)
qed (use assms(2) in auto)

lemma residual_ok_unique: "residual_ok sb r \<Longrightarrow> residual_ok sb r' \<Longrightarrow> r' = r"
  by (auto simp: residual_ok_def dest!: arg_cong[where f = content])

lemma added_waits:
  assumes w: "packet_waits sb d (bs @ net) ps" and st: "d @ bs @ net = packet_stream ps"
    and "packets_ok (sb_maxlen sb) ps" "bs \<noteq> []" "int (length bs) \<le> len (sb_next sb)"
    and buf: "sb_buf sb = mk_buf pre c post"
    and sb': "sb' = sb\<lparr>sb_buf := mk_buf pre (c @ bs) (drop (length bs) post)\<rparr>"
  shows "length bs \<le> length post \<and> added_result sb (stream_buf_added sb' 0) (d @ bs) net ps"
proof -
  have pend: "stream_pending sb d" and res: "residual_ok sb []" and "\<not> sb_residual_fully_formed sb"
    and nx: "next_ok sb" using w by (auto simp: packet_waits_def)
  show ?thesis using pend
  proof cases
    case (no_length pre' c' post' r)
    have "mk_buf pre' c' post' = mk_buf pre c post" using no_length buf by simp
    then have c: "c' = c" "pre' = pre" "post' = post" by (auto simp: mk_buf_def)
    have r: "r = []" using no_length(7) res residual_ok_unique by blast
    have "added_result sb' (stream_buf_added sb' 0) (c @ bs) net ps"
      by (rule added_stream_no_length[where pre = pre and post = "drop (length bs) post"])
         (use no_length c r assms nx res in \<open>auto simp: next_ok_def of_nat_diff\<close>)
    then show ?thesis using no_length c r nx assms(5) buf sb' by (auto simp: next_ok_def added_result_def)
  next
    case (partial n pre' c' post')
    have "mk_buf pre' c' post' = mk_buf pre c post" using partial buf by simp
    then have c: "c' = c" "pre' = pre" "post' = post" by (auto simp: mk_buf_def)
    have eq: "(be16 (of_nat n) @ c @ bs) @ net = packet_stream ps" using st partial c by simp
    obtain p ps' where p: "ps = p # ps'" "length p = n" "0 < n" "(c @ bs) @ net = p @ packet_stream ps'"
      using stream_known_head[OF eq assms(3) partial(7)] by metis
    have bs: "length bs \<le> n - length c" "length bs \<le> length post"
      using nx partial(3-9) buf assms(5) c by (auto simp: next_ok_def)
    have "added_result sb' (stream_buf_added sb' 0) (be16 (of_nat n) @ c @ bs) net (p # ps')"
      by (rule added_stream_known[where pre = pre and post = "drop (length bs) post"])
         (use partial c p assms nx res bs in \<open>auto simp: of_nat_diff\<close>)
    then show ?thesis using partial c p(1) bs sb' by (auto simp: added_result_def)
  qed (use w in \<open>auto simp: packet_waits_def\<close>)
qed

lemma read_tcp_waits:
  assumes "packet_waits sb d (bs @ net) ps" "d @ bs @ net = packet_stream ps"
    and "packets_ok (sb_maxlen sb) ps" "bs \<noteq> []" "int (length bs) \<le> len (sb_next sb)"
  shows "\<exists>good sb'. link_socket_read_tcp sb (Inr bs) = read_tcp_finish good sb' \<and> sb_maxlen sb' = sb_maxlen sb \<and>
    (if good then packet_ready sb' (d @ bs) net ps else packet_waits sb' (d @ bs) net ps)"
proof -
  obtain pre c post where buf: "sb_buf sb = mk_buf pre c post"
    using assms(1) by (auto simp: packet_waits_def elim!: stream_pending.cases)
  let ?sb = "sb\<lparr>sb_buf := mk_buf pre (c @ bs) (drop (length bs) post)\<rparr>"
  have fits: "length bs \<le> length post" and res: "added_result sb (stream_buf_added ?sb 0) (d @ bs) net ps"
    using added_waits[OF assms buf refl] by auto
  have nx: "next_ok sb" "\<not> sb_residual_fully_formed sb" using assms(1) by (auto simp: packet_waits_def)
  have "link_socket_read_tcp sb (Inr bs) = do {
      (complete, sb) \<leftarrow> do { b \<leftarrow> buf_store (sb_buf sb) (int (length pre + length c)) bs;
              stream_buf_added (sb\<lparr>sb_buf := b\<rparr>) (int (length bs)) };
      read_tcp_finish complete sb }"
    using nx buf assms(4) by (cases bs) (simp_all add: link_socket_read_tcp_def stream_buf_get_next_def buf_defined_def next_ok_def bind_assoc)
  also have "\<dots> = do { (complete, sb) \<leftarrow> stream_buf_added ?sb 0; read_tcp_finish complete sb }"
    using added_more[OF buf fits assms(4)] by simp
  finally have run: "link_socket_read_tcp sb (Inr bs) =
      do { (complete, sb) \<leftarrow> stream_buf_added ?sb 0; read_tcp_finish complete sb }" .
  obtain good sb' where sb': "stream_buf_added ?sb 0 = Some (good, sb')" "sb_maxlen sb' = sb_maxlen sb"
    "if good then packet_ready sb' (d @ bs) net ps else packet_waits sb' (d @ bs) net ps"
    using res unfolding added_result_def by metis
  show ?thesis by (rule exI[of _ good], rule exI[of _ sb']) (use run sb' in simp)
qed

lemma read_step:
  assumes "stream_pending sb d" "d @ net = packet_stream ps" "packets_ok (sb_maxlen sb) ps"
  shows "step_result sb net ps k"
proof -
  obtain sb1 where sb1: "sb_maxlen sb1 = sb_maxlen sb" "stream_pending sb1 d"
    "stream_buf_read_setup_dowork sb = Some (False, sb1) \<and> sb_residual_fully_formed sb1 \<or>
     stream_buf_read_setup_dowork sb = Some (True, sb1) \<and> packet_waits sb1 d net ps"
    using setup_stream[OF assms] by (auto simp: setup_result_def)
  from sb1(3) show ?thesis
  proof
    assume a: "stream_buf_read_setup_dowork sb = Some (False, sb1) \<and> sb_residual_fully_formed sb1"
    then have "packet_ready sb1 d net ps" using pending_complete_ready sb1(1,2) assms(2,3) by simp
    from read_finish_ready[OF this] a show ?thesis
      using sb1(1) by (fastforce simp: step_result_def tcp_read_step_def link_socket_read_tcp_def)
  next
    assume a: "stream_buf_read_setup_dowork sb = Some (True, sb1) \<and> packet_waits sb1 d net ps"
    show ?thesis
    proof (cases "net = []")
      case True
      then show ?thesis using a sb1 assms(2)
        by (auto simp: step_result_def tcp_read_step_def packet_waits_def)
    next
      case False
      define bs where "bs = tcp_recv (sb_next sb1) k net"
      have nx: "0 < len (sb_next sb1)" using a by (auto simp: packet_waits_def next_ok_def)
      define net' where "net' = drop (length bs) net"
      have bs: "bs \<noteq> []" "net = bs @ net'" "int (length bs) \<le> len (sb_next sb1)"
        using False nx by (auto simp: bs_def net'_def tcp_recv_def min_def)
      obtain good sb2 where sb2: "link_socket_read_tcp sb1 (Inr bs) = read_tcp_finish good sb2"
        "sb_maxlen sb2 = sb_maxlen sb1"
        "if good then packet_ready sb2 (d @ bs) net' ps else packet_waits sb2 (d @ bs) net' ps"
        using read_tcp_waits[of sb1 d bs net' ps] a assms bs sb1 by auto
      have step: "tcp_read_step sb net k = do { (n, b, sb, _) \<leftarrow> read_tcp_finish good sb2;
         Some (map content (case b of None \<Rightarrow> [] | Some b \<Rightarrow> [b]), sb, net') }"
        using a False sb2(1) by (simp add: tcp_read_step_def bs_def[symmetric] net'_def Let_def)
      have shorter: "length net' < length net" using bs by simp
      show ?thesis
      proof (cases good)
        case True
        from read_finish_ready[of sb2 "d @ bs" net' ps] obtain p ps' n b sb' r where
          "ps = p # ps'" "read_tcp_finish True sb2 = Some (n, Some b, sb', False)" "content b = p"
          "stream_pending sb' r" "r @ net' = packet_stream ps'" "sb_maxlen sb' = sb_maxlen sb2"
          using sb2(3) True by auto
        then show ?thesis using step True shorter sb2(2) sb1(1)
          unfolding step_result_def by - (rule exI[of _ "[p]"], rule exI[of _ sb'], rule exI[of _ r], rule exI[of _ net'], rule exI[of _ ps'], auto)
      next
        case g: False
        then have "stream_pending sb2 (d @ bs)" using sb2(3) by (simp add: packet_waits_def)
        moreover have "(d @ bs) @ net' = packet_stream ps" using bs(2) assms(2) by simp
        ultimately show ?thesis using step g shorter sb2(2) sb1(1)
          unfolding step_result_def read_tcp_finish_def
          by - (rule exI[of _ "[]"], rule exI[of _ sb2], rule exI[of _ "d @ bs"], rule exI[of _ net'], rule exI[of _ ps], auto)
      qed
    qed
  qed
qed

lemma receive_stream:
  assumes "stream_pending sb d" "d @ net = packet_stream ps" "packets_ok (sb_maxlen sb) ps"
  shows "\<exists>got sb' net' rest. tcp_receive sb net ks = Some (got, sb', net') \<and> ps = got @ rest \<and>
    length net' + length rest \<le> length net + length ps - length ks"
  using assms
proof (induction ks arbitrary: sb d net ps)
  case (Cons k ks)
  obtain got sb' d' net' ps' where 1: "tcp_read_step sb net k = Some (got, sb', net')" "ps = got @ ps'"
        "stream_pending sb' d'" "d' @ net' = packet_stream ps'" "sb_maxlen sb' = sb_maxlen sb"
        "length net' + length ps' \<le> length net + length ps - 1"
    using read_step[OF Cons.prems, of k] unfolding step_result_def by metis
  have "packets_ok (sb_maxlen sb') ps'" using Cons.prems(3) 1(2,5) by (auto simp: packets_ok_def)
  from Cons.IH[OF 1(3,4) this] obtain more sb2 net2 rest where
    2: "tcp_receive sb' net' ks = Some (more, sb2, net2)" "ps' = more @ rest"
      "length net2 + length rest \<le> length net' + length ps' - length ks" by auto
  show ?case using 1(1,2,6) 2 by auto
qed auto

text \<open>
  A stream buffer over the buffer that alloc_buf_sock_tun gives for reading from the link.  Besides
  the room for alignment that frame_finalize adds there must be two bytes for the length prefix and
  three for a start that is out of alignment.
\<close>

lemma stream_init_pending:
  assumes "wf_frame f" "5 \<le> extra_buffer f" "alloc_buf_sock_tun junk f False m = Some b"
  shows "stream_pending (stream_buf_init junk' sb b) []"
    "sb_maxlen (stream_buf_init junk' sb b) = MAX_RW_SIZE_LINK f"
proof -
  have b: "live_buf b" "offset b = frame_headroom f m" "len b = MAX_RW_SIZE_LINK f"
    using alloc_buf_sock_tun_fits[OF assms(1), of junk False m] assms(3) by auto
  obtain pre c post where p: "b = mk_buf pre c post" using b(1) by (rule live_bufE)
  have cap: "capacity b = BUF_SIZE f"
    using assms by (auto simp: alloc_buf_sock_tun_def alloc_buf_def buf_init_def wf_frame_def frame_size_defs
        Let_def ASSERT_def split: if_splits)
  have room: "MAX_RW_SIZE_LINK f + 2 \<le> int (length c + length post)" "2 \<le> MAX_RW_SIZE_LINK f"
    using cap b p assms(1,2) frame_headroom_bounds[of f m]
    by (auto simp: frame_size_defs wf_frame_def)
  have emp: "b\<lparr>len := 0\<rparr> = mk_buf pre [] (c @ post)" using p by (simp add: mk_buf_def)
  have res: "\<exists>rpost. alloc_buf junk' n = mk_buf [] [] rpost \<and> length rpost = n" for n
    by (auto simp: alloc_buf_def mk_buf_def Let_def)
  let ?sb = "stream_buf_init junk' sb b"
  show ml: "sb_maxlen ?sb = MAX_RW_SIZE_LINK f"
    by (simp add: stream_buf_init_def stream_buf_reset_def Let_def b)
  have "stream_room ?sb"
    unfolding stream_room_def using ml room b emp
    by (intro conjI, simp, intro exI[of _ pre] exI[of _ "c @ post"])
       (simp add: stream_buf_init_def stream_buf_reset_def Let_def)
  then have "stream_pending ?sb ([] @ [])"
    by (rule no_length[where pre = pre and post = "c @ post"])
       (use ml room b emp res[of "nat (len b)"] in
        \<open>auto simp: stream_buf_init_def stream_buf_reset_def Let_def residual_ok_def\<close>)
  then show "stream_pending ?sb []" by simp
qed

text \<open>
  C17: packets survive the TCP stream.  The sender frames each packet with link_socket_write_tcp; the
  receiver gets the bytes in pieces of any size.  No assertion fails on either side, what the
  receiver delivers is at any time a prefix of the packets that were sent, and once it has had
  enough rounds (at most one for each byte and each packet) it has delivered all of them.
\<close>

theorem tcp_packets_delivered:
  assumes "wf_frame f" "5 \<le> extra_buffer f" "MAX_RW_SIZE_LINK f \<le> 65535"
    and "alloc_buf_sock_tun junk f False m = Some b0"
    and "\<forall>b \<in> set bs. live_buf b \<and> 2 \<le> offset b \<and> 0 < len b \<and> len b \<le> MAX_RW_SIZE_LINK f"
  shows "\<exists>wire. map (link_socket_write_tcp (MAX_RW_SIZE_LINK f)) bs = map Some wire \<and>
    (\<exists>got sb' net'. tcp_receive (stream_buf_init junk' sb b0) (concat (map content wire)) ks = Some (got, sb', net') \<and>
      (\<exists>rest. map content bs = got @ rest) \<and>
      (length (concat (map content wire)) + length bs \<le> length ks \<longrightarrow> got = map content bs))"
proof -
  let ?M = "MAX_RW_SIZE_LINK f"
  have "\<exists>wire. map (link_socket_write_tcp ?M) bs = map Some wire \<and> map content wire = map (packet_frame \<circ> content) bs"
    using assms(5)
  proof (induction bs)
    case (Cons b bs)
    obtain b' where b': "link_socket_write_tcp ?M b = Some b'" "content b' = packet_frame (content b)"
      using link_socket_write_tcp_frame[of b ?M, OF _ _ _ assms(3)] Cons.prems by auto
    obtain wire where "map (link_socket_write_tcp ?M) bs = map Some wire"
      "map content wire = map (packet_frame \<circ> content) bs"
      using Cons.IH Cons.prems by auto
    with b' show ?case by (intro exI[of _ "b' # wire"]) simp
  qed simp
  then obtain wire where wire: "map (link_socket_write_tcp ?M) bs = map Some wire"
    "map content wire = map packet_frame (map content bs)" by auto
  define ps where "ps = map content bs"
  have ok: "packets_ok ?M ps"
    using assms(3,5) length_content[OF live_buf_wf] unfolding ps_def by (fastforce simp: packets_ok_def)
  obtain got sb' net' rest where got:
    "tcp_receive (stream_buf_init junk' sb b0) (packet_stream ps) ks = Some (got, sb', net')" "ps = got @ rest"
    "length net' + length rest \<le> length (packet_stream ps) + length ps - length ks"
    using receive_stream[OF stream_init_pending(1)[OF assms(1,2,4)], of "packet_stream ps" ps junk' sb ks]
      stream_init_pending(2)[OF assms(1,2,4), of junk' sb] ok by auto
  have bytes: "concat (map content wire) = packet_stream ps" using wire(2) by (simp add: ps_def)
  have "got = ps" if "length (packet_stream ps) + length bs \<le> length ks"
  proof -
    have "length bs = length ps" by (simp add: ps_def)
    then have "length rest = 0" using that got(3) by linarith
    then show ?thesis using got(2) by simp
  qed
  then show ?thesis
    using got(1) exI[of "\<lambda>rest. ps = got @ rest", OF got(2)] wire(1)
    unfolding ps_def[symmetric] by - (rule exI[of _ wire], unfold bytes, blast)
qed

definition demo_stream_frame :: frame where
  "demo_stream_frame = \<lparr>link_mtu = 202, link_mtu_dynamic = 202, extra_frame = 2, extra_buffer = 8, extra_tun = 0,
     extra_link = 0, align_flags = 0, align_adjust = 0\<rparr>"

definition demo_stream_buf :: stream_buf where
  "demo_stream_buf = \<lparr>sb_buf_init = clear_buf, sb_residual = clear_buf, sb_maxlen = 0, sb_residual_fully_formed = False,
     sb_buf = clear_buf, sb_next = clear_buf, sb_len = 0, sb_error = False\<rparr>"

theorem tcp_packets_delivered_witness:
  "\<exists>b0 wire. alloc_buf_sock_tun (\<lambda>_. 0) demo_stream_frame False 0 = Some b0 \<and>
    map (link_socket_write_tcp (MAX_RW_SIZE_LINK demo_stream_frame)) [mk_buf [0, 0] [1, 2, 3] [], mk_buf [0, 0] [7] []]
      = map Some wire \<and>
    (\<exists>got sb' net'. tcp_receive (stream_buf_init (\<lambda>_. 0) demo_stream_buf b0) (concat (map content wire)) [1, 3]
        = Some (got, sb', net') \<and> (\<exists>rest. [[1, 2, 3], [7]] = got @ rest))"
proof -
  have wf: "wf_frame demo_stream_frame" by (simp add: demo_stream_frame_def wf_frame_def frame_size_defs)
  obtain b0 where b0: "alloc_buf_sock_tun (\<lambda>_. 0) demo_stream_frame False 0 = Some b0"
    using alloc_buf_sock_tun_fits[OF wf] by blast
  have "\<exists>wire. map (link_socket_write_tcp (MAX_RW_SIZE_LINK demo_stream_frame)) [mk_buf [0, 0] [1, 2, 3] [], mk_buf [0, 0] [7] []]
      = map Some wire \<and>
    (\<exists>got sb' net'. tcp_receive (stream_buf_init (\<lambda>_. 0) demo_stream_buf b0) (concat (map content wire)) [1, 3] = Some (got, sb', net') \<and>
      (\<exists>rest. map content [mk_buf [0, 0] [1, 2, 3] [], mk_buf [0, 0] [7] []] = got @ rest) \<and>
      (length (concat (map content wire)) + length [mk_buf [0, 0] [1, 2, 3] [], mk_buf [0, 0] [7] []] \<le> length [1::nat, 3] \<longrightarrow>
         got = map content [mk_buf [0, 0] [1, 2, 3] [], mk_buf [0, 0] [7] []]))"
    by (rule tcp_packets_delivered[OF wf _ _ b0]) (simp_all add: demo_stream_frame_def frame_size_defs)
  then show ?thesis
    unfolding list.map content_mk_buf by (elim exE conjE, intro exI conjI) (rule b0, assumption+)
qed

text \<open>
  A bad length is caught.  Whatever a peer sends, once the two length bytes are there a length
  of zero or over the maximum marks the stream as broken (so that the connection is restarted) and
  discards the data; a length in range never does.
\<close>

lemma tcp_bad_length:
  assumes "sb_len sb = -1" "sb_buf sb = mk_buf pre c post" "2 \<le> length c"
    and "\<not> (1 \<le> uint (of_be16 (take 2 c)) \<and> uint (of_be16 (take 2 c)) \<le> sb_maxlen sb)"
  shows "\<exists>sb'. stream_buf_added sb 0 = Some (False, sb') \<and> sb_error sb' \<and> sb_len sb' = -1 \<and>
    sb_buf sb' = sb_buf_init sb \<and> \<not> buf_defined (sb_next sb')"
  using assms
  by (auto simp: stream_buf_added_def stream_buf_prefix_def stream_buf_reset_def Let_def buf_reset_def buf_defined_def)

end
