(* ===== verification/Misc.thy ===== *)
theory Misc
  imports Integer_Ops
begin

text \<open>Small helpers of misc.c that several components share.\<close>

section \<open>The next power of two\<close>

text \<open>
  The loop of adjust_power_of_2.  The value doubles in each round, so that it is zero after 32
  rounds at the latest and the assertion ends the program; 33 rounds are always enough.
\<close>

fun adjust_power_loop :: "nat \<Rightarrow> u32 \<Rightarrow> u32 \<Rightarrow> u32 option" where
  "adjust_power_loop 0 u ret = None"
| "adjust_power_loop (Suc n) u ret =
     (if ret < u then do {
        let ret = push_bit 1 ret;
        ASSERT (ret > 0);
        adjust_power_loop n u ret
      } else Some ret)"

definition adjust_power_of_2 :: "u32 \<Rightarrow> u32 option" where
  "adjust_power_of_2 u = adjust_power_loop 33 u 1"

lemma unat_exp32: "k < 32 \<Longrightarrow> unat ((2 :: u32) ^ k) = 2 ^ k"
proof -
  assume k: "k < 32"
  have "(2 :: nat) ^ k < 2 ^ 32" using k by (rule power_strict_increasing) simp
  then have "unat (word_of_nat (2 ^ k) :: u32) = 2 ^ k"
    by (subst unsigned_of_nat, subst take_bit_nat_eq_self) (simp_all del: power_strict_increasing_iff)
  then show ?thesis by simp
qed

lemma adjust_power_loop_spec:
  assumes "k < 32" "unat u \<le> 2147483648" "k + n \<ge> 32" "k = 0 \<or> 2 ^ (k - 1) < unat u"
  shows "\<exists>j. adjust_power_loop (Suc n) u (2 ^ k) = Some (2 ^ j) \<and> j < 32 \<and>
    unat u \<le> 2 ^ j \<and> (j = 0 \<or> 2 ^ (j - 1) < unat u)"
  using assms
proof (induction n arbitrary: k)
  case (Suc n)
  show ?case
  proof (cases "2 ^ k < u")
    case True
    then have less: "2 ^ k < unat u" using Suc.prems(1) by (simp add: word_less_nat_alt unat_exp32)
    then have "(2::nat) ^ k < 2 ^ 31" using Suc.prems(2) by simp
    then have "k < 31" using power_less_imp_less_exp[of "2::nat" k 31] by simp
    then have k: "Suc k < 32" by simp
    have dbl: "push_bit (Suc 0) ((2 :: u32) ^ k) = 2 ^ Suc k" by (simp add: push_bit_eq_mult)
    have nz: "(2 :: u32) ^ Suc k > 0"
      using unat_exp32[OF k] by (simp only: word_less_nat_alt) simp
    obtain j where "adjust_power_loop (Suc n) u (2 ^ Suc k) = Some (2 ^ j)" "j < 32"
        "unat u \<le> 2 ^ j" "j = 0 \<or> 2 ^ (j - 1) < unat u"
      using Suc.IH[OF k] Suc.prems less by auto
    then show ?thesis using True nz dbl
      by (intro exI[of _ j]) (simp del: adjust_power_loop.simps(2) add: adjust_power_loop.simps(2)[of "Suc n"] Let_def mult.commute)
  next
    case False
    then show ?thesis using Suc.prems
      by (intro exI[of _ k]) (simp add: word_less_nat_alt unat_exp32)
  qed
qed auto

lemma adjust_power_of_2_spec:
  assumes "unat u \<le> 2147483648"
  obtains j where "adjust_power_of_2 u = Some (2 ^ j)" "j < 32" "unat u \<le> 2 ^ j" "j = 0 \<or> 2 ^ (j - 1) < unat u"
  using adjust_power_loop_spec[of 0 u 32] assms by (auto simp: adjust_power_of_2_def)

lemma adjust_power_loop_power:
  "adjust_power_loop n u (2 ^ k) = Some v \<Longrightarrow> k < 32 \<Longrightarrow> \<exists>j < 32. v = 2 ^ j"
proof (induction n arbitrary: k)
  case (Suc n)
  show ?case
  proof (cases "2 ^ k < u")
    case True
    have dbl: "push_bit (Suc 0) ((2 :: u32) ^ k) = 2 ^ Suc k" by (simp add: push_bit_eq_mult)
    have rest: "adjust_power_loop n u (2 ^ Suc k) = Some v" "(2 :: u32) ^ Suc k > 0"
      using Suc.prems(1) True by (auto simp: Let_def dbl[simplified] mult.commute split: if_splits)
    have "k \<noteq> 31" using rest(2) by (intro notI) simp
    then show ?thesis using Suc.IH[OF rest(1)] Suc.prems(2) by simp
  qed (use Suc.prems in auto)
qed simp

lemma adjust_power_of_2_power: "adjust_power_of_2 u = Some v \<Longrightarrow> \<exists>j < 32. v = 2 ^ j"
  using adjust_power_loop_power[of 33 u 0 v] by (simp add: adjust_power_of_2_def)

lemma and_exp_mask: "(x :: int) AND (2 ^ j - 1) = x mod 2 ^ j"
  by (simp add: mask_eq_exp_minus_1[symmetric] take_bit_eq_mask[symmetric] take_bit_eq_mod)

end
