(* ===== verification/Mbuf.thy ===== *)
theory Mbuf
  imports Misc Buffer_Safety "HOL-Library.Multiset"
begin

text \<open>
  The queue of broadcast and multicast packets of the server: mbuf.h and mbuf.c.  A buffer is shared
  by the items that are queued for it and counts its references; buffers live in a heap, a map
  from addresses, so that a use after free is visible.  The queue is a ring in an array
  whose size is a power of two.  Client instances are identified by their address.
\<close>

section \<open>Data\<close>

record mbuf_buffer =
  mb_buf :: buffer
  mb_refcount :: int
  mb_flags :: u32

type_synonym mbuf_heap = "nat \<Rightarrow> mbuf_buffer option"

record mbuf_item =
  item_buffer :: "nat option"
  item_instance :: "nat option"

record mbuf_set =
  ms_head :: u32
  ms_len :: u32
  ms_capacity :: u32
  ms_max_queued :: u32
  ms_array :: "mbuf_item list"

definition MBUF_INDEX :: "u32 \<Rightarrow> u32 \<Rightarrow> u32 \<Rightarrow> u32" where
  "MBUF_INDEX head off sz = (head + off) AND (sz - 1)"

section \<open>Operations\<close>

text \<open>\<open>junk\<close> is the content of the array that malloc returns.\<close>

definition mbuf_init :: "(nat \<Rightarrow> mbuf_item) \<Rightarrow> u32 \<Rightarrow> mbuf_set option" where
  "mbuf_init junk sz = do {
     cap \<leftarrow> adjust_power_of_2 sz;
     Some \<lparr>ms_head = 0, ms_len = 0, ms_capacity = cap, ms_max_queued = 0,
           ms_array = map junk [0..<unat cap]\<rparr>
   }"

text \<open>malloc gives an address \<open>a\<close> that is not in use.\<close>

definition mbuf_alloc_buf :: "(nat \<Rightarrow> byte) \<Rightarrow> mbuf_heap \<Rightarrow> nat \<Rightarrow> buffer \<Rightarrow> mbuf_heap option" where
  "mbuf_alloc_buf junk hp a b = do {
     ASSERT (hp a = None);
     c \<leftarrow> clone_buf junk b;
     Some (hp(a \<mapsto> \<lparr>mb_buf = c, mb_refcount = 1, mb_flags = 0\<rparr>))
   }"

text \<open>An access to a freed buffer is \<^const>\<open>None\<close>.\<close>

definition mbuf_free_buf :: "mbuf_heap \<Rightarrow> nat option \<Rightarrow> mbuf_heap option" where
  "mbuf_free_buf hp mb = (case mb of
     None \<Rightarrow> Some hp
   | Some a \<Rightarrow> do {
       b \<leftarrow> hp a;
       let b = b\<lparr>mb_refcount := mb_refcount b - 1\<rparr>;
       Some (if mb_refcount b \<le> 0 then hp(a := None) else hp(a \<mapsto> b))
     })"

definition ms_get :: "mbuf_set \<Rightarrow> u32 \<Rightarrow> mbuf_item option" where
  "ms_get ms i = (if unat i < length (ms_array ms) then Some (ms_array ms ! unat i) else None)"

definition ms_set :: "mbuf_set \<Rightarrow> u32 \<Rightarrow> mbuf_item \<Rightarrow> mbuf_set option" where
  "ms_set ms i item =
     (if unat i < length (ms_array ms) then Some (ms\<lparr>ms_array := (ms_array ms)[unat i := item]\<rparr>) else None)"

text \<open>The loop of mbuf_extract_item; \<open>n\<close> is the length at its start.\<close>

fun mbuf_extract_loop :: "nat \<Rightarrow> mbuf_set \<Rightarrow> (mbuf_item option \<times> mbuf_set) option" where
  "mbuf_extract_loop 0 ms = Some (None, ms)"
| "mbuf_extract_loop (Suc n) ms = do {
     item \<leftarrow> ms_get ms (ms_head ms);
     let ms = ms\<lparr>ms_head := MBUF_INDEX (ms_head ms) 1 (ms_capacity ms), ms_len := ms_len ms - 1\<rparr>;
     if item_instance item \<noteq> None then Some (Some item, ms) else mbuf_extract_loop n ms
   }"

definition mbuf_extract_item :: "mbuf_set \<Rightarrow> (mbuf_item option \<times> mbuf_set) option" where
  "mbuf_extract_item ms = mbuf_extract_loop (unat (ms_len ms)) ms"

definition mbuf_add_item :: "mbuf_heap \<Rightarrow> mbuf_set \<Rightarrow> mbuf_item \<Rightarrow> (mbuf_heap \<times> mbuf_set) option" where
  "mbuf_add_item hp ms item = do {
     (hp, ms) \<leftarrow> (if ms_len ms = ms_capacity ms then do {
         (rm, ms) \<leftarrow> mbuf_extract_item ms;
         ASSERT (rm \<noteq> None);
         hp \<leftarrow> mbuf_free_buf hp (item_buffer (the rm));
         Some (hp, ms)
       } else Some (hp, ms));
     ASSERT (ms_len ms < ms_capacity ms);
     ms \<leftarrow> ms_set ms (MBUF_INDEX (ms_head ms) (ms_len ms) (ms_capacity ms)) item;
     let ms = ms\<lparr>ms_len := ms_len ms + 1\<rparr>;
     let ms = (if ms_len ms > ms_max_queued ms then ms\<lparr>ms_max_queued := ms_len ms\<rparr> else ms);
     a \<leftarrow> item_buffer item;
     b \<leftarrow> hp a;
     Some (hp(a \<mapsto> b\<lparr>mb_refcount := mb_refcount b + 1\<rparr>), ms)
   }"

fun mbuf_peek_loop :: "nat \<Rightarrow> u32 \<Rightarrow> mbuf_set \<Rightarrow> nat option option" where
  "mbuf_peek_loop 0 i ms = Some None"
| "mbuf_peek_loop (Suc n) i ms = do {
     item \<leftarrow> ms_get ms (MBUF_INDEX (ms_head ms) i (ms_capacity ms));
     if item_instance item \<noteq> None then Some (item_instance item) else mbuf_peek_loop n (i + 1) ms
   }"

definition mbuf_peek_dowork :: "mbuf_set \<Rightarrow> nat option option" where
  "mbuf_peek_dowork ms = mbuf_peek_loop (unat (ms_len ms)) 0 ms"

definition mbuf_peek :: "mbuf_set \<Rightarrow> nat option option" where
  "mbuf_peek ms = (if ms_len ms \<noteq> 0 then mbuf_peek_dowork ms else Some None)"

fun mbuf_dereference_loop :: "nat \<Rightarrow> u32 \<Rightarrow> nat \<Rightarrow> mbuf_heap \<Rightarrow> mbuf_set \<Rightarrow> (mbuf_heap \<times> mbuf_set) option" where
  "mbuf_dereference_loop 0 i mi hp ms = Some (hp, ms)"
| "mbuf_dereference_loop (Suc n) i mi hp ms = do {
     let k = MBUF_INDEX (ms_head ms) i (ms_capacity ms);
     item \<leftarrow> ms_get ms k;
     (hp, ms) \<leftarrow> (if item_instance item = Some mi then do {
         hp \<leftarrow> mbuf_free_buf hp (item_buffer item);
         ms \<leftarrow> ms_set ms k (item\<lparr>item_buffer := None, item_instance := None\<rparr>);
         Some (hp, ms)
       } else Some (hp, ms));
     mbuf_dereference_loop n (i + 1) mi hp ms
   }"

definition mbuf_dereference_instance :: "mbuf_heap \<Rightarrow> mbuf_set \<Rightarrow> nat \<Rightarrow> (mbuf_heap \<times> mbuf_set) option" where
  "mbuf_dereference_instance hp ms mi = mbuf_dereference_loop (unat (ms_len ms)) 0 mi hp ms"

fun mbuf_free_loop :: "nat \<Rightarrow> u32 \<Rightarrow> mbuf_heap \<Rightarrow> mbuf_set \<Rightarrow> mbuf_heap option" where
  "mbuf_free_loop 0 i hp ms = Some hp"
| "mbuf_free_loop (Suc n) i hp ms = do {
     item \<leftarrow> ms_get ms (MBUF_INDEX (ms_head ms) i (ms_capacity ms));
     hp \<leftarrow> mbuf_free_buf hp (item_buffer item);
     mbuf_free_loop n (i + 1) hp ms
   }"

definition mbuf_free :: "mbuf_heap \<Rightarrow> mbuf_set \<Rightarrow> mbuf_heap option" where
  "mbuf_free hp ms = mbuf_free_loop (unat (ms_len ms)) 0 hp ms"

section \<open>The ring as a queue\<close>

definition wf_ms :: "mbuf_set \<Rightarrow> bool" where
  "wf_ms ms \<longleftrightarrow> (\<exists>j < 32. ms_capacity ms = 2 ^ j) \<and> length (ms_array ms) = unat (ms_capacity ms) \<and>
     ms_head ms < ms_capacity ms \<and> ms_len ms \<le> ms_capacity ms"

definition slot :: "mbuf_set \<Rightarrow> nat \<Rightarrow> nat" where
  "slot ms i = (unat (ms_head ms) + i) mod unat (ms_capacity ms)"

definition mq :: "mbuf_set \<Rightarrow> mbuf_item list" where
  "mq ms = map (\<lambda>i. ms_array ms ! slot ms i) [0..<unat (ms_len ms)]"

lemma MBUF_INDEX_mod:
  assumes "j < 32"
  shows "unat (MBUF_INDEX h i (2 ^ j)) = (unat h + unat i) mod 2 ^ j"
proof -
  have "(2 :: u32) ^ j - 1 = mask j" by (simp add: mask_eq_exp_minus_1)
  then have "MBUF_INDEX h i (2 ^ j) = take_bit j (h + i)"
    by (simp add: MBUF_INDEX_def take_bit_eq_mask)
  then have "unat (MBUF_INDEX h i (2 ^ j)) = take_bit j (unat (h + i))"
    by (simp only: unsigned_take_bit_eq)
  also have "\<dots> = unat (h + i) mod 2 ^ j" by (simp add: take_bit_eq_mod)
  also have "\<dots> = (unat h + unat i) mod 2 ^ 32 mod 2 ^ j" by (simp add: unat_word_ariths)
  also have "\<dots> = (unat h + unat i) mod 2 ^ j"
    using assms by (simp only: mod_mod_cancel le_imp_power_dvd less_imp_le)
  finally show ?thesis .
qed

lemma wf_ms_cap: "wf_ms ms \<Longrightarrow> \<exists>j < 32. ms_capacity ms = 2 ^ j \<and> unat (ms_capacity ms) = 2 ^ j"
  using unat_exp32 by (auto simp: wf_ms_def)

lemma unat_u32: "unat (w :: u32) < 4294967296"
  using unsigned_less[where ?'a = nat, of w] by simp

lemma unat_small: "n \<le> unat (w :: u32) \<Longrightarrow> unat (word_of_nat n :: u32) = n"
  using unat_u32[of w] by (simp add: unsigned_of_nat take_bit_nat_eq_self)

lemma MBUF_INDEX_slot:
  assumes "wf_ms ms"
  shows "unat (MBUF_INDEX (ms_head ms) i (ms_capacity ms)) = slot ms (unat i)" "slot ms n < length (ms_array ms)"
proof -
  obtain j where j: "j < 32" "ms_capacity ms = 2 ^ j" "unat (ms_capacity ms) = 2 ^ j" using wf_ms_cap[OF assms] by auto
  show "unat (MBUF_INDEX (ms_head ms) i (ms_capacity ms)) = slot ms (unat i)"
    unfolding slot_def j(2) unat_exp32[OF j(1)] by (rule MBUF_INDEX_mod[OF j(1)])
  have "length (ms_array ms) = 2 ^ j" using assms j(3) by (simp add: wf_ms_def)
  then show "slot ms n < length (ms_array ms)" unfolding slot_def j(3) by simp
qed

lemma slot_inj:
  assumes "slot ms i = slot ms k" "i < unat (ms_capacity ms)" "k < unat (ms_capacity ms)"
  shows "i = k"
  using assms
proof (induction i k rule: linorder_wlog)
  case (le i k)
  have "unat (ms_capacity ms) dvd (unat (ms_head ms) + k) - (unat (ms_head ms) + i)"
    using le(1) le(2)[symmetric]
    by (subst mod_eq_dvd_iff_nat[symmetric]) (simp_all add: slot_def)
  then have "unat (ms_capacity ms) dvd k - i" by simp
  moreover have "k - i < unat (ms_capacity ms)" using le(4) by simp
  ultimately have "k - i = 0" by (meson dvd_imp_le not_gr_zero leD)
  then show ?case using le(1) by simp
qed auto

lemma length_mq [simp]: "length (mq ms) = unat (ms_len ms)"
  by (simp add: mq_def)

lemma mq_nth: "i < unat (ms_len ms) \<Longrightarrow> mq ms ! i = ms_array ms ! slot ms i"
  by (simp add: mq_def)

lemma ms_get_mq:
  assumes "wf_ms ms" "i < ms_len ms"
  shows "ms_get ms (MBUF_INDEX (ms_head ms) i (ms_capacity ms)) = Some (mq ms ! unat i)"
  using MBUF_INDEX_slot[OF assms(1)] assms(2) by (simp add: ms_get_def mq_nth word_less_nat_alt)

lemma ms_set_mq:
  assumes wf: "wf_ms ms" and i: "i < ms_len ms"
    and ms': "ms' = ms\<lparr>ms_array := (ms_array ms)[slot ms (unat i) := item]\<rparr>"
  shows "ms_set ms (MBUF_INDEX (ms_head ms) i (ms_capacity ms)) item = Some ms'"
    "wf_ms ms'" "mq ms' = (mq ms)[unat i := item]"
proof -
  show "ms_set ms (MBUF_INDEX (ms_head ms) i (ms_capacity ms)) item = Some ms'"
    using MBUF_INDEX_slot[OF wf] ms' by (simp add: ms_set_def)
  show "wf_ms ms'" using wf ms' by (simp add: wf_ms_def)
  have n: "unat (ms_len ms) \<le> unat (ms_capacity ms)" "unat i < unat (ms_len ms)"
    using wf i by (auto simp: wf_ms_def word_le_nat_alt word_less_nat_alt)
  have sl: "slot ms' k = slot ms k" for k by (simp add: slot_def ms')
  show "mq ms' = (mq ms)[unat i := item]"
  proof (rule nth_equalityI)
    fix k assume "k < length (mq ms')"
    then have k: "k < unat (ms_len ms)" by (simp add: ms')
    then have ne: "k \<noteq> unat i \<Longrightarrow> slot ms k \<noteq> slot ms (unat i)" using slot_inj[of ms k "unat i"] n by auto
    have "mq ms' ! k = ms_array ms' ! slot ms k" using k by (subst mq_nth) (simp_all add: ms' sl[unfolded ms'])
    then show "mq ms' ! k = (mq ms)[unat i := item] ! k"
      using k n ne MBUF_INDEX_slot(2)[OF wf] by (cases "k = unat i") (simp_all add: ms' mq_nth)
  qed (simp add: ms')
qed

lemma ms_pop:
  assumes wf: "wf_ms ms" and ne: "ms_len ms \<noteq> 0"
    and ms': "ms' = ms\<lparr>ms_head := MBUF_INDEX (ms_head ms) 1 (ms_capacity ms), ms_len := ms_len ms - 1\<rparr>"
  shows "ms_get ms (ms_head ms) = Some (hd (mq ms))" "wf_ms ms'" "mq ms' = tl (mq ms)"
    "unat (ms_len ms') = unat (ms_len ms) - 1"
proof -
  have len: "0 < unat (ms_len ms)" using ne by (simp add: unat_gt_0)
  have l': "unat (ms_len ms - 1) = unat (ms_len ms) - 1" using ne by (simp add: unat_minus_one)
  show "unat (ms_len ms') = unat (ms_len ms) - 1" using l' by (simp add: ms')
  obtain j where j: "j < 32" "ms_capacity ms = 2 ^ j" "unat (ms_capacity ms) = 2 ^ j" using wf_ms_cap[OF wf] by auto
  have head: "unat (ms_head ms) < 2 ^ j" using wf j by (simp add: wf_ms_def word_less_nat_alt)
  then have "slot ms 0 = unat (ms_head ms)" unfolding slot_def j(3) by simp
  moreover have "hd (mq ms) = mq ms ! 0" using len by (simp add: hd_conv_nth flip: length_greater_0_conv)
  ultimately show "ms_get ms (ms_head ms) = Some (hd (mq ms))"
    using len head wf j(3) by (simp add: ms_get_def mq_nth wf_ms_def)
  have "unat (MBUF_INDEX (ms_head ms) 1 (ms_capacity ms)) < unat (ms_capacity ms)"
    unfolding j(2) MBUF_INDEX_mod[OF j(1)] unat_exp32[OF j(1)] by simp
  moreover have "unat (ms_len ms - 1) \<le> unat (ms_capacity ms)"
    using wf unfolding wf_ms_def word_le_nat_alt l' by linarith
  ultimately show "wf_ms ms'" using wf by (simp add: wf_ms_def ms' word_less_nat_alt word_le_nat_alt)
  have sl: "slot ms' k = slot ms (Suc k)" for k
    unfolding slot_def ms' using MBUF_INDEX_mod[OF j(1), of "ms_head ms" 1] by (simp add: j unat_exp32 mod_add_left_eq)
  show "mq ms' = tl (mq ms)"
  proof (rule nth_equalityI)
    fix k assume "k < length (mq ms')"
    then have k: "k < unat (ms_len ms) - 1" by (simp add: ms' l')
    have "mq ms' ! k = ms_array ms' ! slot ms' k" using k by (intro mq_nth) (simp add: ms' l')
    then show "mq ms' ! k = tl (mq ms) ! k" using k sl by (simp add: ms' nth_tl mq_nth)
  qed (simp add: ms' l')
qed

lemma ms_push:
  assumes wf: "wf_ms ms" and room: "ms_len ms < ms_capacity ms"
    and ms': "ms' = ms\<lparr>ms_array := (ms_array ms)[slot ms (unat (ms_len ms)) := item], ms_len := ms_len ms + 1\<rparr>"
  shows "ms_set ms (MBUF_INDEX (ms_head ms) (ms_len ms) (ms_capacity ms)) item =
      Some (ms\<lparr>ms_array := (ms_array ms)[slot ms (unat (ms_len ms)) := item]\<rparr>)"
    "wf_ms ms'" "mq ms' = mq ms @ [item]"
proof -
  show "ms_set ms (MBUF_INDEX (ms_head ms) (ms_len ms) (ms_capacity ms)) item =
      Some (ms\<lparr>ms_array := (ms_array ms)[slot ms (unat (ms_len ms)) := item]\<rparr>)"
    using MBUF_INDEX_slot[OF wf] by (simp add: ms_set_def)
  have n: "unat (ms_len ms) < unat (ms_capacity ms)" using room by (simp add: word_less_nat_alt)
  have l': "unat (ms_len ms + 1) = unat (ms_len ms) + 1"
    by (rule unat_suc) (use n unat_u32[of "ms_capacity ms"] in simp)
  show "wf_ms ms'" using wf n l' by (simp add: wf_ms_def ms' word_le_nat_alt)
  have sl: "slot ms' k = slot ms k" for k by (simp add: slot_def ms')
  show "mq ms' = mq ms @ [item]"
  proof (rule nth_equalityI)
    fix k assume "k < length (mq ms')"
    then have k: "k < unat (ms_len ms) + 1" by (simp add: ms' l')
    then have ne: "k \<noteq> unat (ms_len ms) \<Longrightarrow> slot ms k \<noteq> slot ms (unat (ms_len ms))"
      using slot_inj[of ms k "unat (ms_len ms)"] n by auto
    have "mq ms' ! k = ms_array ms' ! slot ms k" using k sl by (subst mq_nth) (simp_all add: ms' l')
    then show "mq ms' ! k = (mq ms @ [item]) ! k"
      using k ne MBUF_INDEX_slot(2)[OF wf] by (cases "k = unat (ms_len ms)") (simp_all add: ms' mq_nth nth_append)
  qed (simp add: ms' l')
qed

text \<open>The operations on the queue of items.\<close>

abbreviation (input) dereferenced :: "mbuf_item \<Rightarrow> bool" where
  "dereferenced x \<equiv> item_instance x = None"

lemma extract_loop_mq:
  assumes "wf_ms ms" "n = unat (ms_len ms)"
  shows "\<exists>ms'. mbuf_extract_loop n ms = Some (case dropWhile dereferenced (mq ms) of [] \<Rightarrow> None | x # _ \<Rightarrow> Some x, ms') \<and>
    wf_ms ms' \<and> mq ms' = tl (dropWhile dereferenced (mq ms)) \<and>
    ms_capacity ms' = ms_capacity ms \<and> ms_max_queued ms' = ms_max_queued ms"
  using assms
proof (induction n arbitrary: ms)
  case 0
  then have "mq ms = []" by (simp flip: length_0_conv)
  then show ?case using 0 by simp
next
  case (Suc n)
  let ?ms = "ms\<lparr>ms_head := MBUF_INDEX (ms_head ms) 1 (ms_capacity ms), ms_len := ms_len ms - 1\<rparr>"
  have ne: "ms_len ms \<noteq> 0" using Suc.prems(2) by auto
  note pop = ms_pop[OF Suc.prems(1) ne refl]
  obtain x xs where mq: "mq ms = x # xs" using Suc.prems(2) by (cases "mq ms") (auto simp flip: length_mq)
  show ?case
  proof (cases "item_instance x = None")
    case True
    have n: "n = unat (ms_len ?ms)" using pop(4) Suc.prems(2) by simp
    obtain ms' where
      "mbuf_extract_loop n ?ms = Some (case dropWhile dereferenced (mq ?ms) of [] \<Rightarrow> None | x # _ \<Rightarrow> Some x, ms')"
      "wf_ms ms'" "mq ms' = tl (dropWhile dereferenced (mq ?ms))"
      "ms_capacity ms' = ms_capacity ?ms" "ms_max_queued ms' = ms_max_queued ?ms"
      using Suc.IH[OF pop(2) n] by blast
    then show ?thesis using pop mq True by (auto simp: Let_def)
  next
    case False
    then show ?thesis using pop mq by (auto simp: Let_def)
  qed
qed

lemma mbuf_extract_item_mq:
  assumes "wf_ms ms"
  obtains ms' where
    "mbuf_extract_item ms = Some (case dropWhile dereferenced (mq ms) of [] \<Rightarrow> None | x # _ \<Rightarrow> Some x, ms')"
    "wf_ms ms'" "mq ms' = tl (dropWhile dereferenced (mq ms))" "ms_capacity ms' = ms_capacity ms"
  using extract_loop_mq[OF assms refl] unfolding mbuf_extract_item_def by blast

text \<open>References: every live buffer counts its users, and a freed one has none.\<close>

definition heap_counts :: "mbuf_heap \<Rightarrow> nat multiset \<Rightarrow> bool" where
  "heap_counts hp R \<longleftrightarrow>
     (\<forall>a. case hp a of None \<Rightarrow> a \<notin># R | Some b \<Rightarrow> a \<in># R \<and> mb_refcount b = int (count R a))"

definition qbufs :: "mbuf_item list \<Rightarrow> nat multiset" where
  "qbufs q = mset (concat (map (\<lambda>x. case item_buffer x of None \<Rightarrow> [] | Some a \<Rightarrow> [a]) q))"

lemma qbufs_simps [simp]:
  "qbufs [] = {#}" "qbufs (x # q) = (case item_buffer x of None \<Rightarrow> {#} | Some a \<Rightarrow> {#a#}) + qbufs q"
  "qbufs (q @ q') = qbufs q + qbufs q'"
  by (auto simp: qbufs_def split: option.splits)

lemma heap_counts_free:
  assumes "heap_counts hp (add_mset a R)"
  shows "\<exists>hp'. mbuf_free_buf hp (Some a) = Some hp' \<and> heap_counts hp' R"
proof -
  obtain b where b: "hp a = Some b" "mb_refcount b = int (count R a) + 1"
    using assms[unfolded heap_counts_def, rule_format, of a] by (auto split: option.splits)
  let ?hp = "if count R a = 0 then hp(a := None) else hp(a \<mapsto> b\<lparr>mb_refcount := mb_refcount b - 1\<rparr>)"
  have "mbuf_free_buf hp (Some a) = Some ?hp" using b by (simp add: mbuf_free_buf_def Let_def)
  moreover have "heap_counts ?hp R"
    unfolding heap_counts_def
  proof
    fix x
    show "case ?hp x of None \<Rightarrow> x \<notin># R | Some b \<Rightarrow> x \<in># R \<and> mb_refcount b = int (count R x)"
      using assms[unfolded heap_counts_def, rule_format, of x] b
      by (cases "x = a") (auto simp: count_eq_zero_iff split: option.splits)
  qed
  ultimately show ?thesis by blast
qed

lemma heap_counts_use:
  assumes "heap_counts hp R" "a \<in># R"
  obtains b where "hp a = Some b" "heap_counts (hp(a \<mapsto> b\<lparr>mb_refcount := mb_refcount b + 1\<rparr>)) (add_mset a R)"
proof -
  obtain b where b: "hp a = Some b" "mb_refcount b = int (count R a)"
    using assms(1)[unfolded heap_counts_def, rule_format, of a] assms(2) by (auto split: option.splits)
  have "heap_counts (hp(a \<mapsto> b\<lparr>mb_refcount := mb_refcount b + 1\<rparr>)) (add_mset a R)"
    unfolding heap_counts_def
  proof
    fix x
    show "case (hp(a \<mapsto> b\<lparr>mb_refcount := mb_refcount b + 1\<rparr>)) x of None \<Rightarrow> x \<notin># add_mset a R
      | Some b \<Rightarrow> x \<in># add_mset a R \<and> mb_refcount b = int (count (add_mset a R) x)"
      using assms(1)[unfolded heap_counts_def, rule_format, of x] b
      by (cases "x = a") (auto split: option.splits)
  qed
  with b(1) show ?thesis by (rule that)
qed

lemma heap_counts_alloc:
  assumes "heap_counts hp R" "hp a = None"
  shows "heap_counts (hp(a \<mapsto> \<lparr>mb_buf = c, mb_refcount = 1, mb_flags = f\<rparr>)) (add_mset a R)"
proof -
  have "a \<notin># R" using assms(1)[unfolded heap_counts_def, rule_format, of a] assms(2) by simp
  show ?thesis unfolding heap_counts_def
  proof
    fix x
    show "case (hp(a \<mapsto> \<lparr>mb_buf = c, mb_refcount = 1, mb_flags = f\<rparr>)) x of None \<Rightarrow> x \<notin># add_mset a R
      | Some b \<Rightarrow> x \<in># add_mset a R \<and> mb_refcount b = int (count (add_mset a R) x)"
      using assms(1)[unfolded heap_counts_def, rule_format, of x] \<open>a \<notin># R\<close>
      by (cases "x = a") (auto simp: count_eq_zero_iff split: option.splits)
  qed
qed

lemma heap_counts_free_opt:
  assumes "heap_counts hp ((case x of None \<Rightarrow> {#} | Some a \<Rightarrow> {#a#}) + R)"
  shows "\<exists>hp'. mbuf_free_buf hp x = Some hp' \<and> heap_counts hp' R"
  using assms heap_counts_free[of hp _ R] by (cases x) (auto simp: mbuf_free_buf_def)

definition deref_item :: "nat \<Rightarrow> mbuf_item \<Rightarrow> mbuf_item" where
  "deref_item mi x = (if item_instance x = Some mi then x\<lparr>item_buffer := None, item_instance := None\<rparr> else x)"

lemma dereference_loop_mq:
  assumes "wf_ms ms" "heap_counts hp (qbufs (mq ms) + R)" "unat i + n = unat (ms_len ms)"
  shows "\<exists>hp' ms'. mbuf_dereference_loop n i mi hp ms = Some (hp', ms') \<and> wf_ms ms' \<and>
    ms_capacity ms' = ms_capacity ms \<and> ms_len ms' = ms_len ms \<and>
    mq ms' = take (unat i) (mq ms) @ map (deref_item mi) (drop (unat i) (mq ms)) \<and>
    heap_counts hp' (qbufs (mq ms') + R)"
  using assms
proof (induction n arbitrary: i hp ms)
  case (Suc n)
  let ?i = "unat i"
  have less: "i < ms_len ms" "?i < length (mq ms)" using Suc.prems(3) by (simp_all add: word_less_nat_alt)
  define x where "x = mq ms ! ?i"
  have split: "mq ms = take ?i (mq ms) @ x # drop (Suc ?i) (mq ms)"
    using less by (simp add: x_def id_take_nth_drop)
  have i1: "unat (i + 1) = ?i + 1" using less unat_u32[of "ms_len ms"] by (intro unat_suc) simp
  note get = ms_get_mq[OF Suc.prems(1) less(1)]
  show ?case
  proof (cases "item_instance x = Some mi")
    case True
    let ?y = "x\<lparr>item_buffer := None, item_instance := None\<rparr>"
    let ?ms = "ms\<lparr>ms_array := (ms_array ms)[slot ms ?i := ?y]\<rparr>"
    note set = ms_set_mq[OF Suc.prems(1) less(1) refl, of ?y]
    have mq': "mq ?ms = take ?i (mq ms) @ ?y # drop (Suc ?i) (mq ms)"
      using set(3) less by (simp add: upd_conv_take_nth_drop)
    have "qbufs (mq ms) = (case item_buffer x of None \<Rightarrow> {#} | Some a \<Rightarrow> {#a#}) + qbufs (mq ?ms)"
      by (subst split, subst mq') (simp add: ac_simps split: option.splits)
    then obtain hp1 where hp1: "mbuf_free_buf hp (item_buffer x) = Some hp1" "heap_counts hp1 (qbufs (mq ?ms) + R)"
      using heap_counts_free_opt[of hp "item_buffer x" "qbufs (mq ?ms) + R"] Suc.prems(2) by (auto simp: add.assoc)
    from Suc.IH[OF set(2) hp1(2), of "i + 1"] obtain hp' ms' where ih:
      "mbuf_dereference_loop n (i + 1) mi hp1 ?ms = Some (hp', ms')" "wf_ms ms'"
      "ms_capacity ms' = ms_capacity ms" "ms_len ms' = ms_len ms"
      "mq ms' = take (unat (i + 1)) (mq ?ms) @ map (deref_item mi) (drop (unat (i + 1)) (mq ?ms))"
      "heap_counts hp' (qbufs (mq ms') + R)"
      using i1 Suc.prems(3) by auto
    have "take (unat (i + 1)) (mq ?ms) @ map (deref_item mi) (drop (unat (i + 1)) (mq ?ms))
        = take ?i (mq ms) @ map (deref_item mi) (drop ?i (mq ms))"
      unfolding i1 mq' using less True by (simp add: Cons_nth_drop_Suc[symmetric] x_def[symmetric] deref_item_def take_Suc_conv_app_nth min_def)
    with ih(5) have "mq ms' = take ?i (mq ms) @ map (deref_item mi) (drop ?i (mq ms))" by (rule trans)
    moreover have "mbuf_dereference_loop (Suc n) i mi hp ms = Some (hp', ms')"
      using get set(1) hp1(1) True ih(1) by (simp add: x_def Let_def)
    ultimately show ?thesis using ih by blast
  next
    case False
    from Suc.IH[OF Suc.prems(1,2), of "i + 1"] obtain hp' ms' where ih:
      "mbuf_dereference_loop n (i + 1) mi hp ms = Some (hp', ms')" "wf_ms ms'"
      "ms_capacity ms' = ms_capacity ms" "ms_len ms' = ms_len ms"
      "mq ms' = take (unat (i + 1)) (mq ms) @ map (deref_item mi) (drop (unat (i + 1)) (mq ms))"
      "heap_counts hp' (qbufs (mq ms') + R)"
      using i1 Suc.prems(3) by auto
    have "take (unat (i + 1)) (mq ms) @ map (deref_item mi) (drop (unat (i + 1)) (mq ms))
        = take ?i (mq ms) @ map (deref_item mi) (drop ?i (mq ms))"
      unfolding i1 using less False by (simp add: Cons_nth_drop_Suc[symmetric] x_def deref_item_def take_Suc_conv_app_nth)
    with ih(5) have "mq ms' = take ?i (mq ms) @ map (deref_item mi) (drop ?i (mq ms))" by (rule trans)
    moreover have "mbuf_dereference_loop (Suc n) i mi hp ms = Some (hp', ms')"
      using get False ih(1) by (simp add: x_def Let_def)
    ultimately show ?thesis using ih by blast
  qed
qed simp

lemma mq_max [simp]: "mq (ms\<lparr>ms_max_queued := x\<rparr>) = mq ms" "wf_ms (ms\<lparr>ms_max_queued := x\<rparr>) = wf_ms ms"
  by (simp_all add: mq_def slot_def wf_ms_def)

definition items_ok :: "mbuf_item list \<Rightarrow> bool" where
  "items_ok q \<longleftrightarrow> (\<forall>x \<in> set q. item_instance x = None \<longrightarrow> item_buffer x = None)"

lemma qbufs_dropWhile: "items_ok q \<Longrightarrow> qbufs (dropWhile dereferenced q) = qbufs q"
  by (induction q) (auto simp: items_ok_def)

definition queue_add :: "nat \<Rightarrow> mbuf_item list \<Rightarrow> mbuf_item \<Rightarrow> mbuf_item list option" where
  "queue_add cap q item =
     (if length q < cap then Some (q @ [item])
      else case dropWhile dereferenced q of [] \<Rightarrow> None | _ # q' \<Rightarrow> Some (q' @ [item]))"

lemma add_with_room:
  assumes wf: "wf_ms ms" and room: "ms_len ms < ms_capacity ms"
    and hp: "heap_counts hp (qbufs (mq ms) + R)" and a: "a \<in># R" "item_buffer item = Some a"
  shows "\<exists>hp' ms'. mbuf_add_item hp ms item = Some (hp', ms') \<and> wf_ms ms' \<and> mq ms' = mq ms @ [item] \<and>
    ms_capacity ms' = ms_capacity ms \<and> heap_counts hp' (qbufs (mq ms') + R)"
proof -
  let ?ms = "ms\<lparr>ms_array := (ms_array ms)[slot ms (unat (ms_len ms)) := item], ms_len := ms_len ms + 1\<rparr>"
  let ?ms' = "if ms_len ?ms > ms_max_queued ?ms then ?ms\<lparr>ms_max_queued := ms_len ?ms\<rparr> else ?ms"
  note push = ms_push[OF wf room refl, of item]
  obtain b where b: "hp a = Some b"
    "heap_counts (hp(a \<mapsto> b\<lparr>mb_refcount := mb_refcount b + 1\<rparr>)) (add_mset a (qbufs (mq ms) + R))"
    using heap_counts_use[OF hp, of a] a by auto
  have ms': "wf_ms ?ms'" "mq ?ms' = mq ms @ [item]" "ms_capacity ?ms' = ms_capacity ms"
    using push by (simp_all split del: if_split split: if_split)
  have "mbuf_add_item hp ms item = Some (hp(a \<mapsto> b\<lparr>mb_refcount := mb_refcount b + 1\<rparr>), ?ms')"
    using room less_imp_neq[OF room] push(1) a(2) b(1) by (simp add: mbuf_add_item_def Let_def)
  moreover have "qbufs (mq ?ms') + R = add_mset a (qbufs (mq ms) + R)" unfolding ms'(2) by (simp add: a(2))
  ultimately show ?thesis using ms' b(2) by metis
qed

lemma mbuf_add_item_mq:
  assumes wf: "wf_ms ms" and ok: "items_ok (mq ms)"
    and hp: "heap_counts hp (qbufs (mq ms) + R)" and a: "a \<in># R" "item_buffer item = Some a"
  shows "case queue_add (unat (ms_capacity ms)) (mq ms) item of
      None \<Rightarrow> mbuf_add_item hp ms item = None
    | Some q \<Rightarrow> \<exists>hp' ms'. mbuf_add_item hp ms item = Some (hp', ms') \<and> wf_ms ms' \<and> mq ms' = q \<and>
        ms_capacity ms' = ms_capacity ms \<and> heap_counts hp' (qbufs q + R)"
proof (cases "ms_len ms = ms_capacity ms")
  case False
  then have room: "ms_len ms < ms_capacity ms" using wf by (simp add: wf_ms_def order.strict_iff_order)
  then have "queue_add (unat (ms_capacity ms)) (mq ms) item = Some (mq ms @ [item])"
    by (simp add: queue_add_def word_less_nat_alt)
  then show ?thesis using add_with_room[OF wf room hp a] by auto
next
  case True
  obtain ms1 where ms1: "mbuf_extract_item ms = Some (case dropWhile dereferenced (mq ms) of [] \<Rightarrow> None | x # _ \<Rightarrow> Some x, ms1)"
    "wf_ms ms1" "mq ms1 = tl (dropWhile dereferenced (mq ms))" "ms_capacity ms1 = ms_capacity ms"
    using wf by (rule mbuf_extract_item_mq)
  show ?thesis
  proof (cases "dropWhile dereferenced (mq ms)")
    case Nil
    then have "queue_add (unat (ms_capacity ms)) (mq ms) item = None"
      using True by (simp add: queue_add_def del: dropWhile_eq_Nil_conv)
    moreover have "mbuf_add_item hp ms item = None"
      using True ms1(1) Nil by (simp add: mbuf_add_item_def del: dropWhile_eq_Nil_conv)
    ultimately show ?thesis by simp
  next
    case (Cons x xs)
    have "length (x # xs) \<le> length (mq ms)" unfolding Cons[symmetric] by (rule length_dropWhile_le)
    then have "length (mq ms1) < length (mq ms)" using ms1(3) Cons by simp
    then have room: "ms_len ms1 < ms_capacity ms1" using True ms1(4) by (simp add: word_less_nat_alt)
    have "qbufs (mq ms) = qbufs (x # xs)" using qbufs_dropWhile[OF ok] Cons by simp
    then have "heap_counts hp ((case item_buffer x of None \<Rightarrow> {#} | Some a \<Rightarrow> {#a#}) + (qbufs (mq ms1) + R))"
      using hp ms1(3) Cons by (simp add: add.assoc)
    then obtain hp1 where hp1: "mbuf_free_buf hp (item_buffer x) = Some hp1" "heap_counts hp1 (qbufs (mq ms1) + R)"
      using heap_counts_free_opt by blast
    have "mbuf_add_item hp ms item = mbuf_add_item hp1 ms1 item"
      using True ms1(1) hp1(1) Cons room less_imp_neq[OF room] by (simp add: mbuf_add_item_def)
    moreover have "queue_add (unat (ms_capacity ms)) (mq ms) item = Some (mq ms1 @ [item])"
      using True Cons ms1(3) by (simp add: queue_add_def)
    ultimately show ?thesis using add_with_room[OF ms1(2) room hp1(2) a] ms1(4) by auto
  qed
qed

section \<open>Runs of the server\<close>

text \<open>
  What the server does with message buffers: allocate one, queue it for client instances, drop its
  own reference, take the next item (whose buffer it then refers to), forget an instance.  \<open>ext\<close> are
  the references that the server holds outside the queue; it uses only buffers that it refers to.
\<close>

datatype mbuf_op = Mb_alloc nat buffer | Mb_add nat nat | Mb_extract | Mb_release nat | Mb_dereference nat

fun mbuf_exec :: "(nat \<Rightarrow> byte) \<Rightarrow> mbuf_op \<Rightarrow> mbuf_heap \<times> mbuf_set \<times> nat multiset
    \<Rightarrow> (mbuf_heap \<times> mbuf_set \<times> nat multiset) option" where
  "mbuf_exec junk (Mb_alloc a b) (hp, ms, ext) =
     (if hp a = None \<and> live_buf b
      then do { hp \<leftarrow> mbuf_alloc_buf junk hp a b; Some (hp, ms, add_mset a ext) } else Some (hp, ms, ext))"
| "mbuf_exec junk (Mb_add a mi) (hp, ms, ext) =
     (if a \<in># ext
      then do { (hp, ms) \<leftarrow> mbuf_add_item hp ms \<lparr>item_buffer = Some a, item_instance = Some mi\<rparr>; Some (hp, ms, ext) }
      else Some (hp, ms, ext))"
| "mbuf_exec junk Mb_extract (hp, ms, ext) = do {
     (r, ms) \<leftarrow> mbuf_extract_item ms;
     Some (hp, ms, (case r of None \<Rightarrow> {#} | Some x \<Rightarrow> qbufs [x]) + ext)
   }"
| "mbuf_exec junk (Mb_release a) (hp, ms, ext) =
     (if a \<in># ext then do { hp \<leftarrow> mbuf_free_buf hp (Some a); Some (hp, ms, ext - {#a#}) } else Some (hp, ms, ext))"
| "mbuf_exec junk (Mb_dereference mi) (hp, ms, ext) = do {
     (hp, ms) \<leftarrow> mbuf_dereference_instance hp ms mi;
     Some (hp, ms, ext)
   }"

fun mbuf_run where
  "mbuf_run junk [] st = Some st"
| "mbuf_run junk (x # xs) st = do { st \<leftarrow> mbuf_exec junk x st; mbuf_run junk xs st }"

text \<open>The specification: a bounded list of items and a multiset of references.\<close>

fun queue_exec :: "nat \<Rightarrow> mbuf_op \<Rightarrow> mbuf_item list \<times> nat multiset \<Rightarrow> (mbuf_item list \<times> nat multiset) option" where
  "queue_exec cap (Mb_alloc a b) (q, ext) =
     Some (q, if a \<notin># qbufs q + ext \<and> live_buf b then add_mset a ext else ext)"
| "queue_exec cap (Mb_add a mi) (q, ext) =
     (if a \<in># ext
      then do { q \<leftarrow> queue_add cap q \<lparr>item_buffer = Some a, item_instance = Some mi\<rparr>; Some (q, ext) }
      else Some (q, ext))"
| "queue_exec cap Mb_extract (q, ext) =
     (case dropWhile dereferenced q of [] \<Rightarrow> Some ([], ext) | x # q \<Rightarrow> Some (q, qbufs [x] + ext))"
| "queue_exec cap (Mb_release a) (q, ext) = Some (q, ext - {#a#})"
| "queue_exec cap (Mb_dereference mi) (q, ext) = Some (map (deref_item mi) q, ext)"

fun queue_run where
  "queue_run cap [] st = Some st"
| "queue_run cap (x # xs) st = do { st \<leftarrow> queue_exec cap x st; queue_run cap xs st }"

definition mbuf_inv :: "nat \<Rightarrow> mbuf_heap \<times> mbuf_set \<times> nat multiset \<Rightarrow> mbuf_item list \<times> nat multiset \<Rightarrow> bool" where
  "mbuf_inv cap st s \<longleftrightarrow> (case st of (hp, ms, ext) \<Rightarrow> case s of (q, ext') \<Rightarrow>
     wf_ms ms \<and> unat (ms_capacity ms) = cap \<and> mq ms = q \<and> ext' = ext \<and> items_ok q \<and> heap_counts hp (qbufs q + ext))"

lemma clone_live: "live_buf b \<Longrightarrow> \<exists>c. clone_buf junk b = Some c"
  by (erule live_bufE) (auto simp: clone_buf_def buf_store_def mem_write_def)

lemma items_okI:
  "items_ok q \<Longrightarrow> items_ok (q @ [\<lparr>item_buffer = Some a, item_instance = Some mi\<rparr>])"
  "items_ok q \<Longrightarrow> items_ok (map (deref_item mi) q)"
  "items_ok q \<Longrightarrow> items_ok (tl (dropWhile dereferenced q))"
proof -
  show "items_ok q \<Longrightarrow> items_ok (tl (dropWhile dereferenced q))"
    by (induction q) (auto simp: items_ok_def)
qed (auto simp: items_ok_def deref_item_def)

lemma mbuf_exec_refines:
  assumes inv: "mbuf_inv cap st s"
  shows "case queue_exec cap x s of
      None \<Rightarrow> mbuf_exec junk x st = None
    | Some s' \<Rightarrow> \<exists>st'. mbuf_exec junk x st = Some st' \<and> mbuf_inv cap st' s'"
proof -
  obtain hp ms ext q where st: "st = (hp, ms, ext)" "s = (q, ext)" and wf: "wf_ms ms"
    and cap: "unat (ms_capacity ms) = cap" and q: "mq ms = q" and ok: "items_ok q"
    and hc: "heap_counts hp (qbufs q + ext)"
    using inv by (cases st; cases s) (auto simp: mbuf_inv_def)
  show ?thesis
  proof (cases x)
    case (Mb_alloc a b)
    have free: "hp a = None \<longleftrightarrow> a \<notin># qbufs q + ext"
      using hc[unfolded heap_counts_def, rule_format, of a] by (auto split: option.splits)
    show ?thesis
    proof (cases "hp a = None \<and> live_buf b")
      case True
      then obtain c where "clone_buf junk b = Some c" using clone_live by blast
      then show ?thesis using True free wf cap q ok heap_counts_alloc[OF hc, of a c 0]
        by (auto simp: st Mb_alloc mbuf_alloc_buf_def mbuf_inv_def)
    next
      case False
      then show ?thesis using free inv by (auto simp: st Mb_alloc)
    qed
  next
    case (Mb_add a mi)
    show ?thesis
    proof (cases "a \<in># ext")
      case True
      let ?it = "\<lparr>item_buffer = Some a, item_instance = Some mi\<rparr>"
      have okq: "items_ok q'" if "queue_add cap q ?it = Some q'" for q'
        using that ok items_okI(1)[OF ok] items_okI(1)[OF items_okI(3)[OF ok]]
        by (auto simp: queue_add_def split: if_splits list.splits)
      show ?thesis
        using mbuf_add_item_mq[OF wf, of hp ext a ?it] ok hc True okq
        by (auto simp: st Mb_add q cap mbuf_inv_def split: option.splits)
    next
      case False
      then show ?thesis using inv by (auto simp: st Mb_add)
    qed
  next
    case Mb_extract
    obtain ms1 where ms1: "mbuf_extract_item ms = Some (case dropWhile dereferenced q of [] \<Rightarrow> None | x # _ \<Rightarrow> Some x, ms1)"
      "wf_ms ms1" "mq ms1 = tl (dropWhile dereferenced q)" "ms_capacity ms1 = ms_capacity ms"
      using mbuf_extract_item_mq[OF wf] q by metis
    then show ?thesis using items_okI(3)[OF ok] hc qbufs_dropWhile[OF ok] cap
      by (cases "dropWhile dereferenced q")
         (simp_all add: st Mb_extract mbuf_inv_def ac_simps del: dropWhile_eq_Nil_conv)
  next
    case (Mb_release a)
    show ?thesis
    proof (cases "a \<in># ext")
      case True
      then have "heap_counts hp (add_mset a (qbufs q + (ext - {#a#})))" using hc by simp
      from heap_counts_free[OF this] show ?thesis using True wf cap q ok by (auto simp: st Mb_release mbuf_inv_def)
    next
      case False
      then show ?thesis using inv by (auto simp: st Mb_release)
    qed
  next
    case (Mb_dereference mi)
    show ?thesis
      using dereference_loop_mq[OF wf, of hp ext 0 "unat (ms_len ms)" mi] hc q cap items_okI(2)[OF ok]
      by (auto simp: st Mb_dereference mbuf_dereference_instance_def mbuf_inv_def)
  qed
qed

lemma mbuf_run_refines:
  assumes "mbuf_inv cap st s"
  shows "case queue_run cap ops s of
      None \<Rightarrow> mbuf_run junk ops st = None
    | Some s' \<Rightarrow> \<exists>st'. mbuf_run junk ops st = Some st' \<and> mbuf_inv cap st' s'"
  using assms
proof (induction ops arbitrary: st s)
  case (Cons x ops)
  show ?case
  proof (cases "queue_exec cap x s")
    case None
    then show ?thesis using mbuf_exec_refines[OF Cons.prems, where x = x and junk = junk] by simp
  next
    case (Some s1)
    then obtain st1 where "mbuf_exec junk x st = Some st1" "mbuf_inv cap st1 s1"
      using mbuf_exec_refines[OF Cons.prems, where x = x and junk = junk] by auto
    then show ?thesis using Cons.IH[of st1 s1] Some by (auto split: option.splits)
  qed
qed simp

lemma mbuf_init_inv:
  assumes "mbuf_init junk sz = Some ms"
  shows "mbuf_inv (unat (ms_capacity ms)) (Map.empty, ms, {#}) ([], {#})"
proof -
  obtain cap where cap: "adjust_power_of_2 sz = Some cap"
    "ms = \<lparr>ms_head = 0, ms_len = 0, ms_capacity = cap, ms_max_queued = 0, ms_array = map junk [0..<unat cap]\<rparr>"
    using assms by (auto simp: mbuf_init_def split: bind_splits)
  obtain j where "cap = 2 ^ j" "j < 32" using cap(1) adjust_power_of_2_power by blast
  moreover have "0 < cap" using calculation unat_exp32 by (simp add: word_less_nat_alt)
  ultimately show ?thesis using cap(2) by (auto simp: mbuf_inv_def wf_ms_def mq_def items_ok_def heap_counts_def)
qed

text \<open>
  C22: the message queue is a bounded first-in first-out queue and keeps its references.  Whatever the
  server does, the ring of items behaves as a list of at most the capacity's length: a full queue
  loses its oldest live item to a new one, items of forgotten clients are skipped.  No buffer is
  used after it is freed, and at any time exactly the buffers that someone refers to are allocated,
  with the number of references as their count.  The only failure is the one of the list: an
  addition to a full queue in which every item is dereferenced.
\<close>

theorem mbuf_refines_queue:
  assumes "mbuf_init junk sz = Some ms"
  shows "case queue_run (unat (ms_capacity ms)) ops ([], {#}) of
      None \<Rightarrow> mbuf_run junk' ops (Map.empty, ms, {#}) = None
    | Some (q, ext) \<Rightarrow> \<exists>hp ms'. mbuf_run junk' ops (Map.empty, ms, {#}) = Some (hp, ms', ext) \<and>
        mq ms' = q \<and> length q \<le> unat (ms_capacity ms) \<and>
        (\<forall>a. case hp a of None \<Rightarrow> a \<notin># qbufs q + ext
           | Some b \<Rightarrow> a \<in># qbufs q + ext \<and> mb_refcount b = int (count (qbufs q + ext) a))"
  using mbuf_run_refines[OF mbuf_init_inv[OF assms], where ops = ops and junk = junk']
  by (cases "queue_run (unat (ms_capacity ms)) ops ([], {#})")
     (auto simp: mbuf_inv_def heap_counts_def wf_ms_def word_le_nat_alt simp flip: length_mq)

definition demo_ms :: mbuf_set where
  "demo_ms = \<lparr>ms_head = 0, ms_len = 0, ms_capacity = 2, ms_max_queued = 0,
     ms_array = replicate 2 \<lparr>item_buffer = None, item_instance = None\<rparr>\<rparr>"

theorem mbuf_refines_queue_witness:
  "\<exists>hp ms'. mbuf_run (\<lambda>_. 0) [Mb_alloc 7 (mk_buf [] [1] []), Mb_add 7 1, Mb_add 7 2, Mb_add 7 3, Mb_extract]
      (Map.empty, demo_ms, {#}) = Some (hp, ms', {#7, 7#}) \<and>
    mq ms' = [\<lparr>item_buffer = Some 7, item_instance = Some 3\<rparr>]"
proof -
  have "mbuf_init (\<lambda>_. \<lparr>item_buffer = None, item_instance = None\<rparr>) 2 = Some demo_ms"
    by code_simp
  from mbuf_refines_queue[OF this, where junk' = "\<lambda>_. 0" and
      ops = "[Mb_alloc 7 (mk_buf [] [1] []), Mb_add 7 1, Mb_add 7 2, Mb_add 7 3, Mb_extract]"]
  show ?thesis by (auto simp: queue_add_def demo_ms_def)
qed

text \<open>
  C36: a client that leaves a full queue takes the server down.  When all items of a full queue are for
  one client and the client is forgotten, the next addition, for any other client, fails the
  assertion in mbuf_add_item, which expects mbuf_extract_item to find an item.
\<close>

theorem mbuf_full_of_dereferenced:
  assumes "wf_ms ms" "heap_counts hp (qbufs (mq ms) + ext)" "ms_len ms = ms_capacity ms"
    and "\<forall>x \<in> set (mq ms). item_instance x = Some mi"
  shows "\<exists>hp' ms'. mbuf_dereference_instance hp ms mi = Some (hp', ms') \<and> mbuf_add_item hp' ms' item = None"
proof -
  obtain hp' ms' where d: "mbuf_dereference_instance hp ms mi = Some (hp', ms')" "wf_ms ms'"
      "ms_capacity ms' = ms_capacity ms" "ms_len ms' = ms_len ms" "mq ms' = map (deref_item mi) (mq ms)"
    using dereference_loop_mq[OF assms(1,2), of 0 "unat (ms_len ms)" mi]
    by (auto simp: mbuf_dereference_instance_def)
  have "dropWhile dereferenced (mq ms') = []" using d(5) assms(4) by (auto simp: deref_item_def)
  moreover obtain ms1 where
    "mbuf_extract_item ms' = Some (case dropWhile dereferenced (mq ms') of [] \<Rightarrow> None | x # _ \<Rightarrow> Some x, ms1)"
    using mbuf_extract_item_mq[OF d(2)] by metis
  ultimately have "mbuf_add_item hp' ms' item = None"
    using d(3,4) assms(3) by (simp add: mbuf_add_item_def del: dropWhile_eq_Nil_conv)
  with d(1) show ?thesis by blast
qed

theorem mbuf_full_of_dereferenced_witness:
  "\<exists>hp' ms'. mbuf_dereference_instance [7 \<mapsto> \<lparr>mb_buf = clear_buf, mb_refcount = 1, mb_flags = 0\<rparr>]
      \<lparr>ms_head = 0, ms_len = 1, ms_capacity = 1, ms_max_queued = 1,
       ms_array = [\<lparr>item_buffer = Some 7, item_instance = Some 1\<rparr>]\<rparr> 1 = Some (hp', ms') \<and>
    mbuf_add_item hp' ms' \<lparr>item_buffer = Some 8, item_instance = Some 2\<rparr> = None"
  by (rule mbuf_full_of_dereferenced[where ext = "{#}"])
     (auto simp: wf_ms_def mq_def slot_def heap_counts_def intro: exI[of _ 0])

end
