(* ===== verification/Dictionary.thy ===== *)
theory Dictionary
  imports Prelude
begin

text \<open>
  The contract of a mutable dictionary.  \<open>abs s\<close> is the map that the state \<open>s\<close> stands for; a lookup may
  change the state (the hash table moves the element it finds to the front), and every operation
  may fail, which the contract excludes.  \<open>purge s v\<close> removes the entries with the value \<open>v\<close>.
\<close>

datatype ('k, 'v) dict_op = Dict_lookup 'k | Dict_add 'k 'v bool | Dict_remove 'k | Dict_purge 'v

datatype 'v dict_answer = Found "'v option" | Done bool | Purged

text \<open>The specification: the operations on a map, with their answers.\<close>

fun map_step :: "('k, 'v) dict_op \<Rightarrow> ('k \<rightharpoonup> 'v) \<Rightarrow> 'v dict_answer \<times> ('k \<rightharpoonup> 'v)" where
  "map_step (Dict_lookup k) m = (Found (m k), m)"
| "map_step (Dict_add k v replace) m =
     (if replace \<or> m k = None then (Done True, m(k \<mapsto> v)) else (Done False, m))"
| "map_step (Dict_remove k) m = (Done (m k \<noteq> None), m(k := None))"
| "map_step (Dict_purge v) m = (Purged, \<lambda>k. if m k = Some v then None else m k)"

fun map_steps :: "('k, 'v) dict_op list \<Rightarrow> ('k \<rightharpoonup> 'v) \<Rightarrow> 'v dict_answer list \<times> ('k \<rightharpoonup> 'v)" where
  "map_steps [] m = ([], m)"
| "map_steps (x # xs) m =
     (let (a, m) = map_step x m; (as, m) = map_steps xs m in (a # as, m))"

text \<open>The same operations on an implementation.\<close>

fun dict_step ::
  "('s \<Rightarrow> 'k \<Rightarrow> ('v option \<times> 's) option) \<Rightarrow> ('s \<Rightarrow> 'k \<Rightarrow> 'v \<Rightarrow> bool \<Rightarrow> (bool \<times> 's) option) \<Rightarrow>
   ('s \<Rightarrow> 'k \<Rightarrow> (bool \<times> 's) option) \<Rightarrow> ('s \<Rightarrow> 'v \<Rightarrow> 's option) \<Rightarrow>
   ('k, 'v) dict_op \<Rightarrow> 's \<Rightarrow> ('v dict_answer \<times> 's) option" where
  "dict_step lookup add remove purge (Dict_lookup k) s = do { (r, s) \<leftarrow> lookup s k; Some (Found r, s) }"
| "dict_step lookup add remove purge (Dict_add k v replace) s = do { (r, s) \<leftarrow> add s k v replace; Some (Done r, s) }"
| "dict_step lookup add remove purge (Dict_remove k) s = do { (r, s) \<leftarrow> remove s k; Some (Done r, s) }"
| "dict_step lookup add remove purge (Dict_purge v) s = do { s \<leftarrow> purge s v; Some (Purged, s) }"

fun dict_steps where
  "dict_steps lookup add remove purge [] s = Some ([], s)"
| "dict_steps lookup add remove purge (x # xs) s = do {
     (a, s) \<leftarrow> dict_step lookup add remove purge x s;
     (as, s) \<leftarrow> dict_steps lookup add remove purge xs s;
     Some (a # as, s)
   }"

locale dictionary =
  fixes abs :: "'s \<Rightarrow> 'k \<Rightarrow> 'v option"
    and invar :: "'s \<Rightarrow> bool"
    and lookup :: "'s \<Rightarrow> 'k \<Rightarrow> ('v option \<times> 's) option"
    and add :: "'s \<Rightarrow> 'k \<Rightarrow> 'v \<Rightarrow> bool \<Rightarrow> (bool \<times> 's) option"
    and remove :: "'s \<Rightarrow> 'k \<Rightarrow> (bool \<times> 's) option"
    and purge :: "'s \<Rightarrow> 'v \<Rightarrow> 's option"
  assumes lookup_ok: "invar s \<Longrightarrow> \<exists>s'. lookup s k = Some (abs s k, s') \<and> invar s' \<and> abs s' = abs s"
    and add_ok: "invar s \<Longrightarrow> \<exists>s'. add s k v replace = Some (replace \<or> abs s k = None, s') \<and> invar s' \<and>
      abs s' = (if replace \<or> abs s k = None then (abs s)(k \<mapsto> v) else abs s)"
    and remove_ok: "invar s \<Longrightarrow> \<exists>s'. remove s k = Some (abs s k \<noteq> None, s') \<and> invar s' \<and>
      abs s' = (abs s)(k := None)"
    and purge_ok: "invar s \<Longrightarrow> \<exists>s'. purge s v = Some s' \<and> invar s' \<and>
      abs s' = (\<lambda>k. if abs s k = Some v then None else abs s k)"
begin

lemma step_refines:
  assumes "invar s"
  shows "\<exists>s'. dict_step lookup add remove purge x s = Some (fst (map_step x (abs s)), s') \<and> invar s' \<and>
    abs s' = snd (map_step x (abs s))"
proof (cases x)
  case (Dict_lookup k)
  then show ?thesis using lookup_ok[OF assms, of k] by auto
next
  case (Dict_add k v replace)
  then show ?thesis using add_ok[OF assms, of k v replace] by (auto split: if_splits)
next
  case (Dict_remove k)
  then show ?thesis using remove_ok[OF assms, of k] by auto
next
  case (Dict_purge v)
  then show ?thesis using purge_ok[OF assms, of v] by auto
qed

lemma steps_refine:
  assumes "invar s"
  shows "\<exists>s'. dict_steps lookup add remove purge xs s = Some (fst (map_steps xs (abs s)), s') \<and> invar s' \<and>
    abs s' = snd (map_steps xs (abs s))"
  using assms
proof (induction xs arbitrary: s)
  case (Cons x xs)
  obtain s1 where 1: "dict_step lookup add remove purge x s = Some (fst (map_step x (abs s)), s1)" "invar s1"
    "abs s1 = snd (map_step x (abs s))"
    using step_refines[OF Cons.prems] by blast
  obtain s2 where "dict_steps lookup add remove purge xs s1 = Some (fst (map_steps xs (abs s1)), s2)" "invar s2"
    "abs s2 = snd (map_steps xs (abs s1))"
    using Cons.IH[OF 1(2)] by blast
  then show ?case using 1 by (auto simp: Let_def split: prod.splits)
qed simp

end

end
