(* ===== verification/Hash_Table.thy ===== *)
theory Hash_Table
  imports Misc Dictionary
begin

text \<open>
  The hash table of list.h and list.c: chained buckets, whose number is a power of two.  The hash and
  comparison functions are the table's own, as in the code.  A linked list of a bucket is a list of
  elements; the mutexes are left out (the server runs the table in one thread).
\<close>

section \<open>Data\<close>

text \<open>A key is missing when the element is marked for removal.\<close>

record ('k, 'v) hash_element =
  he_value :: 'v
  he_key :: "'k option"
  he_hash_value :: u32

record ('k, 'v) hash =
  h_n_buckets :: int
  h_n_elements :: int
  h_mask :: int
  h_iv :: u32
  h_hash_function :: "'k \<Rightarrow> u32 \<Rightarrow> u32"
  h_compare_function :: "'k \<Rightarrow> 'k \<Rightarrow> bool"
  h_buckets :: "('k, 'v) hash_element list list"

definition hash_value :: "('k, 'v) hash \<Rightarrow> 'k \<Rightarrow> u32" where
  "hash_value h key = h_hash_function h key (h_iv h)"

definition bucket_index :: "('k, 'v) hash \<Rightarrow> u32 \<Rightarrow> nat" where
  "bucket_index h hv = nat (uint hv AND h_mask h)"

definition upd_bucket :: "('k, 'v) hash \<Rightarrow> nat \<Rightarrow> ('k, 'v) hash_element list \<Rightarrow> ('k, 'v) hash" where
  "upd_bucket h i l = h\<lparr>h_buckets := (h_buckets h)[i := l]\<rparr>"

section \<open>Operations\<close>

text \<open>\<open>iv\<close> is what get_random returns.\<close>

definition hash_init ::
  "u32 \<Rightarrow> int \<Rightarrow> ('k \<Rightarrow> u32 \<Rightarrow> u32) \<Rightarrow> ('k \<Rightarrow> 'k \<Rightarrow> bool) \<Rightarrow> ('k, 'v) hash option" where
  "hash_init iv n hash_function compare_function = do {
     ASSERT (n > 0);
     m \<leftarrow> adjust_power_of_2 (word_of_int n);
     Some \<lparr>h_n_buckets = sint m, h_n_elements = 0, h_mask = sint m - 1, h_iv = iv,
           h_hash_function = hash_function, h_compare_function = compare_function,
           h_buckets = replicate (nat (sint m)) []\<rparr>
   }"

text \<open>
  The search of a bucket: the elements before the one found, the element, and the ones after it.
  The comparison of a marked element dereferences a null pointer, which is the outer \<^const>\<open>None\<close>.
\<close>

fun bucket_search :: "('k \<Rightarrow> 'k \<Rightarrow> bool) \<Rightarrow> 'k \<Rightarrow> u32 \<Rightarrow> ('k, 'v) hash_element list \<Rightarrow>
    (('k, 'v) hash_element list \<times> ('k, 'v) hash_element \<times> ('k, 'v) hash_element list) option option" where
  "bucket_search cmp key hv [] = Some None"
| "bucket_search cmp key hv (he # l) = do {
     hit \<leftarrow> (if hv = he_hash_value he then do { k \<leftarrow> he_key he; Some (cmp key k) } else Some False);
     if hit then Some (Some ([], he, l))
     else do {
       r \<leftarrow> bucket_search cmp key hv l;
       Some (map_option (\<lambda>(pre, x, post). (he # pre, x, post)) r)
     }
   }"

definition hash_lookup_fast ::
  "('k, 'v) hash \<Rightarrow> nat \<Rightarrow> 'k \<Rightarrow> u32 \<Rightarrow> (('k, 'v) hash_element option \<times> ('k, 'v) hash) option" where
  "hash_lookup_fast h i key hv = do {
     r \<leftarrow> bucket_search (h_compare_function h) key hv (h_buckets h ! i);
     Some (case r of
        None \<Rightarrow> (None, h)
      | Some (pre, he, post) \<Rightarrow> (Some he, upd_bucket h i (he # pre @ post)))
   }"

definition hash_lookup :: "('k, 'v) hash \<Rightarrow> 'k \<Rightarrow> ('v option \<times> ('k, 'v) hash) option" where
  "hash_lookup h key = do {
     let hv = hash_value h key;
     (he, h) \<leftarrow> hash_lookup_fast h (bucket_index h hv) key hv;
     Some (map_option he_value he, h)
   }"

definition hash_add_fast :: "('k, 'v) hash \<Rightarrow> nat \<Rightarrow> 'k \<Rightarrow> u32 \<Rightarrow> 'v \<Rightarrow> ('k, 'v) hash" where
  "hash_add_fast h i key hv v =
     (let he = \<lparr>he_value = v, he_key = Some key, he_hash_value = hv\<rparr>
      in (upd_bucket h i (he # h_buckets h ! i))\<lparr>h_n_elements := h_n_elements h + 1\<rparr>)"

definition hash_remove_fast :: "('k, 'v) hash \<Rightarrow> nat \<Rightarrow> 'k \<Rightarrow> u32 \<Rightarrow> (bool \<times> ('k, 'v) hash) option" where
  "hash_remove_fast h i key hv = do {
     r \<leftarrow> bucket_search (h_compare_function h) key hv (h_buckets h ! i);
     Some (case r of
        None \<Rightarrow> (False, h)
      | Some (pre, he, post) \<Rightarrow> (True, (upd_bucket h i (pre @ post))\<lparr>h_n_elements := h_n_elements h - 1\<rparr>))
   }"

definition hash_remove :: "('k, 'v) hash \<Rightarrow> 'k \<Rightarrow> (bool \<times> ('k, 'v) hash) option" where
  "hash_remove h key = (let hv = hash_value h key in hash_remove_fast h (bucket_index h hv) key hv)"

text \<open>After a successful lookup the element is at the head of its bucket.\<close>

definition hash_add :: "('k, 'v) hash \<Rightarrow> 'k \<Rightarrow> 'v \<Rightarrow> bool \<Rightarrow> (bool \<times> ('k, 'v) hash) option" where
  "hash_add h key v replace = do {
     let hv = hash_value h key;
     let i = bucket_index h hv;
     (he, h) \<leftarrow> hash_lookup_fast h i key hv;
     Some (case he of
        Some he \<Rightarrow>
          (if replace then (True, upd_bucket h i (he\<lparr>he_value := v\<rparr> # tl (h_buckets h ! i))) else (False, h))
      | None \<Rightarrow> (True, hash_add_fast h i key hv v))
   }"

definition hash_remove_marked :: "('k, 'v) hash \<Rightarrow> nat \<Rightarrow> ('k, 'v) hash" where
  "hash_remove_marked h i =
     (let l = h_buckets h ! i; kept = filter (\<lambda>he. he_key he \<noteq> None) l
      in (upd_bucket h i kept)\<lparr>h_n_elements := h_n_elements h - int (length l - length kept)\<rparr>)"

section \<open>Iteration\<close>

text \<open>
  Elements are named by their position in the bucket's list, which stays as it is while an iterator
  is in the bucket.
\<close>

record hash_iterator =
  hi_bucket_index :: int
  hi_bucket :: "nat option"
  hi_elem :: "nat option"
  hi_last :: "nat option"
  hi_bucket_marked :: bool
  hi_bucket_index_start :: int
  hi_bucket_index_end :: int

definition hash_iterator_init_range :: "('k, 'v) hash \<Rightarrow> int \<Rightarrow> int \<Rightarrow> hash_iterator option" where
  "hash_iterator_init_range h start_bucket end_bucket = do {
     let end_bucket = (if end_bucket > h_n_buckets h then h_n_buckets h else end_bucket);
     ASSERT (start_bucket \<ge> 0 \<and> start_bucket \<le> end_bucket);
     Some \<lparr>hi_bucket_index = start_bucket - 1, hi_bucket = None, hi_elem = None, hi_last = None,
           hi_bucket_marked = False, hi_bucket_index_start = start_bucket, hi_bucket_index_end = end_bucket\<rparr>
   }"

definition hash_iterator_init :: "('k, 'v) hash \<Rightarrow> hash_iterator option" where
  "hash_iterator_init h = hash_iterator_init_range h 0 (h_n_buckets h)"

definition hash_iterator_lock :: "hash_iterator \<Rightarrow> nat \<Rightarrow> hash_iterator" where
  "hash_iterator_lock hi b = hi\<lparr>hi_bucket := Some b, hi_last := None, hi_bucket_marked := False\<rparr>"

definition hash_iterator_unlock :: "('k, 'v) hash \<Rightarrow> hash_iterator \<Rightarrow> ('k, 'v) hash \<times> hash_iterator" where
  "hash_iterator_unlock h hi = (case hi_bucket hi of
     None \<Rightarrow> (h, hi)
   | Some b \<Rightarrow>
       (let (h, hi) = (if hi_bucket_marked hi then (hash_remove_marked h b, hi\<lparr>hi_bucket_marked := False\<rparr>) else (h, hi))
        in (h, hi\<lparr>hi_bucket := None, hi_last := None\<rparr>)))"

definition hash_iterator_advance :: "('k, 'v) hash \<Rightarrow> hash_iterator \<Rightarrow> nat \<Rightarrow> nat \<Rightarrow> hash_iterator" where
  "hash_iterator_advance h hi b e =
     hi\<lparr>hi_last := Some e, hi_elem := (if Suc e < length (h_buckets h ! b) then Some (Suc e) else None)\<rparr>"

definition hash_iterator_free :: "('k, 'v) hash \<Rightarrow> hash_iterator \<Rightarrow> ('k, 'v) hash \<times> hash_iterator" where
  "hash_iterator_free h hi = hash_iterator_unlock h hi"

text \<open>
  The loop over the buckets; \<open>n\<close> is the number of buckets that are left.  The result is the element,
  as its bucket and position.
\<close>

fun iterator_next_loop :: "nat \<Rightarrow> ('k, 'v) hash \<Rightarrow> hash_iterator \<Rightarrow> (nat \<times> nat) option \<times> ('k, 'v) hash \<times> hash_iterator" where
  "iterator_next_loop 0 h hi = (None, h, hi\<lparr>hi_bucket_index := hi_bucket_index hi + 1\<rparr>)"
| "iterator_next_loop (Suc n) h hi =
     (let hi = hi\<lparr>hi_bucket_index := hi_bucket_index hi + 1\<rparr>;
          (h, hi) = hash_iterator_unlock h hi;
          b = nat (hi_bucket_index hi)
      in if h_buckets h ! b \<noteq> []
         then (Some (b, 0), h, hash_iterator_advance h (hash_iterator_lock hi b) b 0)
         else iterator_next_loop n h hi)"

definition hash_iterator_next :: "('k, 'v) hash \<Rightarrow> hash_iterator \<Rightarrow> (nat \<times> nat) option \<times> ('k, 'v) hash \<times> hash_iterator" where
  "hash_iterator_next h hi = (case (hi_elem hi, hi_bucket hi) of
     (Some e, Some b) \<Rightarrow> (Some (b, e), h, hash_iterator_advance h hi b e)
   | _ \<Rightarrow> iterator_next_loop (nat (hi_bucket_index_end hi - hi_bucket_index hi - 1)) h hi)"

definition hash_iterator_delete_element :: "('k, 'v) hash \<Rightarrow> hash_iterator \<Rightarrow> (('k, 'v) hash \<times> hash_iterator) option" where
  "hash_iterator_delete_element h hi = do {
     e \<leftarrow> hi_last hi;
     b \<leftarrow> hi_bucket hi;
     Some (upd_bucket h b ((h_buckets h ! b)[e := ((h_buckets h ! b) ! e)\<lparr>he_key := None\<rparr>]),
           hi\<lparr>hi_bucket_marked := True\<rparr>)
   }"

text \<open>The loop of hash_remove_by_value; it ends because each round advances the iterator.\<close>

partial_function (option) remove_by_value_loop ::
  "'v \<Rightarrow> ('k, 'v) hash \<Rightarrow> hash_iterator \<Rightarrow> (('k, 'v) hash \<times> hash_iterator) option" where
  "remove_by_value_loop v h hi =
     (case hash_iterator_next h hi of
        (None, h, hi) \<Rightarrow> Some (h, hi)
      | (Some (b, e), h, hi) \<Rightarrow> do {
          (h, hi) \<leftarrow> (if he_value (h_buckets h ! b ! e) = v then hash_iterator_delete_element h hi else Some (h, hi));
          remove_by_value_loop v h hi
        })"

definition hash_remove_by_value :: "('k, 'v) hash \<Rightarrow> 'v \<Rightarrow> ('k, 'v) hash option" where
  "hash_remove_by_value h v = do {
     hi \<leftarrow> hash_iterator_init h;
     (h, hi) \<leftarrow> remove_by_value_loop v h hi;
     Some (fst (hash_iterator_free h hi))
   }"

section \<open>The table as a map\<close>

definition elem_ok :: "('k, 'v) hash \<Rightarrow> nat \<Rightarrow> ('k, 'v) hash_element \<Rightarrow> bool" where
  "elem_ok h i he \<longleftrightarrow> (case he_key he of None \<Rightarrow> False | Some k \<Rightarrow>
     he_hash_value he = hash_value h k \<and> bucket_index h (hash_value h k) = i)"

definition bucket_ok :: "('k, 'v) hash \<Rightarrow> nat \<Rightarrow> ('k, 'v) hash_element list \<Rightarrow> bool" where
  "bucket_ok h i l \<longleftrightarrow> list_all (elem_ok h i) l \<and> distinct (map he_key l)"

definition wf_hash :: "('k, 'v) hash \<Rightarrow> bool" where
  "wf_hash h \<longleftrightarrow>
     (\<exists>j < 31. h_n_buckets h = 2 ^ j) \<and> h_mask h = h_n_buckets h - 1 \<and>
     length (h_buckets h) = nat (h_n_buckets h) \<and> h_compare_function h = (=) \<and>
     (\<forall>i < length (h_buckets h). bucket_ok h i (h_buckets h ! i)) \<and>
     h_n_elements h = int (sum_list (map length (h_buckets h)))"

definition bucket_map :: "('k, 'v) hash_element list \<Rightarrow> 'k \<Rightarrow> 'v option" where
  "bucket_map l k = map_option he_value (find (\<lambda>he. he_key he = Some k) l)"

definition hash_abs :: "('k, 'v) hash \<Rightarrow> 'k \<Rightarrow> 'v option" where
  "hash_abs h k = bucket_map (h_buckets h ! bucket_index h (hash_value h k)) k"

lemma bucket_index_less: "wf_hash h \<Longrightarrow> bucket_index h hv < length (h_buckets h)"
  by (auto simp: wf_hash_def bucket_index_def and_exp_mask nat_less_iff)

lemma bucket_search_spec:
  assumes "list_all (elem_ok h i) l" "hv = hash_value h key"
  shows "bucket_search (=) key hv l = Some (case find (\<lambda>he. he_key he = Some key) l of
     None \<Rightarrow> None
   | Some he \<Rightarrow> Some (takeWhile (\<lambda>he. he_key he \<noteq> Some key) l, he, tl (dropWhile (\<lambda>he. he_key he \<noteq> Some key) l)))"
  using assms by (induction l) (auto simp: elem_ok_def split: option.splits)

text \<open>A change of one bucket.\<close>

lemma upd_bucket_abs:
  assumes "wf_hash h" "i = bucket_index h (hash_value h key)" "bucket_ok h i l"
    and "\<forall>k \<noteq> key. bucket_map l k = bucket_map (h_buckets h ! i) k"
    and "h' = (upd_bucket h i l)\<lparr>h_n_elements := h_n_elements h + int (length l) - int (length (h_buckets h ! i))\<rparr>"
  shows "wf_hash h' \<and> hash_abs h' = (hash_abs h)(key := bucket_map l key)"
proof -
  have i: "i < length (h_buckets h)" using bucket_index_less[OF assms(1)] assms(2) by simp
  have same: "bucket_index h' = bucket_index h" "hash_value h' = hash_value h"
    using assms(5) by (simp_all add: upd_bucket_def bucket_index_def hash_value_def fun_eq_iff)
  have "elem_ok h' = elem_ok h" unfolding elem_ok_def same by (rule refl)
  then have ok: "bucket_ok h' = bucket_ok h" unfolding bucket_ok_def by simp
  have bk: "h_buckets h' = (h_buckets h)[i := l]" using assms(5) by (simp add: upd_bucket_def)
  have "hash_abs h' k = ((hash_abs h)(key := bucket_map l key)) k" for k
    unfolding hash_abs_def same bk using assms(2,4) i by (cases "bucket_index h (hash_value h k) = i") auto
  moreover have "int (sum_list (map length ((h_buckets h)[i := l]))) =
      int (sum_list (map length (h_buckets h))) + int (length l) - int (length (h_buckets h ! i))"
    using i elem_le_sum_list[of i "map length (h_buckets h)"] by (simp add: map_update sum_list_update of_nat_diff)
  ultimately show ?thesis
    using assms(1,3,5) i unfolding wf_hash_def ok
    by (auto simp: upd_bucket_def nth_list_update fun_eq_iff)
qed

lemma bucket_map_simps [simp]:
  "bucket_map [] k = None"
  "bucket_map (he # l) k = (if he_key he = Some k then Some (he_value he) else bucket_map l k)"
  by (simp_all add: bucket_map_def)

lemma bucket_map_append: "bucket_map (l @ l') k = (case bucket_map l k of None \<Rightarrow> bucket_map l' k | Some v \<Rightarrow> Some v)"
  by (induction l) auto

lemma find_split:
  assumes "find (\<lambda>he. he_key he = Some key) l = Some he"
  shows "l = takeWhile (\<lambda>he. he_key he \<noteq> Some key) l @ he # tl (dropWhile (\<lambda>he. he_key he \<noteq> Some key) l)"
    "he_key he = Some key"
  using assms by (induction l) (auto split: if_splits)

lemma find_bucket_map: "map_option he_value (find (\<lambda>he. he_key he = Some key) l) = bucket_map l key"
  by (simp add: bucket_map_def)

lemma bucket_map_notin: "Some key \<notin> he_key ` set l \<Longrightarrow> bucket_map l key = None"
  by (induction l) auto

text \<open>The element that is found, taken out or moved to the front.\<close>

lemma found_parts:
  assumes "bucket_ok h i l" "find (\<lambda>he. he_key he = Some key) l = Some he"
    and "pre = takeWhile (\<lambda>he. he_key he \<noteq> Some key) l" "post = tl (dropWhile (\<lambda>he. he_key he \<noteq> Some key) l)"
  shows "l = pre @ he # post" "he_key he = Some key" "Some key \<notin> he_key ` set (pre @ post)"
    "elem_ok h i he" "bucket_ok h i (pre @ post)"
    "k \<noteq> key \<Longrightarrow> bucket_map (pre @ post) k = bucket_map l k"
proof -
  show l: "l = pre @ he # post" and key: "he_key he = Some key" using find_split[OF assms(2)] assms(3,4) by auto
  have ok: "list_all (elem_ok h i) (pre @ he # post)" and d: "distinct (map he_key (pre @ he # post))"
    using assms(1) l by (simp_all add: bucket_ok_def)
  show "Some key \<notin> he_key ` set (pre @ post)" using d key by auto
  show "elem_ok h i he" using ok by simp
  show "bucket_ok h i (pre @ post)" using ok d by (auto simp: bucket_ok_def)
  show "bucket_map (pre @ post) k = bucket_map l k" if "k \<noteq> key"
    unfolding l using that key by (simp add: bucket_map_append split: option.splits)
qed

lemma wf_bucket: "wf_hash h \<Longrightarrow> bucket_ok h (bucket_index h hv) (h_buckets h ! bucket_index h hv)"
  using bucket_index_less[of h hv] by (simp add: wf_hash_def)

lemma lookup_fast_spec:
  assumes wf: "wf_hash h" and hv: "hv = hash_value h key" and i: "i = bucket_index h hv"
  shows "\<exists>r h'. hash_lookup_fast h i key hv = Some (r, h') \<and> wf_hash h' \<and> hash_abs h' = hash_abs h \<and>
    hash_value h' = hash_value h \<and> bucket_index h' = bucket_index h \<and>
    map_option he_value r = hash_abs h key \<and>
    (\<forall>he. r = Some he \<longrightarrow> he_key he = Some key \<and> (\<exists>l. h_buckets h' ! i = he # l \<and> Some key \<notin> he_key ` set l))"
proof (cases "find (\<lambda>he. he_key he = Some key) (h_buckets h ! i)")
  case None
  have "list_all (elem_ok h i) (h_buckets h ! i)" using wf_bucket[OF wf, of hv] i by (simp add: bucket_ok_def)
  then have "hash_lookup_fast h i key hv = Some (None, h)"
    using bucket_search_spec[OF _ hv, of i "h_buckets h ! i"] None wf by (simp add: hash_lookup_fast_def wf_hash_def)
  then show ?thesis using wf None i hv by (auto simp: hash_abs_def bucket_map_def)
next
  case (Some he)
  define pre where "pre = takeWhile (\<lambda>he. he_key he \<noteq> Some key) (h_buckets h ! i)"
  define post where "post = tl (dropWhile (\<lambda>he. he_key he \<noteq> Some key) (h_buckets h ! i))"
  have okb: "bucket_ok h i (h_buckets h ! i)" using wf_bucket[OF wf, of hv] i by simp
  note parts = found_parts[OF okb Some pre_def post_def]
  let ?h = "upd_bucket h i (he # pre @ post)"
  have "hash_lookup_fast h i key hv = Some (Some he, ?h)"
    using bucket_search_spec[OF _ hv, of i "h_buckets h ! i"] Some wf okb
    by (simp add: hash_lookup_fast_def wf_hash_def bucket_ok_def pre_def post_def)
  moreover have "wf_hash ?h \<and> hash_abs ?h = (hash_abs h)(key := bucket_map (he # pre @ post) key)"
  proof (rule upd_bucket_abs[OF wf])
    show "bucket_ok h i (he # pre @ post)" using parts(2-5) by (auto simp: bucket_ok_def)
    show "\<forall>k \<noteq> key. bucket_map (he # pre @ post) k = bucket_map (h_buckets h ! i) k"
      using parts(2,6) by simp
    have "length (h_buckets h ! i) = length (he # pre @ post)" by (subst parts(1)) simp
    then show "?h = (upd_bucket h i (he # pre @ post))\<lparr>h_n_elements :=
        h_n_elements h + int (length (he # pre @ post)) - int (length (h_buckets h ! i))\<rparr>"
      by (simp add: upd_bucket_def)
  qed (use i hv in simp)
  moreover have "bucket_map (h_buckets h ! i) key = Some (he_value he)"
    using Some by (simp add: bucket_map_def)
  moreover have "hash_abs h key = Some (he_value he)" using calculation(3) i hv by (simp add: hash_abs_def)
  moreover have "h_buckets ?h ! i = he # pre @ post"
    using bucket_index_less[OF wf, of hv] i by (simp add: upd_bucket_def)
  moreover have "hash_value ?h = hash_value h" "bucket_index ?h = bucket_index h"
    by (simp_all add: upd_bucket_def hash_value_def bucket_index_def fun_eq_iff)
  ultimately show ?thesis using parts(2,3) by (auto simp: fun_eq_iff)
qed

lemma hash_lookup_spec:
  assumes "wf_hash h"
  shows "\<exists>h'. hash_lookup h key = Some (hash_abs h key, h') \<and> wf_hash h' \<and> hash_abs h' = hash_abs h"
  using lookup_fast_spec[OF assms refl refl, of key] by (auto simp: hash_lookup_def Let_def)

lemma hash_add_spec:
  assumes wf: "wf_hash h"
  shows "\<exists>h'. hash_add h key v replace = Some (replace \<or> hash_abs h key = None, h') \<and> wf_hash h' \<and>
    hash_abs h' = (if replace \<or> hash_abs h key = None then (hash_abs h)(key \<mapsto> v) else hash_abs h)"
proof -
  define hv where "hv = hash_value h key"
  define i where "i = bucket_index h hv"
  obtain r h1 where h1: "hash_lookup_fast h i key hv = Some (r, h1)" "wf_hash h1" "hash_abs h1 = hash_abs h"
    "hash_value h1 = hash_value h" "bucket_index h1 = bucket_index h" "map_option he_value r = hash_abs h key"
    "\<forall>he. r = Some he \<longrightarrow> he_key he = Some key \<and> (\<exists>l. h_buckets h1 ! i = he # l \<and> Some key \<notin> he_key ` set l)"
    using lookup_fast_spec[OF wf hv_def i_def] by blast
  have i1: "i = bucket_index h1 (hash_value h1 key)" using h1(4,5) by (simp add: i_def hv_def)
  have run: "hash_add h key v replace = Some (case r of
        Some he \<Rightarrow> (if replace then (True, upd_bucket h1 i (he\<lparr>he_value := v\<rparr> # tl (h_buckets h1 ! i))) else (False, h1))
      | None \<Rightarrow> (True, hash_add_fast h1 i key hv v))"
    using h1(1) by (simp add: hash_add_def hv_def[symmetric] i_def[symmetric])
  have okb: "bucket_ok h1 i (h_buckets h1 ! i)" using wf_bucket[OF h1(2)] i1 by simp
  show ?thesis
  proof (cases r)
    case None
    let ?he = "\<lparr>he_value = v, he_key = Some key, he_hash_value = hv\<rparr>"
    let ?l = "?he # h_buckets h1 ! i"
    have abs: "hash_abs h key = None" using h1(6) None by auto
    then have "bucket_map (h_buckets h1 ! i) key = None" using h1(3) i1 by (simp add: hash_abs_def fun_eq_iff)
    then have "Some key \<notin> he_key ` set (h_buckets h1 ! i)"
      by (induction "h_buckets h1 ! i") (auto simp: bucket_map_def find_None_iff)
    then have "bucket_ok h1 i ?l" using okb i1 h1(4) by (simp add: bucket_ok_def elem_ok_def hv_def)
    moreover have "hash_add_fast h1 i key hv v = (upd_bucket h1 i ?l)\<lparr>h_n_elements :=
        h_n_elements h1 + int (length ?l) - int (length (h_buckets h1 ! i))\<rparr>"
      by (simp add: hash_add_fast_def Let_def)
    ultimately have "wf_hash (hash_add_fast h1 i key hv v) \<and>
        hash_abs (hash_add_fast h1 i key hv v) = (hash_abs h1)(key := bucket_map ?l key)"
      by (intro upd_bucket_abs[OF h1(2) i1]) auto
    then show ?thesis using run None abs h1(3) by simp
  next
    case (Some he)
    then obtain l where he: "he_key he = Some key" and l: "h_buckets h1 ! i = he # l" "Some key \<notin> he_key ` set l"
      using h1(7) by blast
    have abs: "hash_abs h key = Some (he_value he)" using h1(6) Some by auto
    show ?thesis
    proof (cases replace)
      case True
      let ?l = "he\<lparr>he_value := v\<rparr> # l"
      let ?h = "upd_bucket h1 i ?l"
      have "wf_hash ?h \<and> hash_abs ?h = (hash_abs h1)(key := bucket_map ?l key)"
        by (rule upd_bucket_abs[OF h1(2) i1])
           (use okb l he in \<open>auto simp: bucket_ok_def elem_ok_def upd_bucket_def\<close>)
      then show ?thesis using run Some True l he h1(3) by simp
    next
      case False
      then show ?thesis using run Some h1 abs by simp
    qed
  qed
qed

lemma hash_remove_spec:
  assumes wf: "wf_hash h"
  shows "\<exists>h'. hash_remove h key = Some (hash_abs h key \<noteq> None, h') \<and> wf_hash h' \<and> hash_abs h' = (hash_abs h)(key := None)"
proof -
  define hv where "hv = hash_value h key"
  define i where "i = bucket_index h hv"
  have okb: "bucket_ok h i (h_buckets h ! i)" using wf_bucket[OF wf, of hv] i_def by simp
  have all: "list_all (elem_ok h i) (h_buckets h ! i)" using okb by (simp add: bucket_ok_def)
  have abs: "hash_abs h key = map_option he_value (find (\<lambda>he. he_key he = Some key) (h_buckets h ! i))"
    by (simp add: hash_abs_def bucket_map_def i_def hv_def)
  show ?thesis
  proof (cases "find (\<lambda>he. he_key he = Some key) (h_buckets h ! i)")
    case None
    then have "hash_remove h key = Some (False, h)"
      using bucket_search_spec[OF all hv_def] wf
      by (simp add: hash_remove_def hash_remove_fast_def wf_hash_def hv_def[symmetric] i_def[symmetric])
    then show ?thesis using wf abs None by (auto simp: fun_eq_iff)
  next
    case (Some he)
    define pre where "pre = takeWhile (\<lambda>he. he_key he \<noteq> Some key) (h_buckets h ! i)"
    define post where "post = tl (dropWhile (\<lambda>he. he_key he \<noteq> Some key) (h_buckets h ! i))"
    note parts = found_parts[OF okb Some pre_def post_def]
    let ?h = "(upd_bucket h i (pre @ post))\<lparr>h_n_elements := h_n_elements h - 1\<rparr>"
    have "hash_remove h key = Some (True, ?h)"
      using bucket_search_spec[OF all hv_def] Some wf
      by (simp add: hash_remove_def hash_remove_fast_def wf_hash_def hv_def[symmetric] i_def[symmetric] pre_def post_def)
    moreover have "wf_hash ?h \<and> hash_abs ?h = (hash_abs h)(key := bucket_map (pre @ post) key)"
    proof (rule upd_bucket_abs[OF wf _ parts(5)])
      have "length (h_buckets h ! i) = length (he # pre @ post)" by (subst parts(1)) simp
      then show "?h = (upd_bucket h i (pre @ post))\<lparr>h_n_elements :=
          h_n_elements h + int (length (pre @ post)) - int (length (h_buckets h ! i))\<rparr>" by simp
    qed (use parts(6) in \<open>auto simp: i_def hv_def\<close>)
    ultimately show ?thesis using abs Some bucket_map_notin[OF parts(3)] by simp
  qed
qed

section \<open>Removal by value\<close>

definition keep :: "'v \<Rightarrow> ('k, 'v) hash_element list \<Rightarrow> ('k, 'v) hash_element list" where
  "keep v l = filter (\<lambda>he. he_value he \<noteq> v) l"

definition mark :: "'v \<Rightarrow> ('k, 'v) hash_element \<Rightarrow> ('k, 'v) hash_element" where
  "mark v he = (if he_value he = v then he\<lparr>he_key := None\<rparr> else he)"

text \<open>The table when the first \<open>c\<close> buckets have been cleaned, and \<open>l\<close> is in bucket \<open>c\<close>.\<close>

definition cleaned :: "('k, 'v) hash \<Rightarrow> 'v \<Rightarrow> nat \<Rightarrow> ('k, 'v) hash \<Rightarrow> bool" where
  "cleaned h0 v c h \<longleftrightarrow> c \<le> length (h_buckets h0) \<and>
     h = h0\<lparr>h_buckets := map (keep v) (take c (h_buckets h0)) @ drop c (h_buckets h0),
            h_n_elements := h_n_elements h0 - int (sum_list (map (\<lambda>l. length l - length (keep v l)) (take c (h_buckets h0))))\<rparr>"

definition scanning :: "('k, 'v) hash \<Rightarrow> 'v \<Rightarrow> nat \<Rightarrow> nat \<Rightarrow> ('k, 'v) hash \<Rightarrow> hash_iterator \<Rightarrow> bool" where
  "scanning h0 v b e h hi \<longleftrightarrow> b < length (h_buckets h0) \<and> e \<le> length (h_buckets h0 ! b) \<and>
     (\<exists>h1. cleaned h0 v b h1 \<and>
        h = upd_bucket h1 b (map (mark v) (take e (h_buckets h0 ! b)) @ drop e (h_buckets h0 ! b))) \<and>
     hi_bucket_index hi = int b \<and> hi_bucket hi = Some b \<and>
     hi_elem hi = (if e < length (h_buckets h0 ! b) then Some e else None) \<and>
     hi_bucket_marked hi = (\<exists>he \<in> set (take e (h_buckets h0 ! b)). he_value he = v) \<and>
     hi_bucket_index_end hi = int (length (h_buckets h0))"

lemma upd_bucket_same: "h_buckets h ! c = l \<Longrightarrow> upd_bucket h c l = h"
  by (auto simp: upd_bucket_def)

lemma cleaned_sel:
  assumes "cleaned h0 v c h"
  shows "length (h_buckets h) = length (h_buckets h0)" "c \<le> b \<Longrightarrow> b < length (h_buckets h0) \<Longrightarrow> h_buckets h ! b = h_buckets h0 ! b"
  using assms by (auto simp: cleaned_def nth_append min_def)

lemma scanning_bucket:
  assumes "scanning h0 v b e h hi"
  shows "h_buckets h ! b = map (mark v) (take e (h_buckets h0 ! b)) @ drop e (h_buckets h0 ! b)" "b < length (h_buckets h)"
proof -
  obtain h1 where "cleaned h0 v b h1" "b < length (h_buckets h0)"
    "h = upd_bucket h1 b (map (mark v) (take e (h_buckets h0 ! b)) @ drop e (h_buckets h0 ! b))"
    using assms unfolding scanning_def by blast
  then show "h_buckets h ! b = map (mark v) (take e (h_buckets h0 ! b)) @ drop e (h_buckets h0 ! b)"
    "b < length (h_buckets h)" using cleaned_sel(1)[of h0 v b h1] by (simp_all add: upd_bucket_def)
qed

lemma length_keep: "length (keep v l) \<le> length l"
  by (simp add: keep_def)

lemma mark_filter:
  assumes "\<forall>he \<in> set l. he_key he \<noteq> None"
  shows "filter (\<lambda>he. he_key he \<noteq> None) (map (mark v) l) = keep v l"
  using assms by (induction l) (auto simp: keep_def mark_def)

lemma mark_id: "\<not> (\<exists>he \<in> set l. he_value he = v) \<Longrightarrow> map (mark v) l = l \<and> keep v l = l"
  by (auto simp: mark_def keep_def intro: map_idI)

lemma cleaned_Suc:
  assumes "cleaned h0 v c h" "c < length (h_buckets h0)"
  shows "cleaned h0 v (Suc c) ((upd_bucket h c (keep v (h_buckets h0 ! c)))\<lparr>h_n_elements :=
      h_n_elements h - int (length (h_buckets h0 ! c) - length (keep v (h_buckets h0 ! c)))\<rparr>)"
proof -
  have "(map (keep v) (take c (h_buckets h0)) @ drop c (h_buckets h0))[c := keep v (h_buckets h0 ! c)] =
      map (keep v) (take (Suc c) (h_buckets h0)) @ drop (Suc c) (h_buckets h0)"
    using assms(2) by (simp add: take_Suc_conv_app_nth Cons_nth_drop_Suc[symmetric] list_update_append min_def)
  then show ?thesis using assms by (simp add: cleaned_def upd_bucket_def take_Suc_conv_app_nth)
qed

text \<open>Leaving a bucket that is scanned to its end.\<close>

lemma scanning_unlock:
  assumes sc: "scanning h0 v b (length (h_buckets h0 ! b)) h hi" and wf: "wf_hash h0"
    and un: "hash_iterator_unlock h hi = (h', hi')"
  shows "cleaned h0 v (Suc b) h'" "hi_bucket hi' = None" "hi_elem hi' = None" "hi_bucket_index hi' = int b"
    "hi_bucket_index_end hi' = int (length (h_buckets h0))"
proof -
  let ?l = "h_buckets h0 ! b"
  obtain h1 where h1: "cleaned h0 v b h1" "h = upd_bucket h1 b (map (mark v) ?l)" and b: "b < length (h_buckets h0)"
    and hi: "hi_bucket hi = Some b" "hi_elem hi = None" "hi_bucket_index hi = int b"
      "hi_bucket_marked hi = (\<exists>he \<in> set ?l. he_value he = v)" "hi_bucket_index_end hi = int (length (h_buckets h0))"
    using sc by (auto simp: scanning_def)
  have keys: "\<forall>he \<in> set ?l. he_key he \<noteq> None"
  proof
    fix he assume "he \<in> set ?l"
    moreover have "bucket_ok h0 b ?l" using wf b by (simp add: wf_hash_def)
    ultimately have "elem_ok h0 b he" by (simp add: bucket_ok_def list_all_iff)
    then show "he_key he \<noteq> None" by (cases "he_key he") (auto simp: elem_ok_def)
  qed
  have bl: "b < length (h_buckets h1)" using cleaned_sel(1)[OF h1(1)] b by simp
  show "cleaned h0 v (Suc b) h'"
  proof (cases "hi_bucket_marked hi")
    case True
    have "h' = hash_remove_marked h b" using un hi(1) True by (simp add: hash_iterator_unlock_def)
    moreover have "h_buckets h ! b = map (mark v) ?l" using h1(2) bl by (simp add: upd_bucket_def)
    ultimately have "h' = (upd_bucket h1 b (keep v ?l))\<lparr>h_n_elements := h_n_elements h1 - int (length ?l - length (keep v ?l))\<rparr>"
      using h1(2) mark_filter[OF keys, of v] length_keep[of v ?l]
      by (simp add: hash_remove_marked_def upd_bucket_def Let_def of_nat_diff)
    then show ?thesis using cleaned_Suc[OF h1(1) b] by simp
  next
    case False
    then have l: "map (mark v) ?l = ?l" "keep v ?l = ?l" using hi(4) mark_id[of ?l v] by auto
    have "h' = upd_bucket h1 b ?l" using un hi(1) False h1(2) l by (simp add: hash_iterator_unlock_def)
    then show ?thesis using cleaned_Suc[OF h1(1) b] l by (simp add: upd_bucket_def)
  qed
  show "hi_bucket hi' = None" "hi_elem hi' = None" "hi_bucket_index hi' = int b"
    "hi_bucket_index_end hi' = int (length (h_buckets h0))"
    using un hi by (auto simp: hash_iterator_unlock_def Let_def split: if_splits)
qed

text \<open>The search for the next bucket that is not empty.\<close>

definition rest_iter :: "('k, 'v) hash \<Rightarrow> nat \<Rightarrow> hash_iterator \<Rightarrow> bool" where
  "rest_iter h0 c hi \<longleftrightarrow> hi_bucket hi = None \<and> hi_elem hi = None \<and> hi_bucket_index hi = int c - 1 \<and>
     hi_bucket_index_end hi = int (length (h_buckets h0))"

lemma next_bucket:
  assumes "cleaned h0 v c h" "rest_iter h0 c hi" "n = length (h_buckets h0) - c"
  shows "(\<exists>h' hi'. iterator_next_loop n h hi = (None, h', hi') \<and> cleaned h0 v (length (h_buckets h0)) h' \<and> hi_bucket hi' = None) \<or>
    (\<exists>b h' hi'. iterator_next_loop n h hi = (Some (b, 0), h', hash_iterator_advance h' hi' b 0) \<and> c \<le> b \<and>
       b < length (h_buckets h0) \<and> cleaned h0 v b h' \<and> h_buckets h0 ! b \<noteq> [] \<and> hi_bucket_index hi' = int b \<and>
       hi_bucket hi' = Some b \<and> \<not> hi_bucket_marked hi' \<and> hi_bucket_index_end hi' = int (length (h_buckets h0)))"
  using assms
proof (induction n arbitrary: c h hi)
  case 0
  then have "c = length (h_buckets h0)" by (simp add: cleaned_def)
  then show ?case using 0 by (simp add: rest_iter_def)
next
  case (Suc n)
  have c: "c < length (h_buckets h0)" using Suc.prems(3) by simp
  let ?hi = "hi\<lparr>hi_bucket_index := hi_bucket_index hi + 1\<rparr>"
  have un: "hash_iterator_unlock h ?hi = (h, ?hi)" "nat (hi_bucket_index ?hi) = c"
    using Suc.prems(2) by (simp_all add: hash_iterator_unlock_def rest_iter_def)
  have bk: "h_buckets h ! c = h_buckets h0 ! c" using cleaned_sel(2)[OF Suc.prems(1)] c by simp
  show ?case
  proof (cases "h_buckets h0 ! c = []")
    case True
    then have cl: "cleaned h0 v (Suc c) h"
    proof -
      have "(upd_bucket h c (keep v (h_buckets h0 ! c)))\<lparr>h_n_elements :=
        h_n_elements h - int (length (h_buckets h0 ! c) - length (keep v (h_buckets h0 ! c)))\<rparr> = h"
        using True bk by (simp add: keep_def upd_bucket_same)
      then show ?thesis using cleaned_Suc[OF Suc.prems(1) c] by simp
    qed
    have r: "rest_iter h0 (Suc c) ?hi" using Suc.prems(2) by (simp add: rest_iter_def)
    have n: "n = length (h_buckets h0) - Suc c" using Suc.prems(3) by simp
    have step: "iterator_next_loop (Suc n) h hi = iterator_next_loop n h ?hi" using un bk True by simp
    show ?thesis unfolding step using Suc.IH[OF cl r n] by (meson Suc_leD)
  next
    case False
    then have step: "iterator_next_loop (Suc n) h hi = (Some (c, 0), h, hash_iterator_advance h (hash_iterator_lock ?hi c) c 0)"
      using un bk by simp
    show ?thesis unfolding step using Suc.prems False c
      by (intro disjI2 exI[of _ c] exI[of _ h] exI[of _ "hash_iterator_lock ?hi c"])
         (auto simp: hash_iterator_lock_def rest_iter_def)
  qed
qed

text \<open>One round inside a bucket.\<close>

lemma scanning_step:
  assumes sc: "scanning h0 v b e h hi" and e: "e < length (h_buckets h0 ! b)"
  shows "\<exists>h' hi'. remove_by_value_loop v h hi = remove_by_value_loop v h' hi' \<and> scanning h0 v b (Suc e) h' hi'"
proof -
  let ?l = "h_buckets h0 ! b"
  let ?hi = "hash_iterator_advance h hi b e"
  obtain h1 where h1: "cleaned h0 v b h1" "h = upd_bucket h1 b (map (mark v) (take e ?l) @ drop e ?l)"
    using sc unfolding scanning_def by blast
  have b: "b < length (h_buckets h0)" "b < length (h_buckets h1)" using sc cleaned_sel(1)[OF h1(1)] by (auto simp: scanning_def)
  note bk = scanning_bucket(1)[OF sc]
  have next1: "hash_iterator_next h hi = (Some (b, e), h, ?hi)"
    using sc e by (simp add: hash_iterator_next_def scanning_def)
  have val: "h_buckets h ! b ! e = ?l ! e" unfolding bk using e by (simp add: nth_append)
  have adv: "hi_last ?hi = Some e" "hi_bucket ?hi = Some b"
    "hi_elem ?hi = (if Suc e < length ?l then Some (Suc e) else None)"
    using sc e bk by (simp_all add: hash_iterator_advance_def scanning_def)
  have take: "take (Suc e) ?l = take e ?l @ [?l ! e]" "drop e ?l = ?l ! e # drop (Suc e) ?l"
    using e by (simp_all add: take_Suc_conv_app_nth Cons_nth_drop_Suc)
  show ?thesis
  proof (cases "he_value (?l ! e) = v")
    case True
    let ?h = "upd_bucket h b ((h_buckets h ! b)[e := (h_buckets h ! b ! e)\<lparr>he_key := None\<rparr>])"
    let ?hi2 = "?hi\<lparr>hi_bucket_marked := True\<rparr>"
    have "remove_by_value_loop v h hi = remove_by_value_loop v ?h ?hi2"
      using True adv val by (subst remove_by_value_loop.simps) (simp add: next1 hash_iterator_delete_element_def)
    moreover have "(h_buckets h ! b)[e := (h_buckets h ! b ! e)\<lparr>he_key := None\<rparr>]
        = map (mark v) (take (Suc e) ?l) @ drop (Suc e) ?l"
      unfolding val unfolding bk take using e True by (simp add: list_update_append mark_def)
    then have "?h = upd_bucket h1 b (map (mark v) (take (Suc e) ?l) @ drop (Suc e) ?l)"
      using h1(2) by (simp add: upd_bucket_def)
    then have "scanning h0 v b (Suc e) ?h ?hi2"
      using sc h1(1) e adv True take(1) unfolding scanning_def
      by (auto simp: hash_iterator_advance_def)
    ultimately show ?thesis by blast
  next
    case False
    have "remove_by_value_loop v h hi = remove_by_value_loop v h ?hi"
      using False val by (subst remove_by_value_loop.simps) (simp add: next1)
    moreover have "map (mark v) (take e ?l) @ drop e ?l = map (mark v) (take (Suc e) ?l) @ drop (Suc e) ?l"
      unfolding take using False by (simp add: mark_def)
    then have "h = upd_bucket h1 b (map (mark v) (take (Suc e) ?l) @ drop (Suc e) ?l)" using h1(2) by simp
    then have "scanning h0 v b (Suc e) h ?hi"
      using sc h1(1) e adv False take(1) unfolding scanning_def
      by (auto simp: hash_iterator_advance_def)
    ultimately show ?thesis by blast
  qed
qed

lemma scanning_bucket_end:
  assumes "scanning h0 v b e h hi"
  shows "\<exists>h' hi'. remove_by_value_loop v h hi = remove_by_value_loop v h' hi' \<and>
    scanning h0 v b (length (h_buckets h0 ! b)) h' hi'"
  using assms
proof (induction "length (h_buckets h0 ! b) - e" arbitrary: e h hi)
  case 0
  then have "e = length (h_buckets h0 ! b)" by (simp add: scanning_def)
  then show ?case using 0 by blast
next
  case (Suc n)
  then have e: "e < length (h_buckets h0 ! b)" by simp
  obtain h1 hi1 where 1: "remove_by_value_loop v h hi = remove_by_value_loop v h1 hi1" "scanning h0 v b (Suc e) h1 hi1"
    using scanning_step[OF Suc.prems e] by blast
  then show ?case using Suc.hyps(1)[OF _ 1(2)] Suc.hyps(2) by (auto simp: 1(1))
qed

text \<open>An iterator that has left its bucket continues as one that unlocks it first.\<close>

lemma next_unlocked:
  assumes "hi_elem hi = None" "hi_bucket_index hi + 1 < hi_bucket_index_end hi" "hash_iterator_unlock h hi = (h', hi')"
  shows "hash_iterator_next h hi = hash_iterator_next h' hi'"
proof -
  obtain n where n: "nat (hi_bucket_index_end hi - hi_bucket_index hi - 1) = Suc n"
    using assms(2) by (cases "nat (hi_bucket_index_end hi - hi_bucket_index hi - 1)") auto
  have un: "hi_elem hi' = None" "hi_bucket hi' = None" "hi_bucket_index_end hi' = hi_bucket_index_end hi"
    "hi_bucket_index hi' = hi_bucket_index hi"
    "hash_iterator_unlock h (hi\<lparr>hi_bucket_index := x\<rparr>) = (h', hi'\<lparr>hi_bucket_index := x\<rparr>)" for x
    using assms by (auto simp: hash_iterator_unlock_def Let_def split: option.splits if_splits)
  have "hash_iterator_unlock h' (hi'\<lparr>hi_bucket_index := x\<rparr>) = (h', hi'\<lparr>hi_bucket_index := x\<rparr>)" for x
    using un(2) by (simp add: hash_iterator_unlock_def)
  then show ?thesis using assms(1) un n by (simp add: hash_iterator_next_def)
qed

lemma remove_by_value_rest:
  assumes "cleaned h0 v c h" "rest_iter h0 c hi" "wf_hash h0"
  shows "\<exists>h' hi'. remove_by_value_loop v h hi = Some (h', hi') \<and> cleaned h0 v (length (h_buckets h0)) (fst (hash_iterator_free h' hi'))"
  using assms
proof (induction "length (h_buckets h0) - c" arbitrary: c h hi rule: less_induct)
  case less
  let ?n = "length (h_buckets h0) - c"
  have c: "c \<le> length (h_buckets h0)" using less.prems(1) by (simp add: cleaned_def)
  have nx: "hash_iterator_next h hi = iterator_next_loop ?n h hi"
  proof -
    have "nat (hi_bucket_index_end hi - hi_bucket_index hi - 1) = ?n" using less.prems(2) c by (simp add: rest_iter_def)
    then show ?thesis using less.prems(2) by (simp add: hash_iterator_next_def rest_iter_def)
  qed
  from next_bucket[OF less.prems(1,2) refl] show ?case
  proof (elim disjE exE conjE)
    fix h' hi' assume "iterator_next_loop ?n h hi = (None, h', hi')"
      "cleaned h0 v (length (h_buckets h0)) h'" "hi_bucket hi' = None"
    then show ?thesis
      by (subst remove_by_value_loop.simps) (simp add: nx hash_iterator_free_def hash_iterator_unlock_def)
  next
    fix b h1 hi1 assume found: "iterator_next_loop ?n h hi = (Some (b, 0), h1, hash_iterator_advance h1 hi1 b 0)"
      and b: "c \<le> b" "b < length (h_buckets h0)" and cl: "cleaned h0 v b h1" and ne: "h_buckets h0 ! b \<noteq> []"
      and hi1: "hi_bucket_index hi1 = int b" "hi_bucket hi1 = Some b" "\<not> hi_bucket_marked hi1"
        "hi_bucket_index_end hi1 = int (length (h_buckets h0))"
    have bk: "h_buckets h1 ! b = h_buckets h0 ! b" using cleaned_sel(2)[OF cl] b by simp
    let ?hi0 = "hi1\<lparr>hi_elem := Some 0\<rparr>"
    have same: "upd_bucket h1 b (h_buckets h0 ! b) = h1" using bk by (rule upd_bucket_same)
    have sc0: "scanning h0 v b 0 h1 ?hi0"
      using b cl ne hi1 same unfolding scanning_def by (auto intro!: exI[of _ h1])
    have "hash_iterator_next h1 ?hi0 = (Some (b, 0), h1, hash_iterator_advance h1 hi1 b 0)"
      using hi1 by (simp add: hash_iterator_next_def hash_iterator_advance_def)
    then have "remove_by_value_loop v h hi = remove_by_value_loop v h1 ?hi0"
      using found nx by (subst (1 2) remove_by_value_loop.simps) simp
    moreover obtain h2 hi2 where 2: "remove_by_value_loop v h1 ?hi0 = remove_by_value_loop v h2 hi2"
      "scanning h0 v b (length (h_buckets h0 ! b)) h2 hi2"
      using scanning_bucket_end[OF sc0] by blast
    moreover obtain h3 hi3 where un: "hash_iterator_unlock h2 hi2 = (h3, hi3)" by (cases "hash_iterator_unlock h2 hi2")
    note un3 = scanning_unlock[OF 2(2) less.prems(3) un]
    have hi2: "hi_elem hi2 = None" "hi_bucket_index hi2 = int b" "hi_bucket hi2 = Some b"
      "hi_bucket_index_end hi2 = int (length (h_buckets h0))" using 2(2) by (auto simp: scanning_def)
    have "\<exists>h' hi'. remove_by_value_loop v h2 hi2 = Some (h', hi') \<and> cleaned h0 v (length (h_buckets h0)) (fst (hash_iterator_free h' hi'))"
    proof (cases "Suc b < length (h_buckets h0)")
      case True
      have "rest_iter h0 (Suc b) hi3" using un3 by (simp add: rest_iter_def)
      then have ih: "\<exists>h' hi'. remove_by_value_loop v h3 hi3 = Some (h', hi') \<and>
          cleaned h0 v (length (h_buckets h0)) (fst (hash_iterator_free h' hi'))"
        using less.hyps[of "Suc b" h3 hi3] un3(1) less.prems(3) b by simp
      have "hash_iterator_next h2 hi2 = hash_iterator_next h3 hi3"
        by (rule next_unlocked) (use hi2 un True in auto)
      then have "remove_by_value_loop v h2 hi2 = remove_by_value_loop v h3 hi3"
        by (subst (1 2) remove_by_value_loop.simps) simp
      then show ?thesis using ih by simp
    next
      case False
      then have last: "Suc b = length (h_buckets h0)" using b by simp
      let ?hi = "hi2\<lparr>hi_bucket_index := hi_bucket_index hi2 + 1\<rparr>"
      have "hash_iterator_next h2 hi2 = (None, h2, ?hi)"
        using hi2 last by (simp add: hash_iterator_next_def)
      then have "remove_by_value_loop v h2 hi2 = Some (h2, ?hi)" by (subst remove_by_value_loop.simps) simp
      moreover have "fst (hash_iterator_free h2 ?hi) = h3"
        using un by (auto simp: hash_iterator_free_def hash_iterator_unlock_def Let_def split: option.splits if_splits)
      ultimately show ?thesis using un3(1) last by simp
    qed
    ultimately show ?thesis by simp
  qed
qed

lemma bucket_map_keep:
  assumes "distinct (map he_key l)"
  shows "bucket_map (keep v l) k = (if bucket_map l k = Some v then None else bucket_map l k)"
  using assms
proof (induction l)
  case (Cons he l)
  have "bucket_map l k = None" if "he_key he = Some k"
    using Cons.prems that by (intro bucket_map_notin) auto
  then show ?case using Cons by (auto simp: keep_def)
qed (simp add: keep_def)

lemma sum_keep:
  "int (sum_list (map length B)) - int (sum_list (map (\<lambda>l. length l - length (keep v l)) B))
    = int (sum_list (map length (map (keep v) B)))"
proof (induction B)
  case (Cons l B)
  then show ?case using length_keep[of v l] by (simp add: of_nat_diff)
qed simp

lemma hash_remove_by_value_spec:
  assumes wf: "wf_hash h"
  shows "\<exists>h'. hash_remove_by_value h v = Some h' \<and> wf_hash h' \<and>
    hash_abs h' = (\<lambda>k. if hash_abs h k = Some v then None else hash_abs h k)"
proof -
  let ?B = "h_buckets h"
  have nb: "h_n_buckets h = int (length ?B)" "0 < length ?B" using wf by (auto simp: wf_hash_def)
  obtain hi where hi: "hash_iterator_init h = Some hi" "rest_iter h 0 hi"
    using nb by (auto simp: hash_iterator_init_def hash_iterator_init_range_def rest_iter_def)
  have "cleaned h v 0 h" by (simp add: cleaned_def)
  from remove_by_value_rest[OF this hi(2) wf] obtain h1 hi1 where 1: "remove_by_value_loop v h hi = Some (h1, hi1)"
    "cleaned h v (length ?B) (fst (hash_iterator_free h1 hi1))"
    by blast
  define h' where "h' = fst (hash_iterator_free h1 hi1)"
  have h': "h' = h\<lparr>h_buckets := map (keep v) ?B,
      h_n_elements := h_n_elements h - int (sum_list (map (\<lambda>l. length l - length (keep v l)) ?B))\<rparr>"
    using 1(2) by (simp add: h'_def cleaned_def)
  have same: "bucket_index h' = bucket_index h" "hash_value h' = hash_value h"
    by (simp_all add: h' bucket_index_def hash_value_def fun_eq_iff)
  have el: "elem_ok h' = elem_ok h" unfolding elem_ok_def same by (rule refl)
  have ok: "bucket_ok h i (?B ! i)" if "i < length ?B" for i using wf that by (simp add: wf_hash_def)
  have "bucket_ok h' i (map (keep v) ?B ! i)" if "i < length ?B" for i
    using ok[OF that] that by (auto simp: bucket_ok_def el keep_def list_all_iff distinct_map_filter)
  moreover have "int (sum_list (map length ?B)) - int (sum_list (map (\<lambda>l. length l - length (keep v l)) ?B))
      = int (sum_list (map length (map (keep v) ?B)))"
    by (rule sum_keep)
  ultimately have "wf_hash h'" using wf unfolding wf_hash_def h' by (simp add: comp_def)
  moreover have "hash_abs h' k = (if hash_abs h k = Some v then None else hash_abs h k)" for k
  proof -
    let ?i = "bucket_index h (hash_value h k)"
    have i: "?i < length ?B" using bucket_index_less[OF wf] .
    have "hash_abs h' k = bucket_map (keep v (?B ! ?i)) k"
      unfolding hash_abs_def same by (simp add: h' i)
    then show ?thesis using bucket_map_keep[of "?B ! ?i" v k] ok[OF i] by (simp add: hash_abs_def bucket_ok_def)
  qed
  moreover have "hash_remove_by_value h v = Some h'"
    using hi(1) 1(1) by (simp add: hash_remove_by_value_def h'_def)
  ultimately show ?thesis by blast
qed

interpretation table: dictionary hash_abs wf_hash hash_lookup hash_add hash_remove hash_remove_by_value
  by unfold_locales
     (rule hash_lookup_spec hash_add_spec hash_remove_spec hash_remove_by_value_spec, assumption)+

lemma hash_init_ok:
  assumes "0 < n" "n \<le> 2 ^ 30"
  obtains h :: "('k, 'v) hash" where "hash_init iv n hf (=) = Some h" "wf_hash h" "hash_abs h = Map.empty"
proof -
  have un: "unat (word_of_int n :: u32) = nat n"
    using assms by (simp add: unsigned_of_int take_bit_int_eq_self)
  have small: "nat n \<le> 2147483648" using assms(2) by (simp add: nat_le_iff)
  obtain j where j: "adjust_power_of_2 (word_of_int n) = Some (2 ^ j)" "nat n \<le> 2 ^ j" "j = 0 \<or> 2 ^ (j - 1) < nat n" "j < 32"
    using adjust_power_of_2_spec[of "word_of_int n", unfolded un, OF small] by blast
  have j31: "j < 31"
  proof (rule ccontr)
    assume "\<not> j < 31"
    then have "(2::nat) ^ 30 \<le> 2 ^ (j - 1)" by (intro power_increasing) auto
    moreover have "nat n \<le> 2 ^ 30" using assms(2) by (simp add: nat_le_iff)
    ultimately show False using j(3) \<open>\<not> j < 31\<close> by linarith
  qed
  have si: "sint ((2 :: u32) ^ j) = 2 ^ j"
  proof -
    have u: "uint ((2 :: u32) ^ j) = 2 ^ j" using unat_exp32[OF j(4)] by (metis of_nat_unat of_nat_power of_nat_numeral)
    have "(2 :: int) ^ j < 2 ^ 31" using j31 by (intro power_strict_increasing) auto
    then show ?thesis using u order_trans[of "- 2147483648 :: int" 0 "2 ^ j"]
      by (simp add: sint_uint signed_take_bit_int_eq_self_iff)
  qed
  let ?h = "\<lparr>h_n_buckets = 2 ^ j, h_n_elements = 0, h_mask = 2 ^ j - 1, h_iv = iv,
           h_hash_function = hf, h_compare_function = (=), h_buckets = replicate (nat (2 ^ j)) []\<rparr> :: ('k, 'v) hash"
  have init: "hash_init iv n hf (=) = Some ?h" using assms(1) j(1) si by (simp add: hash_init_def)
  have wf: "wf_hash ?h" using j31 by (auto simp: wf_hash_def bucket_ok_def sum_list_replicate)
  have "hash_abs ?h k = None" for k
    using bucket_index_less[OF wf, of "hash_value ?h k"] by (simp add: hash_abs_def)
  then have "hash_abs ?h = Map.empty" by auto
  then show ?thesis using that init wf by blast
qed

text \<open>The counter of elements is the number of entries.\<close>

lemma n_elements_card:
  assumes wf: "wf_hash h"
  shows "h_n_elements h = int (card (dom (hash_abs h)))"
proof -
  let ?B = "h_buckets h"
  define K where "K i = {k. Some k \<in> he_key ` set (?B ! i)}" for i
  have ok: "bucket_ok h i (?B ! i)" if "i < length ?B" for i using wf that by (simp add: wf_hash_def)
  have idx: "bucket_index h (hash_value h k) = i" if "k \<in> K i" "i < length ?B" for k i
    using that ok[OF that(2)] by (auto simp: K_def bucket_ok_def list_all_iff elem_ok_def split: option.splits)
  have dom: "dom (hash_abs h) = (\<Union>i < length ?B. K i)"
  proof (intro equalityI subsetI)
    fix k assume "k \<in> dom (hash_abs h)"
    then have "k \<in> K (bucket_index h (hash_value h k))"
      unfolding K_def hash_abs_def using bucket_map_notin by fastforce
    then show "k \<in> (\<Union>i < length ?B. K i)" using bucket_index_less[OF wf] by blast
  next
    fix k assume "k \<in> (\<Union>i < length ?B. K i)"
    then obtain i where "i < length ?B" "k \<in> K i" by blast
    then have "Some k \<in> he_key ` set (?B ! bucket_index h (hash_value h k))" using idx by (simp add: K_def)
    then have "bucket_map (?B ! bucket_index h (hash_value h k)) k \<noteq> None"
      by (auto simp: bucket_map_def find_None_iff)
    then show "k \<in> dom (hash_abs h)" by (auto simp: hash_abs_def)
  qed
  have card: "card (K i) = length (?B ! i)" if "i < length ?B" for i
  proof -
    have keys: "\<forall>he \<in> set (?B ! i). he_key he \<noteq> None"
      using ok[OF that] by (auto simp: bucket_ok_def list_all_iff elem_ok_def split: option.splits)
    have "Some ` K i = he_key ` set (?B ! i)" using keys by (force simp: K_def)
    then have "card (K i) = card (he_key ` set (?B ! i))" by (metis card_image inj_Some)
    also have "\<dots> = length (?B ! i)" using ok[OF that] distinct_card[of "map he_key (?B ! i)"] by (simp add: bucket_ok_def)
    finally show ?thesis .
  qed
  have fin: "finite (K i)" if "i < length ?B" for i
  proof -
    have "Some ` K i \<subseteq> he_key ` set (?B ! i)" by (auto simp: K_def)
    then show ?thesis using finite_imageD[of Some "K i"] finite_subset by (metis finite_imageI finite_set inj_Some)
  qed
  have disj: "K i \<inter> K j = {}" if "i < length ?B" "j < length ?B" "i \<noteq> j" for i j
    using idx[of _ i] idx[of _ j] that by fastforce
  have "card (dom (hash_abs h)) = (\<Sum>i < length ?B. card (K i))"
    unfolding dom using fin disj by (intro card_UN_disjoint) auto
  also have "\<dots> = (\<Sum>i < length ?B. length (?B ! i))" using card by simp
  also have "\<dots> = sum_list (map length ?B)" by (simp add: sum_list_sum_nth atLeast0LessThan)
  finally show ?thesis using wf by (simp add: wf_hash_def)
qed

text \<open>
  C23: the hash table is a map.  From a fresh table, with any hash function and a comparison that is
  equality, every sequence of lookups, additions, removals and removals by value returns on each
  operation, gives the answers that a map gives, and leaves the map's contents.
\<close>

theorem hash_refines_map:
  fixes ops :: "('k, 'v) dict_op list"
  assumes "0 < n" "n \<le> 2 ^ 30"
  shows "\<exists>(h :: ('k, 'v) hash) h'. hash_init iv n hf (=) = Some h \<and>
    dict_steps hash_lookup hash_add hash_remove hash_remove_by_value ops h =
      Some (fst (map_steps ops Map.empty), h') \<and>
    hash_abs h' = snd (map_steps ops Map.empty) \<and>
    h_n_elements h' = int (card (dom (hash_abs h')))"
proof -
  obtain h :: "('k, 'v) hash" where h: "hash_init iv n hf (=) = Some h" "wf_hash h" "hash_abs h = Map.empty"
    using assms by (rule hash_init_ok)
  then show ?thesis using table.steps_refine[OF h(2), of ops] by (auto simp: n_elements_card)
qed

theorem hash_refines_map_witness:
  "\<exists>(h :: (int, nat) hash) h'. hash_init 5 3 (\<lambda>k iv. word_of_int k + iv) (=) = Some h \<and>
    dict_steps hash_lookup hash_add hash_remove hash_remove_by_value
      [Dict_add 1 10 False, Dict_add 9 10 True, Dict_lookup 9, Dict_purge 10, Dict_lookup 1, Dict_remove 1] h =
      Some ([Done True, Done True, Found (Some 10), Purged, Found None, Done False], h')"
  using hash_refines_map[of 3 5 "\<lambda>k iv. word_of_int k + iv"
    "[Dict_add (1 :: int) (10 :: nat) False, Dict_add 9 10 True, Dict_lookup 9, Dict_purge 10, Dict_lookup 1, Dict_remove 1]"]
  by (auto simp: Let_def)

end
