(* ===== verification/Schedule.thy ===== *)
theory Schedule
  imports Otime "HOL-Library.Tree" "HOL-Library.Product_Lexorder"
begin

text \<open>
  The scheduler of the server (schedule.h, schedule.c): a randomised treap of entries that are linked by
  pointers.  The memory of the entries is a function from addresses; a null pointer is \<^const>\<open>None\<close>.
  Loops over pointers are partial functions, so that a loop that does not end, a failed assertion and a
  supply of random numbers that runs out are all \<^const>\<open>None\<close>; the mutex and the debug output are left
  out.
\<close>

section \<open>Entries and the schedule\<close>

type_synonym sptr = "nat option"

record schedule_entry =
  se_tv :: timeval
  se_pri :: u32
  se_parent :: sptr
  se_lt :: sptr
  se_gt :: sptr

record schedule =
  sch_mem :: "nat \<Rightarrow> schedule_entry"
  earliest_wakeup :: sptr
  sch_root :: sptr

definition upd :: "nat \<Rightarrow> (schedule_entry \<Rightarrow> schedule_entry) \<Rightarrow> schedule \<Rightarrow> schedule" where
  "upd a f s = s\<lparr>sch_mem := (sch_mem s)(a := f (sch_mem s a))\<rparr>"

definition IN_TREE :: "schedule \<Rightarrow> nat \<Rightarrow> bool" where
  "IN_TREE s e \<longleftrightarrow> se_pri (sch_mem s e) \<noteq> 0"

text \<open>The argument \<open>r\<close> is the result of random.\<close>

definition schedule_set_pri :: "nat \<Rightarrow> u32 \<Rightarrow> schedule \<Rightarrow> schedule" where
  "schedule_set_pri e r s = upd e (\<lambda>n. n\<lparr>se_pri := if r < 1 then 1 else r\<rparr>) s"

definition schedule_entry_compare :: "schedule_entry \<Rightarrow> schedule_entry \<Rightarrow> int" where
  "schedule_entry_compare e1 e2 =
     (if tv_sec (se_tv e1) < tv_sec (se_tv e2) then -1
      else if tv_sec (se_tv e1) > tv_sec (se_tv e2) then 1
      else if tv_usec (se_tv e1) < tv_usec (se_tv e2) then -1
      else if tv_usec (se_tv e1) > tv_usec (se_tv e2) then 1
      else if se_pri e1 < se_pri e2 then -1
      else if se_pri e1 > se_pri e2 then 1
      else 0)"

definition schedule_detach_parent :: "schedule \<Rightarrow> sptr \<Rightarrow> schedule option" where
  "schedule_detach_parent s e = (case e of None \<Rightarrow> Some s | Some e \<Rightarrow>
     (case se_parent (sch_mem s e) of
        Some p \<Rightarrow> do {
          s \<leftarrow> (if se_lt (sch_mem s p) = Some e then Some (upd p (\<lambda>n. n\<lparr>se_lt := None\<rparr>) s)
                else if se_gt (sch_mem s p) = Some e then Some (upd p (\<lambda>n. n\<lparr>se_gt := None\<rparr>) s)
                else None);
          Some (upd e (\<lambda>n. n\<lparr>se_parent := None\<rparr>) s)
        }
      | None \<Rightarrow> Some (if sch_root s = Some e then s\<lparr>sch_root := None\<rparr> else s)))"

text \<open>The link from the grandparent, or the root, in schedule_rotate_up.\<close>

definition rotate_link :: "schedule \<Rightarrow> sptr \<Rightarrow> nat \<Rightarrow> nat \<Rightarrow> schedule option" where
  "rotate_link s gp p e = (case gp of
     Some g \<Rightarrow> (if se_gt (sch_mem s g) = Some p then Some (upd g (\<lambda>n. n\<lparr>se_gt := Some e\<rparr>) s)
               else if se_lt (sch_mem s g) = Some p then Some (upd g (\<lambda>n. n\<lparr>se_lt := Some e\<rparr>) s)
               else None)
   | None \<Rightarrow> Some (s\<lparr>sch_root := Some e\<rparr>))"

definition set_parent :: "sptr \<Rightarrow> sptr \<Rightarrow> schedule \<Rightarrow> schedule" where
  "set_parent c p s = (case c of None \<Rightarrow> s | Some c \<Rightarrow> upd c (\<lambda>n. n\<lparr>se_parent := p\<rparr>) s)"

definition schedule_rotate_up :: "schedule \<Rightarrow> sptr \<Rightarrow> schedule option" where
  "schedule_rotate_up s e = (case e of None \<Rightarrow> Some s | Some e \<Rightarrow>
     (case se_parent (sch_mem s e) of None \<Rightarrow> Some s | Some p \<Rightarrow> do {
        let lt = se_lt (sch_mem s e);
        let gt = se_gt (sch_mem s e);
        let gp = se_parent (sch_mem s p);
        s \<leftarrow> rotate_link s gp p e;
        let s = upd e (\<lambda>n. n\<lparr>se_parent := gp\<rparr>) s;
        let s = upd p (\<lambda>n. n\<lparr>se_parent := Some e\<rparr>) s;
        if se_gt (sch_mem s p) = Some e then
          Some (set_parent lt (Some p) (upd p (\<lambda>n. n\<lparr>se_gt := lt\<rparr>) (upd e (\<lambda>n. n\<lparr>se_lt := Some p\<rparr>) s)))
        else if se_lt (sch_mem s p) = Some e then
          Some (set_parent gt (Some p) (upd p (\<lambda>n. n\<lparr>se_lt := gt\<rparr>) (upd e (\<lambda>n. n\<lparr>se_gt := Some p\<rparr>) s)))
        else None
      }))"

partial_function (option) remove_loop :: "schedule \<Rightarrow> nat \<Rightarrow> schedule option" where
  "remove_loop s e =
     (if se_lt (sch_mem s e) \<noteq> None \<or> se_gt (sch_mem s e) \<noteq> None then do {
        s \<leftarrow> (case se_lt (sch_mem s e) of
            Some l \<Rightarrow> (case se_gt (sch_mem s e) of
                Some g \<Rightarrow> if se_pri (sch_mem s l) < se_pri (sch_mem s g) then schedule_rotate_up s (Some l)
                          else schedule_rotate_up s (Some g)
              | None \<Rightarrow> schedule_rotate_up s (Some l))
          | None \<Rightarrow> schedule_rotate_up s (se_gt (sch_mem s e)));
        remove_loop s e
      } else Some s)"

definition schedule_remove_node :: "schedule \<Rightarrow> nat \<Rightarrow> schedule option" where
  "schedule_remove_node s e = do {
     s \<leftarrow> remove_loop s e;
     s \<leftarrow> schedule_detach_parent s (Some e);
     Some (upd e (\<lambda>n. n\<lparr>se_pri := 0\<rparr>) s)
   }"

text \<open>
  The list \<open>rs\<close> holds the results of the calls of random to come; a loop that needs more of them, or
  that does not end, is \<^const>\<open>None\<close>.
\<close>

partial_function (option) insert_loop :: "schedule \<Rightarrow> nat \<Rightarrow> nat \<Rightarrow> u32 list \<Rightarrow> (schedule \<times> u32 list) option" where
  "insert_loop s e c rs =
     (let comp = schedule_entry_compare (sch_mem s e) (sch_mem s c) in
      if comp = -1 then
        (case se_lt (sch_mem s c) of
           Some c \<Rightarrow> insert_loop s e c rs
         | None \<Rightarrow> Some (upd e (\<lambda>n. n\<lparr>se_parent := Some c\<rparr>) (upd c (\<lambda>n. n\<lparr>se_lt := Some e\<rparr>) s), rs))
      else if comp = 1 then
        (case se_gt (sch_mem s c) of
           Some c \<Rightarrow> insert_loop s e c rs
         | None \<Rightarrow> Some (upd e (\<lambda>n. n\<lparr>se_parent := Some c\<rparr>) (upd c (\<lambda>n. n\<lparr>se_gt := Some e\<rparr>) s), rs))
      else
        (case rs of
           [] \<Rightarrow> None
         | r # rs \<Rightarrow> (case sch_root s of None \<Rightarrow> None | Some c \<Rightarrow> insert_loop (schedule_set_pri e r s) e c rs)))"

definition schedule_insert :: "schedule \<Rightarrow> nat \<Rightarrow> u32 list \<Rightarrow> (schedule \<times> u32 list) option" where
  "schedule_insert s e rs = (case sch_root s of None \<Rightarrow> None | Some c \<Rightarrow> insert_loop s e c rs)"

partial_function (option) raise_loop :: "schedule \<Rightarrow> nat \<Rightarrow> schedule option" where
  "raise_loop s e =
     (case se_parent (sch_mem s e) of
        Some p \<Rightarrow> if se_pri (sch_mem s p) > se_pri (sch_mem s e) then do {
            s \<leftarrow> schedule_rotate_up s (Some e);
            raise_loop s e
          } else Some s
      | None \<Rightarrow> Some s)"

definition schedule_add_modify :: "schedule \<Rightarrow> nat \<Rightarrow> u32 list \<Rightarrow> (schedule \<times> u32 list) option" where
  "schedule_add_modify s e rs = do {
     s \<leftarrow> (if IN_TREE s e then schedule_remove_node s e else Some s);
     (s, rs) \<leftarrow> (case rs of [] \<Rightarrow> None | r # rs \<Rightarrow> Some (schedule_set_pri e r s, rs));
     (s, rs) \<leftarrow> (if sch_root s \<noteq> None then schedule_insert s e rs else Some (s\<lparr>sch_root := Some e\<rparr>, rs));
     s \<leftarrow> raise_loop s e;
     Some (s, rs)
   }"

partial_function (option) find_least_loop :: "schedule \<Rightarrow> nat \<Rightarrow> nat option" where
  "find_least_loop s e = (case se_lt (sch_mem s e) of Some l \<Rightarrow> find_least_loop s l | None \<Rightarrow> Some e)"

definition schedule_find_least :: "schedule \<Rightarrow> sptr \<Rightarrow> sptr option" where
  "schedule_find_least s e = (case e of None \<Rightarrow> Some None | Some e \<Rightarrow> map_option Some (find_least_loop s e))"

text \<open>The entries of the caller are cleared when they are allocated.\<close>

definition clear_entry :: schedule_entry where
  "clear_entry = \<lparr>se_tv = tv_clear, se_pri = 0, se_parent = None, se_lt = None, se_gt = None\<rparr>"

definition schedule_init :: schedule where
  "schedule_init = \<lparr>sch_mem = (\<lambda>_. clear_entry), earliest_wakeup = None, sch_root = None\<rparr>"

definition schedule_remove_entry :: "schedule \<Rightarrow> nat \<Rightarrow> schedule option" where
  "schedule_remove_entry s e = schedule_remove_node (s\<lparr>earliest_wakeup := None\<rparr>) e"

definition schedule_add_entry :: "schedule \<Rightarrow> nat \<Rightarrow> timeval \<Rightarrow> u32 \<Rightarrow> u32 list \<Rightarrow> (schedule \<times> u32 list) option" where
  "schedule_add_entry s e tv sigma rs =
     (if \<not> IN_TREE s e \<or> sigma = 0 \<or> \<not> tv_within_sigma tv (se_tv (sch_mem s e)) (sint sigma) then do {
        let s = upd e (\<lambda>n. n\<lparr>se_tv := tv\<rparr>) s;
        (s, rs) \<leftarrow> schedule_add_modify s e rs;
        Some (s\<lparr>earliest_wakeup := None\<rparr>, rs)
      } else Some (s, rs))"

definition schedule_get_earliest_wakeup :: "schedule \<Rightarrow> (schedule \<times> sptr \<times> timeval option) option" where
  "schedule_get_earliest_wakeup s = do {
     s \<leftarrow> (if earliest_wakeup s = None then do {
             e \<leftarrow> schedule_find_least s (sch_root s);
             Some (s\<lparr>earliest_wakeup := e\<rparr>)
           } else Some s);
     let ret = earliest_wakeup s;
     Some (s, ret, map_option (\<lambda>e. se_tv (sch_mem s e)) ret)
   }"

end
