(* ===== verification/Schedule_Tree.thy ===== *)
theory Schedule_Tree
  imports Schedule
begin

text \<open>
  The scheduler's operations on the tree they work on: which tree is linked in memory, what the
  rotations, the removal, the insertion at a leaf and the raising of an entry do to it, and the
  treap invariant.
\<close>

section \<open>The tree in memory\<close>

definition entry_key :: "schedule_entry \<Rightarrow> timeval \<times> u32" where
  "entry_key n = (se_tv n, se_pri n)"

lemma schedule_entry_compare_key:
  "schedule_entry_compare e1 e2 =
    (if entry_key e1 < entry_key e2 then -1 else if entry_key e2 < entry_key e1 then 1 else 0)"
  by (auto simp: schedule_entry_compare_def entry_key_def less_prod_def less_eq_timeval_def less_timeval_def
      tv_le_def tv_lt_def timeval.expand)

lemma compare_cases [simp]:
  "schedule_entry_compare e1 e2 = -1 \<longleftrightarrow> entry_key e1 < entry_key e2"
  "schedule_entry_compare e1 e2 = 1 \<longleftrightarrow> entry_key e2 < entry_key e1"
  by (auto simp: schedule_entry_compare_key)

text \<open>
  A pointer is the root of a tree of addresses in memory, below a parent; and a tree with a hole that is
  filled by a pointer.
\<close>

fun tree_at :: "(nat \<Rightarrow> schedule_entry) \<Rightarrow> sptr \<Rightarrow> sptr \<Rightarrow> nat tree \<Rightarrow> bool" where
  "tree_at h q p Leaf \<longleftrightarrow> p = None"
| "tree_at h q p (Node l a r) \<longleftrightarrow> p = Some a \<and> se_parent (h a) = q \<and>
     tree_at h (Some a) (se_lt (h a)) l \<and> tree_at h (Some a) (se_gt (h a)) r"

datatype tctx = Top | LeftOf tctx nat "nat tree" | RightOf "nat tree" nat tctx

fun plug :: "tctx \<Rightarrow> nat tree \<Rightarrow> nat tree" where
  "plug Top t = t"
| "plug (LeftOf c a r) t = plug c (Node t a r)"
| "plug (RightOf l a c) t = plug c (Node l a t)"

fun ctx_at :: "(nat \<Rightarrow> schedule_entry) \<Rightarrow> sptr \<Rightarrow> tctx \<Rightarrow> sptr \<Rightarrow> sptr \<Rightarrow> bool" where
  "ctx_at h rt Top q p \<longleftrightarrow> q = None \<and> p = rt"
| "ctx_at h rt (LeftOf c a r) q p \<longleftrightarrow> q = Some a \<and> se_lt (h a) = p \<and> tree_at h (Some a) (se_gt (h a)) r \<and>
     ctx_at h rt c (se_parent (h a)) (Some a)"
| "ctx_at h rt (RightOf l a c) q p \<longleftrightarrow> q = Some a \<and> se_gt (h a) = p \<and> tree_at h (Some a) (se_lt (h a)) l \<and>
     ctx_at h rt c (se_parent (h a)) (Some a)"

fun ctx_left :: "tctx \<Rightarrow> nat list" where
  "ctx_left Top = []"
| "ctx_left (LeftOf c a r) = ctx_left c"
| "ctx_left (RightOf l a c) = ctx_left c @ inorder l @ [a]"

fun ctx_right :: "tctx \<Rightarrow> nat list" where
  "ctx_right Top = []"
| "ctx_right (LeftOf c a r) = a # inorder r @ ctx_right c"
| "ctx_right (RightOf l a c) = ctx_right c"

abbreviation ctx_set :: "tctx \<Rightarrow> nat set" where
  "ctx_set c \<equiv> set (ctx_left c) \<union> set (ctx_right c)"

lemma inorder_plug: "inorder (plug c t) = ctx_left c @ inorder t @ ctx_right c"
  by (induction c t rule: plug.induct) simp_all

lemma tree_at_plug: "tree_at h None rt (plug c t) \<longleftrightarrow> (\<exists>q p. ctx_at h rt c q p \<and> tree_at h q p t)"
  by (induction c t rule: plug.induct) auto

lemma plug_at: "ctx_at h rt c q p \<Longrightarrow> tree_at h q p t \<Longrightarrow> tree_at h None rt (plug c t)"
  using tree_at_plug by blast

lemma tree_at_cong: "\<forall>x \<in> set_tree t. h' x = h x \<Longrightarrow> tree_at h' q p t = tree_at h q p t"
  by (induction t arbitrary: q p) auto

lemma ctx_at_cong: "\<forall>x \<in> ctx_set c. h' x = h x \<Longrightarrow> ctx_at h' rt c q p = ctx_at h rt c q p"
  by (induction c arbitrary: q p) (simp_all add: tree_at_cong[of _ h' h] ball_Un)

text \<open>Every node of a tree is in a hole of it.\<close>

lemma tree_focus: "a \<in> set_tree t \<Longrightarrow> \<exists>c l r. t = plug c (Node l a r)"
proof (induction t)
  case (Node l b r)
  have lift: "\<exists>c'. plug c' t' = Node (plug c t') b r" "\<exists>c'. plug c' t' = Node l b (plug c t')" for c t'
    by (induction c arbitrary: t' rule: tctx.induct)
       (metis plug.simps, metis plug.simps, metis plug.simps)+
  show ?case
  proof (cases "a = b")
    case True
    then show ?thesis by (metis plug.simps(1))
  next
    case False
    then have "a \<in> set_tree l \<or> a \<in> set_tree r" using Node.prems by auto
    then show ?thesis using Node.IH lift by (metis (no_types))
  qed
qed simp

lemma tree_at_subset: "tree_at h q p t \<Longrightarrow> p = Some a \<Longrightarrow> a \<in> set_tree t"
  by (cases t) auto

lemma tree_at_reparent:
  assumes "tree_at h q p t" "distinct (inorder t)"
    and "\<forall>x \<in> set_tree t. p \<noteq> Some x \<longrightarrow> h' x = h x" "\<forall>x. p = Some x \<longrightarrow> h' x = (h x)\<lparr>se_parent := q'\<rparr>"
  shows "tree_at h' q' p t"
proof (cases t)
  case (Node l a r)
  have "tree_at h' (Some a) (se_lt (h a)) l" "tree_at h' (Some a) (se_gt (h a)) r"
    using assms Node by (subst tree_at_cong[of _ h' h]; auto)+
  then show ?thesis using assms(1,4) Node by auto
qed (use assms in simp)

section \<open>Rotations\<close>

definition holds :: "schedule \<Rightarrow> nat tree \<Rightarrow> bool" where
  "holds s t \<longleftrightarrow> tree_at (sch_mem s) None (sch_root s) t \<and> distinct (inorder t)"

text \<open>Only links of the entries in \<open>S\<close> have changed.\<close>

definition relinked :: "nat set \<Rightarrow> schedule \<Rightarrow> schedule \<Rightarrow> bool" where
  "relinked S s s' \<longleftrightarrow> (\<forall>x. entry_key (sch_mem s' x) = entry_key (sch_mem s x)) \<and>
     (\<forall>x. x \<notin> S \<longrightarrow> sch_mem s' x = sch_mem s x) \<and> earliest_wakeup s' = earliest_wakeup s"

lemma relinked_refl: "relinked S s s"
  by (simp add: relinked_def)

lemma relinked_trans: "relinked S s1 s2 \<Longrightarrow> relinked S s2 s3 \<Longrightarrow> relinked S s1 s3"
  by (simp add: relinked_def)

lemma relinked_pri: "relinked S s s' \<Longrightarrow> se_pri (sch_mem s' x) = se_pri (sch_mem s x)"
  by (simp add: relinked_def entry_key_def)

lemma upd_sel [simp]:
  "sch_mem (upd a f s) = (sch_mem s)(a := f (sch_mem s a))" "sch_root (upd a f s) = sch_root s"
  "earliest_wakeup (upd a f s) = earliest_wakeup s"
  by (simp_all add: upd_def)

lemma rotate_link_ctx:
  assumes "ctx_at (sch_mem s) (sch_root s) c q (Some p)" "p \<notin> ctx_set c" "distinct (ctx_left c @ ctx_right c)"
  shows "\<exists>s'. rotate_link s q p e = Some s' \<and> ctx_at (sch_mem s') (sch_root s') c q (Some e) \<and> relinked (ctx_set c) s s'"
proof (cases c)
  case Top
  then show ?thesis using assms by (simp add: rotate_link_def relinked_def)
next
  case (LeftOf c0 a r)
  then have "se_gt (sch_mem s a) \<noteq> Some p" using assms(1,2) tree_at_subset by fastforce
  moreover have "tree_at ((sch_mem s)(a := m)) q' p' r = tree_at (sch_mem s) q' p' r"
    "ctx_at ((sch_mem s)(a := m)) rt c0 q' p' = ctx_at (sch_mem s) rt c0 q' p'" for m q' p' rt
    using assms(3) LeftOf by (auto intro!: tree_at_cong ctx_at_cong)
  ultimately show ?thesis using assms(1) LeftOf
    by (simp add: rotate_link_def relinked_def entry_key_def)
next
  case (RightOf l a c0)
  moreover have "tree_at ((sch_mem s)(a := m)) q' p' l = tree_at (sch_mem s) q' p' l"
    "ctx_at ((sch_mem s)(a := m)) rt c0 q' p' = ctx_at (sch_mem s) rt c0 q' p'" for m q' p' rt
    using assms(3) RightOf by (auto intro!: tree_at_cong ctx_at_cong)
  ultimately show ?thesis using assms(1)
    by (simp add: rotate_link_def relinked_def entry_key_def)
qed

lemma set_parent_sel [simp]:
  "sch_mem (set_parent c q s) = (\<lambda>x. if c = Some x then (sch_mem s x)\<lparr>se_parent := q\<rparr> else sch_mem s x)"
  "sch_root (set_parent c q s) = sch_root s" "earliest_wakeup (set_parent c q s) = earliest_wakeup s"
  by (auto simp: set_parent_def split: option.splits)

lemma entry_key_links [simp]:
  "entry_key (n\<lparr>se_parent := q\<rparr>) = entry_key n" "entry_key (n\<lparr>se_lt := q\<rparr>) = entry_key n"
  "entry_key (n\<lparr>se_gt := q\<rparr>) = entry_key n"
  by (simp_all add: entry_key_def)

lemma upd_upd:
  "upd a f (upd a g s) = upd a (\<lambda>n. f (g n)) s" "a \<noteq> b \<Longrightarrow> upd a f (upd b g s) = upd b g (upd a f s)"
  by (simp_all add: upd_def fun_upd_twist)

text \<open>What both kinds of rotation share: the links of \<open>e\<close> and \<open>p\<close> change and the tree \<open>B\<close> moves below \<open>p\<close>.\<close>

lemma rotate_frame:
  assumes at: "ctx_at (sch_mem s) (sch_root s) c q (Some p)" "tree_at (sch_mem s) (Some e) m B"
    and d: "distinct (ctx_left c @ ctx_right c)" "distinct (e # p # inorder B)"
      "ctx_set c \<inter> set (e # p # inorder B) = {}"
    and key: "\<And>n. entry_key (fe n) = entry_key n" "\<And>n. entry_key (fp n) = entry_key n"
  shows "\<exists>s1 s'. rotate_link s q p e = Some s1 \<and> s' = set_parent m (Some p) (upd p fp (upd e fe s1)) \<and>
    sch_mem s1 e = sch_mem s e \<and> sch_mem s1 p = sch_mem s p \<and>
    ctx_at (sch_mem s') (sch_root s') c q (Some e) \<and> tree_at (sch_mem s') (Some p) m B \<and>
    sch_mem s' e = fe (sch_mem s e) \<and> sch_mem s' p = fp (sch_mem s p) \<and>
    relinked (ctx_set c \<union> set (e # p # inorder B)) s s'"
proof -
  have "p \<notin> ctx_set c" using d(3) by auto
  then obtain s1 where s1: "rotate_link s q p e = Some s1" "ctx_at (sch_mem s1) (sch_root s1) c q (Some e)"
    "relinked (ctx_set c) s s1"
    using rotate_link_ctx[OF at(1) _ d(1)] by blast
  have same: "sch_mem s1 x = sch_mem s x" if "x \<notin> ctx_set c" for x using s1(3) that by (simp add: relinked_def)
  have sameB: "\<forall>x \<in> set_tree B. sch_mem s1 x = sch_mem s x \<and> x \<noteq> e \<and> x \<noteq> p" using same d by auto
  define s' where "s' = set_parent m (Some p) (upd p fp (upd e fe s1))"
  have mB: "m = Some x \<Longrightarrow> x \<in> set_tree B" for x using tree_at_subset[OF at(2)] by simp
  then have m: "m \<noteq> Some e" "m \<noteq> Some p" using d(2) by auto
  have "ctx_at (sch_mem s') (sch_root s') c q (Some e)"
  proof (subst ctx_at_cong[of _ _ "sch_mem s1"])
    show "\<forall>x\<in>ctx_set c. sch_mem s' x = sch_mem s1 x" using d mB by (auto simp: s'_def)
  qed (use s1(2) in \<open>simp add: s'_def\<close>)
  moreover have "tree_at (sch_mem s') (Some p) m B"
  proof (rule tree_at_reparent[OF at(2)])
    show "\<forall>x \<in> set_tree B. m \<noteq> Some x \<longrightarrow> sch_mem s' x = sch_mem s x" using sameB by (simp add: s'_def)
    show "\<forall>x. m = Some x \<longrightarrow> sch_mem s' x = (sch_mem s x)\<lparr>se_parent := Some p\<rparr>"
      using mB sameB by (simp add: s'_def)
  qed (use d in simp)
  moreover have "sch_mem s' e = fe (sch_mem s e)" "sch_mem s' p = fp (sch_mem s p)" "sch_mem s1 e = sch_mem s e"
    "sch_mem s1 p = sch_mem s p"
    using same[of e] same[of p] d m by (simp_all add: s'_def)
  moreover have "relinked (ctx_set c \<union> set (e # p # inorder B)) s s'"
    using s1(3) mB unfolding relinked_def by (auto simp: s'_def key)
  ultimately show ?thesis using s1(1) s'_def by blast
qed

lemma relinked_mono: "relinked S s s' \<Longrightarrow> S \<subseteq> T \<Longrightarrow> relinked T s s'"
  by (auto simp: relinked_def)

lemma rotate_up_left:
  assumes "holds s (plug c (Node (Node A e B) p C))"
  shows "\<exists>s'. schedule_rotate_up s (Some e) = Some s' \<and> holds s' (plug c (Node A e (Node B p C))) \<and>
    relinked (set_tree (plug c (Node (Node A e B) p C))) s s'"
proof -
  let ?h = "sch_mem s"
  from assms obtain q where at: "ctx_at ?h (sch_root s) c q (Some p)" "se_parent (?h p) = q"
    "se_lt (?h p) = Some e" "se_parent (?h e) = Some p" "tree_at ?h (Some e) (se_lt (?h e)) A"
    "tree_at ?h (Some e) (se_gt (?h e)) B" "tree_at ?h (Some p) (se_gt (?h p)) C"
    by (auto simp: holds_def tree_at_plug)
  have d: "distinct (ctx_left c @ (inorder A @ e # inorder B @ p # inorder C) @ ctx_right c)"
    using assms by (simp add: holds_def inorder_plug)
  define m where "m = se_gt (?h e)"
  let ?fe = "\<lambda>n. n\<lparr>se_parent := q, se_gt := Some p\<rparr>" and ?fp = "\<lambda>n. n\<lparr>se_parent := Some e, se_lt := m\<rparr>"
  have "\<exists>s1 s'. rotate_link s q p e = Some s1 \<and> s' = set_parent m (Some p) (upd p ?fp (upd e ?fe s1)) \<and>
    sch_mem s1 e = ?h e \<and> sch_mem s1 p = ?h p \<and>
    ctx_at (sch_mem s') (sch_root s') c q (Some e) \<and> tree_at (sch_mem s') (Some p) m B \<and>
    sch_mem s' e = ?fe (?h e) \<and> sch_mem s' p = ?fp (?h p) \<and> relinked (ctx_set c \<union> set (e # p # inorder B)) s s'"
    by (rule rotate_frame[OF at(1) at(6)[folded m_def]]) (use d in auto)
  then obtain s1 s' where s1: "rotate_link s q p e = Some s1" "s' = set_parent m (Some p) (upd p ?fp (upd e ?fe s1))"
    "sch_mem s1 e = ?h e" "sch_mem s1 p = ?h p"
    and s': "ctx_at (sch_mem s') (sch_root s') c q (Some e)" "tree_at (sch_mem s') (Some p) m B"
    "sch_mem s' e = ?fe (?h e)" "sch_mem s' p = ?fp (?h p)" "relinked (ctx_set c \<union> set (e # p # inorder B)) s s'"
    by blast
  have "se_gt (?h p) \<noteq> Some e" "e \<noteq> p" using tree_at_subset[OF at(7)] d by auto
  then have run: "schedule_rotate_up s (Some e) = Some s'"
    using at s1(1,3,4) by (simp add: schedule_rotate_up_def Let_def m_def[symmetric] s1(2) upd_upd)
  have "sch_mem s' x = ?h x" if "x \<in> set_tree A \<union> set_tree C" for x
    using s'(5) that d unfolding relinked_def by auto
  then have "tree_at (sch_mem s') (Some e) (se_lt (?h e)) A" "tree_at (sch_mem s') (Some p) (se_gt (?h p)) C"
    using at(5,7) by (simp_all add: tree_at_cong[of _ "sch_mem s'" ?h])
  then have "holds s' (plug c (Node A e (Node B p C)))"
    using s' d plug_at[OF s'(1)] by (simp add: holds_def inorder_plug)
  moreover have "relinked (set_tree (plug c (Node (Node A e B) p C))) s s'"
    by (rule relinked_mono[OF s'(5)]) (auto simp: inorder_plug simp flip: set_inorder)
  ultimately show ?thesis using run by blast
qed

lemma rotate_up_right:
  assumes "holds s (plug c (Node C p (Node B e A)))"
  shows "\<exists>s'. schedule_rotate_up s (Some e) = Some s' \<and> holds s' (plug c (Node (Node C p B) e A)) \<and>
    relinked (set_tree (plug c (Node C p (Node B e A)))) s s'"
proof -
  let ?h = "sch_mem s"
  from assms obtain q where at: "ctx_at ?h (sch_root s) c q (Some p)" "se_parent (?h p) = q"
    "se_gt (?h p) = Some e" "se_parent (?h e) = Some p" "tree_at ?h (Some e) (se_gt (?h e)) A"
    "tree_at ?h (Some e) (se_lt (?h e)) B" "tree_at ?h (Some p) (se_lt (?h p)) C"
    by (auto simp: holds_def tree_at_plug)
  have d: "distinct (ctx_left c @ (inorder C @ p # inorder B @ e # inorder A) @ ctx_right c)"
    using assms by (simp add: holds_def inorder_plug)
  define m where "m = se_lt (?h e)"
  let ?fe = "\<lambda>n. n\<lparr>se_parent := q, se_lt := Some p\<rparr>" and ?fp = "\<lambda>n. n\<lparr>se_parent := Some e, se_gt := m\<rparr>"
  have "\<exists>s1 s'. rotate_link s q p e = Some s1 \<and> s' = set_parent m (Some p) (upd p ?fp (upd e ?fe s1)) \<and>
    sch_mem s1 e = ?h e \<and> sch_mem s1 p = ?h p \<and>
    ctx_at (sch_mem s') (sch_root s') c q (Some e) \<and> tree_at (sch_mem s') (Some p) m B \<and>
    sch_mem s' e = ?fe (?h e) \<and> sch_mem s' p = ?fp (?h p) \<and> relinked (ctx_set c \<union> set (e # p # inorder B)) s s'"
    by (rule rotate_frame[OF at(1) at(6)[folded m_def]]) (use d in auto)
  then obtain s1 s' where s1: "rotate_link s q p e = Some s1" "s' = set_parent m (Some p) (upd p ?fp (upd e ?fe s1))"
    "sch_mem s1 e = ?h e" "sch_mem s1 p = ?h p"
    and s': "ctx_at (sch_mem s') (sch_root s') c q (Some e)" "tree_at (sch_mem s') (Some p) m B"
    "sch_mem s' e = ?fe (?h e)" "sch_mem s' p = ?fp (?h p)" "relinked (ctx_set c \<union> set (e # p # inorder B)) s s'"
    by blast
  have "se_lt (?h p) \<noteq> Some e" "e \<noteq> p" using tree_at_subset[OF at(7)] d by auto
  then have run: "schedule_rotate_up s (Some e) = Some s'"
    using at s1(1,3,4) by (simp add: schedule_rotate_up_def Let_def m_def[symmetric] s1(2) upd_upd)
  have "sch_mem s' x = ?h x" if "x \<in> set_tree A \<union> set_tree C" for x
    using s'(5) that d unfolding relinked_def by auto
  then have "tree_at (sch_mem s') (Some e) (se_gt (?h e)) A" "tree_at (sch_mem s') (Some p) (se_lt (?h p)) C"
    using at(5,7) by (simp_all add: tree_at_cong[of _ "sch_mem s'" ?h])
  then have "holds s' (plug c (Node (Node C p B) e A))"
    using s' d plug_at[OF s'(1)] by (simp add: holds_def inorder_plug)
  moreover have "relinked (set_tree (plug c (Node C p (Node B e A)))) s s'"
    by (rule relinked_mono[OF s'(5)]) (auto simp: inorder_plug simp flip: set_inorder)
  ultimately show ?thesis using run by blast
qed

section \<open>Removal\<close>

fun root_of :: "nat tree \<Rightarrow> sptr" where
  "root_of Leaf = None"
| "root_of (Node l a r) = Some a"

fun hole_parent :: "tctx \<Rightarrow> sptr" where
  "hole_parent Top = None"
| "hole_parent (LeftOf c a r) = Some a"
| "hole_parent (RightOf l a c) = Some a"

lemma tree_at_root: "tree_at h q p t \<Longrightarrow> p = root_of t"
  by (cases t) simp_all

lemma ctx_at_parent: "ctx_at h rt c q p \<Longrightarrow> q = hole_parent c"
  by (cases c) simp_all

lemma holds_node:
  assumes "holds s (plug c (Node l a r))"
  shows "se_lt (sch_mem s a) = root_of l" "se_gt (sch_mem s a) = root_of r" "se_parent (sch_mem s a) = hole_parent c"
  using assms tree_at_root ctx_at_parent by (auto simp: holds_def tree_at_plug)

lemma holds_root: "holds s t \<Longrightarrow> sch_root s = root_of t"
  using tree_at_root by (auto simp: holds_def)

text \<open>The priorities \<open>f\<close> increase from the root to the leaves; the same for a tree with a hole for the nodes \<open>S\<close>.\<close>

fun heap_by :: "(nat \<Rightarrow> u32) \<Rightarrow> nat tree \<Rightarrow> bool" where
  "heap_by f Leaf \<longleftrightarrow> True"
| "heap_by f (Node l a r) \<longleftrightarrow> (\<forall>x \<in> set_tree l \<union> set_tree r. f a \<le> f x) \<and> heap_by f l \<and> heap_by f r"

fun ctx_heap :: "(nat \<Rightarrow> u32) \<Rightarrow> tctx \<Rightarrow> nat set \<Rightarrow> bool" where
  "ctx_heap f Top S \<longleftrightarrow> True"
| "ctx_heap f (LeftOf c a r) S \<longleftrightarrow> (\<forall>x \<in> S \<union> set_tree r. f a \<le> f x) \<and> heap_by f r \<and> ctx_heap f c (insert a (S \<union> set_tree r))"
| "ctx_heap f (RightOf l a c) S \<longleftrightarrow> (\<forall>x \<in> S \<union> set_tree l. f a \<le> f x) \<and> heap_by f l \<and> ctx_heap f c (insert a (S \<union> set_tree l))"

lemma heap_by_plug: "heap_by f (plug c t) \<longleftrightarrow> ctx_heap f c (set_tree t) \<and> heap_by f t"
  by (induction c t rule: plug.induct) (auto simp: Un_commute ball_Un)

lemma ctx_heap_mono: "ctx_heap f c S \<Longrightarrow> T \<subseteq> S \<Longrightarrow> ctx_heap f c T"
proof (induction c arbitrary: S T)
  case (LeftOf c a r)
  then show ?case by (auto intro: LeftOf.IH[of "insert a (S \<union> set_tree r)"])
next
  case (RightOf l a c)
  then show ?case by (auto intro: RightOf.IH[of "insert a (S \<union> set_tree l)"])
qed simp

abbreviation pris :: "schedule \<Rightarrow> nat \<Rightarrow> u32" where
  "pris s \<equiv> \<lambda>x. se_pri (sch_mem s x)"

lemma relinked_pris: "relinked S s s' \<Longrightarrow> pris s' = pris s"
  using relinked_pri by blast

text \<open>One turn of the loop: the child with the lesser priority moves above \<open>e\<close>.\<close>

lemma remove_turn:
  assumes holds: "holds s (plug c (Node l e r))" and ne: "l \<noteq> Leaf \<or> r \<noteq> Leaf"
    and heap: "ctx_heap (pris s) c (set_tree l \<union> set_tree r)" "heap_by (pris s) l" "heap_by (pris s) r"
  shows "\<exists>s' c' l' r'. remove_loop s e = remove_loop s' e \<and> holds s' (plug c' (Node l' e r')) \<and>
    ctx_left c' @ inorder l' = ctx_left c @ inorder l \<and> inorder r' @ ctx_right c' = inorder r @ ctx_right c \<and>
    ctx_heap (pris s) c' (set_tree l' \<union> set_tree r') \<and> heap_by (pris s) l' \<and> heap_by (pris s) r' \<and>
    size l' + size r' < size l + size r \<and> relinked (set_tree (plug c (Node l e r))) s s'"
proof -
  note node = holds_node[OF holds]
  have up_left: ?thesis if l: "l = Node a x b" and up: "remove_loop s e = schedule_rotate_up s (Some x) \<bind> (\<lambda>s. remove_loop s e)"
    and least: "\<forall>y \<in> set_tree r. pris s x \<le> pris s y" for a x b
  proof -
    obtain s' where s': "schedule_rotate_up s (Some x) = Some s'" "holds s' (plug c (Node a x (Node b e r)))"
      "relinked (set_tree (plug c (Node l e r))) s s'"
      using rotate_up_left holds l by blast
    have "ctx_heap (pris s) (RightOf a x c) (set_tree b \<union> set_tree r)"
      using heap l least by (auto intro: ctx_heap_mono[OF heap(1)])
    then show ?thesis using s' up heap l
      by - (rule exI[of _ s'], rule exI[of _ "RightOf a x c"], rule exI[of _ b], rule exI[of _ r], simp)
  qed
  have up_right: ?thesis if r: "r = Node b x a" and up: "remove_loop s e = schedule_rotate_up s (Some x) \<bind> (\<lambda>s. remove_loop s e)"
    and least: "\<forall>y \<in> set_tree l. pris s x \<le> pris s y" for a x b
  proof -
    obtain s' where s': "schedule_rotate_up s (Some x) = Some s'" "holds s' (plug c (Node (Node l e b) x a))"
      "relinked (set_tree (plug c (Node l e r))) s s'"
      using rotate_up_right holds r by blast
    have "ctx_heap (pris s) (LeftOf c x a) (set_tree l \<union> set_tree b)"
      using heap r least by (auto intro: ctx_heap_mono[OF heap(1)])
    then show ?thesis using s' up heap r
      by - (rule exI[of _ s'], rule exI[of _ "LeftOf c x a"], rule exI[of _ l], rule exI[of _ b], simp)
  qed
  show ?thesis
  proof (cases l)
    case Leaf
    then obtain b x a where "r = Node b x a" using ne by (cases r) auto
    then show ?thesis using up_right[of b x a] Leaf node remove_loop.simps[of s e] by simp
  next
    case L: (Node a x b)
    show ?thesis
    proof (cases r)
      case Leaf
      then show ?thesis using up_left[OF L] L node remove_loop.simps[of s e] by simp
    next
      case R: (Node b' x' a')
      show ?thesis
      proof (cases "pris s x < pris s x'")
        case True
        have "\<forall>y \<in> set_tree r. pris s x \<le> pris s y" using heap(3) R True by (auto intro: order_trans[OF less_imp_le])
        then show ?thesis using up_left[OF L] L R True node remove_loop.simps[of s e] by simp
      next
        case False
        then have "pris s x' \<le> pris s x" by simp
        then have "\<forall>y \<in> set_tree l. pris s x' \<le> pris s y" using heap(2) L by (auto intro: order_trans)
        then show ?thesis using up_right[OF R] L R False node remove_loop.simps[of s e] by simp
      qed
    qed
  qed
qed

lemma remove_loop_spec:
  assumes "holds s (plug c (Node l e r))" "ctx_heap (pris s) c (set_tree l \<union> set_tree r)"
    and "heap_by (pris s) l" "heap_by (pris s) r"
  shows "\<exists>s' c'. remove_loop s e = Some s' \<and> holds s' (plug c' (Node Leaf e Leaf)) \<and> ctx_left c' = ctx_left c @ inorder l \<and>
    ctx_right c' = inorder r @ ctx_right c \<and> ctx_heap (pris s) c' {} \<and> relinked (set_tree (plug c (Node l e r))) s s'"
  using assms
proof (induction "size l + size r" arbitrary: s c l r rule: less_induct)
  case less
  show ?case
  proof (cases "l \<noteq> Leaf \<or> r \<noteq> Leaf")
    case True
    obtain s1 c1 l1 r1 where t: "remove_loop s e = remove_loop s1 e" "holds s1 (plug c1 (Node l1 e r1))"
      "ctx_left c1 @ inorder l1 = ctx_left c @ inorder l" "inorder r1 @ ctx_right c1 = inorder r @ ctx_right c"
      "ctx_heap (pris s) c1 (set_tree l1 \<union> set_tree r1)" "heap_by (pris s) l1" "heap_by (pris s) r1"
      "size l1 + size r1 < size l + size r" "relinked (set_tree (plug c (Node l e r))) s s1"
      using remove_turn[OF less.prems(1) True less.prems(2-4)] by blast
    have p: "pris s1 = pris s" using relinked_pris[OF t(9)] .
    have "inorder (plug c1 (Node l1 e r1)) = inorder (plug c (Node l e r))"
      using t(3,4) by (simp add: inorder_plug)
    then have set_eq: "set_tree (plug c1 (Node l1 e r1)) = set_tree (plug c (Node l e r))" by (metis set_inorder)
    obtain s' c' where s': "remove_loop s1 e = Some s'" "holds s' (plug c' (Node Leaf e Leaf))" "ctx_left c' = ctx_left c1 @ inorder l1"
      "ctx_right c' = inorder r1 @ ctx_right c1" "ctx_heap (pris s1) c' {}" "relinked (set_tree (plug c1 (Node l1 e r1))) s1 s'"
      using less.hyps[OF t(8,2)] t(5-7) unfolding p by blast
    have "relinked (set_tree (plug c (Node l e r))) s s'"
      using relinked_trans[OF t(9)] s'(6) unfolding set_eq by blast
    then show ?thesis using s' t unfolding p by auto
  next
    case False
    then have "remove_loop s e = Some s" using holds_node[OF less.prems(1)] remove_loop.simps[of s e] by simp
    then show ?thesis using False less.prems relinked_refl ctx_heap_mono[OF less.prems(2)]
      by - (rule exI[of _ s], rule exI[of _ c], auto)
  qed
qed

lemma detach_spec:
  assumes "holds s (plug c (Node Leaf e Leaf))"
  shows "\<exists>s'. schedule_detach_parent s (Some e) = Some s' \<and> holds s' (plug c Leaf) \<and>
    sch_mem s' e = (sch_mem s e)\<lparr>se_parent := None\<rparr> \<and> relinked (insert e (ctx_set c)) s s'"
proof -
  let ?h = "sch_mem s"
  have at: "ctx_at ?h (sch_root s) c (se_parent (?h e)) (Some e)"
    using assms by (auto simp: holds_def tree_at_plug)
  have d: "distinct (ctx_left c @ e # ctx_right c)"
    using assms by (simp add: holds_def inorder_plug)
  have hole: "holds s' (plug c Leaf)" if "ctx_at (sch_mem s') (sch_root s') c (se_parent (?h e)) None" for s'
    using plug_at[OF that, of Leaf] d by (simp add: holds_def inorder_plug)
  have frame: "tree_at (?h(a := m, e := m')) q' p' t = tree_at ?h q' p' t"
    if "a \<notin> set_tree t" "e \<notin> set_tree t" for a m m' q' p' t
    using that by (auto intro!: tree_at_cong)
  have frame': "ctx_at (?h(a := m, e := m')) rt c0 q' p' = ctx_at ?h rt c0 q' p'"
    if "a \<notin> ctx_set c0" "e \<notin> ctx_set c0" for a m m' rt c0 q' p'
    using that by (auto intro!: ctx_at_cong)
  show ?thesis
  proof (cases c)
    case Top
    then have "se_parent (?h e) = None" "sch_root s = Some e" using at by auto
    then have "schedule_detach_parent s (Some e) = Some (s\<lparr>sch_root := None\<rparr>)"
      by (simp add: schedule_detach_parent_def)
    moreover have "?h e = (?h e)\<lparr>se_parent := None\<rparr>" using at Top by (cases "?h e") simp
    ultimately show ?thesis using hole[of "s\<lparr>sch_root := None\<rparr>"] at Top by (simp add: relinked_def)
  next
    case (LeftOf c0 a r)
    let ?s = "upd e (\<lambda>n. n\<lparr>se_parent := None\<rparr>) (upd a (\<lambda>n. n\<lparr>se_lt := None\<rparr>) s)"
    have ne: "a \<noteq> e" "e \<notin> ctx_set c0" "e \<notin> set_tree r" "a \<notin> ctx_set c0" "a \<notin> set_tree r" using d LeftOf by auto
    have "schedule_detach_parent s (Some e) = Some ?s"
      using at LeftOf by (simp add: schedule_detach_parent_def)
    moreover have "ctx_at (sch_mem ?s) (sch_root ?s) c (se_parent (?h e)) None"
      using at LeftOf ne by (simp add: frame frame')
    ultimately show ?thesis using hole ne LeftOf by (auto simp: relinked_def)
  next
    case (RightOf l a c0)
    let ?s = "upd e (\<lambda>n. n\<lparr>se_parent := None\<rparr>) (upd a (\<lambda>n. n\<lparr>se_gt := None\<rparr>) s)"
    have ne: "a \<noteq> e" "e \<notin> ctx_set c0" "e \<notin> set_tree l" "a \<notin> ctx_set c0" "a \<notin> set_tree l" using d RightOf by auto
    then have "se_lt (?h a) \<noteq> Some e" using at RightOf tree_at_subset by auto
    then have "schedule_detach_parent s (Some e) = Some ?s"
      using at RightOf by (simp add: schedule_detach_parent_def)
    moreover have "ctx_at (sch_mem ?s) (sch_root ?s) c (se_parent (?h e)) None"
      using at RightOf ne by (simp add: frame frame')
    ultimately show ?thesis using hole ne RightOf by (auto simp: relinked_def)
  qed
qed

section \<open>The state of the schedule\<close>

text \<open>
  The entries with a priority are the nodes of a tree that is linked in memory and ordered by
  priorities; the others have no links.
\<close>

definition sched_tree :: "schedule \<Rightarrow> nat tree \<Rightarrow> bool" where
  "sched_tree s t \<longleftrightarrow> holds s t \<and> heap_by (pris s) t \<and> (\<forall>x. pris s x \<noteq> 0 \<longleftrightarrow> x \<in> set_tree t) \<and>
     (\<forall>x. x \<notin> set_tree t \<longrightarrow> se_parent (sch_mem s x) = None \<and> se_lt (sch_mem s x) = None \<and> se_gt (sch_mem s x) = None)"

lemma heap_by_cong: "\<forall>x \<in> set_tree t. f x = g x \<Longrightarrow> heap_by f t = heap_by g t"
  by (induction t) auto

lemma remove_node_spec:
  assumes "sched_tree s t" "e \<in> set_tree t"
  shows "\<exists>s' t'. schedule_remove_node s e = Some s' \<and> sched_tree s' t' \<and> inorder t' = filter (\<lambda>x. x \<noteq> e) (inorder t) \<and>
    (\<forall>x. x \<noteq> e \<longrightarrow> entry_key (sch_mem s' x) = entry_key (sch_mem s x)) \<and>
    se_tv (sch_mem s' e) = se_tv (sch_mem s e) \<and> earliest_wakeup s' = earliest_wakeup s"
proof -
  obtain c l r where t: "t = plug c (Node l e r)" using tree_focus[OF assms(2)] by blast
  have h: "holds s (plug c (Node l e r))" "heap_by (pris s) (plug c (Node l e r))"
    using assms(1) by (simp_all add: sched_tree_def t)
  have c: "ctx_heap (pris s) c (set_tree l \<union> set_tree r)" "heap_by (pris s) l" "heap_by (pris s) r"
    using h(2) by (auto simp: heap_by_plug intro: ctx_heap_mono)
  obtain s1 c1 where s1: "remove_loop s e = Some s1" "holds s1 (plug c1 (Node Leaf e Leaf))"
    "ctx_left c1 = ctx_left c @ inorder l" "ctx_right c1 = inorder r @ ctx_right c" "ctx_heap (pris s) c1 {}"
    "relinked (set_tree t) s s1"
    using remove_loop_spec[OF h(1) c] unfolding t by blast
  obtain s2 where s2: "schedule_detach_parent s1 (Some e) = Some s2" "holds s2 (plug c1 Leaf)"
    "sch_mem s2 e = (sch_mem s1 e)\<lparr>se_parent := None\<rparr>" "relinked (insert e (ctx_set c1)) s1 s2"
    using detach_spec[OF s1(2)] by blast
  define s3 where "s3 = upd e (\<lambda>n. n\<lparr>se_pri := 0\<rparr>) s2"
  let ?t = "plug c1 Leaf"
  have d: "distinct (ctx_left c @ inorder l @ e # inorder r @ ctx_right c)"
    using h(1) by (simp add: holds_def inorder_plug)
  have inorder: "inorder ?t = filter (\<lambda>x. x \<noteq> e) (inorder t)"
  proof -
    have keep: "filter (\<lambda>x. x \<noteq> e) xs = xs" if "e \<notin> set xs" for xs
      using that by (auto simp: filter_id_conv)
    have "e \<notin> set (ctx_left c)" "e \<notin> set (inorder l)" "e \<notin> set (inorder r)" "e \<notin> set (ctx_right c)" using d by auto
    then show ?thesis using s1(3,4) by (simp add: inorder_plug t keep)
  qed
  have set_t: "set_tree ?t = set_tree t - {e}" using inorder by (simp flip: set_inorder) auto
  have rel: "relinked (set_tree t) s s2"
  proof (rule relinked_trans[OF s1(6)], rule relinked_mono[OF s2(4)])
    show "insert e (ctx_set c1) \<subseteq> set_tree t"
      unfolding t s1(3,4) by (auto simp: inorder_plug simp flip: set_inorder)
  qed
  have "tree_at (sch_mem s3) None (sch_root s3) ?t"
    using s2(2) set_t by (subst tree_at_cong[of _ _ "sch_mem s2"]) (auto simp: s3_def holds_def)
  then have "holds s3 ?t" using s2(2) by (simp add: holds_def)
  moreover have "heap_by (pris s3) ?t"
    using s1(5) set_t relinked_pri[OF rel]
    by (subst heap_by_cong[of _ _ "pris s"]) (auto simp: heap_by_plug s3_def)
  moreover have "pris s3 x \<noteq> 0 \<longleftrightarrow> x \<in> set_tree ?t" for x
    using assms(1) set_t relinked_pri[OF rel] by (auto simp: s3_def sched_tree_def)
  moreover have "se_parent (sch_mem s3 x) = None \<and> se_lt (sch_mem s3 x) = None \<and> se_gt (sch_mem s3 x) = None"
    if "x \<notin> set_tree ?t" for x
  proof (cases "x = e")
    case True
    then show ?thesis using s2(3) holds_node[OF s1(2)] by (simp add: s3_def)
  next
    case False
    then have "sch_mem s3 x = sch_mem s x" using rel that set_t by (simp add: s3_def relinked_def)
    then show ?thesis using assms(1) that set_t False by (simp add: sched_tree_def)
  qed
  ultimately have "sched_tree s3 ?t" by (simp add: sched_tree_def)
  moreover have "schedule_remove_node s e = Some s3" using s1(1) s2(1) by (simp add: schedule_remove_node_def s3_def)
  ultimately show ?thesis using inorder rel
    by - (rule exI[of _ s3], rule exI[of _ ?t], auto simp: s3_def relinked_def entry_key_def)
qed

section \<open>Insertion\<close>

abbreviation keys :: "schedule \<Rightarrow> nat \<Rightarrow> timeval \<times> u32" where
  "keys s \<equiv> \<lambda>x. entry_key (sch_mem s x)"

text \<open>The place where the search for the key \<open>k\<close> ends, or none for a key that is there.\<close>

fun descend :: "(nat \<Rightarrow> timeval \<times> u32) \<Rightarrow> timeval \<times> u32 \<Rightarrow> tctx \<Rightarrow> nat tree \<Rightarrow> tctx option" where
  "descend f k c Leaf = Some c"
| "descend f k c (Node l a r) =
     (if k < f a then descend f k (LeftOf c a r) l else if f a < k then descend f k (RightOf l a c) r else None)"

lemma descend_plug: "descend f k c t = Some c' \<Longrightarrow> plug c' Leaf = plug c t"
  by (induction f k c t rule: descend.induct) (auto split: if_splits)

lemma descend_free: "\<forall>x \<in> set_tree t. f x \<noteq> k \<Longrightarrow> \<exists>c'. descend f k c t = Some c'"
  by (induction f k c t rule: descend.induct) auto

definition strictly_sorted :: "(nat \<Rightarrow> timeval \<times> u32) \<Rightarrow> nat list \<Rightarrow> bool" where
  "strictly_sorted f xs \<longleftrightarrow> sorted_wrt (\<lambda>x y. f x < f y) xs"

lemma strictly_sorted_append:
  "strictly_sorted f (xs @ ys) \<longleftrightarrow> strictly_sorted f xs \<and> strictly_sorted f ys \<and> (\<forall>x \<in> set xs. \<forall>y \<in> set ys. f x < f y)"
  "strictly_sorted f (x # xs) \<longleftrightarrow> (\<forall>y \<in> set xs. f x < f y) \<and> strictly_sorted f xs" "strictly_sorted f []"
  by (auto simp: strictly_sorted_def sorted_wrt_append)

lemma strictly_sorted_cong: "\<forall>x \<in> set xs. f x = g x \<Longrightarrow> strictly_sorted f xs = strictly_sorted g xs"
  by (induction xs) (auto simp: strictly_sorted_append)

lemma strictly_sorted_filter: "strictly_sorted f xs \<Longrightarrow> strictly_sorted f (filter P xs)"
  by (simp add: strictly_sorted_def sorted_wrt_filter)

lemma descend_place:
  assumes "descend f k c t = Some c'" "strictly_sorted f (inorder t)"
    and "\<forall>x \<in> set (ctx_left c). f x < k" "\<forall>x \<in> set (ctx_right c). k < f x"
  shows "(\<forall>x \<in> set (ctx_left c'). f x < k) \<and> (\<forall>x \<in> set (ctx_right c'). k < f x)"
  using assms
proof (induction f k c t rule: descend.induct)
  case (2 f k c l a r)
  have s: "strictly_sorted f (inorder l)" "strictly_sorted f (inorder r)" "\<forall>x \<in> set_tree l. f x < f a" "\<forall>x \<in> set_tree r. f a < f x"
    using "2.prems"(2) by (auto simp: strictly_sorted_append)
  show ?case
  proof (cases "k < f a")
    case True
    then have "\<forall>x \<in> set (ctx_right (LeftOf c a r)). k < f x" using "2.prems"(4) s(4) less_trans by auto
    then show ?thesis using "2.IH"(1)[OF True] "2.prems"(1,3) True s(1) by simp
  next
    case False
    then have less: "f a < k" using "2.prems"(1) by (auto split: if_splits)
    then have "\<forall>x \<in> set (ctx_left (RightOf l a c)). f x < k" using "2.prems"(3) s(3) less_trans by auto
    then show ?thesis using "2.IH"(2)[OF False less] "2.prems"(1,4) False less s(2) by simp
  qed
qed simp

text \<open>The state after the search has attached the entry.\<close>

fun attach :: "schedule \<Rightarrow> nat \<Rightarrow> tctx \<Rightarrow> schedule" where
  "attach s e Top = s"
| "attach s e (LeftOf c a r) = upd e (\<lambda>n. n\<lparr>se_parent := Some a\<rparr>) (upd a (\<lambda>n. n\<lparr>se_lt := Some e\<rparr>) s)"
| "attach s e (RightOf l a c) = upd e (\<lambda>n. n\<lparr>se_parent := Some a\<rparr>) (upd a (\<lambda>n. n\<lparr>se_gt := Some e\<rparr>) s)"

lemma insert_loop_descend:
  assumes "holds s (plug c t)" "root_of t = Some a"
  shows "insert_loop s e a rs = (case descend (keys s) (keys s e) c t of
      Some c' \<Rightarrow> Some (attach s e c', rs)
    | None \<Rightarrow> (case rs of [] \<Rightarrow> None | r # rs \<Rightarrow> schedule_insert (schedule_set_pri e r s) e rs))"
  using assms
proof (induction t arbitrary: c a)
  case (Node l' a' r')
  note node = holds_node[OF Node.prems(1)]
  have sub: "holds s (plug (LeftOf c a' r') l')" "holds s (plug (RightOf l' a' c) r')" using Node.prems(1) by simp_all
  show ?case
  proof (cases "keys s e < keys s a")
    case True
    then show ?thesis using Node.IH(1)[OF sub(1)] Node.prems(2) node
      by (cases l') (simp_all add: insert_loop.simps[of s e a])
  next
    case ge: False
    show ?thesis
    proof (cases "keys s a < keys s e")
      case True
      then show ?thesis using Node.IH(2)[OF sub(2)] Node.prems(2) node ge
        by (cases r') (simp_all add: insert_loop.simps[of s e a])
    next
      case False
      have "sch_root (schedule_set_pri e x s) = sch_root s" for x by (simp add: schedule_set_pri_def)
      then show ?thesis using ge False Node.prems(2)
        by (simp add: insert_loop.simps[of s e a] schedule_insert_def split: list.splits)
    qed
  qed
qed simp

lemma attach_spec:
  assumes "holds s (plug c Leaf)" "e \<notin> ctx_set c" "c \<noteq> Top" "se_lt (sch_mem s e) = None" "se_gt (sch_mem s e) = None"
  shows "holds (attach s e c) (plug c (Node Leaf e Leaf)) \<and> relinked (insert e (ctx_set c)) s (attach s e c)"
proof -
  let ?h = "sch_mem s"
  obtain q where at: "ctx_at ?h (sch_root s) c q None" using assms(1) by (auto simp: holds_def tree_at_plug)
  have d: "distinct (ctx_left c @ ctx_right c)" using assms(1) by (simp add: holds_def inorder_plug)
  have frame: "tree_at (?h(a := m, e := m')) q' p' t = tree_at ?h q' p' t" if "a \<notin> set_tree t" "e \<notin> set_tree t" for a m m' q' p' t
    using that by (auto intro!: tree_at_cong)
  have frame': "ctx_at (?h(a := m, e := m')) rt c0 q' p' = ctx_at ?h rt c0 q' p'" if "a \<notin> ctx_set c0" "e \<notin> ctx_set c0" for a m m' rt c0 q' p'
    using that by (auto intro!: ctx_at_cong)
  have "ctx_at (sch_mem (attach s e c)) (sch_root (attach s e c)) c q (Some e) \<and>
      tree_at (sch_mem (attach s e c)) q (Some e) (Node Leaf e Leaf) \<and> relinked (insert e (ctx_set c)) s (attach s e c)"
  proof (cases c)
    case (LeftOf c0 a r)
    have "a \<noteq> e" "e \<notin> ctx_set c0" "e \<notin> set_tree r" "a \<notin> ctx_set c0" "a \<notin> set_tree r" using d assms(2) LeftOf by auto
    then show ?thesis using LeftOf at assms(4,5) by (simp add: frame frame' relinked_def)
  next
    case (RightOf l a c0)
    have "a \<noteq> e" "e \<notin> ctx_set c0" "e \<notin> set_tree l" "a \<notin> ctx_set c0" "a \<notin> set_tree l" using d assms(2) RightOf by auto
    then show ?thesis using RightOf at assms(4,5) by (simp add: frame frame' relinked_def)
  qed (use assms(3) in simp)
  then show ?thesis using plug_at d assms(2) by (auto simp: holds_def inorder_plug)
qed

definition treap_pri :: "u32 \<Rightarrow> u32" where
  "treap_pri r = (if r < 1 then 1 else r)"

lemma treap_pri_nonzero: "treap_pri r \<noteq> 0"
  by (auto simp: treap_pri_def)

lemma set_pri_sel [simp]:
  "sch_mem (schedule_set_pri e r s) = (sch_mem s)(e := (sch_mem s e)\<lparr>se_pri := treap_pri r\<rparr>)"
  "sch_root (schedule_set_pri e r s) = sch_root s" "earliest_wakeup (schedule_set_pri e r s) = earliest_wakeup s"
  by (simp_all add: schedule_set_pri_def treap_pri_def)

text \<open>A state in which the entry \<open>e\<close> is about to be inserted into the tree \<open>t\<close>.\<close>

definition insert_ready :: "schedule \<Rightarrow> nat tree \<Rightarrow> nat \<Rightarrow> bool" where
  "insert_ready s t e \<longleftrightarrow> holds s t \<and> e \<notin> set_tree t \<and> pris s e \<noteq> 0 \<and> se_lt (sch_mem s e) = None \<and>
     se_gt (sch_mem s e) = None \<and> strictly_sorted (keys s) (inorder t)"

lemma insert_ready_set_pri:
  assumes "insert_ready s t e"
  shows "insert_ready (schedule_set_pri e r s) t e"
proof -
  have "strictly_sorted (keys (schedule_set_pri e r s)) (inorder t)"
    using assms by (subst strictly_sorted_cong[of _ _ "keys s"]) (auto simp: insert_ready_def)
  moreover have "holds (schedule_set_pri e r s) t"
    using assms tree_at_cong[of t "sch_mem (schedule_set_pri e r s)" "sch_mem s"] by (auto simp: insert_ready_def holds_def)
  ultimately show ?thesis using assms treap_pri_nonzero by (simp add: insert_ready_def)
qed

definition same_but :: "nat \<Rightarrow> nat set \<Rightarrow> schedule \<Rightarrow> schedule \<Rightarrow> bool" where
  "same_but e S s s' \<longleftrightarrow> (\<forall>x. x \<noteq> e \<longrightarrow> keys s' x = keys s x) \<and> se_tv (sch_mem s' e) = se_tv (sch_mem s e) \<and>
     (\<forall>x. x \<notin> insert e S \<longrightarrow> sch_mem s' x = sch_mem s x) \<and> earliest_wakeup s' = earliest_wakeup s"

lemma same_but_trans: "same_but e S s1 s2 \<Longrightarrow> same_but e S s2 s3 \<Longrightarrow> same_but e S s1 s3"
  by (simp add: same_but_def)

lemma relinked_same_but: "relinked T s s' \<Longrightarrow> T \<subseteq> insert e S \<Longrightarrow> same_but e S s s'"
  by (auto simp: relinked_def same_but_def entry_key_def)

lemma set_pri_same_but: "same_but e S s (schedule_set_pri e r s)"
  by (simp add: same_but_def)

lemma schedule_insert_unfold:
  assumes "holds s t" "t \<noteq> Leaf"
  shows "schedule_insert s e rs = (case descend (keys s) (keys s e) Top t of
      Some c' \<Rightarrow> Some (attach s e c', rs)
    | None \<Rightarrow> (case rs of [] \<Rightarrow> None | r # rs \<Rightarrow> schedule_insert (schedule_set_pri e r s) e rs))"
proof -
  obtain a where a: "root_of t = Some a" using assms(2) by (cases t) simp_all
  then show ?thesis using insert_loop_descend[of s Top t a e rs] holds_root[OF assms(1)] assms(1)
    by (simp add: schedule_insert_def)
qed

text \<open>The search ends as soon as a priority does not collide.\<close>

lemma schedule_insert_returns:
  assumes "insert_ready s t e" "t \<noteq> Leaf"
    and "\<exists>p \<in> insert (pris s e) (treap_pri ` set rs). \<forall>x \<in> set_tree t. keys s x \<noteq> (se_tv (sch_mem s e), p)"
  shows "schedule_insert s e rs \<noteq> None"
  using assms
proof (induction rs arbitrary: s)
  case Nil
  then have "\<forall>x \<in> set_tree t. keys s x \<noteq> keys s e" by (simp add: entry_key_def)
  then show ?case using descend_free[of t "keys s" "keys s e" Top] schedule_insert_unfold[of s t] Nil.prems
    by (auto simp: insert_ready_def)
next
  case (Cons r rs)
  show ?case
  proof (cases "descend (keys s) (keys s e) Top t")
    case None
    then have "\<exists>x \<in> set_tree t. keys s x = keys s e" using descend_free[of t "keys s" "keys s e" Top] by auto
    then have "\<not> (\<forall>x \<in> set_tree t. keys s x \<noteq> (se_tv (sch_mem s e), pris s e))" by (simp add: entry_key_def)
    then have "\<exists>p \<in> treap_pri ` set (r # rs). \<forall>x \<in> set_tree t. keys s x \<noteq> (se_tv (sch_mem s e), p)"
      using Cons.prems(3) by blast
    moreover have "keys (schedule_set_pri e r s) x = keys s x" if "x \<in> set_tree t" for x
      using Cons.prems(1) that by (auto simp: insert_ready_def)
    ultimately have "schedule_insert (schedule_set_pri e r s) e rs \<noteq> None"
      using Cons.prems(2) by (intro Cons.IH[OF insert_ready_set_pri[OF Cons.prems(1)]]) auto
    then show ?thesis using None schedule_insert_unfold[of s t e "r # rs"] Cons.prems by (simp add: insert_ready_def)
  next
    case (Some c)
    then show ?thesis using schedule_insert_unfold[of s t e "r # rs"] Cons.prems by (simp add: insert_ready_def)
  qed
qed

definition inserted :: "schedule \<Rightarrow> schedule \<Rightarrow> nat tree \<Rightarrow> nat \<Rightarrow> bool" where
  "inserted s s' t e \<longleftrightarrow> (\<exists>c. plug c Leaf = t \<and> holds s' (plug c (Node Leaf e Leaf)) \<and> pris s' e \<noteq> 0 \<and>
     same_but e (set_tree t) s s' \<and>
     (\<forall>x \<in> set (ctx_left c). keys s' x < keys s' e) \<and> (\<forall>x \<in> set (ctx_right c). keys s' e < keys s' x))"

lemma attach_inserted:
  assumes "insert_ready s t e" "t \<noteq> Leaf" "descend (keys s) (keys s e) Top t = Some c"
  shows "inserted s (attach s e c) t e"
proof -
  let ?s = "attach s e c"
  have p: "plug c Leaf = t" using descend_plug[OF assms(3)] by simp
  then have set_c: "ctx_set c = set_tree t" using inorder_plug[of c Leaf] by (metis append_Nil inorder.simps(1) set_append set_inorder)
  have "c \<noteq> Top" using p assms(2) by auto
  then have a: "holds ?s (plug c (Node Leaf e Leaf))" "relinked (insert e (ctx_set c)) s ?s"
    using attach_spec[of s c e] assms(1) p set_c by (auto simp: insert_ready_def)
  have k: "keys ?s x = keys s x" for x using a(2) by (simp add: relinked_def)
  have "(\<forall>x \<in> set (ctx_left c). keys s x < keys s e) \<and> (\<forall>x \<in> set (ctx_right c). keys s e < keys s x)"
    using descend_place[OF assms(3)] assms(1) by (simp add: insert_ready_def)
  moreover have "same_but e (set_tree t) s ?s" by (rule relinked_same_but[OF a(2)]) (simp add: set_c)
  moreover have "pris ?s e \<noteq> 0" using assms(1) relinked_pri[OF a(2)] by (simp add: insert_ready_def)
  ultimately show ?thesis using p a(1) by (simp add: inserted_def k) blast
qed

lemma schedule_insert_spec:
  assumes "insert_ready s t e" "t \<noteq> Leaf" "schedule_insert s e rs = Some (s', rs')"
  shows "inserted s s' t e"
  using assms
proof (induction rs arbitrary: s)
  case Nil
  then show ?case using attach_inserted[of s t e] schedule_insert_unfold[of s t e "[]"]
    by (auto simp: insert_ready_def split: option.splits)
next
  case (Cons r rs)
  have h: "holds s t" using Cons.prems(1) by (simp add: insert_ready_def)
  show ?case
  proof (cases "descend (keys s) (keys s e) Top t")
    case None
    then have "schedule_insert (schedule_set_pri e r s) e rs = Some (s', rs')"
      using Cons.prems(3) schedule_insert_unfold[OF h Cons.prems(2), of e "r # rs"] by simp
    from Cons.IH[OF insert_ready_set_pri[OF Cons.prems(1)] Cons.prems(2) this] show ?thesis
      unfolding inserted_def using same_but_trans[OF set_pri_same_but] by blast
  next
    case (Some c)
    then show ?thesis using attach_inserted[OF Cons.prems(1,2) Some] Cons.prems(3) schedule_insert_unfold[OF h Cons.prems(2), of e "r # rs"]
      by simp
  qed
qed

section \<open>Raising an entry\<close>

lemma ctx_heap_insert:
  "ctx_heap f c S \<Longrightarrow> a \<in> S \<Longrightarrow> f a \<le> f e \<Longrightarrow> ctx_heap f c (insert e S)"
proof (induction c arbitrary: S a)
  case (LeftOf c b r)
  then have "f b \<le> f e" by (auto intro: order_trans)
  moreover have "ctx_heap f c (insert e (insert b (S \<union> set_tree r)))" using LeftOf.IH[of "insert b (S \<union> set_tree r)" a] LeftOf.prems by simp
  ultimately show ?case using LeftOf.prems by (auto simp: insert_commute)
next
  case (RightOf l b c)
  then have "f b \<le> f e" by (auto intro: order_trans)
  moreover have "ctx_heap f c (insert e (insert b (S \<union> set_tree l)))" using RightOf.IH[of "insert b (S \<union> set_tree l)" a] RightOf.prems by simp
  ultimately show ?case using RightOf.prems by (auto simp: insert_commute)
qed simp

text \<open>An entry that is at its place: the parent has no greater priority.\<close>

lemma raised_heap:
  assumes "ctx_heap f c (set_tree l \<union> set_tree r)" "heap_by f (Node l e r)" "\<forall>p. hole_parent c = Some p \<longrightarrow> f p \<le> f e"
  shows "heap_by f (plug c (Node l e r))"
proof -
  have "ctx_heap f c (insert e (set_tree l \<union> set_tree r))"
  proof (cases c)
    case (LeftOf c0 a b)
    then have "ctx_heap f c0 (insert e (insert a (set_tree l \<union> set_tree r \<union> set_tree b)))"
      using assms ctx_heap_insert[of f c0 "insert a (set_tree l \<union> set_tree r \<union> set_tree b)" a e] by simp
    then show ?thesis using LeftOf assms by (auto simp: insert_commute)
  next
    case (RightOf b a c0)
    then have "ctx_heap f c0 (insert e (insert a (set_tree l \<union> set_tree r \<union> set_tree b)))"
      using assms ctx_heap_insert[of f c0 "insert a (set_tree l \<union> set_tree r \<union> set_tree b)" a e] by simp
    then show ?thesis using RightOf assms by (auto simp: insert_commute)
  qed simp
  moreover have "set_tree (Node l e r) = insert e (set_tree l \<union> set_tree r)" by simp
  ultimately show ?thesis using assms(2) by (simp add: heap_by_plug)
qed

fun depth :: "tctx \<Rightarrow> nat" where
  "depth Top = 0"
| "depth (LeftOf c a r) = Suc (depth c)"
| "depth (RightOf l a c) = Suc (depth c)"

lemma raise_turn:
  assumes holds: "holds s (plug c (Node l e r))" and p: "hole_parent c = Some p" "pris s e < pris s p"
    and heap: "ctx_heap (pris s) c (set_tree l \<union> set_tree r)" "heap_by (pris s) (Node l e r)"
  shows "\<exists>s' c' l' r'. raise_loop s e = raise_loop s' e \<and> holds s' (plug c' (Node l' e r')) \<and> depth c' < depth c \<and>
    ctx_heap (pris s) c' (set_tree l' \<union> set_tree r') \<and> heap_by (pris s) (Node l' e r') \<and>
    inorder (plug c' (Node l' e r')) = inorder (plug c (Node l e r)) \<and> relinked (set_tree (plug c (Node l e r))) s s'"
proof -
  have up: "raise_loop s e = schedule_rotate_up s (Some e) \<bind> (\<lambda>s. raise_loop s e)"
    using holds_node(3)[OF holds] p by (simp add: raise_loop.simps[of s e])
  show ?thesis
  proof (cases c)
    case (LeftOf c' a C)
    obtain s' where s': "schedule_rotate_up s (Some e) = Some s'" "holds s' (plug c' (Node l e (Node r p C)))"
      "relinked (set_tree (plug c (Node l e r))) s s'"
      using rotate_up_left[of s c' l e r a C] holds LeftOf p(1) by auto
    have "ctx_heap (pris s) c' (set_tree l \<union> set_tree (Node r p C))" "heap_by (pris s) (Node l e (Node r p C))"
      using heap LeftOf p by (auto intro: ctx_heap_mono less_imp_le order_trans)
    then show ?thesis using up s' LeftOf p(1)
      by - (rule exI[of _ s'], rule exI[of _ c'], rule exI[of _ l], rule exI[of _ "Node r p C"], simp add: inorder_plug)
  next
    case (RightOf C a c')
    obtain s' where s': "schedule_rotate_up s (Some e) = Some s'" "holds s' (plug c' (Node (Node C p l) e r))"
      "relinked (set_tree (plug c (Node l e r))) s s'"
      using rotate_up_right[of s c' C a l e r] holds RightOf p(1) by auto
    have "ctx_heap (pris s) c' (set_tree (Node C p l) \<union> set_tree r)" "heap_by (pris s) (Node (Node C p l) e r)"
      using heap RightOf p by (auto intro: ctx_heap_mono less_imp_le order_trans)
    then show ?thesis using up s' RightOf p(1)
      by - (rule exI[of _ s'], rule exI[of _ c'], rule exI[of _ "Node C p l"], rule exI[of _ r], simp add: inorder_plug)
  qed (use p in simp)
qed

lemma raise_loop_spec:
  assumes "holds s (plug c (Node l e r))" "ctx_heap (pris s) c (set_tree l \<union> set_tree r)" "heap_by (pris s) (Node l e r)"
  shows "\<exists>s' t'. raise_loop s e = Some s' \<and> holds s' t' \<and> inorder t' = inorder (plug c (Node l e r)) \<and> heap_by (pris s) t' \<and>
    relinked (set_tree (plug c (Node l e r))) s s'"
  using assms
proof (induction "depth c" arbitrary: s c l r rule: less_induct)
  case less
  let ?old = "plug c (Node l e r)"
  show ?case
  proof (cases "\<exists>p. hole_parent c = Some p \<and> pris s e < pris s p")
    case True
    then obtain s1 c1 l1 r1 where t: "raise_loop s e = raise_loop s1 e" "holds s1 (plug c1 (Node l1 e r1))" "depth c1 < depth c"
      "ctx_heap (pris s) c1 (set_tree l1 \<union> set_tree r1)" "heap_by (pris s) (Node l1 e r1)"
      "inorder (plug c1 (Node l1 e r1)) = inorder ?old" "relinked (set_tree ?old) s s1"
      using raise_turn[OF less.prems(1) _ _ less.prems(2,3)] by blast
    note p = relinked_pris[OF t(7)]
    have set_eq: "set_tree (plug c1 (Node l1 e r1)) = set_tree ?old" using t(6) by (metis set_inorder)
    obtain s' t' where s': "raise_loop s1 e = Some s'" "holds s' t'" "inorder t' = inorder ?old" "heap_by (pris s) t'"
      "relinked (set_tree ?old) s1 s'"
      using less.hyps[OF t(3,2)] t(4,5) unfolding p t(6) set_eq by blast
    then show ?thesis using t(1) relinked_trans[OF t(7) s'(5)] by auto
  next
    case False
    then have "raise_loop s e = Some s" using holds_node(3)[OF less.prems(1)]
      by (auto simp: raise_loop.simps[of s e] split: option.splits)
    moreover have "heap_by (pris s) ?old" using False by (intro raised_heap[OF less.prems(2,3)]) auto
    ultimately show ?thesis using less.prems(1) relinked_refl by blast
  qed
qed

section \<open>Adding and removing\<close>

lemma take_out:
  assumes "sched_tree s t"
  shows "\<exists>s' t'. (if IN_TREE s e then schedule_remove_node s e else Some s) = Some s' \<and> sched_tree s' t' \<and>
    inorder t' = filter (\<lambda>x. x \<noteq> e) (inorder t) \<and> (\<forall>x. x \<noteq> e \<longrightarrow> keys s' x = keys s x) \<and>
    se_tv (sch_mem s' e) = se_tv (sch_mem s e) \<and> earliest_wakeup s' = earliest_wakeup s"
proof (cases "IN_TREE s e")
  case True
  then have "e \<in> set_tree t" using assms by (simp add: IN_TREE_def sched_tree_def)
  then show ?thesis using remove_node_spec[OF assms] True by simp
next
  case False
  then have "e \<notin> set (inorder t)" using assms by (auto simp: IN_TREE_def sched_tree_def)
  then have "filter (\<lambda>x. x \<noteq> e) (inorder t) = inorder t" by (auto simp: filter_id_conv)
  then show ?thesis using assms False by auto
qed

lemma taken_out:
  assumes "sched_tree s t" "strictly_sorted (keys s) (filter (\<lambda>x. x \<noteq> e) (inorder t))"
  shows "\<exists>s' t'. (if IN_TREE s e then schedule_remove_node s e else Some s) = Some s' \<and> sched_tree s' t' \<and>
    e \<notin> set_tree t' \<and> set_tree t' = set_tree t - {e} \<and> strictly_sorted (keys s') (inorder t') \<and>
    (\<forall>x. x \<noteq> e \<longrightarrow> keys s' x = keys s x) \<and> se_tv (sch_mem s' e) = se_tv (sch_mem s e)"
proof -
  obtain s1 t1 where s1: "(if IN_TREE s e then schedule_remove_node s e else Some s) = Some s1" "sched_tree s1 t1"
    "inorder t1 = filter (\<lambda>x. x \<noteq> e) (inorder t)" "\<forall>x. x \<noteq> e \<longrightarrow> keys s1 x = keys s x"
    "se_tv (sch_mem s1 e) = se_tv (sch_mem s e)"
    using take_out[OF assms(1)] by blast
  have "set_tree t1 = set_tree t - {e}" using s1(3) by (simp flip: set_inorder) auto
  moreover have "strictly_sorted (keys s1) (inorder t1)"
    using assms(2) s1(4) unfolding s1(3) by (subst strictly_sorted_cong[of _ _ "keys s"]) auto
  ultimately show ?thesis using s1 by (intro exI[of _ s1] exI[of _ t1]) simp
qed

definition put_in :: "schedule \<Rightarrow> nat \<Rightarrow> u32 list \<Rightarrow> (schedule \<times> u32 list) option" where
  "put_in s e rs = (if sch_root s \<noteq> None then schedule_insert s e rs else Some (s\<lparr>sch_root := Some e\<rparr>, rs))"

lemma put_in_spec:
  assumes "insert_ready s t e" "se_parent (sch_mem s e) = None" "put_in s e rs = Some (s', rs')"
  shows "inserted s s' t e"
proof (cases "t = Leaf")
  case True
  then have "s' = s\<lparr>sch_root := Some e\<rparr>" using assms holds_root[of s t] by (simp add: put_in_def insert_ready_def)
  then show ?thesis using assms(1,2) True
    by (auto simp: inserted_def insert_ready_def holds_def same_but_def intro!: exI[of _ Top])
next
  case False
  then have "sch_root s \<noteq> None" using assms(1) holds_root[of s t] by (cases t) (auto simp: insert_ready_def)
  then show ?thesis using schedule_insert_spec[OF assms(1) False] assms(3) by (simp add: put_in_def)
qed

lemma add_modify_put_in:
  "schedule_add_modify s e rs = do {
     s \<leftarrow> (if IN_TREE s e then schedule_remove_node s e else Some s);
     (s, rs) \<leftarrow> (case rs of [] \<Rightarrow> None | r # rs \<Rightarrow> Some (schedule_set_pri e r s, rs));
     (s, rs) \<leftarrow> put_in s e rs;
     s \<leftarrow> raise_loop s e;
     Some (s, rs)
   }"
  by (simp add: schedule_add_modify_def put_in_def)

lemma set_pri_ready:
  assumes "sched_tree s t" "e \<notin> set_tree t" "strictly_sorted (keys s) (inorder t)"
  shows "insert_ready (schedule_set_pri e r s) t e"
proof -
  have "strictly_sorted (keys (schedule_set_pri e r s)) (inorder t)"
    using assms(2,3) by (subst strictly_sorted_cong[of _ _ "keys s"]) auto
  moreover have "holds (schedule_set_pri e r s) t"
    using assms tree_at_cong[of t "sch_mem (schedule_set_pri e r s)" "sch_mem s"] by (auto simp: sched_tree_def holds_def)
  ultimately show ?thesis using assms treap_pri_nonzero by (simp add: insert_ready_def sched_tree_def)
qed

text \<open>From the insertion at a leaf to the tree in order.\<close>

lemma raise_inserted:
  assumes "sched_tree s t" "e \<notin> set_tree t" "strictly_sorted (keys s) (inorder t)" "inserted (schedule_set_pri e r s) s2 t e"
  shows "\<exists>s' t'. raise_loop s2 e = Some s' \<and> sched_tree s' t' \<and> strictly_sorted (keys s') (inorder t') \<and>
    set_tree t' = insert e (set_tree t) \<and> same_but e (set_tree t) s s'"
proof -
  obtain c where c: "plug c Leaf = t" "holds s2 (plug c (Node Leaf e Leaf))" "pris s2 e \<noteq> 0"
    "same_but e (set_tree t) (schedule_set_pri e r s) s2"
    "\<forall>x \<in> set (ctx_left c). keys s2 x < keys s2 e" "\<forall>x \<in> set (ctx_right c). keys s2 e < keys s2 x"
    using assms(4) by (auto simp: inserted_def)
  have same: "same_but e (set_tree t) s s2" using same_but_trans[OF set_pri_same_but c(4)] .
  then have k2: "keys s2 x = keys s x" "pris s2 x = pris s x" if "x \<noteq> e" for x
    using that by (auto simp: same_but_def entry_key_def)
  have it: "inorder t = ctx_left c @ ctx_right c" using inorder_plug[of c Leaf] c(1) by simp
  have kt: "\<forall>x \<in> set_tree t. keys s2 x = keys s x" "\<forall>x \<in> set_tree t. pris s2 x = pris s x"
    using k2 assms(2) by metis+
  have "heap_by (pris s2) t" using assms(1) heap_by_cong[OF kt(2)] by (simp add: sched_tree_def)
  then have "ctx_heap (pris s2) c {}" using heap_by_plug[of "pris s2" c Leaf] c(1) by simp
  then obtain s' t' where s': "raise_loop s2 e = Some s'" "holds s' t'" "inorder t' = ctx_left c @ e # ctx_right c"
    "heap_by (pris s2) t'" "relinked (set_tree (plug c (Node Leaf e Leaf))) s2 s'"
    using raise_loop_spec[OF c(2)] by (auto simp: inorder_plug)
  have set_t': "set_tree t' = insert e (set_tree t)" using s'(3) it by (auto simp flip: set_inorder)
  have "set_tree (plug c (Node Leaf e Leaf)) = insert e (set_tree t)"
    using it by (auto simp add: inorder_plug simp flip: set_inorder)
  then have same': "same_but e (set_tree t) s s'"
    using same_but_trans[OF same relinked_same_but[OF s'(5)]] by simp
  have keys': "keys s' x = keys s2 x" for x using s'(5) by (simp add: relinked_def)
  have "strictly_sorted (keys s2) (ctx_left c @ ctx_right c)"
    using assms(3) kt(1) strictly_sorted_cong[of "inorder t" "keys s2" "keys s"] unfolding it[symmetric] by simp
  then have "strictly_sorted (keys s') (inorder t')"
    unfolding s'(3) keys' using c(5,6) by (auto simp: strictly_sorted_append intro: less_trans)
  moreover have "pris s' x \<noteq> 0 \<longleftrightarrow> x \<in> insert e (set_tree t)" for x
    unfolding relinked_pri[OF s'(5)] using c(3) k2(2) assms(1) by (cases "x = e") (simp_all add: sched_tree_def)
  then have "sched_tree s' t'"
    unfolding sched_tree_def set_t' using s'(2,4) assms(1) same' relinked_pris[OF s'(5)]
    by (simp add: sched_tree_def same_but_def)
  ultimately show ?thesis using s'(1) set_t' same' by blast
qed

lemma schedule_add_modify_spec:
  assumes "sched_tree s t" "strictly_sorted (keys s) (filter (\<lambda>x. x \<noteq> e) (inorder t))" "schedule_add_modify s e rs = Some (s', rs')"
  shows "\<exists>t'. sched_tree s' t' \<and> strictly_sorted (keys s') (inorder t') \<and> set_tree t' = insert e (set_tree t) \<and>
    (\<forall>x. x \<noteq> e \<longrightarrow> keys s' x = keys s x) \<and> se_tv (sch_mem s' e) = se_tv (sch_mem s e)"
proof -
  obtain s1 t1 where s1: "(if IN_TREE s e then schedule_remove_node s e else Some s) = Some s1" "sched_tree s1 t1"
    and e1: "e \<notin> set_tree t1" and set1: "set_tree t1 = set_tree t - {e}" and sorted1: "strictly_sorted (keys s1) (inorder t1)"
    and same: "\<forall>x. x \<noteq> e \<longrightarrow> keys s1 x = keys s x" "se_tv (sch_mem s1 e) = se_tv (sch_mem s e)"
    using taken_out[OF assms(1,2)] by blast
  obtain r rs1 where rs: "rs = r # rs1" using assms(3) s1(1) unfolding add_modify_put_in by (cases rs) auto
  then obtain s2 rs2 where s2: "put_in (schedule_set_pri e r s1) e rs1 = Some (s2, rs2)" "raise_loop s2 e = Some s'"
    using assms(3) unfolding add_modify_put_in s1(1) by (auto split: bind_splits)
  have "inserted (schedule_set_pri e r s1) s2 t1 e"
    using put_in_spec[OF set_pri_ready[OF s1(2) e1 sorted1]] s2(1) s1(2) e1 by (simp add: sched_tree_def)
  from raise_inserted[OF s1(2) e1 sorted1 this] obtain t' where t': "sched_tree s' t'" "strictly_sorted (keys s') (inorder t')"
    "set_tree t' = insert e (set_tree t1)" "same_but e (set_tree t1) s1 s'" using s2(2) by auto
  then show ?thesis using same set1 by (intro exI[of _ t']) (auto simp: same_but_def)
qed

lemma schedule_add_modify_returns:
  assumes "sched_tree s t" "strictly_sorted (keys s) (filter (\<lambda>x. x \<noteq> e) (inorder t))"
    and "\<exists>p \<in> treap_pri ` set rs. \<forall>x \<in> set_tree t - {e}. keys s x \<noteq> (se_tv (sch_mem s e), p)"
  shows "schedule_add_modify s e rs \<noteq> None"
proof -
  obtain s1 t1 where s1: "(if IN_TREE s e then schedule_remove_node s e else Some s) = Some s1" "sched_tree s1 t1"
    and e1: "e \<notin> set_tree t1" and set1: "set_tree t1 = set_tree t - {e}" and sorted1: "strictly_sorted (keys s1) (inorder t1)"
    and same: "\<forall>x. x \<noteq> e \<longrightarrow> keys s1 x = keys s x" "se_tv (sch_mem s1 e) = se_tv (sch_mem s e)"
    using taken_out[OF assms(1,2)] by blast
  obtain r rs1 where rs: "rs = r # rs1" using assms(3) by (cases rs) auto
  let ?s = "schedule_set_pri e r s1"
  note ready = set_pri_ready[OF s1(2) e1 sorted1, of r]
  have "put_in ?s e rs1 \<noteq> None"
  proof (cases "t1 = Leaf")
    case True
    then show ?thesis using ready holds_root[of ?s t1] by (simp add: put_in_def insert_ready_def)
  next
    case False
    have "\<exists>p \<in> insert (pris ?s e) (treap_pri ` set rs1). \<forall>x \<in> set_tree t1. keys ?s x \<noteq> (se_tv (sch_mem ?s e), p)"
      using assms(3) same unfolding rs set1 by (auto 4 3)
    then show ?thesis using schedule_insert_returns[OF ready False] by (simp add: put_in_def)
  qed
  then obtain s2 rs2 where s2: "put_in ?s e rs1 = Some (s2, rs2)" by auto
  have "inserted ?s s2 t1 e"
    using put_in_spec[OF ready] s2 s1(2) e1 by (simp add: sched_tree_def)
  from raise_inserted[OF s1(2) e1 sorted1 this] show ?thesis
    unfolding add_modify_put_in s1(1) rs using s2 by auto
qed

section \<open>Collisions of priorities\<close>

lemma descend_taken:
  assumes "strictly_sorted f (inorder t)" "\<exists>x \<in> set_tree t. f x = k"
  shows "descend f k Top t = None"
proof (cases "descend f k Top t")
  case (Some c)
  have "ctx_set c = set_tree t" using descend_plug[OF Some] inorder_plug[of c Leaf]
    by (metis append_Nil inorder.simps(1) plug.simps(1) set_append set_inorder)
  then show ?thesis using descend_place[OF Some assms(1)] assms(2) by fastforce
qed

lemma schedule_insert_stuck:
  assumes "insert_ready s t e" "t \<noteq> Leaf"
    and "\<forall>p \<in> insert (pris s e) (treap_pri ` set rs). \<exists>x \<in> set_tree t. keys s x = (se_tv (sch_mem s e), p)"
  shows "schedule_insert s e rs = None"
  using assms
proof (induction rs arbitrary: s)
  case Nil
  have "\<exists>x \<in> set_tree t. keys s x = keys s e" using Nil.prems(3) by (simp add: entry_key_def)
  then show ?case using descend_taken[of "keys s" t "keys s e"] schedule_insert_unfold[of s t e "[]"] Nil.prems
    by (simp add: insert_ready_def)
next
  case (Cons r rs)
  have "\<exists>x \<in> set_tree t. keys s x = keys s e" using Cons.prems(3) by (simp add: entry_key_def)
  then have "descend (keys s) (keys s e) Top t = None" using descend_taken Cons.prems(1) by (simp add: insert_ready_def)
  moreover have "keys (schedule_set_pri e r s) x = keys s x" if "x \<in> set_tree t" for x
    using Cons.prems(1) that by (auto simp: insert_ready_def)
  then have "schedule_insert (schedule_set_pri e r s) e rs = None"
    using Cons.prems(2,3) by (intro Cons.IH[OF insert_ready_set_pri[OF Cons.prems(1)]]) auto
  ultimately show ?case using schedule_insert_unfold[of s t e "r # rs"] Cons.prems by (simp add: insert_ready_def)
qed

lemma schedule_add_modify_stuck:
  assumes "sched_tree s t" "strictly_sorted (keys s) (filter (\<lambda>x. x \<noteq> e) (inorder t))"
    and "\<forall>p \<in> treap_pri ` set rs. \<exists>x \<in> set_tree t - {e}. keys s x = (se_tv (sch_mem s e), p)"
  shows "schedule_add_modify s e rs = None"
proof (cases rs)
  case Nil
  then show ?thesis by (simp add: add_modify_put_in split: bind_splits)
next
  case (Cons r rs1)
  obtain s1 t1 where s1: "(if IN_TREE s e then schedule_remove_node s e else Some s) = Some s1" "sched_tree s1 t1"
    and e1: "e \<notin> set_tree t1" and set1: "set_tree t1 = set_tree t - {e}" and sorted1: "strictly_sorted (keys s1) (inorder t1)"
    and same: "\<forall>x. x \<noteq> e \<longrightarrow> keys s1 x = keys s x" "se_tv (sch_mem s1 e) = se_tv (sch_mem s e)"
    using taken_out[OF assms(1,2)] by blast
  let ?s = "schedule_set_pri e r s1"
  note ready = set_pri_ready[OF s1(2) e1 sorted1, of r]
  have col: "\<forall>p \<in> insert (pris ?s e) (treap_pri ` set rs1). \<exists>x \<in> set_tree t1. keys ?s x = (se_tv (sch_mem ?s e), p)"
    using assms(3) same unfolding Cons set1 by (auto 4 3)
  then have "t1 \<noteq> Leaf" by auto
  then have "put_in ?s e rs1 = None"
    using schedule_insert_stuck[OF ready _ col] ready holds_root[of ?s t1] by (cases t1) (auto simp: put_in_def insert_ready_def)
  then show ?thesis unfolding add_modify_put_in s1(1) Cons by simp
qed

section \<open>The earliest entry\<close>

lemma find_least_spec:
  assumes "holds s (plug c t)" "root_of t = Some a"
  shows "find_least_loop s a = Some (hd (inorder t))"
  using assms
proof (induction t arbitrary: c a)
  case (Node l b r)
  have "holds s (plug (LeftOf c b r) l)" using Node.prems(1) by simp
  note IH = Node.IH(1)[OF this]
  show ?case
  proof (cases l)
    case Leaf
    then show ?thesis using Node.prems(2) holds_node(1)[OF Node.prems(1)] by (simp add: find_least_loop.simps[of s a])
  next
    case N: (Node l1 b1 r1)
    then have "inorder l \<noteq> []" by simp
    then show ?thesis using IH N Node.prems(2) holds_node(1)[OF Node.prems(1)]
      by (simp add: find_least_loop.simps[of s a] hd_append)
  qed
qed simp

text \<open>The invariant of the whole schedule, with the cached earliest entry.\<close>

definition sched_inv :: "schedule \<Rightarrow> nat tree \<Rightarrow> bool" where
  "sched_inv s t \<longleftrightarrow> sched_tree s t \<and> strictly_sorted (keys s) (inorder t) \<and>
     (case earliest_wakeup s of None \<Rightarrow> True | Some e \<Rightarrow> t \<noteq> Leaf \<and> e = hd (inorder t))"

definition sched_map :: "schedule \<Rightarrow> nat \<Rightarrow> timeval option" where
  "sched_map s x = (if IN_TREE s x then Some (se_tv (sch_mem s x)) else None)"

lemma sched_map_dom: "sched_tree s t \<Longrightarrow> dom (sched_map s) = set_tree t"
  by (auto simp: sched_tree_def sched_map_def IN_TREE_def dom_def)

lemma sched_inv_init: "sched_inv schedule_init Leaf"
  by (simp add: sched_inv_def sched_tree_def holds_def schedule_init_def clear_entry_def strictly_sorted_append)

lemma remove_entry_spec:
  assumes "sched_inv s t"
  shows "\<exists>s' t'. schedule_remove_entry s e = Some s' \<and> sched_inv s' t' \<and> sched_map s' = (sched_map s)(e := None)"
proof -
  let ?s = "s\<lparr>earliest_wakeup := None\<rparr>"
  have t: "sched_tree ?s t" using assms by (simp add: sched_inv_def sched_tree_def holds_def)
  show ?thesis
  proof (cases "e \<in> set_tree t")
    case True
    obtain s' t' where s': "schedule_remove_node ?s e = Some s'" "sched_tree s' t'" "inorder t' = filter (\<lambda>x. x \<noteq> e) (inorder t)"
      "\<forall>x. x \<noteq> e \<longrightarrow> keys s' x = keys s x" "earliest_wakeup s' = None"
      using remove_node_spec[OF t True] by auto
    have "strictly_sorted (keys s') (inorder t')"
      using assms s'(4) strictly_sorted_filter[of "keys s" "inorder t"] unfolding s'(3)
      by (subst strictly_sorted_cong[of _ _ "keys s"]) (auto simp: sched_inv_def)
    moreover have "e \<notin> set_tree t'" using s'(3) by (simp flip: set_inorder)
    then have "\<not> IN_TREE s' e" using s'(2) by (simp add: sched_tree_def IN_TREE_def)
    then have "sched_map s' = (sched_map s)(e := None)"
      using s'(4) by (auto simp: sched_map_def IN_TREE_def entry_key_def)
    ultimately show ?thesis using s' by (auto simp: sched_inv_def schedule_remove_entry_def)
  next
    case False
    then have none: "pris s e = 0" "se_parent (sch_mem s e) = None" "se_lt (sch_mem s e) = None" "se_gt (sch_mem s e) = None"
      using assms by (auto simp: sched_inv_def sched_tree_def)
    have "sch_root s \<noteq> Some e" using False assms holds_root[of s t] by (cases t) (auto simp: sched_inv_def sched_tree_def)
    moreover have "upd e (\<lambda>n. n\<lparr>se_pri := 0\<rparr>) ?s = ?s" using none(1) by (simp add: upd_def fun_upd_idem)
    ultimately have "schedule_remove_entry s e = Some ?s" using none
      by (simp add: schedule_remove_entry_def schedule_remove_node_def remove_loop.simps[of ?s e] schedule_detach_parent_def)
    moreover have "sched_map ?s = (sched_map s)(e := None)" using none(1) by (auto simp: sched_map_def IN_TREE_def)
    moreover have "sched_inv ?s t" using t assms by (simp add: sched_inv_def)
    ultimately show ?thesis by blast
  qed
qed

end
