(* ===== verification/Timers.thy ===== *)
theory Timers
  imports Schedule_Tree
begin

text \<open>
  The interface of the scheduler: a map from entries to wake-up times with its least entry (the
  locale \<open>timer_queue\<close>), the treap as an instance of it, and the properties of the scheduler.
\<close>

section \<open>The specification\<close>

text \<open>
  A queue of timers is a map from entries to times.  Adding an entry that is scheduled close enough to
  the new time changes nothing.
\<close>

definition timer_add :: "nat \<Rightarrow> timeval \<Rightarrow> u32 \<Rightarrow> (nat \<Rightarrow> timeval option) \<Rightarrow> nat \<Rightarrow> timeval option" where
  "timer_add e tv sigma m =
     (case m e of
        Some t \<Rightarrow> if sigma \<noteq> 0 \<and> tv_within_sigma tv t (sint sigma) then m else m(e \<mapsto> tv)
      | None \<Rightarrow> m(e \<mapsto> tv))"

definition timer_least :: "(nat \<Rightarrow> timeval option) \<Rightarrow> nat option \<Rightarrow> timeval option \<Rightarrow> bool" where
  "timer_least m r w \<longleftrightarrow> (case r of None \<Rightarrow> m = Map.empty \<and> w = None
     | Some e \<Rightarrow> w = m e \<and> m e \<noteq> None \<and> (\<forall>e' t'. m e' = Some t' \<longrightarrow> the (m e) \<le> t'))"

locale timer_queue =
  fixes qinv :: "'q \<Rightarrow> bool"
    and qabs :: "'q \<Rightarrow> nat \<Rightarrow> timeval option"
    and qinit :: 'q
    and qadd :: "'q \<Rightarrow> nat \<Rightarrow> timeval \<Rightarrow> u32 \<Rightarrow> u32 list \<Rightarrow> ('q \<times> u32 list) option"
    and qremove :: "'q \<Rightarrow> nat \<Rightarrow> 'q option"
    and qearliest :: "'q \<Rightarrow> ('q \<times> nat option \<times> timeval option) option"
  assumes init: "qinv qinit" "qabs qinit = Map.empty"
    and add: "qinv q \<Longrightarrow> qadd q e tv sigma rs = Some (q', rs') \<Longrightarrow> qinv q' \<and> qabs q' = timer_add e tv sigma (qabs q)"
    and add_returns: "qinv q \<Longrightarrow> card (dom (qabs q)) < card (treap_pri ` set rs) \<Longrightarrow> qadd q e tv sigma rs \<noteq> None"
    and remove: "qinv q \<Longrightarrow> \<exists>q'. qremove q e = Some q' \<and> qinv q' \<and> qabs q' = (qabs q)(e := None)"
    and earliest: "qinv q \<Longrightarrow> \<exists>q' r w. qearliest q = Some (q', r, w) \<and> qinv q' \<and> qabs q' = qabs q \<and> timer_least (qabs q) r w"
    and finite: "qinv q \<Longrightarrow> finite (dom (qabs q))"

text \<open>A run of calls, with the answers of the calls that ask for the earliest entry.\<close>

datatype timer_op = Add nat timeval u32 "u32 list" | Remove nat | Earliest

fun timer_run ::
  "('q \<Rightarrow> nat \<Rightarrow> timeval \<Rightarrow> u32 \<Rightarrow> u32 list \<Rightarrow> ('q \<times> u32 list) option) \<Rightarrow> ('q \<Rightarrow> nat \<Rightarrow> 'q option) \<Rightarrow>
   ('q \<Rightarrow> ('q \<times> nat option \<times> timeval option) option) \<Rightarrow> timer_op list \<Rightarrow> 'q \<Rightarrow>
   ('q \<times> (nat option \<times> timeval option) list) option" where
  "timer_run add remove earliest [] q = Some (q, [])"
| "timer_run add remove earliest (Add e tv sigma rs # ops) q =
     do { (q, _) \<leftarrow> add q e tv sigma rs; timer_run add remove earliest ops q }"
| "timer_run add remove earliest (Remove e # ops) q = do { q \<leftarrow> remove q e; timer_run add remove earliest ops q }"
| "timer_run add remove earliest (Earliest # ops) q = do {
     (q, a) \<leftarrow> earliest q;
     (q, as) \<leftarrow> timer_run add remove earliest ops q;
     Some (q, a # as)
   }"

fun timer_ok :: "timer_op list \<Rightarrow> (nat option \<times> timeval option) list \<Rightarrow> (nat \<Rightarrow> timeval option) \<Rightarrow> bool" where
  "timer_ok [] as m \<longleftrightarrow> as = []"
| "timer_ok (Add e tv sigma rs # ops) as m \<longleftrightarrow> timer_ok ops as (timer_add e tv sigma m)"
| "timer_ok (Remove e # ops) as m \<longleftrightarrow> timer_ok ops as (m(e := None))"
| "timer_ok (Earliest # ops) as m \<longleftrightarrow> (case as of [] \<Rightarrow> False | a # as \<Rightarrow> timer_least m (fst a) (snd a) \<and> timer_ok ops as m)"

fun enough_priorities :: "nat \<Rightarrow> timer_op \<Rightarrow> bool" where
  "enough_priorities n (Add e tv sigma rs) \<longleftrightarrow> n \<le> card (treap_pri ` set rs)"
| "enough_priorities n (Remove e) \<longleftrightarrow> True"
| "enough_priorities n Earliest \<longleftrightarrow> True"

lemma timer_add_dom: "finite (dom m) \<Longrightarrow> card (dom (timer_add e tv sigma m)) \<le> Suc (card (dom m))"
  by (auto simp: timer_add_def card_insert_if split: option.splits)

lemma timer_remove_dom: "finite (dom m) \<Longrightarrow> card (dom (m(e := None))) \<le> card (dom m)"
  by (auto intro: card_mono)

context timer_queue begin

lemma run_inv:
  "qinv q \<Longrightarrow> timer_run qadd qremove qearliest ops q = Some (q', as) \<Longrightarrow> qinv q'"
proof (induction ops arbitrary: q as)
  case (Cons op ops)
  show ?case
  proof (cases op)
    case (Add e tv sigma rs)
    then obtain q1 rs1 where "qadd q e tv sigma rs = Some (q1, rs1)" "timer_run qadd qremove qearliest ops q1 = Some (q', as)"
      using Cons.prems(2) by (auto split: bind_splits)
    then show ?thesis using Cons.IH add Cons.prems(1) by blast
  next
    case (Remove e)
    then show ?thesis using Cons remove[OF Cons.prems(1), of e] by auto
  next
    case Earliest
    then show ?thesis using Cons earliest[OF Cons.prems(1)] by (auto split: bind_splits)
  qed
qed simp

lemma run_refines:
  assumes "qinv q" "\<forall>op \<in> set ops. enough_priorities (card (dom (qabs q)) + length ops) op"
  shows "\<exists>q' as. timer_run qadd qremove qearliest ops q = Some (q', as) \<and> timer_ok ops as (qabs q)"
  using assms
proof (induction ops arbitrary: q)
  case (Cons op ops)
  have weaken: "\<forall>op \<in> set ops. enough_priorities (n + length ops) op" if "n \<le> Suc (card (dom (qabs q)))" for n
  proof
    fix op assume "op \<in> set ops"
    then have "enough_priorities (card (dom (qabs q)) + length (op # ops)) op" using Cons.prems(2) by simp
    then show "enough_priorities (n + length ops) op" using that by (cases op) auto
  qed
  show ?case
  proof (cases op)
    case (Add e tv sigma rs)
    then obtain q' rs' where q': "qadd q e tv sigma rs = Some (q', rs')"
      using add_returns[OF Cons.prems(1), of rs e tv sigma] Cons.prems(2) by auto
    have a: "qinv q'" "qabs q' = timer_add e tv sigma (qabs q)" using add[OF Cons.prems(1) q'] by simp_all
    have "card (dom (qabs q')) \<le> Suc (card (dom (qabs q)))" using timer_add_dom[OF finite[OF Cons.prems(1)]] by (simp add: a(2))
    from Cons.IH[OF a(1) weaken[OF this]] show ?thesis using q' Add a(2) by auto
  next
    case (Remove e)
    obtain q' where q': "qremove q e = Some q'" "qinv q'" "qabs q' = (qabs q)(e := None)" using remove[OF Cons.prems(1)] by blast
    have "card (dom (qabs q')) \<le> Suc (card (dom (qabs q)))"
      unfolding q'(3) using timer_remove_dom[OF finite[OF Cons.prems(1)]] le_SucI by blast
    from Cons.IH[OF q'(2) weaken[OF this]] show ?thesis using q'(1) Remove by (simp flip: q'(3))
  next
    case Earliest
    obtain q' r w where q': "qearliest q = Some (q', r, w)" "qinv q'" "qabs q' = qabs q" "timer_least (qabs q) r w"
      using earliest[OF Cons.prems(1)] by blast
    have "card (dom (qabs q')) \<le> Suc (card (dom (qabs q)))" by (simp add: q'(3))
    from Cons.IH[OF q'(2) weaken[OF this]] show ?thesis using q' Earliest by auto
  qed
qed simp

end

section \<open>The treap is a queue of timers\<close>

lemma add_entry_modify:
  assumes "sched_inv s t"
  shows "sched_tree (upd e (\<lambda>n. n\<lparr>se_tv := tv\<rparr>) s) t"
    "strictly_sorted (keys (upd e (\<lambda>n. n\<lparr>se_tv := tv\<rparr>) s)) (filter (\<lambda>x. x \<noteq> e) (inorder t))"
proof -
  let ?s = "upd e (\<lambda>n. n\<lparr>se_tv := tv\<rparr>) s"
  have "tree_at (sch_mem ?s) q p t = tree_at (sch_mem s) q p t" for q p t
    by (induction t arbitrary: q p) auto
  moreover have "pris ?s = pris s" by auto
  ultimately show "sched_tree ?s t" using assms by (auto simp: sched_inv_def sched_tree_def holds_def)
  have "strictly_sorted (keys s) (filter (\<lambda>x. x \<noteq> e) (inorder t))"
    using assms strictly_sorted_filter by (simp add: sched_inv_def)
  then show "strictly_sorted (keys ?s) (filter (\<lambda>x. x \<noteq> e) (inorder t))"
    by (subst strictly_sorted_cong[of _ _ "keys s"]) auto
qed

text \<open>An entry is moved unless it is scheduled close to the new time.\<close>

definition moves :: "schedule \<Rightarrow> nat \<Rightarrow> timeval \<Rightarrow> u32 \<Rightarrow> bool" where
  "moves s e tv sigma \<longleftrightarrow> \<not> (\<exists>t. sched_map s e = Some t \<and> sigma \<noteq> 0 \<and> tv_within_sigma tv t (sint sigma))"

lemma schedule_add_entry_moves:
  "schedule_add_entry s e tv sigma rs =
     (if moves s e tv sigma then map_option (\<lambda>(s, rs). (s\<lparr>earliest_wakeup := None\<rparr>, rs)) (schedule_add_modify (upd e (\<lambda>n. n\<lparr>se_tv := tv\<rparr>) s) e rs)
      else Some (s, rs))"
  by (auto simp: schedule_add_entry_def moves_def sched_map_def split: option.splits bind_splits)

lemma timer_add_moves: "timer_add e tv sigma (sched_map s) = (if moves s e tv sigma then (sched_map s)(e \<mapsto> tv) else sched_map s)"
  by (auto simp: timer_add_def moves_def split: option.splits)

lemma add_entry_spec:
  assumes "sched_inv s t" "schedule_add_entry s e tv sigma rs = Some (s', rs')"
  shows "\<exists>t'. sched_inv s' t' \<and> sched_map s' = timer_add e tv sigma (sched_map s)"
proof (cases "moves s e tv sigma")
  case True
  let ?s = "upd e (\<lambda>n. n\<lparr>se_tv := tv\<rparr>) s"
  obtain s1 where s1: "schedule_add_modify ?s e rs = Some (s1, rs')" "s' = s1\<lparr>earliest_wakeup := None\<rparr>"
    using assms(2) True by (auto simp: schedule_add_entry_moves)
  obtain t' where t': "sched_tree s1 t'" "strictly_sorted (keys s1) (inorder t')" "set_tree t' = insert e (set_tree t)"
    "\<forall>x. x \<noteq> e \<longrightarrow> keys s1 x = keys s x" "se_tv (sch_mem s1 e) = tv"
    using schedule_add_modify_spec[OF add_entry_modify[OF assms(1)] s1(1)] by auto
  have "IN_TREE s1 e" using t'(1,3) by (simp add: sched_tree_def IN_TREE_def)
  then have "sched_map s' = (sched_map s)(e \<mapsto> tv)"
    using t'(4,5) by (auto simp: sched_map_def IN_TREE_def s1(2) entry_key_def)
  moreover have "sched_inv s' t'" using t'(1,2) by (simp add: sched_inv_def sched_tree_def holds_def s1(2))
  ultimately show ?thesis using True timer_add_moves by auto
next
  case False
  then show ?thesis using assms timer_add_moves by (auto simp: schedule_add_entry_moves)
qed

lemma add_entry_returns:
  assumes "sched_inv s t"
  shows "schedule_add_entry s e tv sigma rs \<noteq> None \<longleftrightarrow> \<not> moves s e tv sigma \<or>
    (\<exists>p \<in> treap_pri ` set rs. \<forall>x \<in> set_tree t - {e}. keys s x \<noteq> (tv, p))"
proof -
  let ?s = "upd e (\<lambda>n. n\<lparr>se_tv := tv\<rparr>) s"
  note m = add_entry_modify[OF assms, of e tv]
  have eq: "\<forall>x \<in> set_tree t - {e}. keys ?s x = keys s x" "se_tv (sch_mem ?s e) = tv" by auto
  have "schedule_add_modify ?s e rs \<noteq> None \<longleftrightarrow> (\<exists>p \<in> treap_pri ` set rs. \<forall>x \<in> set_tree t - {e}. keys s x \<noteq> (tv, p))"
  proof (cases "\<exists>p \<in> treap_pri ` set rs. \<forall>x \<in> set_tree t - {e}. keys s x \<noteq> (tv, p)")
    case True
    then show ?thesis using schedule_add_modify_returns[OF m, of rs] unfolding eq(2) using eq(1) by metis
  next
    case False
    then show ?thesis using schedule_add_modify_stuck[OF m, of rs] unfolding eq(2) using eq(1) by metis
  qed
  then show ?thesis unfolding schedule_add_entry_moves by (cases "schedule_add_modify ?s e rs") auto
qed

lemma add_entry_pigeonhole:
  assumes "sched_inv s t" "card (set_tree t) < card (treap_pri ` set rs)"
  shows "schedule_add_entry s e tv sigma rs \<noteq> None"
proof -
  have "\<not> treap_pri ` set rs \<subseteq> pris s ` set_tree t"
    using assms(2) card_image_le[of "set_tree t" "pris s"] card_mono[of "pris s ` set_tree t" "treap_pri ` set rs"] by fastforce
  then obtain p where p: "p \<in> treap_pri ` set rs" "p \<notin> pris s ` set_tree t" by blast
  have "\<forall>x \<in> set_tree t - {e}. keys s x \<noteq> (tv, p)" using p(2) by (auto simp: entry_key_def)
  then show ?thesis using p(1) add_entry_returns[OF assms(1)] by blast
qed

lemma earliest_spec:
  assumes "sched_inv s t"
  shows "\<exists>s' r w. schedule_get_earliest_wakeup s = Some (s', r, w) \<and> sched_inv s' t \<and> sched_map s' = sched_map s \<and> timer_least (sched_map s) r w"
proof -
  have tree: "sched_tree s t" and sorted: "strictly_sorted (keys s) (inorder t)" using assms by (simp_all add: sched_inv_def)
  define r where "r = (if t = Leaf then None else Some (hd (inorder t)))"
  have least: "timer_least (sched_map s) r (map_option (\<lambda>e. se_tv (sch_mem s e)) r)"
  proof (cases "inorder t")
    case Nil
    then have "t = Leaf" by (cases t) simp_all
    moreover from this have "dom (sched_map s) = {}" using sched_map_dom[OF tree] by simp
    ultimately show ?thesis by (simp add: r_def timer_least_def)
  next
    case (Cons a xs)
    have "t \<noteq> Leaf" using Cons by auto
    then have r: "r = Some a" using Cons by (simp add: r_def)
    have set_t: "set_tree t = insert a (set xs)" using Cons by (metis list.simps(15) set_inorder)
    have "se_tv (sch_mem s a) \<le> se_tv (sch_mem s x)" if "x \<in> set xs" for x
      using sorted that unfolding Cons by (auto simp: strictly_sorted_append entry_key_def less_prod_def)
    then have "\<forall>x. IN_TREE s x \<longrightarrow> se_tv (sch_mem s a) \<le> se_tv (sch_mem s x)" "IN_TREE s a"
      using tree set_t by (auto simp: sched_tree_def IN_TREE_def)
    then show ?thesis by (auto simp: r timer_least_def sched_map_def split: if_splits)
  qed
  let ?s = "s\<lparr>earliest_wakeup := r\<rparr>"
  have "schedule_find_least s (sch_root s) = Some r"
    using tree holds_root[of s t] find_least_spec[of s Top t]
    by (cases t) (auto simp: schedule_find_least_def sched_tree_def r_def)
  moreover have "r = earliest_wakeup s" if "earliest_wakeup s \<noteq> None"
    using assms that by (auto simp: sched_inv_def r_def)
  ultimately have "schedule_get_earliest_wakeup s = Some (?s, r, map_option (\<lambda>e. se_tv (sch_mem s e)) r)"
    by (cases "earliest_wakeup s = None") (auto simp: schedule_get_earliest_wakeup_def)
  moreover have "sched_inv ?s t" using assms by (auto simp: sched_inv_def sched_tree_def holds_def r_def)
  moreover have "sched_map ?s = sched_map s" by (auto simp: sched_map_def IN_TREE_def)
  ultimately show ?thesis using least by auto
qed

interpretation treap: timer_queue "\<lambda>s. \<exists>t. sched_inv s t" sched_map schedule_init
  schedule_add_entry schedule_remove_entry schedule_get_earliest_wakeup
proof
  show "\<exists>t. sched_inv schedule_init t" using sched_inv_init by blast
  show "sched_map schedule_init = Map.empty" by (auto simp: sched_map_def schedule_init_def clear_entry_def IN_TREE_def)
next
  fix q e tv sigma rs q' rs'
  assume "\<exists>t. sched_inv q t" "schedule_add_entry q e tv sigma rs = Some (q', rs')"
  then show "(\<exists>t. sched_inv q' t) \<and> sched_map q' = timer_add e tv sigma (sched_map q)" using add_entry_spec by blast
next
  fix q rs e tv sigma
  assume "\<exists>t. sched_inv q t" "card (dom (sched_map q)) < card (treap_pri ` set rs)"
  then show "schedule_add_entry q e tv sigma rs \<noteq> None"
    using add_entry_pigeonhole sched_map_dom by (metis sched_inv_def)
next
  fix q e assume "\<exists>t. sched_inv q t"
  then show "\<exists>q'. schedule_remove_entry q e = Some q' \<and> (\<exists>t. sched_inv q' t) \<and> sched_map q' = (sched_map q)(e := None)"
    using remove_entry_spec by blast
next
  fix q assume "\<exists>t. sched_inv q t"
  then show "\<exists>q' r w. schedule_get_earliest_wakeup q = Some (q', r, w) \<and> (\<exists>t. sched_inv q' t) \<and>
      sched_map q' = sched_map q \<and> timer_least (sched_map q) r w"
    using earliest_spec by blast
next
  fix q assume "\<exists>t. sched_inv q t"
  then show "finite (dom (sched_map q))" using sched_map_dom by (auto simp: sched_inv_def)
qed

section \<open>Properties\<close>

abbreviation schedule_run :: "timer_op list \<Rightarrow> (schedule \<times> (nat option \<times> timeval option) list) option" where
  "schedule_run ops \<equiv> timer_run schedule_add_entry schedule_remove_entry schedule_get_earliest_wakeup ops schedule_init"

text \<open>
  C24: the scheduler is a queue of timers.  For every sequence of calls that add, move and remove entries and
  ask for the earliest one, where random gives more different values than there are calls, all calls
  return (no assertion fails and no loop runs forever), and every answer is an entry with the least
  wake-up time of those scheduled, with that time, or none when nothing is scheduled.
\<close>

theorem schedule_refines_timers:
  assumes "\<forall>op \<in> set ops. enough_priorities (length ops) op"
  shows "\<exists>s as. schedule_run ops = Some (s, as) \<and> timer_ok ops as Map.empty"
  using treap.run_refines[OF treap.init(1), of ops] assms by (simp add: treap.init(2))

theorem schedule_refines_timers_witness:
  "\<exists>s as. schedule_run [Add 4 (Timeval 20 5) 0 [7, 8, 0, 9, 2], Add 3 (Timeval 10 0) 0 [7, 7, 1, 2, 4, 6], Earliest, Remove 3, Earliest]
      = Some (s, as) \<and>
    timer_ok [Add 4 (Timeval 20 5) 0 [7, 8, 0, 9, 2], Add 3 (Timeval 10 0) 0 [7, 7, 1, 2, 4, 6], Earliest, Remove 3, Earliest] as Map.empty"
  by (rule schedule_refines_timers) (simp add: treap_pri_def)

text \<open>
  C25: the scheduler keeps its structure.  After every sequence of calls the entries with a priority are the nodes of
  one tree whose parent and child links agree, sorted by wake-up time and priority, with
  priorities that grow from the root to the leaves; the other entries have no links, and a cached earliest
  entry is the first one of the tree.
\<close>

theorem schedule_keeps_treap:
  assumes "schedule_run ops = Some (s, as)"
  shows "\<exists>t. sched_inv s t"
  using treap.run_inv[OF treap.init(1) assms] .

theorem schedule_keeps_treap_witness:
  "\<exists>s as t. schedule_run [Add 4 (Timeval 20 5) 0 [7, 8, 9], Add 3 (Timeval 10 0) 0 [1, 2, 4], Earliest] = Some (s, as) \<and> sched_inv s t"
proof -
  let ?ops = "[Add 4 (Timeval 20 5) 0 [7, 8, 9], Add 3 (Timeval 10 0) 0 [1, 2, 4], Earliest]"
  have "\<forall>op \<in> set ?ops. enough_priorities (length ?ops) op" by (simp add: treap_pri_def)
  then obtain s as where "schedule_run ?ops = Some (s, as)"
    using treap.run_refines[OF treap.init(1), of ?ops] unfolding treap.init(2) by auto
  then show ?thesis using schedule_keeps_treap by blast
qed

text \<open>
  C26: when scheduling an entry ends.  In every state that is reached, schedule_add_entry returns exactly if
  the entry is left where it is, or one of the values that random gives is a priority no other entry with
  the same wake-up time has; otherwise it uses up all the values and asks for another one.
\<close>

theorem schedule_add_terminates:
  assumes "schedule_run ops = Some (s, as)"
  shows "schedule_add_entry s e tv sigma rs \<noteq> None \<longleftrightarrow>
    (\<exists>t. sched_map s e = Some t \<and> sigma \<noteq> 0 \<and> tv_within_sigma tv t (sint sigma)) \<or>
    (\<exists>r \<in> set rs. \<forall>x. x \<noteq> e \<longrightarrow> sched_map s x = Some tv \<longrightarrow> se_pri (sch_mem s x) \<noteq> (if r < 1 then 1 else r))"
proof -
  obtain t where t: "sched_inv s t" using treap.run_inv[OF treap.init(1) assms] by blast
  then have "x \<in> set_tree t \<longleftrightarrow> IN_TREE s x" for x by (simp add: sched_inv_def sched_tree_def IN_TREE_def)
  then have "(\<forall>x \<in> set_tree t - {e}. keys s x \<noteq> (tv, p)) \<longleftrightarrow> (\<forall>x. x \<noteq> e \<longrightarrow> sched_map s x = Some tv \<longrightarrow> pris s x \<noteq> p)" for p
    by (auto simp: sched_map_def entry_key_def)
  then show ?thesis unfolding add_entry_returns[OF t] moves_def treap_pri_def[symmetric] by simp
qed

theorem schedule_add_terminates_witness:
  "schedule_add_entry schedule_init 3 (Timeval 10 0) 0 [7] \<noteq> None"
  using schedule_add_terminates[of "[]" schedule_init "[]" 3 "Timeval 10 0" 0 "[7]"]
  by (simp add: sched_map_def IN_TREE_def schedule_init_def clear_entry_def)

end
