(* ===== verification/Tls_Prf.thy ===== *)
theory Tls_Prf
  imports Keys Session_Id
begin

text \<open>
  The key material of the data channel from ssl.c: the pseudo-random function of TLS, the set-up of
  cipher and HMAC contexts, and the expansion of a key source to two keys.  The digests and the
  cipher set-up of OpenSSL are parameters.  The function is proved equal to the definition of RFC 2246.
\<close>

section \<open>The pseudo-random function\<close>

text \<open>A message digest of OpenSSL: its size and the HMAC of a text under a key.\<close>

record evp_md =
  EVP_MD_size :: int
  EVP_HMAC :: "byte list \<Rightarrow> byte list \<Rightarrow> byte list"

partial_function (option) P_hash_loop :: "evp_md \<Rightarrow> byte list \<Rightarrow> byte list \<Rightarrow> byte list \<Rightarrow> int \<Rightarrow> byte list option" where
  "P_hash_loop md sec seed A1 olen =
     (if olen > EVP_MD_size md then do {
        let out = EVP_HMAC md sec (A1 @ seed);
        rest \<leftarrow> P_hash_loop md sec seed (EVP_HMAC md sec A1) (olen - int (length out));
        Some (out @ rest)
      } else src_bytes (EVP_HMAC md sec (A1 @ seed)) olen)"

declare P_hash_loop.simps [code]

definition tls1_P_hash :: "evp_md \<Rightarrow> byte list \<Rightarrow> byte list \<Rightarrow> int \<Rightarrow> byte list option" where
  "tls1_P_hash md sec seed olen = P_hash_loop md sec seed (EVP_HMAC md sec seed) olen"

record prf_lib =
  EVP_md5 :: evp_md
  EVP_sha1 :: evp_md

definition tls1_PRF :: "prf_lib \<Rightarrow> byte list \<Rightarrow> byte list \<Rightarrow> int \<Rightarrow> byte list option" where
  "tls1_PRF lib label sec olen = do {
     let slen = length sec;
     let len = slen div 2;
     let S2 = drop len sec;
     let len = len + slen mod 2;
     out1 \<leftarrow> tls1_P_hash (EVP_md5 lib) (take len sec) label olen;
     out2 \<leftarrow> tls1_P_hash (EVP_sha1 lib) (take len S2) label olen;
     Some (map2 (XOR) out1 out2)
   }"

definition openvpn_PRF ::
  "prf_lib \<Rightarrow> (nat \<Rightarrow> byte) \<Rightarrow> byte list \<Rightarrow> byte list \<Rightarrow> byte list \<Rightarrow> byte list \<Rightarrow> session_id option \<Rightarrow> session_id option \<Rightarrow> int \<Rightarrow> byte list option" where
  "openvpn_PRF lib junk secret label client_seed server_seed client_sid server_sid output_len = do {
     let seed = alloc_buf junk (length label + length client_seed + length server_seed + nat (SID_SIZE * 2));
     (ok, seed) \<leftarrow> buf_write seed label (int (length label)); ASSERT ok;
     (ok, seed) \<leftarrow> buf_write seed client_seed (int (length client_seed)); ASSERT ok;
     (ok, seed) \<leftarrow> buf_write seed server_seed (int (length server_seed)); ASSERT ok;
     (ok, seed) \<leftarrow> (case client_sid of Some sid \<Rightarrow> buf_write seed sid SID_SIZE | None \<Rightarrow> Some (True, seed)); ASSERT ok;
     (ok, seed) \<leftarrow> (case server_sid of Some sid \<Rightarrow> buf_write seed sid SID_SIZE | None \<Rightarrow> Some (True, seed)); ASSERT ok;
     bs \<leftarrow> buf_load seed (offset seed) (len seed);
     tls1_PRF lib bs secret output_len
   }"

section \<open>Key contexts\<close>

text \<open>
  OpenSSL sets up a cipher for a key and a direction, with the key length that it uses (or fails), and
  an HMAC for a key.
\<close>

record ctx_lib =
  cipher_setup :: "evp_cipher \<Rightarrow> byte list \<Rightarrow> bool \<Rightarrow> (evp_cipher_ctx \<times> int) option"
  hmac_setup :: "byte list \<Rightarrow> hmac_ctx"

definition init_cipher :: "ctx_lib \<Rightarrow> evp_cipher \<Rightarrow> key \<Rightarrow> key_type \<Rightarrow> bool \<Rightarrow> evp_cipher_ctx option" where
  "init_cipher lib c k kt enc = do {
     kb \<leftarrow> mem_read (key_block k) 0 (uint (cipher_length kt));
     (ctx, n) \<leftarrow> cipher_setup lib c kb enc;
     ASSERT (n \<le> uint (cipher_length kt));
     Some ctx
   }"

definition init_hmac :: "ctx_lib \<Rightarrow> key \<Rightarrow> key_type \<Rightarrow> hmac_ctx option" where
  "init_hmac lib k kt = do {
     kb \<leftarrow> mem_read (key_hmac k) 0 (uint (hmac_length kt));
     let ctx = hmac_setup lib kb;
     ASSERT (HMAC_size ctx \<le> uint (hmac_length kt));
     Some ctx
   }"

abbreviation (input) "DO_ENCRYPT \<equiv> True"
abbreviation (input) "DO_DECRYPT \<equiv> False"

definition init_key_ctx :: "ctx_lib \<Rightarrow> key \<Rightarrow> key_type \<Rightarrow> bool \<Rightarrow> key_ctx option" where
  "init_key_ctx lib k kt enc = do {
     c \<leftarrow> (case kt_cipher kt of
            Some c \<Rightarrow> if uint (cipher_length kt) > 0 then map_option Some (init_cipher lib c k kt enc) else Some None
          | None \<Rightarrow> Some None);
     h \<leftarrow> (if kt_digest kt \<and> uint (hmac_length kt) > 0 then map_option Some (init_hmac lib k kt) else Some None);
     Some \<lparr>ctx_cipher = c, ctx_hmac = h\<rparr>
   }"

definition free_key_ctx :: "key_ctx \<Rightarrow> key_ctx" where
  "free_key_ctx ctx = ctx\<lparr>ctx_cipher := None, ctx_hmac := None\<rparr>"

definition free_key_ctx_bi :: "key_ctx_bi \<Rightarrow> key_ctx_bi" where
  "free_key_ctx_bi ctx = ctx\<lparr>kc_encrypt := free_key_ctx (kc_encrypt ctx), kc_decrypt := free_key_ctx (kc_decrypt ctx)\<rparr>"

section \<open>Key expansion\<close>

record key_source =
  pre_master :: "byte list"
  random1 :: "byte list"
  random2 :: "byte list"

record key_source2 =
  src_client :: key_source
  src_server :: key_source

definition clear_source :: key_source where
  "clear_source = \<lparr>pre_master = replicate 48 0, random1 = replicate 32 0, random2 = replicate 32 0\<rparr>"

definition clear_source2 :: key_source2 where
  "clear_source2 = \<lparr>src_client = clear_source, src_server = clear_source\<rparr>"

definition wf_source :: "key_source \<Rightarrow> bool" where
  "wf_source k \<longleftrightarrow> length (pre_master k) = 48 \<and> length (random1 k) = 32 \<and> length (random2 k) = 32"

text \<open>The libraries that the key exchange uses.\<close>

record tls_lib =
  tl_prf :: prf_lib
  tl_ctx :: ctx_lib
  tl_des :: des_lib

text \<open>The two keys of the expansion, before they are checked.\<close>

definition expand_keys :: "tls_lib \<Rightarrow> (nat \<Rightarrow> byte) \<Rightarrow> key_source2 \<Rightarrow> session_id \<Rightarrow> session_id \<Rightarrow> key2 option" where
  "expand_keys lib junk src client_sid server_sid = do {
     master \<leftarrow> openvpn_PRF (tl_prf lib) junk (pre_master (src_client src)) (ascii ''OpenVPN master secret'')
       (random1 (src_client src)) (random1 (src_server src)) None None 48;
     ks \<leftarrow> openvpn_PRF (tl_prf lib) junk master (ascii ''OpenVPN key expansion'')
       (random2 (src_client src)) (random2 (src_server src)) (Some client_sid) (Some server_sid) 256;
     Some \<lparr>key2_n = 2, key2_keys = [block_key (take 128 ks), block_key (drop 128 ks)]\<rparr>
   }"

text \<open>Fix and check the keys; \<open>Some None\<close> is the exit for a bad key.\<close>

fun check_expansion :: "tls_lib \<Rightarrow> key_type \<Rightarrow> key list \<Rightarrow> key list option option" where
  "check_expansion lib kt [] = Some (Some [])"
| "check_expansion lib kt (k # ks) = do {
     k \<leftarrow> fixup_key (tl_des lib) k kt;
     good \<leftarrow> check_key (tl_des lib) k kt;
     if \<not> good then Some None
     else do {
       ks \<leftarrow> check_expansion lib kt ks;
       Some (map_option (\<lambda>ks. k # ks) ks)
     }
   }"

definition generate_key_expansion ::
  "tls_lib \<Rightarrow> (nat \<Rightarrow> byte) \<Rightarrow> key_type \<Rightarrow> key_source2 \<Rightarrow> session_id \<Rightarrow> session_id \<Rightarrow> bool \<Rightarrow> key_ctx_bi option option" where
  "generate_key_expansion lib junk kt src client_sid server_sid server = do {
     k2 \<leftarrow> expand_keys lib junk src client_sid server_sid;
     r \<leftarrow> check_expansion lib kt (key2_keys k2);
     (case r of
        None \<Rightarrow> Some None
      | Some ks \<Rightarrow> do {
          e \<leftarrow> init_key_ctx (tl_ctx lib) (ks ! (if server then 1 else 0)) kt DO_ENCRYPT;
          d \<leftarrow> init_key_ctx (tl_ctx lib) (ks ! (if server then 0 else 1)) kt DO_DECRYPT;
          Some (Some \<lparr>kc_encrypt = e, kc_decrypt = d\<rparr>)
        })
   }"

section \<open>The function of RFC 2246\<close>

text \<open>What the code relies on of a digest: it has a positive size and every HMAC has that size.\<close>

definition md_ok :: "evp_md \<Rightarrow> bool" where
  "md_ok md \<longleftrightarrow> 0 < EVP_MD_size md \<and> (\<forall>k d. length (EVP_HMAC md k d) = nat (EVP_MD_size md))"

fun rfc_A :: "evp_md \<Rightarrow> byte list \<Rightarrow> byte list \<Rightarrow> nat \<Rightarrow> byte list" where
  "rfc_A md sec seed 0 = seed"
| "rfc_A md sec seed (Suc i) = EVP_HMAC md sec (rfc_A md sec seed i)"

definition rfc_P_hash :: "evp_md \<Rightarrow> byte list \<Rightarrow> byte list \<Rightarrow> nat \<Rightarrow> byte list" where
  "rfc_P_hash md sec seed n = take n (concat (map (\<lambda>i. EVP_HMAC md sec (rfc_A md sec seed i @ seed)) [1..<Suc n]))"

definition rfc_PRF :: "prf_lib \<Rightarrow> byte list \<Rightarrow> byte list \<Rightarrow> nat \<Rightarrow> byte list" where
  "rfc_PRF lib sec seed n = (let L_S = (length sec + 1) div 2 in
     map2 (XOR) (rfc_P_hash (EVP_md5 lib) (take L_S sec) seed n)
       (rfc_P_hash (EVP_sha1 lib) (drop (length sec - L_S) sec) seed n))"

text \<open>A stream of blocks of \<open>c\<close> bytes, cut after \<open>n\<close> bytes, block by block.\<close>

lemma blocks_length: "\<forall>i. length (f i) = c \<Longrightarrow> length (concat (map f is)) = c * length is"
  by (induction "is") simp_all

lemma blocks_step:
  assumes "\<forall>i. length (f i) = c" "0 < c" "c < n"
  shows "take n (concat (map f [i..<i + n])) = f i @ take (n - c) (concat (map f [Suc i..<Suc i + (n - c)]))"
proof -
  have "[i..<i + n] = i # [Suc i..<Suc i + (n - c)] @ [Suc i + (n - c)..<i + n]"
  proof -
    have "[Suc i..<i + n] = [Suc i..<Suc i + (n - c)] @ [Suc i + (n - c)..<Suc i + (n - c) + (c - 1)]"
      using upt_add_eq_append[of "Suc i" "Suc i + (n - c)" "c - 1"] assms(2,3) by (simp del: upt_Suc)
    moreover have "Suc i + (n - c) + (c - 1) = i + n" using assms(2,3) by simp
    ultimately show ?thesis using assms(3) by (simp add: upt_conv_Cons del: upt_Suc)
  qed
  then have "take n (concat (map f [i..<i + n])) =
      f i @ take (n - c) (concat (map f [Suc i..<Suc i + (n - c)]) @ concat (map f [Suc i + (n - c)..<i + n]))"
    using assms by (simp del: upt_Suc)
  moreover have "n - c \<le> length (concat (map f [Suc i..<Suc i + (n - c)]))"
    using assms(2) by (simp add: blocks_length[OF assms(1)] del: upt_Suc)
  ultimately show ?thesis by simp
qed

lemma blocks_last:
  assumes "\<forall>i. length (f i) = c" "n \<le> c"
  shows "take n (concat (map f [i..<i + n])) = take n (f i)"
proof (cases n)
  case (Suc m)
  then have "[i..<i + n] = i # [Suc i..<i + n]" by (simp add: upt_conv_Cons)
  then show ?thesis using assms by simp
qed simp

lemma P_hash_loop_blocks:
  assumes md: "md_ok md"
  shows "P_hash_loop md sec seed (rfc_A md sec seed i) (int n) =
    Some (take n (concat (map (\<lambda>i. EVP_HMAC md sec (rfc_A md sec seed i @ seed)) [i..<i + n])))"
proof (induction n arbitrary: i rule: less_induct)
  case (less n)
  let ?f = "\<lambda>i. EVP_HMAC md sec (rfc_A md sec seed i @ seed)" and ?c = "nat (EVP_MD_size md)"
  have c: "\<forall>i. length (?f i) = ?c" "0 < ?c" using md by (simp_all add: md_ok_def)
  show ?case
  proof (cases "?c < n")
    case True
    have "int n - int ?c = int (n - ?c)" using True by simp
    moreover have "n - ?c < n" using True c(2) by simp
    ultimately have "P_hash_loop md sec seed (rfc_A md sec seed (Suc i)) (int n - int ?c) =
        Some (take (n - ?c) (concat (map ?f [Suc i..<Suc i + (n - ?c)])))"
      using less[of "n - ?c" "Suc i"] by (simp only:)
    then show ?thesis using True c blocks_step[OF c True]
      by (simp add: P_hash_loop.simps[of md sec seed "rfc_A md sec seed i"] del: upt_Suc)
  next
    case False
    then have "\<not> EVP_MD_size md < int n" using c(2) by linarith
    then show ?thesis using False c blocks_last[OF c(1), of n i]
      by (simp add: P_hash_loop.simps[of md sec seed "rfc_A md sec seed i"] src_bytes_def del: upt_Suc)
  qed
qed

lemma tls1_P_hash_rfc: "md_ok md \<Longrightarrow> tls1_P_hash md sec seed (int n) = Some (rfc_P_hash md sec seed n)"
  using P_hash_loop_blocks[of md sec seed 1 n] by (simp add: tls1_P_hash_def rfc_P_hash_def)

lemma tls1_PRF_rfc:
  assumes "md_ok (EVP_md5 lib)" "md_ok (EVP_sha1 lib)"
  shows "tls1_PRF lib seed sec (int n) = Some (rfc_PRF lib sec seed n)"
proof -
  have half: "length sec div 2 + length sec mod 2 = (length sec + 1) div 2"
    "length sec div 2 = length sec - (length sec + 1) div 2" by arith+
  have "take (length sec div 2 + length sec mod 2) (drop (length sec div 2) sec) = drop (length sec div 2) sec"
    by (rule take_all) (simp, arith)
  then show ?thesis using assms half by (simp add: tls1_PRF_def tls1_P_hash_rfc rfc_PRF_def Let_def)
qed

definition sid_bytes :: "session_id option \<Rightarrow> byte list" where
  "sid_bytes sid = (case sid of None \<Rightarrow> [] | Some s \<Rightarrow> s)"

definition sid_ok :: "session_id option \<Rightarrow> bool" where
  "sid_ok sid \<longleftrightarrow> (case sid of None \<Rightarrow> True | Some s \<Rightarrow> wf_sid s)"

lemma write_sid_fits:
  assumes "sid_ok sid" "8 \<le> length post"
  shows "\<exists>post'. (case sid of Some s \<Rightarrow> buf_write (mk_buf pre c post) s SID_SIZE | None \<Rightarrow> Some (True, mk_buf pre c post)) =
    Some (True, mk_buf pre (c @ sid_bytes sid) post') \<and> length post \<le> length post' + 8"
proof (cases sid)
  case (Some s)
  then have "length s = 8" using assms(1) by (simp add: sid_ok_def wf_sid_def)
  then show ?thesis using Some assms(2) buf_write_prefix[of 8 post s pre c]
    by (auto simp: sid_bytes_def SID_SIZE_def)
next
  case None
  then show ?thesis by (intro exI[of _ post]) (simp add: sid_bytes_def)
qed

lemma openvpn_PRF_rfc:
  assumes "md_ok (EVP_md5 lib)" "md_ok (EVP_sha1 lib)" "sid_ok client_sid" "sid_ok server_sid"
  shows "openvpn_PRF lib junk secret label client_seed server_seed client_sid server_sid (int n) =
    Some (rfc_PRF lib secret (label @ client_seed @ server_seed @ sid_bytes client_sid @ sid_bytes server_sid) n)"
proof -
  let ?n = "length label + length client_seed + length server_seed + 16"
  obtain p0 where p0: "alloc_buf junk ?n = mk_buf [] [] p0" "length p0 = ?n"
    by (simp add: alloc_buf_def mk_buf_def Let_def)
  let ?p1 = "drop (length label) p0"
  let ?p2 = "drop (length client_seed) ?p1"
  let ?p3 = "drop (length server_seed) ?p2"
  have w: "buf_write (mk_buf [] [] p0) label (int (length label)) = Some (True, mk_buf [] label ?p1)"
    "buf_write (mk_buf [] label ?p1) client_seed (int (length client_seed)) = Some (True, mk_buf [] (label @ client_seed) ?p2)"
    "buf_write (mk_buf [] (label @ client_seed) ?p2) server_seed (int (length server_seed)) =
      Some (True, mk_buf [] ((label @ client_seed) @ server_seed) ?p3)"
    using buf_write_prefix[of "length label" p0 label "[]" "[]"] buf_write_prefix[of "length client_seed" ?p1 client_seed "[]" label]
      buf_write_prefix[of "length server_seed" ?p2 server_seed "[]" "label @ client_seed"] p0(2) by simp_all
  have l3: "length ?p3 = 16" using p0(2) by simp
  obtain p4 where p4: "(case client_sid of Some s \<Rightarrow> buf_write (mk_buf [] ((label @ client_seed) @ server_seed) ?p3) s SID_SIZE
      | None \<Rightarrow> Some (True, mk_buf [] ((label @ client_seed) @ server_seed) ?p3)) =
      Some (True, mk_buf [] (((label @ client_seed) @ server_seed) @ sid_bytes client_sid) p4)" "8 \<le> length p4"
    using write_sid_fits[OF assms(3), of ?p3 "[]"] unfolding l3 by fastforce
  obtain p5 where p5: "(case server_sid of Some s \<Rightarrow> buf_write (mk_buf [] (((label @ client_seed) @ server_seed) @ sid_bytes client_sid) p4) s SID_SIZE
      | None \<Rightarrow> Some (True, mk_buf [] (((label @ client_seed) @ server_seed) @ sid_bytes client_sid) p4)) =
      Some (True, mk_buf [] ((((label @ client_seed) @ server_seed) @ sid_bytes client_sid) @ sid_bytes server_sid) p5)"
    using write_sid_fits[OF assms(4) p4(2), of "[]"] by blast
  have size: "length label + length client_seed + length server_seed + nat (SID_SIZE * 2) = ?n" by (simp add: SID_SIZE_def)
  let ?seed = "(((label @ client_seed) @ server_seed) @ sid_bytes client_sid) @ sid_bytes server_sid"
  have load: "buf_load (mk_buf [] ?seed p5) (offset (mk_buf [] ?seed p5)) (len (mk_buf [] ?seed p5)) = Some ?seed"
    using buf_load_content[of "[]" ?seed p5] by (simp only: mk_buf_sel)
  show ?thesis
    by (simp only: openvpn_PRF_def Let_def size p0(1) w p4(1) p5 load bind.bind_lunit prod.case ASSERT_simps(1)
        tls1_PRF_rfc[OF assms(1,2)]) (simp only: append_assoc)
qed

text \<open>
  C15: the key material comes from the pseudo-random function of TLS.  For digests that give HMACs of their
  size, openvpn_PRF returns for every secret and every output length what RFC 2246 defines for
  the label followed by the seeds and the session identifiers, and its seed buffer is large enough.
\<close>

theorem openvpn_PRF_is_tls_PRF:
  assumes "md_ok (EVP_md5 lib)" "md_ok (EVP_sha1 lib)" "sid_ok client_sid" "sid_ok server_sid"
  shows "openvpn_PRF lib junk secret label client_seed server_seed client_sid server_sid (int n) =
    Some (rfc_PRF lib secret (label @ client_seed @ server_seed @ sid_bytes client_sid @ sid_bytes server_sid) n)"
  using openvpn_PRF_rfc[OF assms] .

text \<open>A digest that is long enough, for the witnesses.\<close>

definition toy_md :: evp_md where
  "toy_md = \<lparr>EVP_MD_size = 2, EVP_HMAC = (\<lambda>k d. [foldl (+) 1 k, foldl (+) 3 d])\<rparr>"

theorem openvpn_PRF_is_tls_PRF_witness:
  "openvpn_PRF \<lparr>EVP_md5 = toy_md, EVP_sha1 = toy_md\<rparr> (\<lambda>_. 9) [1, 2, 3] [4] [5] [6] None (Some [1, 2, 3, 4, 5, 6, 7, 8]) 5 =
    Some (rfc_PRF \<lparr>EVP_md5 = toy_md, EVP_sha1 = toy_md\<rparr> [1, 2, 3] [4, 5, 6, 1, 2, 3, 4, 5, 6, 7, 8] 5)"
  using openvpn_PRF_is_tls_PRF[of "\<lparr>EVP_md5 = toy_md, EVP_sha1 = toy_md\<rparr>" None "Some [1, 2, 3, 4, 5, 6, 7, 8]"
      "\<lambda>_. 9" "[1, 2, 3]" "[4]" "[5]" "[6]" 5]
  by (simp add: md_ok_def toy_md_def sid_ok_def wf_sid_def sid_bytes_def)

end
