(* ===== verification/Tls_State.thy ===== *)
theory Tls_State
  imports Tls_Prf Reliable
begin

text \<open>
  The state of the TLS layer, ssl.h and ssl.c: key states, sessions and the object that holds three
  sessions, with the operations that make, reset, move and free them.  The SSL objects of OpenSSL
  are a type variable with the operations that the code calls.
\<close>

section \<open>Data\<close>

abbreviation (input) "S_ERROR \<equiv> (-1 :: int)"
abbreviation (input) "S_UNDEF \<equiv> (0 :: int)"
abbreviation (input) "S_INITIAL \<equiv> (1 :: int)"
abbreviation (input) "S_PRE_START \<equiv> (2 :: int)"
abbreviation (input) "S_START \<equiv> (3 :: int)"
abbreviation (input) "S_SENT_KEY \<equiv> (4 :: int)"
abbreviation (input) "S_GOT_KEY \<equiv> (5 :: int)"
abbreviation (input) "S_ACTIVE \<equiv> (6 :: int)"
abbreviation (input) "S_NORMAL \<equiv> (7 :: int)"

abbreviation (input) "P_CONTROL_HARD_RESET_CLIENT_V1 \<equiv> (1 :: int)"
abbreviation (input) "P_CONTROL_HARD_RESET_SERVER_V1 \<equiv> (2 :: int)"
abbreviation (input) "P_CONTROL_SOFT_RESET_V1 \<equiv> (3 :: int)"
abbreviation (input) "P_CONTROL_V1 \<equiv> (4 :: int)"
abbreviation (input) "P_DATA_V1 \<equiv> (6 :: int)"
abbreviation (input) "P_CONTROL_HARD_RESET_CLIENT_V2 \<equiv> (7 :: int)"
abbreviation (input) "P_CONTROL_HARD_RESET_SERVER_V2 \<equiv> (8 :: int)"
abbreviation (input) "P_FIRST_OPCODE \<equiv> (1 :: int)"
abbreviation (input) "P_LAST_OPCODE \<equiv> (8 :: int)"
abbreviation (input) "TLS_RELIABLE_N_SEND_BUFFERS \<equiv> (4 :: int)"
abbreviation (input) "TLS_RELIABLE_N_REC_BUFFERS \<equiv> (8 :: int)"
abbreviation (input) "PLAINTEXT_BUFFER_SIZE \<equiv> (1024 :: nat)"
abbreviation (input) "TLS_OPTIONS_LEN \<equiv> (512 :: int)"
abbreviation (input) "USER_PASS_LEN \<equiv> (128 :: int)"
abbreviation (input) "KEY_METHOD_MASK \<equiv> (0x0F :: int)"

record sockaddr_in =
  sin_addr :: u32
  sin_port :: u16

definition addr_defined :: "sockaddr_in \<Rightarrow> bool" where
  "addr_defined a \<longleftrightarrow> sin_addr a \<noteq> 0"

definition addr_port_match :: "sockaddr_in \<Rightarrow> sockaddr_in \<Rightarrow> bool" where
  "addr_port_match a1 a2 \<longleftrightarrow> sin_addr a1 = sin_addr a2 \<and> sin_port a1 = sin_port a2"

definition clear_addr :: sockaddr_in where
  "clear_addr = \<lparr>sin_addr = 0, sin_port = 0\<rparr>"

record 'ssl key_state =
  ks_state :: int
  ks_key_id :: int
  ks_ssl :: "'ssl option"
  ks_established :: time_t
  ks_must_negotiate :: time_t
  ks_must_die :: time_t
  ks_initial_opcode :: int
  ks_session_id_remote :: session_id
  ks_remote_addr :: sockaddr_in
  ks_packet_id :: packet_id
  ks_key :: key_ctx_bi
  ks_key_src :: key_source2
  ks_plaintext_read_buf :: buffer
  ks_plaintext_write_buf :: buffer
  ks_ack_write_buf :: buffer
  ks_send_reliable :: reliable
  ks_rec_reliable :: reliable
  ks_rec_ack :: reliable_ack
  ks_n_bytes :: int
  ks_n_packets :: int
  ks_authenticated :: bool

record tls_options =
  to_key_type :: key_type
  to_server :: bool
  to_local_options :: "byte list"
  to_remote_options :: "byte list"
  to_key_method :: int
  to_replay :: bool
  to_single_session :: bool
  to_disable_occ :: bool
  to_transition_window :: int
  to_handshake_window :: int
  to_packet_timeout :: int
  to_renegotiate_bytes :: int
  to_renegotiate_packets :: int
  to_renegotiate_seconds :: int
  to_crypto_flags_and :: u32
  to_crypto_flags_or :: u32
  to_replay_window :: int
  to_replay_time :: int
  to_tls_auth :: crypto_options
  to_tls_auth_key :: key_ctx_bi
  to_frame :: frame
  to_auth_user_pass_verify_script :: bool
  to_auth_user_pass_verify_plugin :: bool
  to_username_as_common_name :: bool
  to_client_config_dir_exclusive :: "byte list option"
  to_ns_cert_type :: int
  to_verify_x509name :: "byte list option"
  to_verify_plugin :: bool
  to_verify_command :: bool
  to_crl_file :: bool

record 'ssl tls_session =
  ts_burst :: bool
  ts_tls_auth :: crypto_options
  ts_initial_opcode :: int
  ts_session_id :: session_id
  ts_key_id :: int
  ts_common_name :: "byte list option"
  ts_verified :: bool
  ts_untrusted_sockaddr :: sockaddr_in
  ts_primary :: "'ssl key_state"
  ts_lame_duck :: "'ssl key_state"

record 'ssl tls_multi =
  tm_opt :: tls_options
  tm_pid_persist :: "packet_id_persist option"
  tm_save_ks :: "nat option"
  tm_n_sessions :: int
  tm_n_hard_errors :: int
  tm_n_soft_errors :: int
  tm_locked_cn :: "byte list option"
  tm_session :: "'ssl tls_session list"

abbreviation (input) "TM_ACTIVE \<equiv> (0 :: nat)"
abbreviation (input) "TM_UNTRUSTED \<equiv> (1 :: nat)"
abbreviation (input) "TM_LAME_DUCK \<equiv> (2 :: nat)"
abbreviation (input) "TM_SIZE \<equiv> (3 :: nat)"

text \<open>The key states in the order of multi->key_scan.\<close>

definition key_scan :: "'ssl tls_multi \<Rightarrow> 'ssl key_state list" where
  "key_scan m = [ts_primary (tm_session m ! TM_ACTIVE), ts_lame_duck (tm_session m ! TM_ACTIVE),
     ts_lame_duck (tm_session m ! TM_LAME_DUCK)]"

definition upd_session :: "nat \<Rightarrow> ('ssl tls_session \<Rightarrow> 'ssl tls_session) \<Rightarrow> 'ssl tls_multi \<Rightarrow> 'ssl tls_multi" where
  "upd_session i f m = m\<lparr>tm_session := (tm_session m)[i := f (tm_session m ! i)]\<rparr>"

definition upd_key_scan :: "nat \<Rightarrow> ('ssl key_state \<Rightarrow> 'ssl key_state) \<Rightarrow> 'ssl tls_multi \<Rightarrow> 'ssl tls_multi" where
  "upd_key_scan i f m =
     (if i = 0 then upd_session TM_ACTIVE (ts_primary_update f) m
      else if i = 1 then upd_session TM_ACTIVE (ts_lame_duck_update f) m
      else upd_session TM_LAME_DUCK (ts_lame_duck_update f) m)"

definition DECRYPT_KEY_ENABLED :: "'ssl tls_multi \<Rightarrow> 'ssl key_state \<Rightarrow> bool" where
  "DECRYPT_KEY_ENABLED m ks \<longleftrightarrow> ks_state ks \<ge> S_GOT_KEY - (if to_server (tm_opt m) then 1 else 0)"

definition is_hard_reset :: "int \<Rightarrow> int \<Rightarrow> bool" where
  "is_hard_reset op key_method \<longleftrightarrow>
     ((key_method = 0 \<or> key_method = 1) \<and>
        (op = P_CONTROL_HARD_RESET_CLIENT_V1 \<or> op = P_CONTROL_HARD_RESET_SERVER_V1)) \<or>
     ((key_method = 0 \<or> key_method \<ge> 2) \<and>
        (op = P_CONTROL_HARD_RESET_CLIENT_V2 \<or> op = P_CONTROL_HARD_RESET_SERVER_V2))"

section \<open>Key states\<close>

text \<open>CLEAR (*ks).\<close>

definition clear_rel :: reliable where
  "clear_rel = \<lparr>rel_size = 0, initial_timeout = 0, rel_id = 0, rel_offset = 0, rel_array = []\<rparr>"

definition clear_key_ctx_bi :: key_ctx_bi where
  "clear_key_ctx_bi = \<lparr>kc_encrypt = \<lparr>ctx_cipher = None, ctx_hmac = None\<rparr>, kc_decrypt = \<lparr>ctx_cipher = None, ctx_hmac = None\<rparr>\<rparr>"

definition clear_key_state :: "'ssl key_state" where
  "clear_key_state = \<lparr>ks_state = S_UNDEF, ks_key_id = 0, ks_ssl = None, ks_established = 0, ks_must_negotiate = 0,
     ks_must_die = 0, ks_initial_opcode = 0, ks_session_id_remote = x_session_id_zero, ks_remote_addr = clear_addr,
     ks_packet_id = packet_id_clear, ks_key = clear_key_ctx_bi, ks_key_src = clear_source2,
     ks_plaintext_read_buf = clear_buf, ks_plaintext_write_buf = clear_buf, ks_ack_write_buf = clear_buf,
     ks_send_reliable = clear_rel, ks_rec_reliable = clear_rel, ks_rec_ack = \<lparr>ack_len = 0, ack_ids = replicate 8 0\<rparr>,
     ks_n_bytes = 0, ks_n_packets = 0, ks_authenticated = False\<rparr>"

section \<open>The environment\<close>

text \<open>
  A certificate of the peer as verify_callback sees it: the verdict of OpenSSL, its place in the chain, what
  X509_NAME_oneline makes of its subject, the nsCertType bits when the certificate has them, issuer and serial number.
\<close>

record x509 =
  preverify_ok :: bool
  error_depth :: int
  x509_oneline :: "byte list"
  x509_nscert :: "int option"
  x509_issuer :: "byte list"
  x509_serial :: int

text \<open>
  What the code asks of an SSL object: SSL_new makes one for a server or a client.  BIO_write
  gives the number of bytes taken, BIO_read the bytes that it returns; a negative number and \<^const>\<open>None\<close> are
  errors, with the answer of BIO_should_retry.  During a call OpenSSL may check certificates of the peer: the first
  argument tells whether verify_callback accepts a certificate, and the certificates on which it was called are part of the result.
\<close>

record 'ssl ssl_ops =
  SSL_new :: "bool \<Rightarrow> 'ssl"
  BIO_write_plaintext :: "(x509 \<Rightarrow> bool) \<Rightarrow> 'ssl \<Rightarrow> byte list \<Rightarrow> (int \<times> bool) \<times> x509 list \<times> 'ssl"
  BIO_write_ciphertext :: "(x509 \<Rightarrow> bool) \<Rightarrow> 'ssl \<Rightarrow> byte list \<Rightarrow> (int \<times> bool) \<times> x509 list \<times> 'ssl"
  BIO_read_plaintext :: "(x509 \<Rightarrow> bool) \<Rightarrow> 'ssl \<Rightarrow> int \<Rightarrow> (byte list option \<times> bool) \<times> x509 list \<times> 'ssl"
  BIO_read_ciphertext :: "(x509 \<Rightarrow> bool) \<Rightarrow> 'ssl \<Rightarrow> int \<Rightarrow> (byte list option \<times> bool) \<times> x509 list \<times> 'ssl"

text \<open>
  The answers of the plug-ins and scripts, of the file system and of the revocation list (its issuer and the revoked serial
  numbers, \<^const>\<open>None\<close> when it cannot be read).
\<close>

record 'ssl tls_env =
  te_junk :: "nat \<Rightarrow> byte"
  te_lib :: tls_lib
  te_ssl :: "'ssl ssl_ops"
  te_plugin_auth :: "byte list \<Rightarrow> byte list \<Rightarrow> bool"
  te_script_auth :: "byte list \<Rightarrow> byte list \<Rightarrow> bool"
  te_test_file :: "byte list \<Rightarrow> bool"
  te_verify_plugin :: "int \<Rightarrow> byte list \<Rightarrow> bool"
  te_verify_script :: "int \<Rightarrow> byte list \<Rightarrow> bool option"
  te_crl :: "(byte list \<times> int list) option"

section \<open>Key states and sessions\<close>

definition key_state_init ::
  "'ssl tls_env \<Rightarrow> tls_options \<Rightarrow> 'ssl tls_session \<Rightarrow> ('ssl tls_session \<times> 'ssl key_state) option" where
  "key_state_init env opt session = do {
     let junk = te_junk env;
     let ks = clear_key_state\<lparr>ks_ssl := Some (SSL_new (te_ssl env) (to_server opt)), ks_initial_opcode := ts_initial_opcode session,
       ks_state := S_INITIAL, ks_key_id := ts_key_id session\<rparr>;
     let key_id = (ts_key_id session + 1) AND 7;
     let key_id = (if key_id = 0 then 1 else key_id);
     let session = session\<lparr>ts_initial_opcode := P_CONTROL_SOFT_RESET_V1, ts_key_id := key_id\<rparr>;
     let f = to_frame opt;
     send \<leftarrow> reliable_init junk (BUF_SIZE f) (frame_headroom f 0) TLS_RELIABLE_N_SEND_BUFFERS;
     rcv \<leftarrow> reliable_init junk (BUF_SIZE f) (frame_headroom f 0) TLS_RELIABLE_N_REC_BUFFERS;
     pid \<leftarrow> packet_id_init (to_replay_window opt) (to_replay_time opt);
     Some (session, ks\<lparr>ks_plaintext_read_buf := alloc_buf junk PLAINTEXT_BUFFER_SIZE,
       ks_plaintext_write_buf := alloc_buf junk PLAINTEXT_BUFFER_SIZE,
       ks_ack_write_buf := alloc_buf junk (nat (BUF_SIZE f)),
       ks_send_reliable := reliable_set_timeout send (to_packet_timeout opt),
       ks_rec_reliable := rcv, ks_packet_id := pid\<rparr>)
   }"

definition key_state_free :: "'ssl key_state \<Rightarrow> bool \<Rightarrow> 'ssl key_state" where
  "key_state_free ks clear =
     (if clear then clear_key_state
      else ks\<lparr>ks_state := S_UNDEF, ks_ssl := None, ks_key := free_key_ctx_bi (ks_key ks),
        ks_plaintext_read_buf := free_buf (ks_plaintext_read_buf ks), ks_plaintext_write_buf := free_buf (ks_plaintext_write_buf ks),
        ks_ack_write_buf := free_buf (ks_ack_write_buf ks), ks_send_reliable := clear_rel, ks_rec_reliable := clear_rel,
        ks_packet_id := packet_id_free (ks_packet_id ks)\<rparr>)"

definition key_state_soft_reset :: "'ssl tls_env \<Rightarrow> tls_options \<Rightarrow> time_t \<Rightarrow> 'ssl tls_session \<Rightarrow> 'ssl tls_session option" where
  "key_state_soft_reset env opt now session = do {
     let lame = (ts_primary session)\<lparr>ks_must_die := now + to_transition_window opt\<rparr>;
     let session = session\<lparr>ts_lame_duck := lame\<rparr>;
     (session, ks) \<leftarrow> key_state_init env opt session;
     Some (session\<lparr>ts_primary := ks\<lparr>ks_session_id_remote := ks_session_id_remote lame, ks_remote_addr := ks_remote_addr lame\<rparr>\<rparr>)
   }"

definition clear_crypto_options :: crypto_options where
  "clear_crypto_options = \<lparr>co_key_ctx_bi = None, co_packet_id = None, co_pid_persist = None, co_flags = 0\<rparr>"

definition clear_session :: "'ssl tls_session" where
  "clear_session = \<lparr>ts_burst = False, ts_tls_auth = clear_crypto_options, ts_initial_opcode = 0, ts_session_id = x_session_id_zero,
     ts_key_id = 0, ts_common_name = None, ts_verified = False, ts_untrusted_sockaddr = clear_addr,
     ts_primary = clear_key_state, ts_lame_duck = clear_key_state\<rparr>"

text \<open>
  The loop that draws session identifiers until one is defined; \<open>rnd\<close> are the random bytes to come.
\<close>

fun session_id_draw :: "byte list list \<Rightarrow> session_id \<Rightarrow> session_id option" where
  "session_id_draw rnd sid =
     (if session_id_defined sid then Some sid
      else (case rnd of [] \<Rightarrow> None | r # rnd \<Rightarrow> session_id_draw rnd r))"

definition tls_session_init ::
  "'ssl tls_env \<Rightarrow> tls_options \<Rightarrow> packet_id_persist option \<Rightarrow> byte list list \<Rightarrow> 'ssl tls_session option" where
  "tls_session_init env opt persist rnd = do {
     let session = clear_session;
     sid \<leftarrow> session_id_draw rnd (ts_session_id session);
     ASSERT (to_key_method opt \<ge> 1);
     let op = (if to_key_method opt = 1
               then (if to_server opt then P_CONTROL_HARD_RESET_SERVER_V1 else P_CONTROL_HARD_RESET_CLIENT_V1)
               else (if to_server opt then P_CONTROL_HARD_RESET_SERVER_V2 else P_CONTROL_HARD_RESET_CLIENT_V2));
     pid \<leftarrow> packet_id_init (to_replay_window opt) (to_replay_time opt);
     let pid = (case persist of Some p \<Rightarrow> packet_id_persist_load_obj p pid | None \<Rightarrow> pid);
     let session = session\<lparr>ts_session_id := sid, ts_initial_opcode := op,
       ts_tls_auth := (to_tls_auth opt)\<lparr>co_packet_id := Some pid\<rparr>\<rparr>;
     (session, ks) \<leftarrow> key_state_init env opt session;
     Some (session\<lparr>ts_primary := ks\<rparr>)
   }"

definition tls_session_free :: "'ssl tls_session \<Rightarrow> bool \<Rightarrow> 'ssl tls_session" where
  "tls_session_free session clear =
     (if clear then clear_session
      else session\<lparr>ts_tls_auth := (ts_tls_auth session)\<lparr>co_packet_id := map_option packet_id_free (co_packet_id (ts_tls_auth session))\<rparr>,
        ts_primary := key_state_free (ts_primary session) False, ts_lame_duck := key_state_free (ts_lame_duck session) False\<rparr>)"

definition move_session ::
  "'ssl tls_env \<Rightarrow> 'ssl tls_multi \<Rightarrow> nat \<Rightarrow> nat \<Rightarrow> bool \<Rightarrow> byte list list \<Rightarrow> 'ssl tls_multi option" where
  "move_session env m dest src reinit_src rnd = do {
     ASSERT (src \<noteq> dest);
     ASSERT (src < TM_SIZE);
     ASSERT (dest < TM_SIZE);
     let m = upd_session dest (\<lambda>_. tm_session m ! src) m;
     session \<leftarrow> (if reinit_src then tls_session_init env (tm_opt m) (tm_pid_persist m) rnd else Some clear_session);
     Some (upd_session src (\<lambda>_. session) m)
   }"

definition reset_session :: "'ssl tls_env \<Rightarrow> 'ssl tls_multi \<Rightarrow> nat \<Rightarrow> byte list list \<Rightarrow> 'ssl tls_multi option" where
  "reset_session env m i rnd = do {
     session \<leftarrow> tls_session_init env (tm_opt m) (tm_pid_persist m) rnd;
     Some (upd_session i (\<lambda>_. session) m)
   }"

definition compute_earliest_wakeup :: "int \<Rightarrow> int \<Rightarrow> int" where
  "compute_earliest_wakeup earliest seconds_from_now =
     (let earliest = (if seconds_from_now < earliest then seconds_from_now else earliest)
      in if earliest < 0 then 0 else earliest)"

definition lame_duck_must_die :: "time_t \<Rightarrow> 'ssl tls_session \<Rightarrow> int \<Rightarrow> (bool \<times> int) option" where
  "lame_duck_must_die now session wakeup = (let lame = ts_lame_duck session in
     if ks_state lame \<ge> S_INITIAL then do {
       ASSERT (ks_must_die lame \<noteq> 0);
       Some (if now < ks_must_die lame then (False, compute_earliest_wakeup wakeup (ks_must_die lame - now)) else (True, wakeup))
     } else Some (ks_state lame = S_ERROR, wakeup))"

definition tls_multi_init :: "tls_options \<Rightarrow> packet_id_persist option \<Rightarrow> 'ssl tls_multi" where
  "tls_multi_init opt persist = \<lparr>tm_opt = opt\<lparr>to_tls_auth := (to_tls_auth opt)\<lparr>co_key_ctx_bi := Some (to_tls_auth_key opt)\<rparr>\<rparr>, tm_pid_persist = persist, tm_save_ks = None, tm_n_sessions = 0,
     tm_n_hard_errors = 0, tm_n_soft_errors = 0, tm_locked_cn = None, tm_session = replicate TM_SIZE clear_session\<rparr>"

definition tls_adjust_frame_parameters :: "frame \<Rightarrow> frame" where
  "tls_adjust_frame_parameters f = frame_add_to_extra_frame f 1"

definition tls_init_control_channel_frame_parameters :: "frame \<Rightarrow> frame \<Rightarrow> frame option" where
  "tls_init_control_channel_frame_parameters data_channel_frame f = do {
     let f = f\<lparr>link_mtu := link_mtu data_channel_frame, extra_link := extra_link data_channel_frame\<rparr>;
     let f = tls_adjust_frame_parameters f;
     let f = reliable_ack_adjust_frame_parameters f 4;
     let f = frame_add_to_extra_frame f (SID_SIZE + 4);
     frame_set_mtu_dynamic f 0 1
   }"

definition tls_multi_init_finalize :: "'ssl tls_env \<Rightarrow> 'ssl tls_multi \<Rightarrow> frame \<Rightarrow> byte list list \<Rightarrow> byte list list \<Rightarrow> 'ssl tls_multi option" where
  "tls_multi_init_finalize env m f rnd1 rnd2 = do {
     f \<leftarrow> tls_init_control_channel_frame_parameters f (to_frame (tm_opt m));
     let m = m\<lparr>tm_opt := (tm_opt m)\<lparr>to_frame := f\<rparr>\<rparr>;
     m \<leftarrow> reset_session env m TM_ACTIVE rnd1;
     if \<not> to_single_session (tm_opt m) then reset_session env m TM_UNTRUSTED rnd2 else Some m
   }"

definition tls_multi_init_set_options :: "'ssl tls_multi \<Rightarrow> byte list \<Rightarrow> byte list \<Rightarrow> 'ssl tls_multi" where
  "tls_multi_init_set_options m loc remote = m\<lparr>tm_opt := (tm_opt m)\<lparr>to_local_options := loc, to_remote_options := remote\<rparr>\<rparr>"

text \<open>The object that checks the first packet of a client in server mode.\<close>

record tls_auth_standalone =
  tas_options :: crypto_options
  tas_frame :: frame

definition tls_auth_standalone_init :: "tls_options \<Rightarrow> tls_auth_standalone" where
  "tls_auth_standalone_init opt = \<lparr>tas_options = clear_crypto_options\<lparr>co_key_ctx_bi := Some (to_tls_auth_key opt),
     co_flags := CO_PACKET_ID_LONG_FORM\<rparr>, tas_frame = to_frame opt\<rparr>"

definition tls_auth_standalone_finalize :: "tls_auth_standalone \<Rightarrow> frame \<Rightarrow> tls_auth_standalone option" where
  "tls_auth_standalone_finalize tas f = do {
     f \<leftarrow> tls_init_control_channel_frame_parameters f (tas_frame tas);
     Some (tas\<lparr>tas_frame := f\<rparr>)
   }"

definition tls_authenticated :: "'ssl tls_multi \<Rightarrow> bool" where
  "tls_authenticated m \<longleftrightarrow> list_ex (\<lambda>ks. DECRYPT_KEY_ENABLED m ks \<and> ks_authenticated ks) (key_scan m)"

definition tls_deauthenticate :: "'ssl tls_multi \<Rightarrow> 'ssl tls_multi" where
  "tls_deauthenticate m = m\<lparr>tm_session := map (\<lambda>s. s\<lparr>ts_primary := (ts_primary s)\<lparr>ks_authenticated := False\<rparr>,
     ts_lame_duck := (ts_lame_duck s)\<lparr>ks_authenticated := False\<rparr>\<rparr>) (tm_session m)\<rparr>"

definition set_common_name :: "'ssl tls_session \<Rightarrow> byte list option \<Rightarrow> 'ssl tls_session" where
  "set_common_name session cn = session\<lparr>ts_common_name := cn\<rparr>"

definition tls_set_common_name :: "'ssl tls_multi \<Rightarrow> byte list option \<Rightarrow> 'ssl tls_multi" where
  "tls_set_common_name m cn = upd_session TM_ACTIVE (\<lambda>s. set_common_name s cn) m"

definition tls_common_name :: "'ssl tls_multi \<Rightarrow> bool \<Rightarrow> byte list option" where
  "tls_common_name m null = (case ts_common_name (tm_session m ! TM_ACTIVE) of
     Some cn \<Rightarrow> if cn \<noteq> [] then Some cn else if null then None else Some (ascii ''UNDEF'')
   | None \<Rightarrow> if null then None else Some (ascii ''UNDEF''))"

definition tls_lock_common_name :: "'ssl tls_multi \<Rightarrow> 'ssl tls_multi" where
  "tls_lock_common_name m = (case (ts_common_name (tm_session m ! TM_ACTIVE), tm_locked_cn m) of
     (Some cn, None) \<Rightarrow> m\<lparr>tm_locked_cn := Some cn\<rparr> | _ \<Rightarrow> m)"

end
