(* ===== verification/Key_Method.thy ===== *)
theory Key_Method
  imports Tls_State Buffer_Safety
begin

text \<open>
  The messages of the two key methods on the control channel, ssl.c: strings, key sources, and the
  writers and readers with the authentication of the peer.  An outer \<^const>\<open>None\<close> is an abort.
\<close>

section \<open>Strings\<close>

text \<open>A C string is given without its terminating zero.\<close>

definition write_string :: "buffer \<Rightarrow> byte list \<Rightarrow> int \<Rightarrow> (bool \<times> buffer) option" where
  "write_string b str maxlen = (let n = int (length str) + 1 in
     if n < 1 \<or> (maxlen \<ge> 0 \<and> n > maxlen) then Some (False, b)
     else do {
       (ok, b) \<leftarrow> buf_write_u16 b n;
       if \<not> ok then Some (False, b) else buf_write b (str @ [0]) n
     })"

definition read_string :: "buffer \<Rightarrow> int \<Rightarrow> (byte list option \<times> buffer) option" where
  "read_string b cap = do {
     (n, b) \<leftarrow> buf_read_u16 b;
     if n < 1 \<or> n > cap then Some (None, b)
     else do {
       (s, b) \<leftarrow> buf_read b n;
       Some (map_option (\<lambda>s. takeWhile (\<lambda>c. c \<noteq> 0) (take (nat n - 1) s)) s, b)
     }
   }"

section \<open>Key sources\<close>

definition random_bytes_to_buf :: "buffer \<Rightarrow> byte list \<Rightarrow> int \<Rightarrow> (bool \<times> byte list \<times> buffer) option" where
  "random_bytes_to_buf b rnd outlen = do {
     out \<leftarrow> src_bytes rnd outlen;
     (ok, b) \<leftarrow> buf_write b out outlen;
     Some (ok, out, b)
   }"

text \<open>The arguments \<open>rp\<close>, \<open>r1\<close> and \<open>r2\<close> are what RAND_bytes gives.\<close>

definition key_source2_randomize_write ::
  "key_source2 \<Rightarrow> buffer \<Rightarrow> bool \<Rightarrow> byte list \<Rightarrow> byte list \<Rightarrow> byte list \<Rightarrow> (bool \<times> key_source2 \<times> buffer) option" where
  "key_source2_randomize_write k2 b server rp r1 r2 = do {
     let put = (\<lambda>k. if server then k2\<lparr>src_server := k\<rparr> else k2\<lparr>src_client := k\<rparr>);
     let k = clear_source;
     (ok, k, b) \<leftarrow> (if \<not> server then do {
         (ok, out, b) \<leftarrow> random_bytes_to_buf b rp 48;
         Some (ok, k\<lparr>pre_master := out\<rparr>, b)
       } else Some (True, k, b));
     if \<not> ok then Some (False, put k, b) else do {
     (ok, out, b) \<leftarrow> random_bytes_to_buf b r1 32;
     let k = k\<lparr>random1 := out\<rparr>;
     if \<not> ok then Some (False, put k, b) else do {
     (ok, out, b) \<leftarrow> random_bytes_to_buf b r2 32;
     let k = k\<lparr>random2 := out\<rparr>;
     Some (ok, put k, b)
   }}}"

definition key_source2_read :: "key_source2 \<Rightarrow> buffer \<Rightarrow> bool \<Rightarrow> (bool \<times> key_source2 \<times> buffer) option" where
  "key_source2_read k2 b server = do {
     let put = (\<lambda>k. if \<not> server then k2\<lparr>src_server := k\<rparr> else k2\<lparr>src_client := k\<rparr>);
     let k = clear_source;
     (ok, k, b) \<leftarrow> (if server then do {
         (out, b) \<leftarrow> buf_read b 48;
         Some (case out of None \<Rightarrow> (False, k, b) | Some out \<Rightarrow> (True, k\<lparr>pre_master := out\<rparr>, b))
       } else Some (True, k, b));
     if \<not> ok then Some (False, put k, b) else do {
     (out, b) \<leftarrow> buf_read b 32;
     case out of None \<Rightarrow> Some (False, put k, b) | Some out \<Rightarrow> do {
     let k = k\<lparr>random1 := out\<rparr>;
     (out, b) \<leftarrow> buf_read b 32;
     case out of None \<Rightarrow> Some (False, put k, b) | Some out \<Rightarrow> Some (True, put (k\<lparr>random2 := out\<rparr>), b)
   }}}"

section \<open>Key method 1\<close>

definition key_method_1_write ::
  "'ssl tls_env \<Rightarrow> tls_options \<Rightarrow> (byte list \<times> byte list) option list \<Rightarrow> buffer \<Rightarrow> 'ssl key_state \<Rightarrow> (bool \<times> buffer \<times> 'ssl key_state) option" where
  "key_method_1_write env opt rnd b ks = do {
     let lib = te_lib env;
     ASSERT (to_key_method opt = 1);
     let (ok, b) = buf_init b 0;
     ASSERT ok;
     k \<leftarrow> generate_key_random (tl_des lib) (Some (to_key_type opt)) rnd MAX_CIPHER_KEY_LENGTH MAX_HMAC_KEY_LENGTH;
     good \<leftarrow> check_key (tl_des lib) k (to_key_type opt);
     if \<not> good then Some (False, b, ks) else do {
     (ok, b) \<leftarrow> write_key k (to_key_type opt) b;
     if \<not> ok then Some (False, b, ks) else do {
     ctx \<leftarrow> init_key_ctx (tl_ctx lib) k (to_key_type opt) DO_ENCRYPT;
     let ks = ks\<lparr>ks_key := (ks_key ks)\<lparr>kc_encrypt := ctx\<rparr>\<rparr>;
     (ok, b) \<leftarrow> buf_write b (to_local_options opt @ [0]) (int (length (to_local_options opt)) + 1);
     Some (ok, b, ks)
   }}}"

definition key_method_1_read ::
  "'ssl tls_env \<Rightarrow> tls_options \<Rightarrow> bool \<Rightarrow> buffer \<Rightarrow> 'ssl key_state \<Rightarrow> (bool \<times> buffer \<times> 'ssl key_state) option" where
  "key_method_1_read env opt verified b ks = do {
     let lib = te_lib env;
     ASSERT (to_key_method opt = 1);
     if \<not> verified then do { b \<leftarrow> buf_clear b; Some (False, b, ks) } else do {
     (status, k, b) \<leftarrow> read_key (to_key_type opt) b;
     if status \<noteq> 1 then do { b \<leftarrow> buf_clear b; Some (False, b, ks) } else do {
     good \<leftarrow> check_key (tl_des lib) k (to_key_type opt);
     if \<not> good \<or> len b < 1 then do { b \<leftarrow> buf_clear b; Some (False, b, ks) } else do {
     b \<leftarrow> buf_clear b;
     ctx \<leftarrow> init_key_ctx (tl_ctx lib) k (to_key_type opt) DO_DECRYPT;
     Some (True, b, ks\<lparr>ks_key := (ks_key ks)\<lparr>kc_decrypt := ctx\<rparr>, ks_authenticated := True\<rparr>)
   }}}}"

section \<open>Key method 2\<close>

text \<open>
  The argument \<open>auth\<close> is the user name and password when auth_user_pass_enabled is set, \<open>sid\<close> is
  session->session_id.
\<close>

definition key_method_2_write ::
  "'ssl tls_env \<Rightarrow> tls_options \<Rightarrow> (byte list \<times> byte list) option \<Rightarrow> byte list \<Rightarrow> byte list \<Rightarrow> byte list \<Rightarrow> session_id \<Rightarrow>
   buffer \<Rightarrow> 'ssl key_state \<Rightarrow> (bool \<times> buffer \<times> 'ssl key_state) option" where
  "key_method_2_write env opt auth rp r1 r2 sid b ks = do {
     ASSERT (to_key_method opt = 2);
     let (ok, b) = buf_init b 0;
     ASSERT ok;
     let fail = (\<lambda>b ks. Some (False, b, ks\<lparr>ks_key_src := clear_source2\<rparr>));
     (ok, b) \<leftarrow> buf_write_u32 b 0;
     if \<not> ok then fail b ks else do {
     (ok, b) \<leftarrow> buf_write_u8 b (to_key_method opt AND KEY_METHOD_MASK);
     if \<not> ok then fail b ks else do {
     (ok, src, b) \<leftarrow> key_source2_randomize_write (ks_key_src ks) b (to_server opt) rp r1 r2;
     let ks = ks\<lparr>ks_key_src := src\<rparr>;
     if \<not> ok then fail b ks else do {
     (ok, b) \<leftarrow> write_string b (to_local_options opt) TLS_OPTIONS_LEN;
     if \<not> ok then fail b ks else do {
     (ok, b) \<leftarrow> (case auth of None \<Rightarrow> Some (True, b) | Some (username, password) \<Rightarrow> do {
         (ok, b) \<leftarrow> write_string b username (-1);
         if \<not> ok then Some (False, b) else write_string b password (-1)
       });
     if \<not> ok then fail b ks
     else if to_server opt then do {
       r \<leftarrow> (if ks_authenticated ks
             then do {
               r \<leftarrow> generate_key_expansion (te_lib env) (te_junk env) (to_key_type opt) (ks_key_src ks) (ks_session_id_remote ks) sid True;
               Some (map_option (\<lambda>ctx. ks\<lparr>ks_key := ctx\<rparr>) r)
             } else Some (Some ks));
       (case r of
          None \<Rightarrow> fail b ks
        | Some ks \<Rightarrow> Some (True, b, ks\<lparr>ks_key_src := clear_source2\<rparr>))
     } else Some (True, b, ks)
   }}}}}"

definition gen_path :: "(nat \<Rightarrow> byte) \<Rightarrow> byte list \<Rightarrow> byte list \<Rightarrow> byte list option option" where
  "gen_path junk directory filename =
     (let safe = snd (string_mod filename (CC_ALNUM OR CC_UNDERBAR OR CC_DASH OR CC_DOT OR CC_AT) 0 95) in
      if safe \<noteq> ascii ''.'' \<and> safe \<noteq> ascii ''..'' then do {
        let out = alloc_buf junk 256;
        out \<leftarrow> buf_printf out (directory @ [47]);
        out \<leftarrow> buf_printf out safe;
        Some (Some (takeWhile (\<lambda>c. c \<noteq> 0) (content out)))
      } else Some None)"

abbreviation (input) "COMMON_NAME_CHAR_CLASS \<equiv> CC_ALNUM OR CC_UNDERBAR OR CC_DASH OR CC_DOT OR CC_AT"

text \<open>
  A blank name is refused; otherwise the script and the plug-in decide on what is handed to them, the script on
  the name with its characters restricted and the plug-in on the raw name.  How the name and the password reach them (the environment
  or a temporary file) is part of their answer.
\<close>

definition verify_user_pass_script :: "'ssl tls_env \<Rightarrow> byte list \<Rightarrow> byte list \<Rightarrow> bool" where
  "verify_user_pass_script env username password \<longleftrightarrow> username \<noteq> [] \<and> te_script_auth env username password"

definition verify_user_pass_plugin :: "'ssl tls_env \<Rightarrow> byte list \<Rightarrow> byte list \<Rightarrow> byte list \<Rightarrow> bool" where
  "verify_user_pass_plugin env username password raw_username \<longleftrightarrow> username \<noteq> [] \<and> te_plugin_auth env raw_username password"

text \<open>
  The authentication part of key_method_2_read, on the session \<open>i\<close>: the result is \<^const>\<open>None\<close> for the error exit.
\<close>

definition km2_authenticate ::
  "'ssl tls_env \<Rightarrow> 'ssl tls_multi \<Rightarrow> nat \<Rightarrow> buffer \<Rightarrow> (('ssl tls_multi) option \<times> buffer) option" where
  "km2_authenticate env m i b = do {
     let opt = tm_opt m;
     let set_auth = (\<lambda>v. upd_session i (\<lambda>s. s\<lparr>ts_primary := (ts_primary s)\<lparr>ks_authenticated := v\<rparr>\<rparr>));
     let m = set_auth False m;
     if to_auth_user_pass_verify_script opt \<or> to_auth_user_pass_verify_plugin opt then do {
       (username, b) \<leftarrow> read_string b USER_PASS_LEN;
       case username of None \<Rightarrow> Some (None, b) | Some username \<Rightarrow> do {
       (password, b) \<leftarrow> read_string b USER_PASS_LEN;
       case password of None \<Rightarrow> Some (None, b) | Some password \<Rightarrow> do {
       let raw = snd (string_mod username CC_PRINT CC_CRLF 95);
       let username = snd (string_mod username COMMON_NAME_CHAR_CLASS 0 95);
       let password = snd (string_mod password CC_PRINT CC_CRLF 95);
       let s1 = (to_auth_user_pass_verify_plugin opt \<longrightarrow> verify_user_pass_plugin env username password raw);
       let s2 = (to_auth_user_pass_verify_script opt \<longrightarrow> verify_user_pass_script env username password);
       let m = (if s1 \<and> s2 then
                  (let m = set_auth True m
                   in if to_username_as_common_name opt then upd_session i (\<lambda>s. set_common_name s (Some username)) m else m)
                else m);
       Some (Some m, b)
     }}} else if \<not> ts_verified (tm_session m ! i) then Some (None, b)
     else Some (Some (set_auth True m), b)
   }"

text \<open>The checks of the common name that may take the authentication back.\<close>

definition km2_check_name :: "'ssl tls_env \<Rightarrow> 'ssl tls_multi \<Rightarrow> nat \<Rightarrow> 'ssl tls_multi option" where
  "km2_check_name env m i = do {
     let opt = tm_opt m;
     let m = upd_session i (\<lambda>s. if ts_common_name s = None then set_common_name s (Some []) else s) m;
     let m = (case tm_locked_cn m of
                Some locked \<Rightarrow>
                  if ks_authenticated (ts_primary (tm_session m ! i)) \<and> ts_common_name (tm_session m ! i) \<noteq> Some locked
                  then tls_deauthenticate (upd_session i (\<lambda>s. set_common_name s (Some locked)) m)
                  else m
              | None \<Rightarrow> m);
     case to_client_config_dir_exclusive opt of
       None \<Rightarrow> Some m
     | Some dir \<Rightarrow>
         if ks_authenticated (ts_primary (tm_session m ! i)) then do {
           cn \<leftarrow> ts_common_name (tm_session m ! i);
           path \<leftarrow> gen_path (te_junk env) dir cn;
           Some (if cn = ascii ''DEFAULT'' \<or> \<not> (case path of None \<Rightarrow> False | Some p \<Rightarrow> te_test_file env p)
                 then upd_session i (\<lambda>s. s\<lparr>ts_primary := (ts_primary s)\<lparr>ks_authenticated := False\<rparr>\<rparr>) m
                 else m)
         } else Some m
   }"

definition key_method_2_read :: "'ssl tls_env \<Rightarrow> 'ssl tls_multi \<Rightarrow> nat \<Rightarrow> buffer \<Rightarrow> (bool \<times> buffer \<times> 'ssl tls_multi) option" where
  "key_method_2_read env m i b = do {
     let opt = tm_opt m;
     let put = (\<lambda>f. upd_session i (\<lambda>s. s\<lparr>ts_primary := f (ts_primary s)\<rparr>));
     let fail = (\<lambda>b m. do { b \<leftarrow> buf_clear b; Some (False, b, put (ks_key_src_update (\<lambda>_. clear_source2)) m) });
     ASSERT (to_key_method opt = 2);
     let (ok, b) = buf_advance b 4;
     ASSERT ok;
     (flags, b) \<leftarrow> buf_read_u8 b;
     if flags AND KEY_METHOD_MASK \<noteq> 2 then fail b m else do {
     (ok, src, b) \<leftarrow> key_source2_read (ks_key_src (ts_primary (tm_session m ! i))) b (to_server opt);
     let m = put (ks_key_src_update (\<lambda>_. src)) m;
     if \<not> ok then fail b m else do {
     (options, b) \<leftarrow> read_string b TLS_OPTIONS_LEN;
     if options = None then fail b m else do {
     (r, b) \<leftarrow> km2_authenticate env m i b;
     case r of None \<Rightarrow> fail b (put (ks_authenticated_update (\<lambda>_. False)) m) | Some m \<Rightarrow> do {
     m \<leftarrow> km2_check_name env m i;
     b \<leftarrow> buf_clear b;
     if \<not> to_server opt then do {
       let s = tm_session m ! i;
       r \<leftarrow> generate_key_expansion (te_lib env) (te_junk env) (to_key_type opt) (ks_key_src (ts_primary s))
              (ts_session_id s) (ks_session_id_remote (ts_primary s)) False;
       case r of
         None \<Rightarrow> fail b m
       | Some ctx \<Rightarrow> Some (True, b, put (\<lambda>ks. ks\<lparr>ks_key := ctx, ks_key_src := clear_source2\<rparr>) m)
     } else Some (True, b, m)
   }}}}}"

end
