(* ===== verification/Tls_Verify.thy ===== *)
theory Tls_Verify
  imports Key_Method
begin

text \<open>
  The certificate of the peer (ssl.c): extract_x509_field finds the common name in the flattened subject, verify_callback decides
  for each certificate of the chain.  The plug-ins, scripts and the revocation list are answers of the environment; the environment variables and
  verify_maxlevel, which only serve the scripts, are left out.
\<close>

section \<open>The name in a certificate\<close>

abbreviation (input) "TLS_CN_LEN \<equiv> (64 :: int)"
abbreviation (input) "X509_NAME_CHAR_CLASS \<equiv> CC_ALNUM OR CC_UNDERBAR OR CC_DASH OR CC_DOT OR CC_AT OR CC_COLON OR CC_SLASH OR CC_EQUAL"

text \<open>strncpynt into an array of \<open>maxlen\<close> characters leaves at most \<open>maxlen - 1\<close> of them.\<close>

definition strncpynt :: "byte list \<Rightarrow> int \<Rightarrow> byte list" where
  "strncpynt src maxlen = take (nat (maxlen - 1)) src"

text \<open>A character array on the stack.\<close>

definition stack_array :: "(nat \<Rightarrow> byte) \<Rightarrow> nat \<Rightarrow> byte list" where
  "stack_array junk n = map junk [0..<n]"

text \<open>The loop over the components of the subject.\<close>

partial_function (option) x509_field_loop :: "(nat \<Rightarrow> byte) \<Rightarrow> byte list \<Rightarrow> int \<Rightarrow> buffer \<Rightarrow> byte list \<Rightarrow> byte list option" where
  "x509_field_loop junk field_name sz x509_buf field_buf = do {
     (more, x509_buf, field_buf) \<leftarrow> buf_parse x509_buf 47 field_buf 256;
     if \<not> more then Some []
     else do {
       let component_buf = buf_set_read (Some (c_string field_buf)) (c_strlen field_buf);
       (_, component_buf, field_name_buf) \<leftarrow> buf_parse component_buf 61 (stack_array junk 64) 64;
       (_, component_buf, field_value_buf) \<leftarrow> buf_parse component_buf 61 (stack_array junk 256) 256;
       if c_string field_name_buf = field_name then Some (strncpynt (c_string field_value_buf) sz)
       else x509_field_loop junk field_name sz x509_buf field_buf
     }
   }"

definition extract_x509_field :: "(nat \<Rightarrow> byte) \<Rightarrow> byte list \<Rightarrow> byte list \<Rightarrow> int \<Rightarrow> byte list option" where
  "extract_x509_field junk x509 field_name sz = do {
     ASSERT (sz > 0);
     x509_field_loop junk field_name sz (buf_set_read (Some x509) (int (length x509))) (stack_array junk 256)
   }"

section \<open>The certificate of the peer\<close>

definition verify_nsCertType :: "x509 \<Rightarrow> int \<Rightarrow> bool" where
  "verify_nsCertType x usage \<longleftrightarrow> (case x509_nscert x of None \<Rightarrow> False | Some bits \<Rightarrow> bits AND usage \<noteq> 0)"

text \<open>--tls-remote: the whole subject, or a prefix of the common name.\<close>

definition x509name_ok :: "tls_options \<Rightarrow> byte list \<Rightarrow> byte list \<Rightarrow> bool" where
  "x509name_ok opt subject common_name \<longleftrightarrow> (case to_verify_x509name opt of
     None \<Rightarrow> True
   | Some name \<Rightarrow> name = [] \<or> name = subject \<or> take (length name) common_name = name)"

text \<open>The revocation list counts only for certificates of its own issuer; a list that cannot be read ends the process.\<close>

definition crl_check :: "'ssl tls_env \<Rightarrow> x509 \<Rightarrow> bool option" where
  "crl_check env x = do {
     (issuer, revoked) \<leftarrow> te_crl env;
     Some (issuer \<noteq> x509_issuer x \<or> x509_serial x \<notin> set revoked)
   }"

text \<open>The checks after the name has been stored; a script that cannot be executed ends the process.\<close>

definition verify_checks :: "'ssl tls_env \<Rightarrow> tls_options \<Rightarrow> x509 \<Rightarrow> byte list \<Rightarrow> byte list \<Rightarrow> bool option" where
  "verify_checks env opt x subject common_name = (
     if to_ns_cert_type opt \<noteq> 0 \<and> error_depth x = 0 \<and> \<not> verify_nsCertType x (to_ns_cert_type opt) then Some False
     else if error_depth x = 0 \<and> \<not> x509name_ok opt subject common_name then Some False
     else if to_verify_plugin opt \<and> \<not> te_verify_plugin env (error_depth x) subject then Some False
     else do {
       ok \<leftarrow> (if to_verify_command opt then te_verify_script env (error_depth x) subject else Some True);
       if \<not> ok then Some False
       else if to_crl_file opt then crl_check env x
       else Some True
     })"

definition verify_callback :: "'ssl tls_env \<Rightarrow> tls_options \<Rightarrow> x509 \<Rightarrow> 'ssl tls_session \<Rightarrow> (bool \<times> 'ssl tls_session) option" where
  "verify_callback env opt x session = do {
     let session = session\<lparr>ts_verified := False\<rparr>;
     let subject = c_string (take 255 (x509_oneline x));
     let subject = snd (string_mod subject X509_NAME_CHAR_CLASS 0 95);
     common_name \<leftarrow> extract_x509_field (te_junk env) subject (ascii ''CN'') TLS_CN_LEN;
     let common_name = snd (string_mod common_name COMMON_NAME_CHAR_CLASS 0 95);
     if \<not> preverify_ok x then Some (False, session)
     else do {
       let session = (if error_depth x = 0 then set_common_name session (Some common_name) else session);
       ok \<leftarrow> verify_checks env opt x subject common_name;
       Some (ok, if ok then session\<lparr>ts_verified := True\<rparr> else session)
     }
   }"

text \<open>What OpenSSL gets as the answer, and the calls on the certificates of one BIO operation.\<close>

definition verify_accepts :: "'ssl tls_env \<Rightarrow> tls_options \<Rightarrow> x509 \<Rightarrow> bool" where
  "verify_accepts env opt x \<longleftrightarrow> (case verify_callback env opt x clear_session of Some (ok, _) \<Rightarrow> ok | None \<Rightarrow> False)"

fun verify_chain :: "'ssl tls_env \<Rightarrow> tls_options \<Rightarrow> x509 list \<Rightarrow> 'ssl tls_session \<Rightarrow> 'ssl tls_session option" where
  "verify_chain env opt [] session = Some session"
| "verify_chain env opt (x # xs) session = do {
     (_, session) \<leftarrow> verify_callback env opt x session;
     verify_chain env opt xs session
   }"

section \<open>Which field is found\<close>

fun fields :: "byte \<Rightarrow> byte list \<Rightarrow> byte list list" where
  "fields d [] = [[]]"
| "fields d (c # s) = (if c = d then [] # fields d s else (case fields d s of [] \<Rightarrow> [[c]] | f # fs \<Rightarrow> (c # f) # fs))"

definition attr_name :: "byte list \<Rightarrow> byte list" where
  "attr_name f = takeWhile (\<lambda>c. c \<noteq> 61) f"

definition attr_value :: "byte list \<Rightarrow> byte list" where
  "attr_value f = takeWhile (\<lambda>c. c \<noteq> 61) (tl (dropWhile (\<lambda>c. c \<noteq> 61) f))"

definition x509_field :: "byte list \<Rightarrow> byte list \<Rightarrow> int \<Rightarrow> byte list" where
  "x509_field subject name sz = (case find (\<lambda>f. attr_name f = name) (fields 47 subject) of
     None \<Rightarrow> [] | Some f \<Rightarrow> take (nat (sz - 1)) (attr_value f))"

lemma fields_split: "\<exists>f r. fields d s = f # r \<and> (r = [] \<longrightarrow> s = f) \<and> (r \<noteq> [] \<longrightarrow> (\<exists>s'. s = f @ d # s' \<and> r = fields d s')) \<and> d \<notin> set f"
proof (induction s)
  case Nil
  show ?case by simp
next
  case (Cons c s)
  then obtain f r where fr: "fields d s = f # r" "r = [] \<longrightarrow> s = f" "r \<noteq> [] \<longrightarrow> (\<exists>s'. s = f @ d # s' \<and> r = fields d s')" "d \<notin> set f"
    by blast
  then show ?case by (cases "c = d"; cases r) auto
qed

lemma buf_parse_loop_length: "buf_parse_loop b d line sz n eol = Some (e, b', m) \<Longrightarrow> length m = length line"
proof (induction b d line sz n eol rule: buf_parse_loop.induct)
  case (1 b d line sz n eol)
  obtain c b1 where r: "buf_read_u8 b = Some (c, b1)"
    using "1.prems" by (auto simp: buf_parse_loop.simps[of b] split: option.splits)
  show ?case
  proof (cases "n \<ge> sz")
    case True
    then show ?thesis using "1.prems" r by (simp add: buf_parse_loop.simps[of b] Let_def)
  next
    case False
    define c' where "c' = (if c \<le> 0 \<or> c = d then 0 else c)"
    obtain l where l: "mem_write line n [word_of_int c'] = Some l"
      using "1.prems" r False by (cases "mem_write line n [word_of_int c']") (auto simp: buf_parse_loop.simps[of b] Let_def c'_def)
    show ?thesis
    proof (cases "c' = 0")
      case True
      then show ?thesis using "1.prems" r l False mem_write_length[OF l]
        by (simp add: buf_parse_loop.simps[of b] Let_def c'_def[symmetric])
    next
      case nz: False
      then have "buf_parse_loop b1 d l sz (n + 1) (if c < 0 then True else eol) = Some (e, b', m)"
        using "1.prems" r l False by (simp add: buf_parse_loop.simps[of b] Let_def c'_def[symmetric])
      from "1.IH"[OF r refl refl refl _ l[unfolded c'_def] _ this] show ?thesis
        using False nz mem_write_length[OF l] by (simp add: c'_def)
    qed
  qed
qed

lemma buf_parse_length: "buf_parse b d line sz = Some (x, b', m) \<Longrightarrow> length m = length line"
  by (auto simp: buf_parse_def bind_eq_Some_conv split: if_splits dest!: buf_parse_loop_length mem_write_length)

text \<open>At the end of the buffer the rest of it is the field, and only an empty rest ends the loop.\<close>

lemma buf_parse_last:
  assumes "\<forall>c \<in> set s. c \<noteq> 0 \<and> c \<noteq> d" "length s < k" "length line = k" "d \<noteq> 0"
  shows "\<exists>m. buf_parse (mk_buf pre s post) (uint d) line (int k) = Some (s \<noteq> [], mk_buf (pre @ s) [] post, m) \<and> c_string m = s"
proof -
  have "\<forall>c \<in> set s. c \<noteq> 0 \<and> uint c \<noteq> uint d" using assms(1) by (auto simp: word_uint_eq_iff)
  note loop = buf_parse_loop_field(2)[of s d 0 "int k" line, simplified, OF this _ _ assms(4)]
  obtain m where m: "mem_write (s @ [0] @ drop (length s + 1) line) (int k - 1) [0] = Some m"
    "c_string m = s" "c_strlen m = int (length s)"
    using c_string_field[of s k line] assms by auto
  show ?thesis using loop[of pre post False] m assms by (auto simp: buf_parse_def)
qed

lemma buf_parse_upto:
  assumes "\<forall>c \<in> set s. c \<noteq> 0 \<and> c \<noteq> d" "length s < k" "length line = k" "d \<noteq> 0"
  shows "\<exists>m pre'. buf_parse (mk_buf pre (s @ d # r) post) (uint d) line (int k) = Some (True, mk_buf pre' r post, m) \<and> c_string m = s"
proof -
  have "\<forall>c \<in> set s. c \<noteq> 0 \<and> uint c \<noteq> uint d" using assms(1) by (auto simp: word_uint_eq_iff)
  from buf_parse_field(1)[OF this assms(2-4)] show ?thesis using assms(2) by simp
qed

text \<open>Splitting a component at its first two equal signs.\<close>

lemma component_parse:
  assumes "0 \<notin> set f" "length (attr_name f) < 64" "length f < 256"
  shows "\<exists>x b nm y b' vl. buf_parse (mk_buf [] f []) 61 (stack_array junk 64) 64 = Some (x, b, nm) \<and> c_string nm = attr_name f \<and>
    buf_parse b 61 (stack_array junk 256) 256 = Some (y, b', vl) \<and> c_string vl = attr_value f"
proof -
  have l: "length (stack_array junk 64) = 64" "length (stack_array junk 256) = 256" by (simp_all add: stack_array_def)
  show ?thesis
  proof (cases "61 \<in> set f")
    case False
    then have dw: "dropWhile (\<lambda>c. c \<noteq> 61) f = []" by (auto simp: dropWhile_eq_Nil_conv)
    have n: "attr_name f = f" "attr_value f = []"
      using takeWhile_dropWhile_id[of "\<lambda>c. c \<noteq> 61" f] unfolding dw attr_name_def attr_value_def by simp_all
    obtain m where m: "buf_parse (mk_buf [] f []) 61 (stack_array junk 64) 64 = Some (f \<noteq> [], mk_buf f [] [], m)" "c_string m = f"
      using buf_parse_last[of f 61 64 "stack_array junk 64" "[]" "[]"] assms False n l by auto
    obtain m2 where "buf_parse (mk_buf f [] []) 61 (stack_array junk 256) 256 = Some (False, mk_buf f [] [], m2)" "c_string m2 = []"
      using buf_parse_last[of "[]" 61 256 "stack_array junk 256" f "[]"] l by auto
    then show ?thesis using m n by auto
  next
    case True
    then obtain a g where f: "f = a @ 61 # g" "61 \<notin> set a" using split_list_first[of 61 f] by blast
    then have n: "attr_name f = a" "attr_value f = takeWhile (\<lambda>c. c \<noteq> 61) g"
      by (auto simp: attr_name_def attr_value_def takeWhile_append dropWhile_append)
    have z: "0 \<notin> set a" "0 \<notin> set g" "length a < 64" "length g < 256" using assms f n(1) by auto
    obtain m pre' where m: "buf_parse (mk_buf [] f []) 61 (stack_array junk 64) 64 = Some (True, mk_buf pre' g [], m)" "c_string m = a"
      using buf_parse_upto[of a 61 64 "stack_array junk 64" "[]" g "[]"] z f l by auto
    have "\<exists>y b' vl. buf_parse (mk_buf pre' g []) 61 (stack_array junk 256) 256 = Some (y, b', vl) \<and> c_string vl = takeWhile (\<lambda>c. c \<noteq> 61) g"
    proof (cases "61 \<in> set g")
      case False
      then have t: "takeWhile (\<lambda>c. c \<noteq> 61) g = g" by (auto simp: takeWhile_eq_all_conv)
      have "\<forall>c \<in> set g. c \<noteq> 0 \<and> c \<noteq> 61" using z(2) False by metis
      from buf_parse_last[OF this z(4) l(2), of pre' "[]"] show ?thesis unfolding t by auto
    next
      case True
      then obtain v h where v: "g = v @ 61 # h" "61 \<notin> set v" using split_list_first[of 61 g] by blast
      then have "takeWhile (\<lambda>c. c \<noteq> 61) g = v" by (auto simp: takeWhile_append)
      then show ?thesis using buf_parse_upto[of v 61 256 "stack_array junk 256" pre' h "[]"] z l v by auto
    qed
    then show ?thesis using m n by auto
  qed
qed

lemma x509_field_loop_eq:
  assumes "0 \<notin> set s" "length s < 256" "\<forall>f \<in> set (fields 47 s). length (attr_name f) < 64" "length buf = 256" "name \<noteq> []"
  shows "x509_field_loop junk name sz (mk_buf pre s []) buf = Some (x509_field s name sz)"
  using assms
proof (induction "length s" arbitrary: s pre buf rule: less_induct)
  case less
  obtain f r where fr: "fields 47 s = f # r" "r = [] \<longrightarrow> s = f" "r \<noteq> [] \<longrightarrow> (\<exists>s'. s = f @ 47 # s' \<and> r = fields 47 s')" "47 \<notin> set f"
    using fields_split[of 47 s] by blast
  have comp: "\<exists>x b nm y b' vl. buf_parse (buf_set_read (Some f) (int (length f))) 61 (stack_array junk 64) 64 = Some (x, b, nm) \<and> c_string nm = attr_name f \<and>
      buf_parse b 61 (stack_array junk 256) 256 = Some (y, b', vl) \<and> c_string vl = attr_value f"
    if "0 \<notin> set f" "length f < 256"
    using component_parse[OF that(1) _ that(2), of junk] less.prems(3) fr(1) by (simp add: mk_buf_def buf_set_read_def)
  have cs: "c_strlen m = int (length (c_string m))" for m by (simp add: c_strlen_def c_string_def)
  show ?case
  proof (cases "r = []")
    case True
    then have s: "s = f" using fr(2) by simp
    obtain m where m: "buf_parse (mk_buf pre s []) 47 buf 256 = Some (s \<noteq> [], mk_buf (pre @ s) [] [], m)" "c_string m = s"
      using buf_parse_last[of s 47 256 buf pre "[]"] less.prems fr(4) s by auto
    have fl: "fields 47 s = [s]" using fr(1) True s by simp
    have stop: "x509_field_loop junk name sz (mk_buf (pre @ s) [] []) m = Some []"
      using buf_parse_last[of "[]" 47 256 m "pre @ s" "[]"] buf_parse_length[OF m(1)] less.prems(4)
      by (auto simp: x509_field_loop.simps)
    have e: "attr_name [] \<noteq> name" using less.prems(5) by (simp add: attr_name_def)
    show ?thesis
    proof (cases "s = []")
      case True
      then show ?thesis using m e fl by (auto simp: x509_field_loop.simps x509_field_def)
    next
      case False
      show ?thesis using comp less.prems(1,2) s m stop False fl
        by (subst x509_field_loop.simps) (auto simp: cs x509_field_def strncpynt_def)
    qed
  next
    case False
    then obtain s' where s': "s = f @ 47 # s'" "r = fields 47 s'" using fr(3) by blast
    obtain m pre' where m: "buf_parse (mk_buf pre s []) 47 buf 256 = Some (True, mk_buf pre' s' [], m)" "c_string m = f"
      using buf_parse_upto[of f 47 256 buf pre s' "[]"] less.prems fr(4) s'(1) by auto
    have IH: "x509_field_loop junk name sz (mk_buf pre' s' []) m = Some (x509_field s' name sz)"
      using less.hyps[of s' m pre'] less.prems s' fr(1) buf_parse_length[OF m(1)] by auto
    show ?thesis using comp less.prems(1,2) s' m IH fr(1)
      by (subst x509_field_loop.simps) (auto simp: cs x509_field_def strncpynt_def)
  qed
qed

text \<open>
  C14: the name of a peer is the value of the first attribute with that name.  For every subject that fits into the
  array of verify_callback extract_x509_field returns, and its result is the text between the first and the
  second equal sign of the first component, between slashes, whose name is the one asked for, cut to the size of the
  output; it is empty when there is none.
\<close>

theorem extract_x509_field_first:
  assumes "0 \<notin> set s" "length s < 256" "\<forall>f \<in> set (fields 47 s). length (attr_name f) < 64" "name \<noteq> []" "0 < sz"
  shows "extract_x509_field junk s name sz = Some (x509_field s name sz)"
  using x509_field_loop_eq[OF assms(1-3) _ assms(4), of "stack_array junk 256" junk sz "[]"] assms(5)
  by (simp add: extract_x509_field_def stack_array_def buf_set_read_def mk_buf_def)

theorem extract_x509_field_first_witness:
  "extract_x509_field (\<lambda>_. 7) (ascii ''/C=US/O=ORG/CN=Test-CA/Email=a@b'') (ascii ''CN'') 64 = Some (ascii ''Test-CA'')"
proof -
  let ?s = "ascii ''/C=US/O=ORG/CN=Test-CA/Email=a@b''"
  have "0 \<notin> set ?s" "length ?s < 256" "\<forall>f \<in> set (fields 47 ?s). length (attr_name f) < 64" "ascii ''CN'' \<noteq> []" "x509_field ?s (ascii ''CN'') 64 = ascii ''Test-CA''"
    by code_simp+
  then show ?thesis using extract_x509_field_first[of ?s "ascii ''CN''" 64 "\<lambda>_. 7"] by simp
qed

text \<open>
  A value that contains the text of another attribute is found as that attribute: the flattened subject of an organization
  called \<open>org/CN=name\<close> gives \<open>name\<close>, whatever the common name of the certificate is.
\<close>

lemma fields_append: "d \<notin> set a \<Longrightarrow> fields d (a @ d # s) = a # fields d s"
  by (induction a) auto

lemma first_CN_wins:
  assumes "\<forall>c \<in> set (org @ name). c \<noteq> 0 \<and> c \<noteq> 47 \<and> c \<noteq> 61" "0 \<notin> set real" "length org + length name + length real < 240"
    and "\<forall>f \<in> set (fields 47 real). length (attr_name f) < 64"
  shows "extract_x509_field junk (ascii ''/O='' @ org @ ascii ''/CN='' @ name @ [47] @ real) (ascii ''CN'') 64 = Some (take 63 name)"
proof -
  let ?o = "ascii ''O='' @ org" and ?n = "ascii ''CN='' @ name"
  let ?s = "ascii ''/O='' @ org @ ascii ''/CN='' @ name @ [47] @ real"
  have s: "?s = [] @ 47 # ?o @ 47 # ?n @ 47 # real" by (simp add: ascii_def)
  have nin: "47 \<notin> set ?o" "47 \<notin> set ?n" using assms(1) by (auto simp: ascii_def)
  have f: "fields 47 ?s = [] # ?o # ?n # fields 47 real"
    unfolding s using fields_append[of 47 "[]"] fields_append[OF nin(1)] fields_append[OF nin(2)] by simp
  have a: "attr_name [] = []" "attr_name ?o = ascii ''O''" "attr_name ?n = ascii ''CN''" "attr_value ?n = name"
    using assms(1) by (auto simp: attr_name_def attr_value_def ascii_def takeWhile_eq_all_conv)
  have neq: "ascii ''CN'' \<noteq> []" "ascii ''O'' \<noteq> ascii ''CN''" by (auto simp: ascii_def)
  have "x509_field ?s (ascii ''CN'') 64 = take 63 name" unfolding x509_field_def f using a neq by simp
  moreover have "0 \<notin> set ?s" "length ?s < 256" using assms(1-3) by (auto simp: ascii_def)
  moreover have "\<forall>f \<in> set (fields 47 ?s). length (attr_name f) < 64" unfolding f using a assms(4) by (auto simp: ascii_def)
  ultimately show ?thesis
    using x509_field_loop_eq[of ?s "stack_array junk 256" "ascii ''CN''" junk 64 "[]"] neq(1)
    by (simp add: extract_x509_field_def stack_array_def buf_set_read_def mk_buf_def)
qed

text \<open>A session counts as verified exactly when the last certificate that was looked at was accepted.\<close>

lemma verify_callback_verified:
  assumes "verify_callback env opt x s = Some (ok, s')"
  shows "ts_verified s' = ok" "verify_accepts env opt x = ok"
proof -
  let ?subject = "snd (string_mod (c_string (take 255 (x509_oneline x))) X509_NAME_CHAR_CLASS 0 95)"
  obtain cn where cn: "extract_x509_field (te_junk env) ?subject (ascii ''CN'') TLS_CN_LEN = Some cn"
    using assms unfolding verify_callback_def Let_def by (auto simp only: bind_eq_Some_conv)
  show "ts_verified s' = ok"
    using assms unfolding verify_callback_def Let_def cn by (auto simp: bind_eq_Some_conv set_common_name_def split: if_splits)
  show "verify_accepts env opt x = ok"
    using assms unfolding verify_accepts_def verify_callback_def Let_def cn by (auto simp: bind_eq_Some_conv split: if_splits option.splits)
qed

lemma verify_chain_verified:
  assumes "verify_chain env opt xs s = Some s'"
  shows "ts_verified s' = (if xs = [] then ts_verified s else verify_accepts env opt (last xs))"
  using assms
proof (induction xs arbitrary: s)
  case (Cons x xs)
  then obtain ok s1 where x: "verify_callback env opt x s = Some (ok, s1)" "verify_chain env opt xs s1 = Some s'"
    by (auto simp: bind_eq_Some_conv simp del: verify_callback_def)
  then show ?case using Cons.IH[OF x(2)] verify_callback_verified[OF x(1)] by (cases "xs = []") simp_all
qed simp

end
