(* ===== verification/Link_Address.thy ===== *)
theory Link_Address
  imports Tls_State
begin

text \<open>
  The addresses that packets come from and go to (socket.h, socket.c): which senders are accepted, and how the address of the
  peer is learnt and may change.  Addresses and ports are values, so the conversions between host and network order are left out.
\<close>

section \<open>Addresses of the peer\<close>

abbreviation (input) "PROTO_UDPv4 \<equiv> (0 :: int)"
abbreviation (input) "PROTO_TCPv4_SERVER \<equiv> (1 :: int)"
abbreviation (input) "PROTO_TCPv4_CLIENT \<equiv> (2 :: int)"
abbreviation (input) "PROTO_TCPv4 \<equiv> (3 :: int)"
abbreviation (input) "AF_INET \<equiv> (2 :: int)"

record link_socket_addr =
  lsa_local :: sockaddr_in
  lsa_remote :: sockaddr_in
  lsa_actual :: sockaddr_in

record link_socket_info =
  li_lsa :: link_socket_addr
  li_connection_established :: bool
  li_remote_float :: bool
  li_proto :: int

definition link_socket_proto_connection_oriented :: "int \<Rightarrow> bool" where
  "link_socket_proto_connection_oriented proto \<longleftrightarrow> proto = PROTO_TCPv4_SERVER \<or> proto = PROTO_TCPv4_CLIENT"

definition addr_match :: "sockaddr_in \<Rightarrow> sockaddr_in \<Rightarrow> bool" where
  "addr_match a1 a2 \<longleftrightarrow> sin_addr a1 = sin_addr a2"

definition addr_match_proto :: "sockaddr_in \<Rightarrow> sockaddr_in \<Rightarrow> int \<Rightarrow> bool" where
  "addr_match_proto a1 a2 proto = (if link_socket_proto_connection_oriented proto then addr_match a1 a2 else addr_port_match a1 a2)"

text \<open>The family of the sender is an argument of its own; every other address is one of AF_INET.\<close>

definition link_socket_verify_incoming_addr :: "buffer \<Rightarrow> link_socket_info \<Rightarrow> int \<Rightarrow> sockaddr_in \<Rightarrow> bool" where
  "link_socket_verify_incoming_addr b info sin_family from_addr = (
     if len b > 0 then
       if sin_family \<noteq> AF_INET then False
       else if \<not> addr_defined from_addr then False
       else if li_remote_float info \<or> \<not> addr_defined (lsa_remote (li_lsa info)) then True
       else addr_match_proto from_addr (lsa_remote (li_lsa info)) (li_proto info)
     else False)"

definition link_socket_bad_incoming_addr :: "buffer \<Rightarrow> buffer" where
  "link_socket_bad_incoming_addr b = b\<lparr>len := 0\<rparr>"

definition link_socket_get_outgoing_addr :: "buffer \<Rightarrow> link_socket_info \<Rightarrow> sockaddr_in \<Rightarrow> buffer \<times> sockaddr_in" where
  "link_socket_get_outgoing_addr b info addr = (
     if len b > 0 then
       if addr_defined (lsa_actual (li_lsa info)) then (b, lsa_actual (li_lsa info))
       else (b\<lparr>len := 0\<rparr>, addr)
     else (b, addr))"

text \<open>
  link_socket_connection_initiated: the messages, the environment and the --ipchange hooks are left out, they do not
  change the state.
\<close>

definition link_socket_connection_initiated :: "link_socket_info \<Rightarrow> sockaddr_in \<Rightarrow> link_socket_info" where
  "link_socket_connection_initiated info addr =
     info\<lparr>li_lsa := (li_lsa info)\<lparr>lsa_actual := addr\<rparr>, li_connection_established := True\<rparr>"

definition link_socket_set_outgoing_addr :: "buffer option \<Rightarrow> link_socket_info \<Rightarrow> sockaddr_in \<Rightarrow> link_socket_info" where
  "link_socket_set_outgoing_addr b info addr = (
     if (case b of None \<Rightarrow> True | Some b \<Rightarrow> len b > 0) then
       let lsa = li_lsa info in
       if (\<not> li_connection_established info \<or> \<not> addr_match_proto addr (lsa_actual lsa) (li_proto info)) \<and>
          (li_remote_float info \<or> \<not> addr_defined (lsa_remote lsa) \<or> addr_match_proto addr (lsa_remote lsa) (li_proto info))
       then link_socket_connection_initiated info addr
       else info
     else info)"

definition link_socket_current_remote :: "link_socket_info \<Rightarrow> u32" where
  "link_socket_current_remote info = (let lsa = li_lsa info in
     if addr_defined (lsa_actual lsa) then sin_addr (lsa_actual lsa)
     else if addr_defined (lsa_remote lsa) then sin_addr (lsa_remote lsa)
     else 0)"

text \<open>
  Without --float the address that packets go to is, once it has been learnt, the configured one; only with --float or without
  --remote can a peer move it.
\<close>

definition addr_pinned :: "link_socket_info \<Rightarrow> bool" where
  "addr_pinned info \<longleftrightarrow> li_connection_established info \<longrightarrow> li_remote_float info \<or> \<not> addr_defined (lsa_remote (li_lsa info)) \<or>
     addr_match_proto (lsa_actual (li_lsa info)) (lsa_remote (li_lsa info)) (li_proto info)"

lemma set_outgoing_addr_pinned: "addr_pinned info \<Longrightarrow> addr_pinned (link_socket_set_outgoing_addr b info addr)"
  by (auto simp: addr_pinned_def link_socket_set_outgoing_addr_def link_socket_connection_initiated_def Let_def)

lemma set_outgoing_addr_config [simp]:
  "lsa_remote (li_lsa (link_socket_set_outgoing_addr b info addr)) = lsa_remote (li_lsa info)"
  "li_remote_float (link_socket_set_outgoing_addr b info addr) = li_remote_float info"
  "li_proto (link_socket_set_outgoing_addr b info addr) = li_proto info"
  by (simp_all add: link_socket_set_outgoing_addr_def link_socket_connection_initiated_def Let_def)

text \<open>A packet whose sender is accepted makes its sender the destination.\<close>

lemma verified_addr_becomes_outgoing:
  assumes "link_socket_verify_incoming_addr b info fam a" "\<not> link_socket_proto_connection_oriented (li_proto info)"
  shows "snd (link_socket_get_outgoing_addr b (link_socket_set_outgoing_addr (Some b) info a) x) = a"
  using assms
  by (cases "lsa_actual (li_lsa info)"; cases a)
     (auto simp: link_socket_verify_incoming_addr_def link_socket_set_outgoing_addr_def link_socket_get_outgoing_addr_def
       link_socket_connection_initiated_def addr_match_proto_def addr_port_match_def addr_defined_def Let_def split: if_splits)

end
