(* ===== verification/Key_Exchange.thy ===== *)
theory Key_Exchange
  imports Key_Method
begin

text \<open>
  What the exchange of key method 2 gives: the message that is written, what is read from it, and that
  both sides end with the same pair of keys.
\<close>

section \<open>What is written\<close>

definition appended :: "buffer \<Rightarrow> byte list \<Rightarrow> buffer \<Rightarrow> bool" where
  "appended b bs b' \<longleftrightarrow> live_buf b' \<and> content b' = content b @ bs"

lemma buf_write_True:
  assumes "live_buf b" "buf_write b bs n = Some (True, b')" "n = int (length bs)"
  shows "appended b bs b'"
proof -
  obtain pre c post where "b = mk_buf pre c post" using assms(1) by (rule live_bufE)
  then show ?thesis using assms(2,3) by (auto simp: appended_def split: if_splits)
qed

lemma appended_append: "appended b bs b1 \<Longrightarrow> appended b1 cs b2 \<Longrightarrow> appended b (bs @ cs) b2"
  by (simp add: appended_def)

definition string_wire :: "byte list \<Rightarrow> byte list" where
  "string_wire s = be16 (word_of_int (int (length s) + 1)) @ s @ [0]"

lemma write_string_True:
  assumes "live_buf b" "write_string b s m = Some (True, b')"
  shows "appended b (string_wire s) b'" "0 \<le> m \<longrightarrow> int (length s) + 1 \<le> m"
proof -
  obtain b1 where b1: "buf_write_u16 b (int (length s) + 1) = Some (True, b1)" "buf_write b1 (s @ [0]) (int (length s) + 1) = Some (True, b')"
    "0 \<le> m \<longrightarrow> int (length s) + 1 \<le> m"
    using assms(2) by (auto simp: write_string_def Let_def split: bind_splits if_splits prod.splits)
  have a1: "appended b (be16 (word_of_int (int (length s) + 1))) b1"
    using buf_write_True[OF assms(1) b1(1)[unfolded buf_write_u16_def]] by simp
  have "appended b1 (s @ [0]) b'" using buf_write_True[OF _ b1(2)] a1 by (simp add: appended_def)
  from appended_append[OF a1 this] show "appended b (string_wire s) b'" by (simp add: string_wire_def)
  show "0 \<le> m \<longrightarrow> int (length s) + 1 \<le> m" by (rule b1(3))
qed

lemma random_bytes_True:
  assumes "live_buf b" "random_bytes_to_buf b r n = Some (True, out, b')"
  shows "appended b out b'" "int (length out) = n" "out = take (nat n) r"
proof -
  have o: "src_bytes r n = Some out" "buf_write b out n = Some (True, b')"
    using assms(2) by (auto simp: random_bytes_to_buf_def split: bind_splits prod.splits)
  then show "int (length out) = n" "out = take (nat n) r" by (auto simp: src_bytes_def split: if_splits)
  then show "appended b out b'" using buf_write_True[OF assms(1) o(2)] by simp
qed

definition source_wire :: "bool \<Rightarrow> key_source \<Rightarrow> byte list" where
  "source_wire from_server k = (if from_server then [] else pre_master k) @ random1 k @ random2 k"

definition source_sent :: "bool \<Rightarrow> key_source \<Rightarrow> key_source \<Rightarrow> bool" where
  "source_sent from_server k k' \<longleftrightarrow> (\<not> from_server \<longrightarrow> pre_master k' = pre_master k) \<and> random1 k' = random1 k \<and> random2 k' = random2 k"

lemma key_source2_write_True:
  assumes "live_buf b" "key_source2_randomize_write k2 b server rp r1 r2 = Some (True, k2', b')"
  shows "\<exists>k. wf_source k \<and> appended b (source_wire server k) b' \<and>
    k2' = (if server then k2\<lparr>src_server := k\<rparr> else k2\<lparr>src_client := k\<rparr>)"
proof (cases server)
  case True
  then obtain o1 b1 o2 where r: "random_bytes_to_buf b r1 32 = Some (True, o1, b1)" "random_bytes_to_buf b1 r2 32 = Some (True, o2, b')"
    "k2' = k2\<lparr>src_server := clear_source\<lparr>random1 := o1, random2 := o2\<rparr>\<rparr>"
    using assms(2) by (auto simp: key_source2_randomize_write_def Let_def split: bind_splits if_splits prod.splits)
  note 1 = random_bytes_True[OF assms(1) r(1)]
  note 2 = random_bytes_True[OF _ r(2)]
  have "live_buf b1" using 1(1) by (simp add: appended_def)
  then show ?thesis using 1 2 r(3) True
    by (intro exI[of _ "clear_source\<lparr>random1 := o1, random2 := o2\<rparr>"])
       (auto simp: wf_source_def clear_source_def source_wire_def intro: appended_append)
next
  case False
  then obtain o0 b0 o1 b1 o2 where r: "random_bytes_to_buf b rp 48 = Some (True, o0, b0)"
    "random_bytes_to_buf b0 r1 32 = Some (True, o1, b1)" "random_bytes_to_buf b1 r2 32 = Some (True, o2, b')"
    "k2' = k2\<lparr>src_client := clear_source\<lparr>pre_master := o0, random1 := o1, random2 := o2\<rparr>\<rparr>"
    using assms(2) by (auto simp: key_source2_randomize_write_def Let_def split: bind_splits if_splits prod.splits)
  note 0 = random_bytes_True[OF assms(1) r(1)]
  note 1 = random_bytes_True[OF _ r(2)]
  note 2 = random_bytes_True[OF _ r(3)]
  have "live_buf b0" using 0(1) by (simp add: appended_def)
  moreover have "live_buf b1" using 1(1)[OF calculation] by (simp add: appended_def)
  ultimately show ?thesis using 0 1 2 r(4) False
    by (intro exI[of _ "clear_source\<lparr>pre_master := o0, random1 := o1, random2 := o2\<rparr>"])
       (auto simp: wf_source_def clear_source_def source_wire_def intro: appended_append)
qed

text \<open>The message of key method 2, up to the options string; what follows is the optional user name and password.\<close>

definition km2_wire :: "bool \<Rightarrow> key_source \<Rightarrow> byte list \<Rightarrow> byte list" where
  "km2_wire from_server k opts = be32 0 @ [2] @ source_wire from_server k @ string_wire opts"

lemma buf_init_zero: "live_buf b \<Longrightarrow> \<exists>b'. buf_init b 0 = (True, b') \<and> live_buf b' \<and> content b' = []"
proof -
  assume "live_buf b"
  then obtain pre c post where "b = mk_buf pre c post" by (rule live_bufE)
  then show ?thesis using buf_init_mk_buf[of b 0] by auto
qed

text \<open>The part of key_method_2_write that fills the buffer.\<close>

lemma km2_write_message:
  assumes "live_buf b" "key_method_2_write env opt auth rp r1 r2 sid b ks = Some (True, b', ks')"
  shows "\<exists>k rest src. wf_source k \<and> live_buf b' \<and> content b' = km2_wire (to_server opt) k (to_local_options opt) @ rest \<and>
    int (length (to_local_options opt)) + 1 \<le> 512 \<and>
    src = (if to_server opt then (ks_key_src ks)\<lparr>src_server := k\<rparr> else (ks_key_src ks)\<lparr>src_client := k\<rparr>) \<and>
    (if to_server opt
     then (if ks_authenticated ks
           then (\<exists>ctx. generate_key_expansion (te_lib env) (te_junk env) (to_key_type opt) src (ks_session_id_remote ks) sid True = Some (Some ctx) \<and>
             ks' = ks\<lparr>ks_key := ctx, ks_key_src := clear_source2\<rparr>)
           else ks' = ks\<lparr>ks_key_src := clear_source2\<rparr>)
     else ks' = ks\<lparr>ks_key_src := src\<rparr>)"
proof -
  obtain b0 where b0: "buf_init b 0 = (True, b0)" "live_buf b0" "content b0 = []" using buf_init_zero[OF assms(1)] by blast
  have km: "to_key_method opt = 2" using assms(2) by (auto simp: key_method_2_write_def split: if_splits)
  obtain b1 b2 src b3 b4 where w: "buf_write_u32 b0 0 = Some (True, b1)" "buf_write_u8 b1 2 = Some (True, b2)"
    "key_source2_randomize_write (ks_key_src ks) b2 (to_server opt) rp r1 r2 = Some (True, src, b3)"
    "write_string b3 (to_local_options opt) 512 = Some (True, b4)"
    and auth: "(case auth of None \<Rightarrow> Some (True, b4) | Some (username, password) \<Rightarrow> do {
         (ok, b) \<leftarrow> write_string b4 username (-1);
         if \<not> ok then Some (False, b) else write_string b password (-1) }) = Some (True, b')"
    and fin: "if to_server opt
     then (if ks_authenticated ks
           then (\<exists>ctx. generate_key_expansion (te_lib env) (te_junk env) (to_key_type opt) src (ks_session_id_remote ks) sid True = Some (Some ctx) \<and>
             ks' = ks\<lparr>ks_key := ctx, ks_key_src := clear_source2\<rparr>)
           else ks' = ks\<lparr>ks_key_src := clear_source2\<rparr>)
     else ks' = ks\<lparr>ks_key_src := src\<rparr>"
    using assms(2) km unfolding key_method_2_write_def b0(1) Let_def
    by (auto split: bind_splits if_splits prod.splits option.splits)
  have a1: "appended b0 (be32 0) b1" using buf_write_True[OF b0(2) w(1)[unfolded buf_write_u32_def]] by simp
  have a2: "appended b1 [2] b2" using buf_write_True[OF _ w(2)[unfolded buf_write_u8_def]] a1 by (simp add: appended_def)
  obtain k where k: "wf_source k" "appended b2 (source_wire (to_server opt) k) b3"
    "src = (if to_server opt then (ks_key_src ks)\<lparr>src_server := k\<rparr> else (ks_key_src ks)\<lparr>src_client := k\<rparr>)"
    using key_source2_write_True[OF _ w(3)] a2 by (auto simp: appended_def)
  have a4: "appended b3 (string_wire (to_local_options opt)) b4" "int (length (to_local_options opt)) + 1 \<le> 512"
    using write_string_True[OF _ w(4)] k(2) by (simp_all add: appended_def)
  have "\<exists>rest. appended b4 rest b'"
  proof (cases auth)
    case None
    then show ?thesis using auth a4(1) by (auto simp: appended_def)
  next
    case (Some up)
    obtain username password where up: "up = (username, password)" by (cases up)
    then obtain b5 where b5: "write_string b4 username (-1) = Some (True, b5)" "write_string b5 password (-1) = Some (True, b')"
      using auth Some by (auto split: bind_splits if_splits prod.splits)
    have "appended b4 (string_wire username) b5" using write_string_True(1)[OF _ b5(1)] a4(1) by (simp add: appended_def)
    moreover have "appended b5 (string_wire password) b'"
      using write_string_True(1)[OF _ b5(2)] calculation by (simp add: appended_def)
    ultimately show ?thesis using appended_append by blast
  qed
  then obtain rest where "appended b4 rest b'" by blast
  from appended_append[OF appended_append[OF appended_append[OF appended_append[OF a1 a2] k(2)] a4(1)] this]
  have "live_buf b'" "content b' = km2_wire (to_server opt) k (to_local_options opt) @ rest"
    using b0(3) by (simp_all add: appended_def km2_wire_def)
  then show ?thesis using k(1,3) a4(2) fin by (intro exI[of _ k] exI[of _ rest] exI[of _ src]) simp
qed

section \<open>What is read\<close>

lemma buf_read_u16_be16:
  "buf_read_u16 (mk_buf pre (be16 v @ c) post) = Some (uint v, mk_buf (pre @ be16 v) c post)"
  by (simp add: buf_read_u16_def)

lemma read_string_wire:
  assumes "int (length s) + 1 \<le> cap" "cap \<le> 65535"
  shows "\<exists>pre' r. read_string (mk_buf pre (string_wire s @ rest) post) cap = Some (Some r, mk_buf pre' rest post)"
proof -
  have u: "uint (word_of_int (int (length s) + 1) :: u16) = int (length s) + 1"
    unfolding uint_word_of_int using assms by simp
  have r: "buf_read_u16 (mk_buf pre (be16 (word_of_int (int (length s) + 1)) @ (s @ [0]) @ rest) post) =
    Some (int (length s) + 1, mk_buf (pre @ be16 (word_of_int (int (length s) + 1))) ((s @ [0]) @ rest) post)"
    using buf_read_u16_be16[of pre "word_of_int (int (length s) + 1)" "(s @ [0]) @ rest" post] unfolding u by simp
  have n: "buf_read (mk_buf pre' ((s @ [0]) @ rest) post) (int (length s) + 1) =
    Some (Some (s @ [0]), mk_buf (pre' @ s @ [0]) rest post)" for pre'
    by (simp add: nat_add_distrib)
  show ?thesis unfolding read_string_def string_wire_def append_assoc[of _ "s @ [0]" rest] r bind.bind_lunit prod.case n
    using assms by (auto simp: n)
qed

lemma key_source2_read_wire:
  assumes "wf_source k"
  shows "\<exists>pre' k'. key_source2_read k2 (mk_buf pre (source_wire (\<not> server) k @ rest) post) server =
    Some (True, if server then k2\<lparr>src_client := k'\<rparr> else k2\<lparr>src_server := k'\<rparr>, mk_buf pre' rest post) \<and> source_sent (\<not> server) k k'"
proof (cases server)
  case True
  show ?thesis
    by (rule exI[of _ "pre @ pre_master k @ random1 k @ random2 k"],
        rule exI[of _ "clear_source\<lparr>pre_master := pre_master k, random1 := random1 k, random2 := random2 k\<rparr>"])
       (use assms True in \<open>simp add: key_source2_read_def source_wire_def wf_source_def source_sent_def\<close>)
next
  case False
  show ?thesis
    by (rule exI[of _ "pre @ random1 k @ random2 k"],
        rule exI[of _ "clear_source\<lparr>random1 := random1 k, random2 := random2 k\<rparr>"])
       (use assms False in \<open>simp add: key_source2_read_def source_wire_def wf_source_def source_sent_def\<close>)
qed

text \<open>The authentication steps leave the key material, the session identifiers and the queues of the session alone.\<close>

definition same_keying :: "nat \<Rightarrow> 'ssl tls_multi \<Rightarrow> 'ssl tls_multi \<Rightarrow> bool" where
  "same_keying i m m' \<longleftrightarrow> tm_opt m' = tm_opt m \<and> length (tm_session m') = length (tm_session m) \<and>
     ts_session_id (tm_session m' ! i) = ts_session_id (tm_session m ! i) \<and>
     ks_session_id_remote (ts_primary (tm_session m' ! i)) = ks_session_id_remote (ts_primary (tm_session m ! i)) \<and>
     ks_key_src (ts_primary (tm_session m' ! i)) = ks_key_src (ts_primary (tm_session m ! i)) \<and>
     ks_state (ts_primary (tm_session m' ! i)) = ks_state (ts_primary (tm_session m ! i)) \<and>
     ks_key (ts_primary (tm_session m' ! i)) = ks_key (ts_primary (tm_session m ! i)) \<and>
     ks_send_reliable (ts_primary (tm_session m' ! i)) = ks_send_reliable (ts_primary (tm_session m ! i)) \<and>
     ks_rec_reliable (ts_primary (tm_session m' ! i)) = ks_rec_reliable (ts_primary (tm_session m ! i)) \<and>
     ks_plaintext_read_buf (ts_primary (tm_session m' ! i)) = ks_plaintext_read_buf (ts_primary (tm_session m ! i)) \<and>
     ks_plaintext_write_buf (ts_primary (tm_session m' ! i)) = ks_plaintext_write_buf (ts_primary (tm_session m ! i))"

lemma same_keying_refl: "same_keying i m m"
  by (simp add: same_keying_def)

lemma same_keying_trans: "same_keying i m m1 \<Longrightarrow> same_keying i m1 m2 \<Longrightarrow> same_keying i m m2"
  by (simp add: same_keying_def)

lemma upd_session_nth: "i < length (tm_session m) \<Longrightarrow> tm_session (upd_session i f m) ! i = f (tm_session m ! i)"
  by (simp add: upd_session_def)

lemma upd_session_simps [simp]:
  "tm_opt (upd_session i f m) = tm_opt m" "length (tm_session (upd_session i f m)) = length (tm_session m)"
  "tm_locked_cn (upd_session i f m) = tm_locked_cn m"
  by (simp_all add: upd_session_def)

lemma same_keying_name:
  "i < length (tm_session m) \<Longrightarrow> same_keying i m (upd_session i (\<lambda>s. set_common_name s cn) m)"
  by (simp add: same_keying_def upd_session_nth set_common_name_def)

lemma same_keying_auth:
  "i < length (tm_session m) \<Longrightarrow> same_keying i m (upd_session i (\<lambda>s. s\<lparr>ts_primary := (ts_primary s)\<lparr>ks_authenticated := v\<rparr>\<rparr>) m)"
  by (simp add: same_keying_def upd_session_nth)

lemma same_keying_deauth: "i < length (tm_session m) \<Longrightarrow> same_keying i m (tls_deauthenticate m)"
  by (simp add: same_keying_def tls_deauthenticate_def)

lemmas same_keying_intros = same_keying_refl same_keying_name same_keying_auth same_keying_deauth

lemma same_keying_length: "same_keying i m m' \<Longrightarrow> length (tm_session m') = length (tm_session m)"
  by (simp add: same_keying_def)

lemma km2_authenticate_keying:
  assumes "i < length (tm_session m)" "km2_authenticate env m i b = Some (Some m', b')"
  shows "same_keying i m m'"
proof -
  let ?auth = "\<lambda>v. upd_session i (\<lambda>s. s\<lparr>ts_primary := (ts_primary s)\<lparr>ks_authenticated := v\<rparr>\<rparr>)"
  define m1 where "m1 = ?auth False m"
  define m2 where "m2 = ?auth True m1"
  have "m' \<in> {m1, m2} \<union> range (\<lambda>u. upd_session i (\<lambda>s. set_common_name s (Some u)) m2)"
    using assms(2) unfolding km2_authenticate_def Let_def m1_def[symmetric] m2_def[symmetric]
    by (auto split: bind_splits if_splits option.splits prod.splits)
  moreover have 1: "same_keying i m m1" unfolding m1_def by (rule same_keying_auth[OF assms(1)])
  moreover have 2: "same_keying i m1 m2" unfolding m2_def by (rule same_keying_auth) (simp add: m1_def assms(1))
  moreover have "same_keying i m2 (upd_session i (\<lambda>s. set_common_name s (Some u)) m2)" for u
    by (rule same_keying_name) (simp add: m2_def m1_def assms(1))
  ultimately show ?thesis by (auto intro: same_keying_trans[OF same_keying_trans[OF 1 2]] same_keying_trans[OF 1])
qed

lemma km2_check_name_keying:
  assumes "i < length (tm_session m)" "km2_check_name env m i = Some m'"
  shows "same_keying i m m'"
proof -
  define m1 where "m1 = upd_session i (\<lambda>s. if ts_common_name s = None then set_common_name s (Some []) else s) m"
  define m2 where "m2 = (case tm_locked_cn m1 of
                Some locked \<Rightarrow>
                  if ks_authenticated (ts_primary (tm_session m1 ! i)) \<and> ts_common_name (tm_session m1 ! i) \<noteq> Some locked
                  then tls_deauthenticate (upd_session i (\<lambda>s. set_common_name s (Some locked)) m1)
                  else m1
              | None \<Rightarrow> m1)"
  have 1: "same_keying i m m1" using assms(1)
    by (simp add: m1_def same_keying_def upd_session_nth set_common_name_def)
  then have l1: "i < length (tm_session m1)" using assms(1) by (simp add: same_keying_length)
  have 2: "same_keying i m1 m2"
    unfolding m2_def using l1
    by (auto split: option.splits intro!: same_keying_intros intro: same_keying_trans[OF same_keying_name same_keying_deauth])
  then have l2: "i < length (tm_session m2)" using l1 by (simp add: same_keying_length)
  have "m' = m2 \<or> m' = upd_session i (\<lambda>s. s\<lparr>ts_primary := (ts_primary s)\<lparr>ks_authenticated := False\<rparr>\<rparr>) m2"
    using assms(2) unfolding km2_check_name_def Let_def m1_def[symmetric] m2_def[symmetric]
    by (auto split: bind_splits if_splits option.splits)
  then have "same_keying i m2 m'" using same_keying_refl same_keying_auth[OF l2] by metis
  then show ?thesis using 1 2 same_keying_trans by blast
qed

section \<open>Reading a message of key method 2\<close>

lemma km2_read_message:
  assumes "i < length (tm_session m)" "live_buf b" "content b = km2_wire (\<not> to_server (tm_opt m)) k opts @ rest" "wf_source k"
    "int (length opts) + 1 \<le> 512" "key_method_2_read env m i b = Some (True, b', m')"
  shows "\<exists>k' src. source_sent (\<not> to_server (tm_opt m)) k k' \<and>
    src = (if to_server (tm_opt m) then (ks_key_src (ts_primary (tm_session m ! i)))\<lparr>src_client := k'\<rparr>
           else (ks_key_src (ts_primary (tm_session m ! i)))\<lparr>src_server := k'\<rparr>) \<and>
    (if to_server (tm_opt m)
     then same_keying i (upd_session i (\<lambda>s. s\<lparr>ts_primary := (ts_primary s)\<lparr>ks_key_src := src\<rparr>\<rparr>) m) m'
     else generate_key_expansion (te_lib env) (te_junk env) (to_key_type (tm_opt m)) src (ts_session_id (tm_session m ! i))
            (ks_session_id_remote (ts_primary (tm_session m ! i))) False = Some (Some (ks_key (ts_primary (tm_session m' ! i)))))"
proof -
  let ?s = "to_server (tm_opt m)"
  let ?put = "\<lambda>f. upd_session i (\<lambda>s. s\<lparr>ts_primary := f (ts_primary s)\<rparr>)"
  obtain pre post where b: "b = mk_buf pre (km2_wire (\<not> ?s) k opts @ rest) post"
    using assms(2,3) by (metis live_bufE content_mk_buf)
  have km: "to_key_method (tm_opt m) = 2" using assms(6) by (rule contrapos_pp) (simp add: key_method_2_read_def Let_def)
  obtain pre1 k' where k': "key_source2_read (ks_key_src (ts_primary (tm_session m ! i)))
      (mk_buf ((pre @ be32 0) @ [2]) (source_wire (\<not> ?s) k @ string_wire opts @ rest) post) ?s =
    Some (True, if ?s then (ks_key_src (ts_primary (tm_session m ! i)))\<lparr>src_client := k'\<rparr>
      else (ks_key_src (ts_primary (tm_session m ! i)))\<lparr>src_server := k'\<rparr>, mk_buf pre1 (string_wire opts @ rest) post)"
    "source_sent (\<not> ?s) k k'"
    using key_source2_read_wire[OF assms(4), of "ks_key_src (ts_primary (tm_session m ! i))" _ ?s] by blast
  let ?src = "if ?s then (ks_key_src (ts_primary (tm_session m ! i)))\<lparr>src_client := k'\<rparr>
      else (ks_key_src (ts_primary (tm_session m ! i)))\<lparr>src_server := k'\<rparr>"
  obtain pre2 r where r: "read_string (mk_buf pre1 (string_wire opts @ rest) post) 512 = Some (Some r, mk_buf pre2 rest post)"
    using read_string_wire[of opts 512 pre1 rest post] assms(5) by auto
  define m1 where "m1 = ?put (ks_key_src_update (\<lambda>_. ?src)) m"
  have adv: "buf_advance b 4 = (True, mk_buf (pre @ be32 0) ([2] @ source_wire (\<not> ?s) k @ string_wire opts @ rest) post)"
    by (simp add: b km2_wire_def)
  have u8: "buf_read_u8 (mk_buf (pre @ be32 0) ([2] @ source_wire (\<not> ?s) k @ string_wire opts @ rest) post) =
    Some (2, mk_buf ((pre @ be32 0) @ [2]) (source_wire (\<not> ?s) k @ string_wire opts @ rest) post)" by simp
  have "\<exists>m2 m3 b2. km2_authenticate env m1 i (mk_buf pre2 rest post) = Some (Some m2, b2) \<and> km2_check_name env m2 i = Some m3 \<and>
     (if ?s then m' = m3
      else \<exists>ctx. generate_key_expansion (te_lib env) (te_junk env) (to_key_type (tm_opt m)) (ks_key_src (ts_primary (tm_session m3 ! i)))
             (ts_session_id (tm_session m3 ! i)) (ks_session_id_remote (ts_primary (tm_session m3 ! i))) False = Some (Some ctx) \<and>
           m' = ?put (\<lambda>ks. ks\<lparr>ks_key := ctx, ks_key_src := clear_source2\<rparr>) m3)"
    using assms(6) unfolding key_method_2_read_def Let_def adv prod.case km u8 bind.bind_lunit k'(1) r m1_def
    by (auto split: bind_splits if_splits option.splits prod.splits)
  then obtain m2 m3 b2 where m: "km2_authenticate env m1 i (mk_buf pre2 rest post) = Some (Some m2, b2)" "km2_check_name env m2 i = Some m3"
    "if ?s then m' = m3
      else \<exists>ctx. generate_key_expansion (te_lib env) (te_junk env) (to_key_type (tm_opt m)) (ks_key_src (ts_primary (tm_session m3 ! i)))
             (ts_session_id (tm_session m3 ! i)) (ks_session_id_remote (ts_primary (tm_session m3 ! i))) False = Some (Some ctx) \<and>
           m' = ?put (\<lambda>ks. ks\<lparr>ks_key := ctx, ks_key_src := clear_source2\<rparr>) m3" by blast
  have l1: "i < length (tm_session m1)" using assms(1) by (simp add: m1_def)
  have k12: "same_keying i m1 m2" by (rule km2_authenticate_keying[OF l1 m(1)])
  then have l2: "i < length (tm_session m2)" using l1 by (simp add: same_keying_length)
  have k23: "same_keying i m2 m3" by (rule km2_check_name_keying[OF l2 m(2)])
  have k13: "same_keying i m1 m3" by (rule same_keying_trans[OF k12 k23])
  show ?thesis
  proof (cases ?s)
    case True
    then show ?thesis using k'(2) k13 m(3) by (intro exI[of _ k'] exI[of _ ?src]) (simp add: m1_def)
  next
    case False
    then obtain ctx where ctx: "generate_key_expansion (te_lib env) (te_junk env) (to_key_type (tm_opt m)) (ks_key_src (ts_primary (tm_session m3 ! i)))
             (ts_session_id (tm_session m3 ! i)) (ks_session_id_remote (ts_primary (tm_session m3 ! i))) False = Some (Some ctx)"
           "m' = ?put (\<lambda>ks. ks\<lparr>ks_key := ctx, ks_key_src := clear_source2\<rparr>) m3" using m(3) by auto
    have l3: "i < length (tm_session m3)" using k23 l2 by (simp add: same_keying_length)
    have "ks_key (ts_primary (tm_session m' ! i)) = ctx" unfolding ctx(2) by (simp add: upd_session_nth[OF l3])
    moreover have "ks_key_src (ts_primary (tm_session m3 ! i)) = ?src" "ts_session_id (tm_session m3 ! i) = ts_session_id (tm_session m ! i)"
      "ks_session_id_remote (ts_primary (tm_session m3 ! i)) = ks_session_id_remote (ts_primary (tm_session m ! i))"
      using k13 assms(1) by (simp_all add: same_keying_def m1_def upd_session_nth)
    ultimately show ?thesis using False k'(2) ctx(1) by (intro exI[of _ k'] exI[of _ ?src]) simp
  qed
qed

section \<open>Both sides hold the same keys\<close>

lemma expand_keys_eq:
  assumes "md_ok (EVP_md5 (tl_prf lib))" "md_ok (EVP_sha1 (tl_prf lib))" "wf_sid cs" "wf_sid ss"
    "pre_master (src_client src') = pre_master (src_client src)"
    "random1 (src_client src') = random1 (src_client src)" "random2 (src_client src') = random2 (src_client src)"
    "random1 (src_server src') = random1 (src_server src)" "random2 (src_server src') = random2 (src_server src)"
  shows "expand_keys lib junk' src' cs ss = expand_keys lib junk src cs ss"
proof -
  have s: "sid_ok None" "sid_ok (Some cs)" "sid_ok (Some ss)" using assms(3,4) by (simp_all add: sid_ok_def)
  note p = openvpn_PRF_rfc[OF assms(1,2) s(1,1), of _ _ _ _ _ 48, simplified] openvpn_PRF_rfc[OF assms(1,2) s(2,3), of _ _ _ _ _ 256, simplified]
  show ?thesis by (simp add: expand_keys_def p assms)
qed

text \<open>The data channel keys: what one side encrypts with the other decrypts with.\<close>

definition keys_agree :: "ctx_lib \<Rightarrow> key_type \<Rightarrow> key_ctx_bi \<Rightarrow> key_ctx_bi \<Rightarrow> bool" where
  "keys_agree lib kt client server \<longleftrightarrow> (\<exists>k0 k1.
     init_key_ctx lib k0 kt DO_ENCRYPT = Some (kc_encrypt client) \<and> init_key_ctx lib k0 kt DO_DECRYPT = Some (kc_decrypt server) \<and>
     init_key_ctx lib k1 kt DO_ENCRYPT = Some (kc_encrypt server) \<and> init_key_ctx lib k1 kt DO_DECRYPT = Some (kc_decrypt client))"

lemma generate_key_expansion_agree:
  assumes "generate_key_expansion lib junk kt src cs ss True = Some (Some server)"
    "generate_key_expansion lib junk' kt src' cs ss False = Some (Some client)"
    "expand_keys lib junk src cs ss = expand_keys lib junk' src' cs ss"
  shows "keys_agree (tl_ctx lib) kt client server"
proof -
  obtain k2 where k2: "expand_keys lib junk src cs ss = Some k2" using assms(1)
    by (auto simp: generate_key_expansion_def split: bind_splits)
  obtain ks where ks: "check_expansion lib kt (key2_keys k2) = Some (Some ks)"
    using assms(1) by (auto simp: generate_key_expansion_def k2 split: bind_splits option.splits)
  show ?thesis unfolding keys_agree_def
    by (rule exI[of _ "ks ! 0"], rule exI[of _ "ks ! 1"])
       (use assms k2 ks in \<open>auto simp: generate_key_expansion_def split: bind_splits\<close>)
qed

text \<open>
  C10: the two sides of an exchange with key method 2 agree on the keys of the data channel.  When the
  client writes its message, the server reads it and authenticates the client, the server writes its
  message and the client reads that, and each side knows the other's session identifier, then the key of each side for
  sending is the key of the other for receiving, whatever the random numbers were.
\<close>

theorem key_method_2_agreement:
  assumes client: "\<not> to_server (tm_opt mc)" "i < length (tm_session mc)" "sc = tm_session mc ! i"
    and server: "to_server (tm_opt ms)" "j < length (tm_session ms)" "ss = tm_session ms ! j"
    and lib: "te_lib envc = lib" "te_lib envs = lib" "to_key_type (tm_opt mc) = kt" "to_key_type (tm_opt ms) = kt"
      "md_ok (EVP_md5 (tl_prf lib))" "md_ok (EVP_sha1 (tl_prf lib))"
    and sids: "wf_sid (ts_session_id sc)" "wf_sid (ts_session_id ss)"
      "ks_session_id_remote (ts_primary sc) = ts_session_id ss" "ks_session_id_remote (ts_primary ss) = ts_session_id sc"
    and write1: "live_buf b0" "key_method_2_write envc (tm_opt mc) auth rp r1 r2 (ts_session_id sc) b0 (ts_primary sc) = Some (True, b1, kc)"
    and read1: "live_buf b2" "content b2 = content b1" "key_method_2_read envs ms j b2 = Some (True, b3, ms')"
      "ks_authenticated (ts_primary (tm_session ms' ! j))"
    and write2: "live_buf b4" "key_method_2_write envs (tm_opt ms) auth' rp' r1' r2' (ts_session_id ss) b4 (ts_primary (tm_session ms' ! j)) = Some (True, b5, kserver)"
    and read2: "live_buf b6" "content b6 = content b5"
      "key_method_2_read envc (upd_session i (\<lambda>s. s\<lparr>ts_primary := kc\<rparr>) mc) i b6 = Some (True, b7, mc')"
  shows "keys_agree (tl_ctx lib) kt (ks_key (ts_primary (tm_session mc' ! i))) (ks_key kserver)"
proof -
  obtain k rest where k: "wf_source k" "content b1 = km2_wire False k (to_local_options (tm_opt mc)) @ rest"
      "int (length (to_local_options (tm_opt mc))) + 1 \<le> 512"
      "kc = (ts_primary sc)\<lparr>ks_key_src := (ks_key_src (ts_primary sc))\<lparr>src_client := k\<rparr>\<rparr>"
    using km2_write_message[OF write1] client(1) by auto
  obtain k' where k': "source_sent False k k'" and ms': "same_keying j (upd_session j (\<lambda>s. s\<lparr>ts_primary := (ts_primary s)\<lparr>ks_key_src :=
      (ks_key_src (ts_primary ss))\<lparr>src_client := k'\<rparr>\<rparr>\<rparr>) ms) ms'"
    using km2_read_message[OF server(2) read1(1) _ k(1,3) read1(3), of rest] server(1,3) read1(2) k(2) by auto
  have src: "ks_key_src (ts_primary (tm_session ms' ! j)) = (ks_key_src (ts_primary ss))\<lparr>src_client := k'\<rparr>"
    "ks_session_id_remote (ts_primary (tm_session ms' ! j)) = ts_session_id sc"
    using ms' server(2,3) sids(4) by (simp_all add: same_keying_def upd_session_nth)
  obtain s rest' where s: "wf_source s" "content b5 = km2_wire True s (to_local_options (tm_opt ms)) @ rest'"
      "int (length (to_local_options (tm_opt ms))) + 1 \<le> 512"
      "generate_key_expansion lib (te_junk envs) kt ((ks_key_src (ts_primary ss))\<lparr>src_client := k', src_server := s\<rparr>)
        (ts_session_id sc) (ts_session_id ss) True = Some (Some (ks_key kserver))"
    using km2_write_message[OF write2] server(1) read1(4) unfolding src lib by auto
  let ?mc = "upd_session i (\<lambda>s. s\<lparr>ts_primary := kc\<rparr>) mc"
  have mc: "i < length (tm_session ?mc)" "tm_session ?mc ! i = sc\<lparr>ts_primary := kc\<rparr>"
    using client(2,3) by (simp_all add: upd_session_nth)
  obtain s' where s': "source_sent True s s'"
    "generate_key_expansion lib (te_junk envc) kt ((ks_key_src kc)\<lparr>src_server := s'\<rparr>) (ts_session_id sc) (ks_session_id_remote kc) False =
      Some (Some (ks_key (ts_primary (tm_session mc' ! i))))"
    using km2_read_message[OF mc(1) read2(1) _ s(1,3) read2(3), of rest'] client(1) read2(2) s(2) mc(2) lib by auto
  have "expand_keys lib (te_junk envs) ((ks_key_src (ts_primary ss))\<lparr>src_client := k', src_server := s\<rparr>) (ts_session_id sc) (ts_session_id ss) =
    expand_keys lib (te_junk envc) ((ks_key_src kc)\<lparr>src_server := s'\<rparr>) (ts_session_id sc) (ts_session_id ss)"
    using k' s'(1) by (intro expand_keys_eq lib sids(1,2)) (simp_all add: k(4) source_sent_def)
  from generate_key_expansion_agree[OF s(4) _ this] s'(2) show ?thesis by (simp add: k(4) sids(3))
qed

text \<open>A concrete exchange: a client and a server whose sessions know each other.\<close>

definition toy_env :: "unit tls_env" where
  "toy_env = \<lparr>te_junk = (\<lambda>_. 170),
     te_lib = \<lparr>tl_prf = \<lparr>EVP_md5 = \<lparr>EVP_MD_size = 256, EVP_HMAC = (\<lambda>k d. replicate 256 (hd d + 1))\<rparr>,
                        EVP_sha1 = \<lparr>EVP_MD_size = 256, EVP_HMAC = (\<lambda>k d. replicate 256 (hd d))\<rparr>\<rparr>,
       tl_ctx = \<lparr>cipher_setup = (\<lambda>_ _ _. None), hmac_setup = (\<lambda>k. \<lparr>HMAC_size = 4, HMAC_digest = (\<lambda>d. take 4 k)\<rparr>)\<rparr>,
       tl_des = \<lparr>DES_is_weak_key = (\<lambda>_. False), DES_check_key_parity = (\<lambda>_. True), DES_set_odd_parity = (\<lambda>k. k)\<rparr>\<rparr>,
     te_ssl = \<lparr>SSL_new = (\<lambda>_. ()), BIO_write_plaintext = (\<lambda>_ _ _. ((0, True), [], ())), BIO_write_ciphertext = (\<lambda>_ _ _. ((0, True), [], ())),
       BIO_read_plaintext = (\<lambda>_ _ _. ((None, True), [], ())), BIO_read_ciphertext = (\<lambda>_ _ _. ((None, True), [], ()))\<rparr>,
     te_plugin_auth = (\<lambda>_ _. False), te_script_auth = (\<lambda>_ _. False), te_test_file = (\<lambda>_. False),
     te_verify_plugin = (\<lambda>_ _. True), te_verify_script = (\<lambda>_ _. Some True), te_crl = None\<rparr>"

definition toy_opt :: "bool \<Rightarrow> tls_options" where
  "toy_opt server = \<lparr>to_key_type = \<lparr>cipher_length = 0, hmac_length = 20, kt_cipher = None, kt_digest = True\<rparr>, to_server = server,
     to_local_options = ascii ''V4'', to_remote_options = ascii ''V4'', to_key_method = 2, to_replay = True, to_single_session = False,
     to_disable_occ = False, to_transition_window = 3600, to_handshake_window = 60, to_packet_timeout = 2, to_renegotiate_bytes = 0,
     to_renegotiate_packets = 0, to_renegotiate_seconds = 3600, to_crypto_flags_and = 0, to_crypto_flags_or = 0, to_replay_window = 64,
     to_replay_time = 15, to_tls_auth = clear_crypto_options, to_tls_auth_key = clear_key_ctx_bi,
     to_frame = \<lparr>link_mtu = 1500, link_mtu_dynamic = 1500, extra_frame = 0, extra_buffer = 0, extra_tun = 0, extra_link = 0, align_flags = 0, align_adjust = 0\<rparr>,
     to_auth_user_pass_verify_script = False, to_auth_user_pass_verify_plugin = False, to_username_as_common_name = False,
     to_client_config_dir_exclusive = None, to_ns_cert_type = 0, to_verify_x509name = None, to_verify_plugin = False,
     to_verify_command = False, to_crl_file = False\<rparr>"

definition toy_multi :: "bool \<Rightarrow> unit tls_multi" where
  "toy_multi server = (tls_multi_init (toy_opt server) None)\<lparr>tm_session := replicate 3 (clear_session\<lparr>ts_verified := True,
     ts_session_id := replicate 8 (if server then 2 else 1),
     ts_primary := clear_key_state\<lparr>ks_session_id_remote := replicate 8 (if server then 1 else 2)\<rparr>\<rparr>)\<rparr>"

definition toy_exchange :: "(unit tls_multi \<times> unit key_state) option" where
  "toy_exchange = (let mc = toy_multi False; ms = toy_multi True in do {
     (ok, b1, kc) \<leftarrow> key_method_2_write toy_env (tm_opt mc) None (replicate 48 3) (replicate 32 4) (replicate 32 5)
        (ts_session_id (tm_session mc ! 0)) (alloc_buf (\<lambda>_. 0) 140) (ts_primary (tm_session mc ! 0));
     ASSERT ok;
     (ok, b3, ms') \<leftarrow> key_method_2_read toy_env ms 0 b1;
     ASSERT (ok \<and> ks_authenticated (ts_primary (tm_session ms' ! 0)));
     (ok, b5, k) \<leftarrow> key_method_2_write toy_env (tm_opt ms) None [] (replicate 32 6) (replicate 32 7)
        (ts_session_id (tm_session ms ! 0)) (alloc_buf (\<lambda>_. 0) 140) (ts_primary (tm_session ms' ! 0));
     ASSERT ok;
     (ok, b7, mc') \<leftarrow> key_method_2_read toy_env (upd_session 0 (\<lambda>s. s\<lparr>ts_primary := kc\<rparr>) mc) 0 b5;
     ASSERT ok;
     Some (mc', k)
   })"


lemma toy_exchange_runs: "Option.is_none toy_exchange = False"
  by code_simp

theorem key_method_2_agreement_witness:
  "\<exists>mc' ks. toy_exchange = Some (mc', ks) \<and>
     keys_agree (tl_ctx (te_lib toy_env)) (to_key_type (toy_opt True)) (ks_key (ts_primary (tm_session mc' ! 0))) (ks_key ks)"
proof -
  let ?mc = "toy_multi False" and ?ms = "toy_multi True"
  obtain b1 kc b3 ms' b5 k b7 mc' where
    w1: "key_method_2_write toy_env (tm_opt ?mc) None (replicate 48 3) (replicate 32 4) (replicate 32 5)
        (ts_session_id (tm_session ?mc ! 0)) (alloc_buf (\<lambda>_. 0) 140) (ts_primary (tm_session ?mc ! 0)) = Some (True, b1, kc)"
    and r1: "key_method_2_read toy_env ?ms 0 b1 = Some (True, b3, ms')" "ks_authenticated (ts_primary (tm_session ms' ! 0))"
    and w2: "key_method_2_write toy_env (tm_opt ?ms) None [] (replicate 32 6) (replicate 32 7)
        (ts_session_id (tm_session ?ms ! 0)) (alloc_buf (\<lambda>_. 0) 140) (ts_primary (tm_session ms' ! 0)) = Some (True, b5, k)"
    and r2: "key_method_2_read toy_env (upd_session 0 (\<lambda>s. s\<lparr>ts_primary := kc\<rparr>) ?mc) 0 b5 = Some (True, b7, mc')"
    and run: "toy_exchange = Some (mc', k)"
    using toy_exchange_runs unfolding toy_exchange_def Let_def Option.is_none_def
    by (auto split: bind_splits if_splits prod.splits)
  have live: "live_buf (alloc_buf (\<lambda>_. 0) 140)" by (simp add: live_buf_def wf_buf_def alloc_buf_def Let_def)
  have l1: "live_buf b1" "live_buf b5" using km2_write_message[OF live w1] km2_write_message[OF live w2] by blast+
  have "keys_agree (tl_ctx (te_lib toy_env)) (to_key_type (toy_opt True)) (ks_key (ts_primary (tm_session mc' ! 0))) (ks_key k)"
    by (rule key_method_2_agreement[OF _ _ refl _ _ refl refl refl _ _ _ _ _ _ _ _ live w1 l1(1) refl r1 live w2 l1(2) refl r2])
       (simp_all add: toy_multi_def tls_multi_init_def toy_opt_def toy_env_def md_ok_def wf_sid_def)
  then show ?thesis using run by blast
qed

section \<open>Short messages\<close>

text \<open>
  C34: a message of fewer than four bytes from a peer that has completed the TLS handshake ends the process.
  key_method_2_read asserts that it can skip the first four bytes of the plaintext; nothing
  checks that they are there.
\<close>

theorem key_method_2_read_short_aborts:
  assumes "live_buf b" "length (content b) < 4"
  shows "key_method_2_read env m i b = None"
proof -
  obtain pre c post where b: "b = mk_buf pre c post" using assms(1) by (rule live_bufE)
  then have "buf_advance b 4 = (False, b)" using assms(2) by simp
  then show ?thesis by (simp add: key_method_2_read_def Let_def)
qed

theorem key_method_2_read_short_aborts_witness:
  "key_method_2_read toy_env (toy_multi True) 0 (mk_buf [] [1, 2, 3] [0]) = None"
  using key_method_2_read_short_aborts[of "mk_buf [] [1, 2, 3] [0]"] by simp

end
