(* ===== verification/Tls_Auth.thy ===== *)
theory Tls_Auth
  imports Key_Exchange Data_Channel
begin

text \<open>
  Control packets on the wire (ssl.c): the opcode, the session identifier and the acknowledgements in front of a
  control message, the HMAC of --tls-auth and its replay protection.  swap_hmac moves the tag behind the
  opcode and the session identifier; write_control_auth and read_control_auth are built on openvpn_encrypt and
  openvpn_decrypt without a cipher.  The theory shows that with a key only packets whose tag is valid are accepted and none twice
  (an interpretation of the interface of the replay guard), and that what is written is accepted by the peer.
\<close>

section \<open>Control packets\<close>

abbreviation (input) "SWAP_BUF_SIZE \<equiv> (256 :: int)"
abbreviation (input) "P_KEY_ID_MASK \<equiv> (7 :: byte)"
abbreviation (input) "P_OPCODE_SHIFT \<equiv> (3 :: nat)"
abbreviation (input) "CONTROL_SEND_ACK_MAX \<equiv> (4 :: int)"

definition swap_hmac :: "buffer \<Rightarrow> crypto_options \<Rightarrow> bool \<Rightarrow> (bool \<times> buffer) option" where
  "swap_hmac b co incoming = do {
     kcb \<leftarrow> co_key_ctx_bi co;
     let ctx = (if incoming then kc_decrypt kcb else kc_encrypt kcb);
     h \<leftarrow> ctx_hmac ctx;
     let hmac_size = HMAC_size h + packet_id_size True;
     let osid_size = 1 + SID_SIZE;
     let (e1, e2) = (if incoming then (osid_size, hmac_size) else (hmac_size, osid_size));
     ASSERT (e1 \<le> SWAP_BUF_SIZE \<and> e2 \<le> SWAP_BUF_SIZE);
     if len b \<ge> e1 + e2 then do {
       buf1 \<leftarrow> buf_load b (offset b) e1;
       buf2 \<leftarrow> buf_load b (offset b + e1) e2;
       b \<leftarrow> buf_store b (offset b) buf2;
       b \<leftarrow> buf_store b (offset b + e2) buf1;
       Some (True, b)
     } else Some (False, b)
   }"

text \<open>
  The calls of openvpn_encrypt and openvpn_decrypt have no frame and no work buffer: a context with a
  cipher would dereference the null frame.
\<close>

definition encrypt_auth_only :: "time_t \<Rightarrow> frame \<Rightarrow> buffer \<Rightarrow> crypto_options \<Rightarrow> (buffer \<times> crypto_options) option" where
  "encrypt_auth_only now f b co = do {
     kcb \<leftarrow> co_key_ctx_bi co;
     ASSERT (ctx_cipher (kc_encrypt kcb) = None);
     openvpn_encrypt now [] b clear_buf co f
   }"

definition decrypt_auth_only :: "time_t \<Rightarrow> frame \<Rightarrow> buffer \<Rightarrow> crypto_options \<Rightarrow> (bool \<times> buffer \<times> crypto_options) option" where
  "decrypt_auth_only now f b co = do {
     kcb \<leftarrow> co_key_ctx_bi co;
     ASSERT (ctx_cipher (kc_decrypt kcb) = None);
     openvpn_decrypt now b clear_buf co f
   }"

text \<open>
  write_control_auth is always called for the primary key state of the session.  The result is the packet, the
  address that it is for and the session.
\<close>

definition write_control_auth ::
  "time_t \<Rightarrow> frame \<Rightarrow> 'ssl tls_session \<Rightarrow> buffer \<Rightarrow> int \<Rightarrow> int \<Rightarrow> bool \<Rightarrow> (buffer \<times> sockaddr_in \<times> 'ssl tls_session) option" where
  "write_control_auth now f session b opc max_ack prepend_ack = do {
     let ks = ts_primary session;
     ASSERT (addr_defined (ks_remote_addr ks));
     (ok, ack, b) \<leftarrow> reliable_ack_write (ks_rec_ack ks) b (ks_session_id_remote ks) max_ack prepend_ack;
     ASSERT ok;
     (ok, b) \<leftarrow> session_id_write_prepend (ts_session_id session) b;
     ASSERT ok;
     let (header, b) = buf_prepend b 1;
     header \<leftarrow> header;
     b \<leftarrow> buf_store b header [word_of_int (ks_key_id ks) OR push_bit P_OPCODE_SHIFT (word_of_int opc)];
     kcb \<leftarrow> co_key_ctx_bi (ts_tls_auth session);
     (b, co) \<leftarrow> (if ctx_hmac (kc_encrypt kcb) \<noteq> None then do {
         (b, co) \<leftarrow> encrypt_auth_only now f b (ts_tls_auth session);
         (ok, b) \<leftarrow> swap_hmac b co False;
         ASSERT ok;
         Some (b, co)
       } else Some (b, ts_tls_auth session));
     Some (b, ks_remote_addr ks, session\<lparr>ts_tls_auth := co, ts_primary := ks\<lparr>ks_rec_ack := ack\<rparr>\<rparr>)
   }"

definition read_control_auth :: "time_t \<Rightarrow> frame \<Rightarrow> buffer \<Rightarrow> crypto_options \<Rightarrow> (bool \<times> buffer \<times> crypto_options) option" where
  "read_control_auth now f b co = do {
     kcb \<leftarrow> co_key_ctx_bi co;
     (ok, b, co) \<leftarrow> (if ctx_hmac (kc_decrypt kcb) \<noteq> None then do {
         (ok, b) \<leftarrow> swap_hmac b co True;
         if \<not> ok then Some (False, b, co)
         else do {
           (_, b, co) \<leftarrow> decrypt_auth_only now f b co;
           Some (len b \<noteq> 0, b, co)
         }
       } else Some (True, b, co));
     Some (if ok then (True, snd (buf_advance b (SID_SIZE + 1)), co) else (False, b, co))
   }"

section \<open>Swapping\<close>

lemma buf_store_mid:
  assumes "0 \<le> k" "nat k + length zs \<le> length c"
  shows "buf_store (mk_buf pre c post) (int (length pre) + k) zs =
    Some (mk_buf pre (take (nat k) c @ zs @ drop (nat k + length zs) c) post)"
proof -
  let ?a = "take (nat k) c" and ?y = "take (length zs) (drop (nat k) c)" and ?r = "drop (nat k + length zs) c"
  have c: "c = ?a @ ?y @ ?r"
    by (metis append_take_drop_id drop_drop add.commute)
  have m: "mem_write ((pre @ ?a) @ ?y @ (?r @ post)) (int (length (pre @ ?a))) zs = Some ((pre @ ?a) @ zs @ (?r @ post))"
    using assms by (intro mem_write_parts) simp
  have l: "int (length (pre @ ?a)) = int (length pre) + k" using assms by simp
  have mem: "pre @ c @ post = (pre @ ?a) @ ?y @ (?r @ post)" by (subst c) simp
  show ?thesis using assms m unfolding l buf_store_def mk_buf_def mem
    by (simp add: min_absorb1 c[symmetric])
qed

lemma swap_parts:
  assumes "length x = nat e1" "length y = nat e2" "0 \<le> e1" "0 \<le> e2"
  shows "do {
       buf1 \<leftarrow> buf_load (mk_buf pre (x @ y @ c) post) (int (length pre)) e1;
       buf2 \<leftarrow> buf_load (mk_buf pre (x @ y @ c) post) (int (length pre) + e1) e2;
       b \<leftarrow> buf_store (mk_buf pre (x @ y @ c) post) (int (length pre)) buf2;
       b \<leftarrow> buf_store b (offset b + e2) buf1;
       Some (True, b)
     } = Some (True, mk_buf pre (y @ x @ c) post)"
proof -
  have 1: "buf_load (mk_buf pre (x @ y @ c) post) (int (length pre)) e1 = Some x"
    "buf_load (mk_buf pre (x @ y @ c) post) (int (length pre) + e1) e2 = Some y"
    using assms by (auto simp: buf_load_def mk_buf_def mem_read_def nat_add_distrib)
  have 2: "buf_store (mk_buf pre (x @ y @ c) post) (int (length pre)) y = Some (mk_buf pre (y @ drop (length y) (x @ y @ c)) post)"
    using buf_store_mid[of 0 y "x @ y @ c" pre post] by simp
  define d where "d = drop (length y) (x @ y @ c)"
  have d: "length x \<le> length d" "drop (length x) d = c" by (simp_all add: d_def)
  have 3: "buf_store (mk_buf pre (y @ d) post) (int (length pre) + e2) x = Some (mk_buf pre (y @ x @ c) post)"
    using assms(2,4) d buf_store_mid[of e2 x "y @ d" pre post] by (simp add: assms(2)[symmetric] add.commute)
  show ?thesis by (simp add: 1 2 3 flip: d_def del: drop_append)
qed

lemma swap_hmac_incoming:
  assumes "co_key_ctx_bi co = Some kcb" "ctx_hmac (kc_decrypt kcb) = Some h" "hmac_ok (Some h)"
    "length x = 9" "length y = nat (HMAC_size h) + 8"
  shows "swap_hmac (mk_buf pre (x @ y @ c) post) co True = Some (True, mk_buf pre (y @ x @ c) post)"
proof -
  have h: "0 \<le> HMAC_size h" "HMAC_size h \<le> 64" using assms(3) by (auto simp: hmac_ok_def)
  show ?thesis using assms(1,2,4,5) h swap_parts[of x 9 y "HMAC_size h + 8" pre c post]
    by (simp add: swap_hmac_def Let_def packet_id_size_def SID_SIZE_def nat_add_distrib)
qed

lemma swap_hmac_outgoing:
  assumes "co_key_ctx_bi co = Some kcb" "ctx_hmac (kc_encrypt kcb) = Some h" "hmac_ok (Some h)"
    "length x = 9" "length y = nat (HMAC_size h) + 8"
  shows "swap_hmac (mk_buf pre (y @ x @ c) post) co False = Some (True, mk_buf pre (x @ y @ c) post)"
proof -
  have h: "0 \<le> HMAC_size h" "HMAC_size h \<le> 64" using assms(3) by (auto simp: hmac_ok_def)
  show ?thesis using assms(1,2,4,5) h swap_parts[of y "HMAC_size h + 8" x 9 pre c post]
    by (simp add: swap_hmac_def Let_def packet_id_size_def SID_SIZE_def nat_add_distrib)
qed

lemma swap_hmac_short:
  assumes "co_key_ctx_bi co = Some kcb" "ctx_hmac (kc_decrypt kcb) = Some h" "hmac_ok (Some h)"
    "int (length c) < HMAC_size h + 17"
  shows "swap_hmac (mk_buf pre c post) co True = Some (False, mk_buf pre c post)"
  using assms by (simp add: swap_hmac_def Let_def packet_id_size_def SID_SIZE_def hmac_ok_def)

section \<open>What is accepted\<close>

text \<open>Without a cipher neither the frame nor the work buffer matters.\<close>

lemma openvpn_decrypt_no_work:
  assumes "co_key_ctx_bi co = Some kcb" "ctx_cipher (kc_decrypt kcb) = None"
  shows "openvpn_decrypt now b work co f = openvpn_decrypt now b work' co f'"
  by (simp only: openvpn_decrypt_def assms Let_def option.case)

lemma openvpn_encrypt_no_work:
  assumes "co_key_ctx_bi co = Some kcb" "ctx_cipher (kc_encrypt kcb) = None"
  shows "openvpn_encrypt now rand b work co f = openvpn_encrypt now rand b work' co f'"
  by (simp only: openvpn_encrypt_def assms Let_def option.case)

text \<open>A control packet: opcode and session identifier, HMAC and packet identifier, the rest.\<close>

definition auth_len :: "hmac_ctx \<Rightarrow> nat" where
  "auth_len h = nat (HMAC_size h) + 8"

definition auth_front :: "hmac_ctx \<Rightarrow> byte list \<Rightarrow> byte list" where
  "auth_front h k = take (auth_len h) (drop 9 k) @ take 9 k @ drop (9 + auth_len h) k"

definition tls_auth_inv :: "hmac_ctx \<Rightarrow> key_ctx \<Rightarrow> crypto_options \<Rightarrow> bool" where
  "tls_auth_inv h ctx co \<longleftrightarrow> crypto_inv ctx co \<and> ctx_cipher ctx = None \<and> ctx_hmac ctx = Some h \<and> co_flag co CO_PACKET_ID_LONG_FORM"

definition control_dead :: "hmac_ctx \<Rightarrow> key_ctx \<Rightarrow> crypto_options \<Rightarrow> byte list \<Rightarrow> bool" where
  "control_dead h ctx co k \<longleftrightarrow> length k < 9 + auth_len h \<or> packet_dead ctx co (auth_front h k)"

definition control_receive :: "frame \<Rightarrow> time_t \<times> byte list \<times> byte list \<Rightarrow> crypto_options \<Rightarrow> byte list \<Rightarrow> (bool \<times> crypto_options) option" where
  "control_receive f = (\<lambda>(now, pre, post) co k. do {
     (ok, b, co) \<leftarrow> read_control_auth now f (mk_buf pre k post) co;
     Some (ok, co)
   })"

definition auth_ok :: "hmac_ctx \<Rightarrow> byte list \<Rightarrow> bool" where
  "auth_ok h k \<longleftrightarrow> 9 + auth_len h \<le> length k \<and>
     take (nat (HMAC_size h)) (drop 9 k) =
       HMAC_digest h (take 8 (drop (9 + nat (HMAC_size h)) k) @ take 9 k @ drop (17 + nat (HMAC_size h)) k)"

lemma auth_front_hmac:
  assumes "9 + auth_len h \<le> length k"
  shows "open_hmac (Some h) (auth_front h k) =
    (if auth_ok h k then Some (take 8 (drop (9 + nat (HMAC_size h)) k) @ take 9 k @ drop (17 + nat (HMAC_size h)) k) else None)"
proof -
  let ?n = "nat (HMAC_size h)"
  have t: "take ?n (auth_front h k) = take ?n (drop 9 k)" using assms by (simp add: auth_front_def auth_len_def)
  have "drop ?n (take (?n + 8) (drop 9 k)) = take 8 (drop (9 + ?n) k)" by (simp add: drop_take add.commute)
  then have d: "drop ?n (auth_front h k) = take 8 (drop (9 + ?n) k) @ take 9 k @ drop (17 + ?n) k"
    using assms by (simp add: auth_front_def auth_len_def add.commute)
  have l: "?n \<le> length (auth_front h k)" using assms by (simp add: auth_front_def auth_len_def)
  show ?thesis using l assms by (simp add: open_hmac_def Let_def t d auth_ok_def)
qed

lemma open_pid_eight: "length p = 8 \<Longrightarrow> open_pid True True (p @ r) = Some (x, d) \<Longrightarrow> d = r"
  by (auto simp: open_pid_def packet_id_size_def)

lemma auth_front_open:
  assumes "tls_auth_inv h ctx co" "9 + auth_len h \<le> length k" "opt_open ctx co (auth_front h k) = Some (pin, d)"
  shows "auth_ok h k" "d = take 9 k @ drop (17 + nat (HMAC_size h)) k"
proof -
  let ?n = "nat (HMAC_size h)"
  have lf: "co_flags co AND 1 \<noteq> 0" "co_packet_id co \<noteq> None" "ctx_cipher ctx = None" "ctx_hmac ctx = Some h"
    using assms(1) by (auto simp: tls_auth_inv_def co_flag_def crypto_inv_def)
  show ok: "auth_ok h k" using assms(3) lf by (auto simp: packet_open_def auth_front_hmac[OF assms(2)] split: if_splits)
  let ?p = "take 8 (drop (9 + ?n) k)"
  have p: "length ?p = 8" using assms(2) by (simp add: auth_len_def)
  have "\<exists>x. open_pid True True (?p @ take 9 k @ drop (17 + ?n) k) = Some (x, d)"
    using assms(3) lf ok by (auto simp: packet_open_def auth_front_hmac[OF assms(2)] bind_eq_Some_conv split: if_splits)
  then show "d = take 9 k @ drop (17 + ?n) k" using open_pid_eight[OF p] by blast
qed

text \<open>One control packet, whatever it is.\<close>

lemma read_control_auth_step:
  assumes inv: "tls_auth_inv h ctx co" and now: "now > 1"
  shows "\<exists>ok b co'. read_control_auth now f (mk_buf pre k post) co = Some (ok, b, co') \<and> tls_auth_inv h ctx co' \<and>
    (ok \<longrightarrow> live_buf b \<and> content b = drop (17 + nat (HMAC_size h)) k \<and> auth_ok h k \<and>
       \<not> control_dead h ctx co k \<and> control_dead h ctx co' k) \<and>
    (\<forall>k'. control_dead h ctx co k' \<longrightarrow> control_dead h ctx co' k')"
proof -
  have cinv: "crypto_inv ctx co" and ctx: "ctx_cipher ctx = None" "ctx_hmac ctx = Some h" "co_flag co CO_PACKET_ID_LONG_FORM"
    using inv by (auto simp: tls_auth_inv_def)
  then have dok: "decrypt_ok ctx co" and hm: "hmac_ok (Some h)" by (auto simp: crypto_inv_def decrypt_ok_def)
  then obtain kcb where kcb: "co_key_ctx_bi co = Some kcb" "kc_decrypt kcb = ctx" by (auto simp: decrypt_ok_def)
  have h: "0 \<le> HMAC_size h" using hm by (simp add: hmac_ok_def)
  let ?n = "nat (HMAC_size h)"
  show ?thesis
  proof (cases "9 + auth_len h \<le> length k")
    case False
    then have "swap_hmac (mk_buf pre k post) co True = Some (False, mk_buf pre k post)"
      using swap_hmac_short[of co kcb h k] kcb ctx hm h by (simp add: auth_len_def)
    then show ?thesis using kcb ctx inv by (auto simp: read_control_auth_def)
  next
    case True
    have k: "k = take 9 k @ take (auth_len h) (drop 9 k) @ drop (9 + auth_len h) k"
      by (metis append_take_drop_id drop_drop add.commute)
    have sw: "swap_hmac (mk_buf pre k post) co True = Some (True, mk_buf pre (auth_front h k) post)"
      unfolding auth_front_def using True kcb ctx hm
      by (subst k, intro swap_hmac_incoming[of co kcb h]) (simp_all add: auth_len_def)
    have ne: "auth_front h k \<noteq> []" using True by (auto simp: auth_front_def auth_len_def)
    define f0 where "f0 = \<lparr>link_mtu = 0, link_mtu_dynamic = 0, extra_frame = 0, extra_buffer = 0, extra_tun = 0, extra_link = 0,
      align_flags = 0, align_adjust = 0\<rparr>"
    define w0 where "w0 = mk_buf [] [] [0 :: byte]"
    have w: "work_ok f0 w0" by (simp add: work_ok_def w0_def f0_def frame_headroom_def FRAME_HEADROOM_BASE_def TUN_LINK_DELTA_def)
    obtain r b where dec: "openvpn_decrypt now (mk_buf pre (auth_front h k) post) w0 co f0 =
        (case r of None \<Rightarrow> Some (False, b, co)
         | Some (pin, w) \<Rightarrow> do { (ok, opt) \<leftarrow> decrypt_replay now pin co; Some (if ok then (True, w, opt) else (False, b, opt)) })"
      and lb: "len b = 0"
      and opn: "\<forall>pin w. r = Some (pin, w) \<longrightarrow> live_buf w \<and> opt_open ctx co (auth_front h k) = Some (pin, content w)"
      using openvpn_decrypt_open[OF dok w ne, of now pre post] by blast
    obtain ok co' where rec: "crypto_receive f0 (now, pre, post, w0) co (auth_front h k) = Some (ok, co')" "crypto_inv ctx co'"
      "ok \<longrightarrow> \<not> packet_dead ctx co (auth_front h k) \<and> packet_dead ctx co' (auth_front h k) \<and> open_hmac (ctx_hmac ctx) (auth_front h k) \<noteq> None"
      "\<forall>k'. packet_dead ctx co k' \<longrightarrow> packet_dead ctx co' k'"
      using crypto_receive_step[OF cinv, of f0 "(now, pre, post, w0)" "auth_front h k"] w now by (auto simp: crypto_usable_def)
    obtain b' where b': "openvpn_decrypt now (mk_buf pre (auth_front h k) post) w0 co f0 = Some (ok, b', co')"
      using rec(1) ne by (auto simp: crypto_receive_def bind_eq_Some_conv)
    have bad: "len b' = 0" if "\<not> ok" using b' dec lb that by (auto split: option.splits prod.splits if_splits simp: bind_eq_Some_conv)
    have good: "live_buf b' \<and> content b' = take 9 k @ drop (17 + ?n) k \<and> auth_ok h k" if o: "ok"
    proof -
      obtain pin where "live_buf b'" "opt_open ctx co (auth_front h k) = Some (pin, content b')"
        using b' dec opn o by (auto split: option.splits prod.splits if_splits simp: bind_eq_Some_conv)
      then show ?thesis using auth_front_open[OF inv True] by blast
    qed
    have fl: "co_flags co' = co_flags co" using b' dec
      by (auto split: option.splits prod.splits if_splits simp: bind_eq_Some_conv decrypt_replay_def Let_def)
    have read: "read_control_auth now f (mk_buf pre k post) co =
        Some (if len b' \<noteq> 0 then (True, snd (buf_advance b' 9), co') else (False, b', co'))"
      using kcb ctx sw openvpn_decrypt_no_work[of co kcb now "mk_buf pre (auth_front h k) post" clear_buf f w0 f0] b'
      by (simp add: read_control_auth_def decrypt_auth_only_def SID_SIZE_def)
    have inv': "tls_auth_inv h ctx co'" using rec(2) ctx fl by (simp add: tls_auth_inv_def co_flag_def)
    show ?thesis
    proof (cases ok)
      case False
      then show ?thesis using read bad inv' rec(4) by (auto simp: control_dead_def)
    next
      case ok: True
      obtain pre' post' where m: "b' = mk_buf pre' (take 9 k @ drop (17 + ?n) k) post'"
        using good[OF ok] by (metis live_bufE content_mk_buf)
      have l9: "length (take 9 k) = 9" using True by simp
      have len': "len b' \<noteq> 0" unfolding m using l9 by simp
      have adv: "snd (buf_advance b' 9) = mk_buf (pre' @ take 9 k) (drop (17 + ?n) k) post'"
        unfolding m using l9 by simp
      show ?thesis
        using read len' adv inv' rec(3,4) ok good[OF ok] True by (auto simp: control_dead_def)
    qed
  qed
qed

interpretation control_guard: replay_guard "control_receive f" "tls_auth_inv h ctx" "\<lambda>(now, pre, post). now > 1" "control_dead h ctx"
proof
  fix co and e :: "time_t \<times> byte list \<times> byte list" and k :: "byte list"
  assume a: "tls_auth_inv h ctx co" "case e of (now, pre, post) \<Rightarrow> now > 1"
  obtain now pre post where e: "e = (now, pre, post)" by (cases e)
  note step = read_control_auth_step[OF a(1), of now f pre k post]
  show "\<exists>ok co'. control_receive f e co k = Some (ok, co') \<and> tls_auth_inv h ctx co' \<and> (ok \<longrightarrow> control_dead h ctx co' k) \<and>
      (\<forall>k'. control_dead h ctx co k' \<longrightarrow> control_dead h ctx co' k')"
    using step a(2) e by (auto simp: control_receive_def)
  show "control_dead h ctx co k \<Longrightarrow> \<exists>s'. control_receive f e co k = Some (False, s')"
    using step a(2) e by (auto simp: control_receive_def)
qed

text \<open>
  C8: the control channel under --tls-auth against an active attacker.  Whatever packets arrive,
  read_control_auth returns on each of them; every packet that it lets through carries, after the
  opcode and session identifier, the HMAC of the packet identifier, these two and the rest of the
  packet; and no packet is let through twice.
\<close>

theorem control_channel_authentic:
  assumes "tls_auth_inv h ctx co" "\<forall>((now, pre, post), k) \<in> set es. now > 1"
  shows "\<exists>ks co'. run_receive (control_receive f) es co = Some (ks, co') \<and> distinct ks \<and> (\<forall>k \<in> set ks. auth_ok h k)"
proof -
  have us: "\<forall>(e, k) \<in> set es. case e of (now, pre, post) \<Rightarrow> now > 1" using assms(2) by fastforce
  obtain ks co' where run: "run_receive (control_receive f) es co = Some (ks, co')" "distinct ks"
    using control_guard.run_accepts_once[OF assms(1) us] by blast
  moreover have "\<forall>k \<in> set ks. auth_ok h k"
  proof (rule control_guard.run_accepted[OF assms(1) us run(1)])
    fix e :: "time_t \<times> byte list \<times> byte list" and s k s'
    assume "tls_auth_inv h ctx s" "case e of (now, pre, post) \<Rightarrow> now > 1" "control_receive f e s k = Some (True, s')"
    then show "auth_ok h k"
      using read_control_auth_step[of h ctx s "fst e" f "fst (snd e)" k "snd (snd e)"]
      by (cases e) (auto simp: control_receive_def)
  qed
  ultimately show ?thesis by blast
qed

section \<open>What is written is accepted\<close>

lemma read_control_auth_accepts:
  assumes dok: "decrypt_ok kd co" and ctx: "ctx_cipher kd = None" "ctx_hmac kd = Some h"
    and xy: "length x = 9" "length y = auth_len h"
    and opn: "opt_open kd co (y @ x @ r) = Some (pin, x @ r)" and rep: "decrypt_replay now pin co = Some (True, co')"
  shows "\<exists>b'. read_control_auth now f (mk_buf pre (x @ y @ r) post) co = Some (True, b', co') \<and> live_buf b' \<and> content b' = r"
proof -
  obtain kcb where kcb: "co_key_ctx_bi co = Some kcb" "kc_decrypt kcb = kd" using dok by (auto simp: decrypt_ok_def)
  have hm: "hmac_ok (Some h)" using dok ctx by (simp add: decrypt_ok_def)
  let ?k = "y @ x @ r"
  define f0 where "f0 = \<lparr>link_mtu = 0, link_mtu_dynamic = 0, extra_frame = 0, extra_buffer = 0, extra_tun = 0, extra_link = 0,
    align_flags = 0, align_adjust = 0\<rparr>"
  define w0 where "w0 = mk_buf [] [] (replicate (length ?k) (0 :: byte))"
  have fr: "frame_headroom f0 1 = 0"
    by (simp add: f0_def frame_headroom_def FRAME_HEADROOM_BASE_def TUN_LINK_DELTA_def)
  have w: "work_ok f0 w0" by (simp add: work_ok_def w0_def fr)
  have "\<exists>b. openvpn_decrypt now (mk_buf pre ?k post) w0 co f0 = Some (True, b, co') \<and> live_buf b \<and> content b = x @ r"
    by (rule openvpn_decrypt_accepts[OF dok w _ _ opn rep]) (use xy in \<open>auto simp: w0_def fr\<close>)
  then obtain b where b: "openvpn_decrypt now (mk_buf pre ?k post) w0 co f0 = Some (True, b, co')" "live_buf b" "content b = x @ r"
    by blast
  then obtain pre' post' where m: "b = mk_buf pre' (x @ r) post'" by (metis live_bufE content_mk_buf)
  have sw: "swap_hmac (mk_buf pre (x @ y @ r) post) co True = Some (True, mk_buf pre ?k post)"
    using swap_hmac_incoming[of co kcb h x y pre r post] kcb ctx hm xy by (simp add: auth_len_def)
  show ?thesis
    using kcb ctx sw openvpn_decrypt_no_work[of co kcb now "mk_buf pre ?k post" clear_buf f w0 f0] b(1) m xy
    by (simp add: read_control_auth_def decrypt_auth_only_def SID_SIZE_def)
qed

lemma packet_open_auth_parts:
  assumes "ctx_cipher kd = None" "ctx_hmac kd = Some h" "packet_open kd True fl k = Some (pin, d)" "fl AND CO_PACKET_ID_LONG_FORM \<noteq> 0"
  shows "\<exists>y. k = y @ d \<and> length y = auth_len h"
proof -
  let ?n = "nat (HMAC_size h)"
  obtain pin' where o: "?n \<le> length k" "open_pid True True (drop ?n k) = Some (pin', d)"
    using assms by (auto simp: packet_open_def open_hmac_def Let_def bind_eq_Some_conv split: if_splits)
  then have "8 \<le> length k - ?n" "d = drop 8 (drop ?n k)" by (auto simp: open_pid_def packet_id_size_def split: if_splits)
  then have "k = take (?n + 8) k @ d" "length (take (?n + 8) k) = auth_len h" using o(1) by (auto simp: auth_len_def add.commute)
  then show ?thesis by blast
qed

text \<open>The authentication of both sides: the same HMAC key and the identifiers in step, or none.\<close>

definition tls_auth_sync :: "crypto_options \<Rightarrow> crypto_options \<Rightarrow> bool" where
  "tls_auth_sync so ro \<longleftrightarrow> (\<exists>ke kd kcb kcb'. co_key_ctx_bi so = Some kcb \<and> kc_encrypt kcb = ke \<and> co_key_ctx_bi ro = Some kcb' \<and> kc_decrypt kcb' = kd \<and>
     ctx_cipher ke = None \<and> ctx_cipher kd = None \<and>
     (if ctx_hmac ke = None then ctx_hmac kd = None
      else crypto_sync ke kd so ro \<and> co_flag so CO_PACKET_ID_LONG_FORM \<and> co_packet_id so \<noteq> None))"

definition auth_room :: "crypto_options \<Rightarrow> int" where
  "auth_room co = (case co_key_ctx_bi co of None \<Rightarrow> 0 | Some kcb \<Rightarrow>
     (case ctx_hmac (kc_encrypt kcb) of None \<Rightarrow> 0 | Some h \<Rightarrow> HMAC_size h + 8))"

text \<open>The HMAC step of write_control_auth, and what the receiver makes of it.\<close>

lemma control_auth_transfer:
  assumes sync: "tls_auth_sync so ro" and x: "length x = 9" and room: "auth_room so \<le> int (length pre)"
    and now: "0 < now" "now < 2 ^ 32" "1 < now'" and left: "ids_left so (Suc n)" and kcb: "co_key_ctx_bi so = Some kcb"
  shows "\<exists>p k q so' ro'.
    (if ctx_hmac (kc_encrypt kcb) \<noteq> None then do {
         (b, co) \<leftarrow> encrypt_auth_only now f (mk_buf pre (x @ r) post) so;
         (ok, b) \<leftarrow> swap_hmac b co False;
         ASSERT ok;
         Some (b, co)
       } else Some (mk_buf pre (x @ r) post, so)) = Some (mk_buf p (x @ k) q, so') \<and>
    (\<forall>pre' post'. \<exists>b'. read_control_auth now' f' (mk_buf pre' (x @ k) post') ro = Some (True, b', ro') \<and> live_buf b' \<and> content b' = r) \<and>
    tls_auth_sync so' ro' \<and> ids_left so' n"
proof -
  obtain ke kd kcb' where k: "kc_encrypt kcb = ke" "co_key_ctx_bi ro = Some kcb'" "kc_decrypt kcb' = kd"
    "ctx_cipher ke = None" "ctx_cipher kd = None"
    "if ctx_hmac ke = None then ctx_hmac kd = None
     else crypto_sync ke kd so ro \<and> co_flag so CO_PACKET_ID_LONG_FORM \<and> co_packet_id so \<noteq> None"
    using sync kcb by (auto simp: tls_auth_sync_def)
  show ?thesis
  proof (cases "ctx_hmac ke")
    case None
    then have rd: "read_control_auth now' f' (mk_buf pre' (x @ r) post') ro = Some (True, mk_buf (pre' @ x) r post', ro)" for pre' post'
      using k x by (simp add: read_control_auth_def SID_SIZE_def)
    have l: "ids_left so n" using left by (auto simp: ids_left_def)
    show ?thesis
      by (rule exI[of _ pre], rule exI[of _ r], rule exI[of _ post], rule exI[of _ so], rule exI[of _ ro])
         (use None k rd l sync in auto)
  next
    case (Some h)
    have cs: "crypto_sync ke kd so ro" and lf: "co_flag so CO_PACKET_ID_LONG_FORM" "co_packet_id so \<noteq> None" using k(6) Some by auto
    have m: "keys_match ke kd" and dok: "decrypt_ok kd ro" and fl: "co_flags so = co_flags ro"
      and pid: "co_packet_id ro \<noteq> None"
      and ke: "map_option kc_encrypt (co_key_ctx_bi so) = Some ke"
      using cs lf(2) by (auto simp: crypto_sync_def option_rel_Some1)
    have kd: "ctx_hmac kd = Some h" using m Some by (simp add: keys_match_def)
    have hm: "hmac_ok (ctx_hmac ke)" using dok kd Some by (simp add: decrypt_ok_def)
    obtain pin so' ro' where p: "next_pin now so = Some (pin, so')" "decrypt_replay now' (seen_pin kd so pin) ro = Some (True, ro')"
      "crypto_sync ke kd so' ro'" "ids_left so' n"
      using receiver_accepts[OF cs now left] by blast
    have lf': "co_flag so' CO_PACKET_ID_LONG_FORM" "co_packet_id so' \<noteq> None" "co_key_ctx_bi so' = Some kcb"
      using next_pin_keeps[OF p(1)] lf kcb by simp_all
    have room': "encrypt_room f so ke [] pre (x @ r) clear_buf"
      using room lf Some k kcb by (simp add: encrypt_room_def pid_room_def hmac_room_def auth_room_def packet_id_size_def)
    have "x @ r \<noteq> []" using x by auto
    from openvpn_encrypt_open[OF ke m hm p(1) this room', of post]
    obtain pre1 k1 post1 where e: "openvpn_encrypt now [] (mk_buf pre (x @ r) post) clear_buf so f = Some (mk_buf pre1 k1 post1, so')"
      "packet_open kd True (co_flags so) k1 = Some (seen_pin kd so pin, x @ r)" using lf by auto
    obtain y where y: "k1 = y @ x @ r" "length y = auth_len h"
      using packet_open_auth_parts[OF k(5) kd e(2)] lf by (auto simp: co_flag_def)
    have sw: "swap_hmac (mk_buf pre1 k1 post1) so' False = Some (True, mk_buf pre1 (x @ y @ r) post1)"
      unfolding y(1) using swap_hmac_outgoing[of so' kcb h x y pre1 r post1] lf'(3) k(1) Some hm x y(2) by (simp add: auth_len_def)
    have op: "opt_open kd ro (y @ x @ r) = Some (seen_pin kd so pin, x @ r)" using e(2) y(1) pid fl by simp
    have rd: "\<exists>b'. read_control_auth now' f' (mk_buf pre' (x @ y @ r) post') ro = Some (True, b', ro') \<and> live_buf b' \<and> content b' = r" for pre' post'
      by (rule read_control_auth_accepts[OF dok k(5) kd x y(2) op p(2)])
    have s': "tls_auth_sync so' ro'"
      using p(3) lf' k Some by (auto simp: tls_auth_sync_def crypto_sync_def decrypt_ok_def)
    show ?thesis
      by (rule exI[of _ pre1], rule exI[of _ "y @ r"], rule exI[of _ post1], rule exI[of _ so'], rule exI[of _ ro'])
         (use Some k(1,4) kcb e(1) sw rd s' p(4) in \<open>simp add: encrypt_auth_only_def\<close>)
  qed
qed

text \<open>
  C9: a control packet reaches the peer's reliability layer unchanged.  What write_control_auth sends begins
  with the opcode, the key identifier and the session identifier; when the peer has the same --tls-auth key (or neither has one)
  and its replay window is in step, read_control_auth accepts the packet and leaves the acknowledgement record followed by the
  payload, and the two sides are in step again.
\<close>

theorem control_packet_roundtrip:
  assumes sync: "tls_auth_sync (ts_tls_auth s) ro" "ids_left (ts_tls_auth s) (Suc n)"
    and s: "ks = ts_primary s" "addr_defined (ks_remote_addr ks)" "wf_ack (ks_rec_ack ks)" "wf_sid (ts_session_id s)"
      "wf_sid (ks_session_id_remote ks)" "session_id_defined (ks_session_id_remote ks)"
    and b: "live_buf b" "0 \<le> mx" "ACK_SIZE (int (length (ack_written (ks_rec_ack ks) mx))) + 9 + auth_room (ts_tls_auth s) \<le> offset b"
    and now: "0 < now" "now < 2 ^ 32" "1 < now'"
  shows "\<exists>b' s' k ro'. write_control_auth now f s b opc mx True = Some (b', ks_remote_addr ks, s') \<and> live_buf b' \<and>
    content b' = (word_of_int (ks_key_id ks) OR push_bit 3 (word_of_int opc)) # ts_session_id s @ k \<and>
    (\<forall>rb. live_buf rb \<and> content rb = content b' \<longrightarrow>
       (\<exists>rb'. read_control_auth now' f' rb ro = Some (True, rb', ro') \<and>
          content rb' = ack_wire (ack_written (ks_rec_ack ks) mx) (ks_session_id_remote ks) @ content b)) \<and>
    tls_auth_sync (ts_tls_auth s') ro' \<and> ids_left (ts_tls_auth s') n"
proof -
  let ?w = "ack_wire (ack_written (ks_rec_ack ks) mx) (ks_session_id_remote ks)"
  obtain pre c post where m: "b = mk_buf pre c post" using b(1) by (rule live_bufE)
  have lw: "int (length ?w) = ACK_SIZE (int (length (ack_written (ks_rec_ack ks) mx)))"
    using s(5) by (simp add: length_ack_wire ACK_SIZE_def wf_sid_def SID_SIZE_def)
  have ar: "0 \<le> auth_room (ts_tls_auth s)"
    using sync(1) by (auto simp: tls_auth_sync_def auth_room_def crypto_sync_def decrypt_ok_def hmac_ok_def keys_match_def split: option.splits)
  have room: "length ?w + 9 \<le> length pre" "auth_room (ts_tls_auth s) \<le> int (length pre) - int (length ?w) - 9"
    using b(3) lw ar by (simp_all add: m)
  define p0 where "p0 = take (length pre - length ?w) pre"
  define q0 where "q0 = take (length p0 - 8) p0"
  have l0: "length p0 = length pre - length ?w" "length q0 = length p0 - 8" by (simp_all add: p0_def q0_def)
  have lq: "1 \<le> length q0" "8 \<le> length p0" using room(1) l0 by simp_all
  obtain ack where ack: "reliable_ack_write (ks_rec_ack ks) b (ks_session_id_remote ks) mx True
      = Some (True, ack, mk_buf p0 (?w @ c) post)"
    using reliable_ack_write_mk_buf(1)[OF s(3) b(2) s(5,6) refl refl, of pre c post] room(1) m by (auto simp: p0_def)
  have sid: "session_id_write_prepend (ts_session_id s) (mk_buf p0 (?w @ c) post) = Some (True, mk_buf q0 (ts_session_id s @ ?w @ c) post)"
    using session_id_write_prepend_mk_buf[OF s(4) lq(2), of "?w @ c" post] by (simp add: q0_def)
  let ?hd = "word_of_int (ks_key_id ks) OR push_bit 3 (word_of_int opc) :: byte"
  let ?r = "take (length q0 - 1) q0"
  have hdr: "buf_prepend (mk_buf q0 (ts_session_id s @ ?w @ c) post) 1 =
      (Some (int (length q0) - 1), mk_buf ?r (drop (length q0 - 1) q0 @ ts_session_id s @ ?w @ c) post)"
    using lq by simp
  have st: "buf_store (mk_buf ?r (drop (length q0 - 1) q0 @ ts_session_id s @ ?w @ c) post) (int (length q0) - 1) [?hd] =
      Some (mk_buf ?r ([?hd] @ ts_session_id s @ ?w @ c) post)"
    using buf_store_prepended[of "[?hd]" 1 q0 "ts_session_id s @ ?w @ c" post] lq by simp
  obtain kcb where kcb: "co_key_ctx_bi (ts_tls_auth s) = Some kcb" using sync(1) by (auto simp: tls_auth_sync_def)
  let ?x = "?hd # ts_session_id s"
  have lx: "length ?x = 9" using s(4) by (simp add: wf_sid_def)
  have rr: "auth_room (ts_tls_auth s) \<le> int (length ?r)" using room l0 lq by simp
  from control_auth_transfer[OF sync(1) lx rr now sync(2) kcb, of f "?w @ c" post f']
  obtain p k q so' ro' where t: "(if ctx_hmac (kc_encrypt kcb) \<noteq> None then do {
         (b, co) \<leftarrow> encrypt_auth_only now f (mk_buf ?r (?x @ ?w @ c) post) (ts_tls_auth s);
         (ok, b) \<leftarrow> swap_hmac b co False;
         ASSERT ok;
         Some (b, co)
       } else Some (mk_buf ?r (?x @ ?w @ c) post, ts_tls_auth s)) = Some (mk_buf p (?x @ k) q, so')"
    "\<forall>pre' post'. \<exists>b'. read_control_auth now' f' (mk_buf pre' (?x @ k) post') ro = Some (True, b', ro') \<and> live_buf b' \<and> content b' = ?w @ c"
    "tls_auth_sync so' ro'" "ids_left so' n" by blast
  have ad: "ASSERT (addr_defined (ks_remote_addr ks)) = Some ()" using s(2) by simp
  have app: "[?hd] @ ts_session_id s @ ?w @ c = ?x @ ?w @ c" by simp
  have wr: "write_control_auth now f s b opc mx True =
      Some (mk_buf p (?x @ k) q, ks_remote_addr ks, s\<lparr>ts_tls_auth := so', ts_primary := ks\<lparr>ks_rec_ack := ack\<rparr>\<rparr>)"
    by (simp only: write_control_auth_def Let_def s(1)[symmetric] ad ack bind.bind_lunit prod.case sid hdr st kcb app t(1) ASSERT_simps(1))
  have rd: "\<exists>rb'. read_control_auth now' f' rb ro = Some (True, rb', ro') \<and> content rb' = ?w @ c"
    if rb: "live_buf rb" "content rb = ?x @ k" for rb
  proof -
    obtain pre' c' post' where "rb = mk_buf pre' c' post'" using rb(1) by (rule live_bufE)
    then show ?thesis using t(2) rb(2) by auto
  qed
  show ?thesis
    by (rule exI[of _ "mk_buf p (?x @ k) q"], rule exI[of _ "s\<lparr>ts_tls_auth := so', ts_primary := ks\<lparr>ks_rec_ack := ack\<rparr>\<rparr>"],
        rule exI[of _ k], rule exI[of _ ro']) (use wr rd t(3,4) m in simp)
qed

text \<open>A session with a --tls-auth key, for the witnesses.\<close>

definition toy_auth :: crypto_options where
  "toy_auth = \<lparr>co_key_ctx_bi = Some \<lparr>kc_encrypt = \<lparr>ctx_cipher = None, ctx_hmac = Some sum_hmac\<rparr>,
     kc_decrypt = \<lparr>ctx_cipher = None, ctx_hmac = Some sum_hmac\<rparr>\<rparr>, co_packet_id = packet_id_init 64 15, co_pid_persist = None, co_flags = 1\<rparr>"

definition toy_session :: "unit tls_session" where
  "toy_session = clear_session\<lparr>ts_tls_auth := toy_auth, ts_session_id := replicate 8 1,
     ts_primary := clear_key_state\<lparr>ks_session_id_remote := replicate 8 2, ks_remote_addr := \<lparr>sin_addr = 1, sin_port = 1\<rparr>\<rparr>\<rparr>"

lemma toy_auth_inv: "tls_auth_inv sum_hmac \<lparr>ctx_cipher = None, ctx_hmac = Some sum_hmac\<rparr> toy_auth"
proof -
  obtain p where "packet_id_init 64 15 = Some p" "rec_inv (pid_rec p)" using demo_pid by blast
  then show ?thesis by (simp add: tls_auth_inv_def crypto_inv_def decrypt_ok_def toy_auth_def sum_hmac_def hmac_ok_def co_flag_def)
qed

theorem control_channel_authentic_witness:
  "\<exists>ks co'. run_receive (control_receive demo_frame) [((2, [], []), replicate 20 7), ((3, [], []), [1])] toy_auth = Some (ks, co') \<and> distinct ks \<and>
    (\<forall>k \<in> set ks. auth_ok sum_hmac k)"
  using control_channel_authentic[OF toy_auth_inv, of "[((2, [], []), replicate 20 7), ((3, [], []), [1])]" demo_frame] by simp

lemma toy_auth_sync: "tls_auth_sync toy_auth toy_auth" "ids_left toy_auth (Suc 0)" "auth_room toy_auth = 9"
proof -
  obtain p where p: "packet_id_init 64 15 = Some p" "rec_inv (pid_rec p)" "send_id (pid_send p) = 0"
    "send_time (pid_send p) = 0" "rec_id (pid_rec p) = 0" "rec_time (pid_rec p) = 0" using demo_pid by blast
  let ?k = "\<lparr>ctx_cipher = None, ctx_hmac = Some sum_hmac\<rparr>"
  have "decrypt_ok ?k toy_auth" using toy_auth_inv by (simp add: tls_auth_inv_def crypto_inv_def)
  then show "tls_auth_sync toy_auth toy_auth"
    using p by (simp add: tls_auth_sync_def crypto_sync_def keys_match_def pid_sync_def toy_auth_def co_flag_def)
  show "ids_left toy_auth (Suc 0)" "auth_room toy_auth = 9"
    using p by (simp_all add: ids_left_def toy_auth_def auth_room_def sum_hmac_def)
qed

theorem control_packet_roundtrip_witness:
  "\<exists>b' s' k ro'. write_control_auth 2 demo_frame toy_session (mk_buf (replicate 40 0) [1, 2, 3] []) 4 4 True =
      Some (b', \<lparr>sin_addr = 1, sin_port = 1\<rparr>, s') \<and>
    content b' = 32 # replicate 8 1 @ k \<and>
    (\<exists>rb'. read_control_auth 2 demo_frame b' toy_auth = Some (True, rb', ro') \<and> content rb' = [0, 1, 2, 3])"
proof -
  have ks: "ts_tls_auth toy_session = toy_auth" "ks_rec_ack (ts_primary toy_session) = \<lparr>ack_len = 0, ack_ids = replicate 8 0\<rparr>"
    "ts_session_id toy_session = replicate 8 1" "ks_session_id_remote (ts_primary toy_session) = replicate 8 2"
    "ks_remote_addr (ts_primary toy_session) = \<lparr>sin_addr = 1, sin_port = 1\<rparr>" "ks_key_id (ts_primary toy_session) = 0"
    by (simp_all add: toy_session_def clear_key_state_def clear_session_def)
  have aw: "ack_written \<lparr>ack_len = 0, ack_ids = replicate 8 0\<rparr> 4 = []" by (simp add: ack_written_def ack_set_def)
  have "session_id_defined (replicate 8 2)" by (simp add: session_id_defined_def x_session_id_zero_def)
  from control_packet_roundtrip[of toy_session toy_auth 0 "ts_primary toy_session" "mk_buf (replicate 40 0) [1, 2, 3] []" 4 2 2 demo_frame 4 demo_frame] this
  have "\<exists>b' s' k ro'. write_control_auth 2 demo_frame toy_session (mk_buf (replicate 40 0) [1, 2, 3] []) 4 4 True =
      Some (b', \<lparr>sin_addr = 1, sin_port = 1\<rparr>, s') \<and> live_buf b' \<and>
    content b' = 32 # replicate 8 1 @ k \<and>
    (\<forall>rb. live_buf rb \<and> content rb = content b' \<longrightarrow>
       (\<exists>rb'. read_control_auth 2 demo_frame rb toy_auth = Some (True, rb', ro') \<and> content rb' = [0, 1, 2, 3]))"
    unfolding ks aw using toy_auth_sync
    by (auto simp: addr_defined_def wf_ack_def wf_sid_def ACK_SIZE_def ack_wire_def push_bit_eq_mult)
  then show ?thesis by blast
qed

end
