(* ===== verification/Tls_Packet.thy ===== *)
theory Tls_Packet
  imports Tls_Auth
begin

text \<open>
  Packets that arrive and packets that leave (ssl.c, forward.c): tls_pre_decrypt finds the key state of a data packet,
  or the session of a control packet, whose reliability layer takes it; tls_pre_decrypt_lite is the stateless test of a server
  for the first packet of a client; tls_pre_encrypt and tls_post_encrypt choose the key for an outgoing packet and mark the packet
  with its identifier.
\<close>

section \<open>Incoming packets\<close>

definition EXPANDED_SIZE_DYNAMIC :: "frame \<Rightarrow> int" where
  "EXPANDED_SIZE_DYNAMIC f = link_mtu_dynamic f"

text \<open>The opcode and the key identifier in the first byte.\<close>

definition packet_op :: "byte \<Rightarrow> int" where
  "packet_op c = uint (drop_bit P_OPCODE_SHIFT c)"

definition packet_key_id :: "byte \<Rightarrow> int" where
  "packet_key_id c = uint (c AND P_KEY_ID_MASK)"

text \<open>The test of a key state for an incoming data packet.\<close>

definition data_key_usable :: "'ssl tls_multi \<Rightarrow> sockaddr_in \<Rightarrow> int \<Rightarrow> 'ssl key_state \<Rightarrow> bool" where
  "data_key_usable m from_addr key_id ks \<longleftrightarrow> DECRYPT_KEY_ENABLED m ks \<and> key_id = ks_key_id ks \<and> ks_authenticated ks \<and>
     addr_port_match from_addr (ks_remote_addr ks)"

definition set_opt_key :: "'ssl tls_multi \<Rightarrow> 'ssl key_state \<Rightarrow> crypto_options \<Rightarrow> crypto_options" where
  "set_opt_key m ks opt = opt\<lparr>co_key_ctx_bi := Some (ks_key ks), co_packet_id := (if to_replay (tm_opt m) then Some (ks_packet_id ks) else None),
     co_pid_persist := None, co_flags := (co_flags opt AND to_crypto_flags_and (tm_opt m)) OR to_crypto_flags_or (tm_opt m)\<rparr>"

definition clear_opt_key :: "'ssl tls_multi \<Rightarrow> crypto_options \<Rightarrow> crypto_options" where
  "clear_opt_key m opt = opt\<lparr>co_key_ctx_bi := None, co_packet_id := None, co_pid_persist := None,
     co_flags := co_flags opt AND to_crypto_flags_and (tm_opt m)\<rparr>"

definition soft_error :: "'ssl tls_multi \<Rightarrow> 'ssl tls_multi" where
  "soft_error m = m\<lparr>tm_n_soft_errors := tm_n_soft_errors m + 1\<rparr>"

text \<open>
  read_control_auth for the session \<open>i\<close>.  The record of packet identifiers that outlives the sessions is one object, to
  which the options of every session point.
\<close>

definition session_read_auth :: "time_t \<Rightarrow> 'ssl tls_multi \<Rightarrow> nat \<Rightarrow> buffer \<Rightarrow> (bool \<times> buffer \<times> 'ssl tls_multi) option" where
  "session_read_auth now m i b = do {
     (ok, b, co) \<leftarrow> read_control_auth now (to_frame (tm_opt m)) b ((ts_tls_auth (tm_session m ! i))\<lparr>co_pid_persist := tm_pid_persist m\<rparr>);
     Some (ok, b, (upd_session i (ts_tls_auth_update (\<lambda>_. co)) m)\<lparr>tm_pid_persist := co_pid_persist co\<rparr>)
   }"

text \<open>
  The search for the session of a control packet and its authentication.  The first component is \<^const>\<open>None\<close> for
  the error exit, otherwise the session with new_link and do_burst.
\<close>

definition control_route ::
  "'ssl tls_env \<Rightarrow> time_t \<Rightarrow> 'ssl tls_multi \<Rightarrow> sockaddr_in \<Rightarrow> int \<Rightarrow> session_id \<Rightarrow> buffer \<Rightarrow>
   ((nat \<times> bool \<times> bool) option \<times> buffer \<times> 'ssl tls_multi) option" where
  "control_route env now m from_addr op sid b = do {
     let opt = tm_opt m;
     let found = find (\<lambda>i. session_id_equal (ks_session_id_remote (ts_primary (tm_session m ! i))) sid) [0..<TM_SIZE];
     let initial = (found = None \<and> is_hard_reset op 0);
     let in_active = (initial \<and> \<not> session_id_defined (ks_session_id_remote (ts_primary (tm_session m ! TM_ACTIVE))));
     if found = Some TM_LAME_DUCK then Some (None, b, m)
     else if initial \<and> \<not> is_hard_reset op (to_key_method opt) then Some (None, b, m)
     else if in_active \<and> to_single_session opt \<and> tm_n_sessions m \<noteq> 0 then Some (None, b, m)
     else if initial \<and> \<not> in_active then
       (if to_single_session opt then Some (None, b, m)
        else do {
          (ok, b, m) \<leftarrow> session_read_auth now m TM_UNTRUSTED b;
          if \<not> ok then Some (None, b, m)
          else Some (Some (TM_UNTRUSTED, True, False), b, upd_session TM_UNTRUSTED (ts_untrusted_sockaddr_update (\<lambda>_. from_addr)) m)
        })
     else do {
       let m = (if in_active then upd_session TM_ACTIVE (ts_untrusted_sockaddr_update (\<lambda>_. from_addr)) m else m);
       let (new_link, do_burst) = (in_active, in_active);
       let route = (if in_active then Some TM_ACTIVE else found);
       case route of
         None \<Rightarrow> Some (None, b, m)
       | Some i \<Rightarrow>
           (let ks = ts_primary (tm_session m ! i) in
            if \<not> new_link \<and> \<not> addr_port_match (ks_remote_addr ks) from_addr then Some (None, b, m)
            else if op = P_CONTROL_SOFT_RESET_V1 \<and> DECRYPT_KEY_ENABLED m ks then do {
              (ok, b, m) \<leftarrow> session_read_auth now m i b;
              if \<not> ok then Some (None, b, m)
              else do {
                session \<leftarrow> key_state_soft_reset env (tm_opt m) now (tm_session m ! i);
                Some (Some (i, new_link, do_burst), b, upd_session i (\<lambda>_. session) m)
              }
            } else do {
              (ok, b, m) \<leftarrow> session_read_auth now m i b;
              if \<not> ok then Some (None, b, m)
              else Some (Some (i, new_link, do_burst \<or> op = P_CONTROL_SOFT_RESET_V1), b, m)
            })
     }
   }"

text \<open>
  The packet goes to the reliability layer of its session; \<^const>\<open>False\<close> is the error exit, which is
  taken with ret = true.
\<close>

definition control_session ::
  "time_t \<Rightarrow> 'ssl tls_multi \<Rightarrow> nat \<Rightarrow> bool \<Rightarrow> bool \<Rightarrow> sockaddr_in \<Rightarrow> int \<Rightarrow> int \<Rightarrow> session_id \<Rightarrow> buffer \<Rightarrow> (bool \<times> 'ssl tls_multi) option" where
  "control_session now m i new_link do_burst from_addr op key_id sid b = do {
     let session = tm_session m ! i;
     let ks = ts_primary session;
     ASSERT (ks_state ks \<noteq> S_UNDEF);
     ASSERT (ks_state ks \<noteq> S_ERROR);
     ASSERT (session_id_defined (ts_session_id session));
     if \<not> new_link \<and> \<not> addr_port_match (ks_remote_addr ks) from_addr then Some (False, m)
     else do {
       let ks = (if new_link then ks\<lparr>ks_session_id_remote := sid, ks_remote_addr := from_addr\<rparr> else ks);
       let m = (if new_link then m\<lparr>tm_n_sessions := tm_n_sessions m + 1\<rparr> else m);
       let (ks, session) = (if do_burst \<and> \<not> ts_burst session
          then (ks\<lparr>ks_send_reliable := reliable_schedule_now now (ks_send_reliable ks)\<rparr>, session\<lparr>ts_burst := True\<rparr>)
          else (ks, session));
       let put = (\<lambda>ks. upd_session i (\<lambda>_. session\<lparr>ts_primary := ks\<rparr>) m);
       if ks_key_id ks \<noteq> key_id then Some (False, put ks)
       else do {
         (ok, send_ack, b) \<leftarrow> reliable_ack_read empty_ack b (ts_session_id session);
         if \<not> ok then Some (False, put ks)
         else do {
           let ks = ks\<lparr>ks_send_reliable := reliable_send_purge (ks_send_reliable ks) send_ack\<rparr>;
           (rel, ack, b) \<leftarrow> control_incoming op (ks_rec_reliable ks) (ks_rec_ack ks) b;
           Some (True, put (ks\<lparr>ks_rec_reliable := rel, ks_rec_ack := ack\<rparr>))
         }
       }
     }
   }"

text \<open>The control packets of tls_pre_decrypt: the result says whether the packet was authenticated.\<close>

definition tls_pre_decrypt_control ::
  "'ssl tls_env \<Rightarrow> time_t \<Rightarrow> 'ssl tls_multi \<Rightarrow> sockaddr_in \<Rightarrow> buffer \<Rightarrow> int \<Rightarrow> int \<Rightarrow> (bool \<times> 'ssl tls_multi) option" where
  "tls_pre_decrypt_control env now m from_addr b op key_id = do {
     let server = to_server (tm_opt m);
     if op < P_FIRST_OPCODE \<or> op > P_LAST_OPCODE then Some (False, soft_error m)
     else if is_hard_reset op 0 \<and>
        ((op = P_CONTROL_HARD_RESET_CLIENT_V1 \<or> op = P_CONTROL_HARD_RESET_CLIENT_V2) \<and> \<not> server \<or>
         (op = P_CONTROL_HARD_RESET_SERVER_V1 \<or> op = P_CONTROL_HARD_RESET_SERVER_V2) \<and> server)
     then Some (False, soft_error m)
     else do {
       (sid, _) \<leftarrow> session_id_read (snd (buf_advance b 1));
       case sid of None \<Rightarrow> Some (False, soft_error m) | Some sid \<Rightarrow>
       if \<not> session_id_defined sid then Some (False, soft_error m)
       else do {
         (route, b, m) \<leftarrow> control_route env now m from_addr op sid b;
         case route of
           None \<Rightarrow> Some (False, soft_error m)
         | Some (i, new_link, do_burst) \<Rightarrow> do {
             (ok, m) \<leftarrow> control_session now m i new_link do_burst from_addr op key_id sid b;
             Some (True, if ok then m else soft_error m)
           }
       }
     }
   }"

text \<open>
  The result is the return value, the place in key_scan of the key state that opt points to, the
  buffer, opt and the sessions.
\<close>

definition tls_pre_decrypt ::
  "'ssl tls_env \<Rightarrow> time_t \<Rightarrow> 'ssl tls_multi \<Rightarrow> sockaddr_in \<Rightarrow> buffer \<Rightarrow> crypto_options \<Rightarrow>
   (bool \<times> nat option \<times> buffer \<times> crypto_options \<times> 'ssl tls_multi) option" where
  "tls_pre_decrypt env now m from_addr b opt = (
     if len b > 0 then do {
       c \<leftarrow> buf_load b (offset b) 1;
       let op = packet_op (c ! 0);
       let key_id = packet_key_id (c ! 0);
       if op = P_DATA_V1 then
         (case find (\<lambda>i. data_key_usable m from_addr key_id (key_scan m ! i)) [0..<3] of
            Some i \<Rightarrow> do {
              let opt = set_opt_key m (key_scan m ! i) opt;
              let (ok, b) = buf_advance b 1;
              ASSERT ok;
              Some (False, Some i, b, opt,
                upd_key_scan i (\<lambda>ks. ks\<lparr>ks_n_packets := ks_n_packets ks + 1, ks_n_bytes := ks_n_bytes ks + len b\<rparr>) m)
            }
          | None \<Rightarrow> Some (False, None, b\<lparr>len := 0\<rparr>, clear_opt_key m opt, soft_error m))
       else do {
         (ret, m) \<leftarrow> tls_pre_decrypt_control env now m from_addr b op key_id;
         Some (ret, None, b\<lparr>len := 0\<rparr>, clear_opt_key m opt, m)
       }
     } else Some (False, None, b\<lparr>len := 0\<rparr>, clear_opt_key m opt, m))"

definition tls_pre_decrypt_lite :: "(nat \<Rightarrow> byte) \<Rightarrow> time_t \<Rightarrow> tls_auth_standalone \<Rightarrow> buffer \<Rightarrow> bool option" where
  "tls_pre_decrypt_lite junk now tas b = (
     if len b > 0 then do {
       c \<leftarrow> buf_load b (offset b) 1;
       if packet_op (c ! 0) \<noteq> P_CONTROL_HARD_RESET_CLIENT_V2 then Some False
       else if packet_key_id (c ! 0) \<noteq> 0 then Some False
       else if len b > EXPANDED_SIZE_DYNAMIC (tas_frame tas) then Some False
       else do {
         newbuf \<leftarrow> clone_buf junk b;
         let co = (tas_options tas)\<lparr>co_flags := co_flags (tas_options tas) OR CO_IGNORE_PACKET_ID\<rparr>;
         (status, _, _) \<leftarrow> read_control_auth now (tas_frame tas) newbuf co;
         Some status
       }
     } else Some False)"

section \<open>Outgoing data packets\<close>

definition tls_pre_encrypt :: "'ssl tls_multi \<Rightarrow> buffer \<Rightarrow> crypto_options \<Rightarrow> buffer \<times> crypto_options \<times> 'ssl tls_multi" where
  "tls_pre_encrypt m b opt = (let m = m\<lparr>tm_save_ks := None\<rparr> in
     case (if len b > 0 then find (\<lambda>i. ks_state (key_scan m ! i) \<ge> S_ACTIVE \<and> ks_authenticated (key_scan m ! i)) [0..<3] else None) of
       Some i \<Rightarrow> (b, set_opt_key m (key_scan m ! i) opt, m\<lparr>tm_save_ks := Some i\<rparr>)
     | None \<Rightarrow> (b\<lparr>len := 0\<rparr>, clear_opt_key m opt, m))"

definition tls_post_encrypt :: "'ssl tls_multi \<Rightarrow> buffer \<Rightarrow> (buffer \<times> 'ssl tls_multi) option" where
  "tls_post_encrypt m b = do {
     let ks = tm_save_ks m;
     let m = m\<lparr>tm_save_ks := None\<rparr>;
     if len b > 0 then do {
       i \<leftarrow> ks;
       let (op, b) = buf_prepend b 1;
       op \<leftarrow> op;
       b \<leftarrow> buf_store b op [push_bit P_OPCODE_SHIFT (word_of_int P_DATA_V1) OR word_of_int (ks_key_id (key_scan m ! i))];
       Some (b, upd_key_scan i (\<lambda>ks. ks\<lparr>ks_n_packets := ks_n_packets ks + 1, ks_n_bytes := ks_n_bytes ks + len b\<rparr>) m)
     } else Some (b, m)
   }"

text \<open>
  What encrypt_sign and process_incoming_link in forward.c do with these calls.  opt->packet_id points into the key
  state, so its changes are those of the key state.
\<close>

definition save_packet_id :: "nat option \<Rightarrow> crypto_options \<Rightarrow> 'ssl tls_multi \<Rightarrow> 'ssl tls_multi" where
  "save_packet_id i opt m = (case (i, co_packet_id opt) of
     (Some i, Some pid) \<Rightarrow> upd_key_scan i (\<lambda>ks. ks\<lparr>ks_packet_id := pid\<rparr>) m | _ \<Rightarrow> m)"

abbreviation (input) "CAS_SUCCEEDED \<equiv> (0 :: int)"

definition data_decrypt ::
  "int \<Rightarrow> 'ssl tls_env \<Rightarrow> time_t \<Rightarrow> 'ssl tls_multi \<Rightarrow> sockaddr_in \<Rightarrow> buffer \<Rightarrow> buffer \<Rightarrow> crypto_options \<Rightarrow> frame \<Rightarrow>
   (bool \<times> bool \<times> buffer \<times> crypto_options \<times> 'ssl tls_multi) option" where
  "data_decrypt context_auth env now m from_addr b work opt f = do {
     (ret, i, b, opt, m) \<leftarrow> tls_pre_decrypt env now m from_addr b opt;
     let b = (if context_auth \<noteq> CAS_SUCCEEDED then b\<lparr>len := 0\<rparr> else b);
     (ok, b, opt) \<leftarrow> openvpn_decrypt now b work opt f;
     Some (ret, ok, b, opt, save_packet_id i opt m)
   }"

definition data_encrypt ::
  "time_t \<Rightarrow> byte list \<Rightarrow> 'ssl tls_multi \<Rightarrow> buffer \<Rightarrow> buffer \<Rightarrow> crypto_options \<Rightarrow> frame \<Rightarrow> (buffer \<times> crypto_options \<times> 'ssl tls_multi) option" where
  "data_encrypt now rand m b work opt f = do {
     let (b, opt, m) = tls_pre_encrypt m b opt;
     (b, opt) \<leftarrow> openvpn_encrypt now rand b work opt f;
     let m = save_packet_id (tm_save_ks m) opt m;
     (b, m) \<leftarrow> tls_post_encrypt m b;
     Some (b, opt, m)
   }"

end
