(* ===== verification/Tls_Process.thy ===== *)
theory Tls_Process
  imports Tls_Verify Link_Address Tls_Packet
begin

text \<open>
  The handshake (ssl.c): the reading from and writing to the SSL object, tls_process, which moves a session from its first packet to
  its keys, tls_multi_process, which runs it for the three sessions, and the messages of the application on the control channel.  The time
  does not change during a call.
\<close>

section \<open>Reading from and writing to an SSL object\<close>

text \<open>
  The status is 1 for success, 0 for nothing done and -1 for an error.  A call of OpenSSL may run verify_callback on
  the certificates of the peer, which changes the session; the certificates are handed on.
\<close>

definition bio_write :: "('ssl \<Rightarrow> byte list \<Rightarrow> (int \<times> bool) \<times> x509 list \<times> 'ssl) \<Rightarrow> 'ssl \<Rightarrow> byte list \<Rightarrow> int \<times> x509 list \<times> 'ssl" where
  "bio_write BIO_write ssl d =
     (if d \<noteq> [] then
        (let ((i, should_retry), certs, ssl) = BIO_write ssl d
         in (if i < 0 then (if should_retry then 0 else -1) else if i \<noteq> int (length d) then -1 else 1, certs, ssl))
      else (0, [], ssl))"

definition bio_read ::
  "('ssl \<Rightarrow> int \<Rightarrow> (byte list option \<times> bool) \<times> x509 list \<times> 'ssl) \<Rightarrow> 'ssl \<Rightarrow> buffer \<Rightarrow> int \<Rightarrow> (int \<times> buffer \<times> x509 list \<times> 'ssl) option" where
  "bio_read BIO_read ssl b maxlen = do {
     ASSERT (len b \<ge> 0);
     if len b \<noteq> 0 then Some (0, b, [], ssl)
     else do {
       let n = (if maxlen < buf_forward_capacity b then maxlen else buf_forward_capacity b);
       let ((r, should_retry), certs, ssl) = BIO_read ssl n;
       case r of
         None \<Rightarrow> Some (if should_retry then (0, b, certs, ssl) else (-1, b\<lparr>len := 0\<rparr>, certs, ssl))
       | Some d \<Rightarrow>
           if d = [] then Some (0, b\<lparr>len := 0\<rparr>, certs, ssl)
           else do {
             b \<leftarrow> buf_store b (offset b) d;
             Some (1, b\<lparr>len := int (length d)\<rparr>, certs, ssl)
           }
     }
   }"

text \<open>What was written is erased.\<close>

definition bio_write_post :: "int \<Rightarrow> buffer \<Rightarrow> buffer option" where
  "bio_write_post status b =
     (if status = 1 then do {
        b \<leftarrow> buf_store b (offset b) (replicate (nat (len b)) 0);
        Some (b\<lparr>len := 0\<rparr>)
      } else Some b)"

text \<open>The new SSL object of the primary key state of session \<open>i\<close>, and the effects of the callback.\<close>

definition put_ssl :: "'ssl tls_env \<Rightarrow> nat \<Rightarrow> x509 list \<Rightarrow> 'ssl \<Rightarrow> 'ssl tls_multi \<Rightarrow> 'ssl tls_multi option" where
  "put_ssl env i certs ssl m = do {
     session \<leftarrow> verify_chain env (tm_opt m) certs (tm_session m ! i);
     Some (upd_session i (\<lambda>_. session\<lparr>ts_primary := (ts_primary session)\<lparr>ks_ssl := Some ssl\<rparr>\<rparr>) m)
   }"

definition key_state_write_plaintext_const :: "'ssl tls_env \<Rightarrow> 'ssl tls_multi \<Rightarrow> nat \<Rightarrow> byte list \<Rightarrow> (int \<times> 'ssl tls_multi) option" where
  "key_state_write_plaintext_const env m i d = do {
     ssl \<leftarrow> ks_ssl (ts_primary (tm_session m ! i));
     let (ret, certs, ssl) = bio_write (BIO_write_plaintext (te_ssl env) (verify_accepts env (tm_opt m))) ssl d;
     m \<leftarrow> put_ssl env i certs ssl m;
     Some (ret, m)
   }"

definition key_state_write_plaintext :: "'ssl tls_env \<Rightarrow> 'ssl tls_multi \<Rightarrow> nat \<Rightarrow> buffer \<Rightarrow> (int \<times> buffer \<times> 'ssl tls_multi) option" where
  "key_state_write_plaintext env m i b = do {
     ASSERT (len b \<ge> 0);
     d \<leftarrow> buf_load b (offset b) (len b);
     (ret, m) \<leftarrow> key_state_write_plaintext_const env m i d;
     b \<leftarrow> bio_write_post ret b;
     Some (ret, b, m)
   }"

definition key_state_write_ciphertext :: "'ssl tls_env \<Rightarrow> 'ssl tls_multi \<Rightarrow> nat \<Rightarrow> buffer \<Rightarrow> (int \<times> buffer \<times> 'ssl tls_multi) option" where
  "key_state_write_ciphertext env m i b = do {
     ASSERT (len b \<ge> 0);
     d \<leftarrow> buf_load b (offset b) (len b);
     ssl \<leftarrow> ks_ssl (ts_primary (tm_session m ! i));
     let (ret, certs, ssl) = bio_write (BIO_write_ciphertext (te_ssl env) (verify_accepts env (tm_opt m))) ssl d;
     m \<leftarrow> put_ssl env i certs ssl m;
     b \<leftarrow> bio_write_post ret b;
     Some (ret, b, m)
   }"

definition key_state_read_plaintext :: "'ssl tls_env \<Rightarrow> 'ssl tls_multi \<Rightarrow> nat \<Rightarrow> buffer \<Rightarrow> int \<Rightarrow> (int \<times> buffer \<times> 'ssl tls_multi) option" where
  "key_state_read_plaintext env m i b maxlen = do {
     ssl \<leftarrow> ks_ssl (ts_primary (tm_session m ! i));
     (ret, b, certs, ssl) \<leftarrow> bio_read (BIO_read_plaintext (te_ssl env) (verify_accepts env (tm_opt m))) ssl b maxlen;
     m \<leftarrow> put_ssl env i certs ssl m;
     Some (ret, b, m)
   }"

definition key_state_read_ciphertext :: "'ssl tls_env \<Rightarrow> 'ssl tls_multi \<Rightarrow> nat \<Rightarrow> buffer \<Rightarrow> int \<Rightarrow> (int \<times> buffer \<times> 'ssl tls_multi) option" where
  "key_state_read_ciphertext env m i b maxlen = do {
     ssl \<leftarrow> ks_ssl (ts_primary (tm_session m ! i));
     (ret, b, certs, ssl) \<leftarrow> bio_read (BIO_read_ciphertext (te_ssl env) (verify_accepts env (tm_opt m))) ssl b maxlen;
     m \<leftarrow> put_ssl env i certs ssl m;
     Some (ret, b, m)
   }"

section \<open>The handshake\<close>

text \<open>
  What changes while tls_process runs, and what the rest of the process gives it: random bytes for a key message of method 1
  and 2, and the user name and password of a client.
\<close>

record 'ssl tls_proc =
  tp_multi :: "'ssl tls_multi"
  tp_to_link :: buffer
  tp_to_link_addr :: sockaddr_in
  tp_info :: link_socket_info
  tp_active :: bool
  tp_change :: bool

record key_rand =
  kr_method_1 :: "(byte list \<times> byte list) option list"
  kr_pre_master :: "byte list"
  kr_random1 :: "byte list"
  kr_random2 :: "byte list"
  kr_auth :: "(byte list \<times> byte list) option"

text \<open>How a part of the loop body ends: it goes on, it leaves the loop, or it jumps to the error exit.\<close>

datatype flow = Next | Break | Error

type_synonym 'ssl stage = "'ssl tls_proc \<Rightarrow> (flow \<times> 'ssl tls_proc) option"

definition then_stage :: "'ssl stage \<Rightarrow> 'ssl stage \<Rightarrow> 'ssl stage" where
  "then_stage f g p = do {
     (fl, p) \<leftarrow> f p;
     if fl = Next then g p else Some (fl, p)
   }"

definition tp_session :: "nat \<Rightarrow> 'ssl tls_proc \<Rightarrow> 'ssl tls_session" where
  "tp_session i p = tm_session (tp_multi p) ! i"

definition tp_ks :: "nat \<Rightarrow> 'ssl tls_proc \<Rightarrow> 'ssl key_state" where
  "tp_ks i p = ts_primary (tp_session i p)"

definition put_ks :: "nat \<Rightarrow> 'ssl key_state \<Rightarrow> 'ssl tls_proc \<Rightarrow> 'ssl tls_proc" where
  "put_ks i ks p = p\<lparr>tp_multi := upd_session i (\<lambda>s. s\<lparr>ts_primary := ks\<rparr>) (tp_multi p)\<rparr>"

definition changed :: "'ssl tls_proc \<Rightarrow> 'ssl tls_proc" where
  "changed p = p\<lparr>tp_change := True\<rparr>"

definition FULL_SYNC :: "'ssl key_state \<Rightarrow> bool" where
  "FULL_SYNC ks \<longleftrightarrow> reliable_empty (ks_send_reliable ks) \<and> reliable_ack_empty (ks_rec_ack ks)"

definition initial_handshake :: "tls_options \<Rightarrow> time_t \<Rightarrow> nat \<Rightarrow> 'ssl stage" where
  "initial_handshake opt now i p = (let ks = tp_ks i p in
     if ks_state ks = S_INITIAL then do {
       (j, rel) \<leftarrow> reliable_get_buf_output_sequenced (ks_send_reliable ks);
       case j of
         None \<Rightarrow> Some (Next, put_ks i (ks\<lparr>ks_send_reliable := rel\<rparr>) p)
       | Some j \<Rightarrow> do {
           rel \<leftarrow> reliable_mark_active_outgoing rel j (ks_initial_opcode ks);
           Some (Next, changed (put_ks i (ks\<lparr>ks_must_negotiate := now + to_handshake_window opt, ks_send_reliable := rel,
             ks_state := S_PRE_START\<rparr>) p))
         }
     } else Some (Next, p))"

definition negotiation_timeout :: "time_t \<Rightarrow> nat \<Rightarrow> 'ssl stage" where
  "negotiation_timeout now i p = (let ks = tp_ks i p in
     if now \<ge> ks_must_negotiate ks then
       if ks_state ks < S_ACTIVE then Some (Error, p)
       else Some (Next, put_ks i (ks\<lparr>ks_state := S_NORMAL, ks_must_negotiate := 0\<rparr>) p)
     else Some (Next, p))"

definition handshake_acked :: "nat \<Rightarrow> 'ssl stage" where
  "handshake_acked i p = (let ks = tp_ks i p in
     if ks_state ks = S_PRE_START \<and> FULL_SYNC ks then Some (Next, changed (put_ks i (ks\<lparr>ks_state := S_START\<rparr>) p))
     else Some (Next, p))"

definition keys_acked :: "tls_options \<Rightarrow> time_t \<Rightarrow> nat \<Rightarrow> 'ssl stage" where
  "keys_acked opt now i p = (let ks = tp_ks i p in
     if (ks_state ks = S_GOT_KEY \<and> \<not> to_server opt \<or> ks_state ks = S_SENT_KEY \<and> to_server opt) \<and> FULL_SYNC ks
     then (let p = changed (put_ks i (ks\<lparr>ks_established := now, ks_state := S_ACTIVE\<rparr>) p)
           in Some (Next, p\<lparr>tp_info := link_socket_set_outgoing_addr None (tp_info p) (ks_remote_addr ks)\<rparr>))
     else Some (Next, p))"

text \<open>
  write_control_auth for the session.  The record of packet identifiers that outlives the sessions is one object, to
  which the options of every session point.
\<close>

definition session_write_auth ::
  "time_t \<Rightarrow> nat \<Rightarrow> buffer \<Rightarrow> int \<Rightarrow> int \<Rightarrow> bool \<Rightarrow> 'ssl tls_proc \<Rightarrow> 'ssl tls_proc option" where
  "session_write_auth now i b opc max_ack prepend_ack p = do {
     let m = tp_multi p;
     let session = tp_session i p;
     let session = session\<lparr>ts_tls_auth := (ts_tls_auth session)\<lparr>co_pid_persist := tm_pid_persist m\<rparr>\<rparr>;
     (b, addr, session) \<leftarrow> write_control_auth now (to_frame (tm_opt m)) session b opc max_ack prepend_ack;
     Some (p\<lparr>tp_multi := (upd_session i (\<lambda>_. session) m)\<lparr>tm_pid_persist := co_pid_persist (ts_tls_auth session)\<rparr>,
       tp_to_link := b, tp_to_link_addr := addr, tp_active := True, tp_change := True\<rparr>)
   }"

text \<open>The packet is built in a copy of the entry: what is put in front of the payload stays outside of the entry's own contents.\<close>

definition send_reliable :: "time_t \<Rightarrow> nat \<Rightarrow> 'ssl stage" where
  "send_reliable now i p = (let ks = tp_ks i p in
     if len (tp_to_link p) = 0 \<and> reliable_can_send now (ks_send_reliable ks) then do {
       let (r, rel) = reliable_send now (ks_send_reliable ks);
       (j, opc) \<leftarrow> r;
       p \<leftarrow> session_write_auth now i (entry_buf (rel_array rel ! j)) opc CONTROL_SEND_ACK_MAX True (put_ks i (ks\<lparr>ks_send_reliable := rel\<rparr>) p);
       Some (Break, p)
     } else Some (Next, p))"

definition incoming_ciphertext :: "'ssl tls_env \<Rightarrow> nat \<Rightarrow> 'ssl stage" where
  "incoming_ciphertext env i p = (let ks = tp_ks i p in
     case reliable_get_buf_sequenced (ks_rec_reliable ks) of
       None \<Rightarrow> Some (Next, p)
     | Some j \<Rightarrow> do {
         let b = entry_buf (rel_array (ks_rec_reliable ks) ! j);
         (status, b, m) \<leftarrow> (if len b \<noteq> 0 then key_state_write_ciphertext env (tp_multi p) i b else Some (1, b, tp_multi p));
         let p = p\<lparr>tp_multi := m\<rparr>;
         let ks = tp_ks i p;
         let rel = upd_entry (ks_rec_reliable ks) j (\<lambda>e. e\<lparr>entry_buf := b\<rparr>);
         if status = -1 then Some (Error, put_ks i (ks\<lparr>ks_rec_reliable := rel\<rparr>) p)
         else if status = 1 then do {
           rel \<leftarrow> reliable_mark_deleted rel j True;
           Some (Next, changed (put_ks i (ks\<lparr>ks_rec_reliable := rel\<rparr>) p))
         } else Some (Next, put_ks i (ks\<lparr>ks_rec_reliable := rel\<rparr>) p)
       })"

definition incoming_plaintext :: "'ssl tls_env \<Rightarrow> nat \<Rightarrow> 'ssl stage" where
  "incoming_plaintext env i p = (
     if len (ks_plaintext_read_buf (tp_ks i p)) = 0 then do {
       let (ok, b) = buf_init (ks_plaintext_read_buf (tp_ks i p)) 0;
       ASSERT ok;
       (status, b, m) \<leftarrow> key_state_read_plaintext env (tp_multi p) i b (int PLAINTEXT_BUFFER_SIZE);
       let p = p\<lparr>tp_multi := m\<rparr>;
       let p = put_ks i ((tp_ks i p)\<lparr>ks_plaintext_read_buf := b\<rparr>) p;
       Some (if status = -1 then (Error, p) else if status = 1 then (Next, changed p) else (Next, p))
     } else Some (Next, p))"

definition send_key :: "'ssl tls_env \<Rightarrow> key_rand \<Rightarrow> tls_options \<Rightarrow> nat \<Rightarrow> 'ssl stage" where
  "send_key env rnd opt i p = (let ks = tp_ks i p; b = ks_plaintext_write_buf ks in
     if len b = 0 \<and> (ks_state ks = S_START \<and> \<not> to_server opt \<or> ks_state ks = S_GOT_KEY \<and> to_server opt) then do {
       (ok, b, ks) \<leftarrow> (
         if to_key_method opt = 1 then key_method_1_write env opt (kr_method_1 rnd) b ks
         else if to_key_method opt = 2 then
           key_method_2_write env opt (kr_auth rnd) (kr_pre_master rnd) (kr_random1 rnd) (kr_random2 rnd) (ts_session_id (tp_session i p)) b ks
         else None);
       let ks = ks\<lparr>ks_plaintext_write_buf := b\<rparr>;
       Some (if ok then (Next, changed (put_ks i (ks\<lparr>ks_state := S_SENT_KEY\<rparr>) p)) else (Error, put_ks i ks p))
     } else Some (Next, p))"

definition receive_key :: "'ssl tls_env \<Rightarrow> tls_options \<Rightarrow> nat \<Rightarrow> 'ssl stage" where
  "receive_key env opt i p = (let ks = tp_ks i p; b = ks_plaintext_read_buf ks in
     if len b \<noteq> 0 \<and> (ks_state ks = S_SENT_KEY \<and> \<not> to_server opt \<or> ks_state ks = S_START \<and> to_server opt) then do {
       (ok, b, p) \<leftarrow> (
         if to_key_method opt = 1 then do {
           (ok, b, ks) \<leftarrow> key_method_1_read env opt (ts_verified (tp_session i p)) b ks;
           Some (ok, b, put_ks i ks p)
         } else if to_key_method opt = 2 then do {
           (ok, b, m) \<leftarrow> key_method_2_read env (tp_multi p) i b;
           Some (ok, b, p\<lparr>tp_multi := m\<rparr>)
         } else None);
       let ks = (tp_ks i p)\<lparr>ks_plaintext_read_buf := b\<rparr>;
       Some (if ok then (Next, changed (put_ks i (ks\<lparr>ks_state := S_GOT_KEY\<rparr>) p)) else (Error, put_ks i ks p))
     } else Some (Next, p))"

definition outgoing_plaintext :: "'ssl tls_env \<Rightarrow> nat \<Rightarrow> 'ssl stage" where
  "outgoing_plaintext env i p = (
     if len (ks_plaintext_write_buf (tp_ks i p)) \<noteq> 0 then do {
       (status, b, m) \<leftarrow> key_state_write_plaintext env (tp_multi p) i (ks_plaintext_write_buf (tp_ks i p));
       let p = p\<lparr>tp_multi := m\<rparr>;
       let p = put_ks i ((tp_ks i p)\<lparr>ks_plaintext_write_buf := b\<rparr>) p;
       Some (if status = -1 then (Error, p) else if status = 1 then (Next, changed p) else (Next, p))
     } else Some (Next, p))"

definition outgoing_ciphertext :: "'ssl tls_env \<Rightarrow> nat \<Rightarrow> 'ssl stage" where
  "outgoing_ciphertext env i p = (let ks = tp_ks i p in
     if ks_state ks \<ge> S_START then do {
       (j, rel) \<leftarrow> reliable_get_buf_output_sequenced (ks_send_reliable ks);
       let p = put_ks i (ks\<lparr>ks_send_reliable := rel\<rparr>) p;
       case j of
         None \<Rightarrow> Some (Next, p)
       | Some j \<Rightarrow> do {
           (status, b, m) \<leftarrow> key_state_read_ciphertext env (tp_multi p) i (entry_buf (rel_array rel ! j))
              (PAYLOAD_SIZE_DYNAMIC (to_frame (tm_opt (tp_multi p))));
           let p = p\<lparr>tp_multi := m\<rparr>;
           let rel = upd_entry rel j (\<lambda>e. e\<lparr>entry_buf := b\<rparr>);
           if status = -1 then Some (Error, put_ks i ((tp_ks i p)\<lparr>ks_send_reliable := rel\<rparr>) p)
           else if status = 1 then do {
             rel \<leftarrow> reliable_mark_active_outgoing rel j P_CONTROL_V1;
             Some (Next, changed (put_ks i ((tp_ks i p)\<lparr>ks_send_reliable := rel\<rparr>) p))
           } else Some (Next, put_ks i ((tp_ks i p)\<lparr>ks_send_reliable := rel\<rparr>) p)
         }
     } else Some (Next, p))"

text \<open>One round of the loop.\<close>

definition tls_process_round :: "'ssl tls_env \<Rightarrow> key_rand \<Rightarrow> tls_options \<Rightarrow> time_t \<Rightarrow> nat \<Rightarrow> 'ssl stage" where
  "tls_process_round env rnd opt now i p = foldr then_stage
     [initial_handshake opt now i, negotiation_timeout now i, handshake_acked i, keys_acked opt now i, send_reliable now i,
      incoming_ciphertext env i, incoming_plaintext env i, send_key env rnd opt i, receive_key env opt i, outgoing_plaintext env i,
      outgoing_ciphertext env i] (\<lambda>p. Some (Next, p)) (p\<lparr>tp_change := False\<rparr>)"

text \<open>
  The loop, with a bound on the number of rounds: \<^term>\<open>Some None\<close> says that the bound was too small, while
  \<^const>\<open>None\<close> is an assertion that fails.
\<close>

fun tls_process_loop :: "nat \<Rightarrow> 'ssl tls_env \<Rightarrow> key_rand \<Rightarrow> tls_options \<Rightarrow> time_t \<Rightarrow> nat \<Rightarrow> 'ssl tls_proc \<Rightarrow> (flow \<times> 'ssl tls_proc) option option" where
  "tls_process_loop 0 env rnd opt now i p = Some None"
| "tls_process_loop (Suc n) env rnd opt now i p = do {
     (fl, p) \<leftarrow> tls_process_round env rnd opt now i p;
     if fl = Next \<and> tp_change p then tls_process_loop n env rnd opt now i p
     else Some (Some (fl, p))
   }"

text \<open>Forty rounds are enough, as shown below.\<close>

abbreviation (input) "TLS_ROUNDS \<equiv> (40 :: nat)"

definition needs_soft_reset :: "tls_options \<Rightarrow> time_t \<Rightarrow> 'ssl key_state \<Rightarrow> bool" where
  "needs_soft_reset opt now ks \<longleftrightarrow> ks_state ks \<ge> S_ACTIVE \<and>
     (to_renegotiate_seconds opt \<noteq> 0 \<and> now \<ge> ks_established ks + to_renegotiate_seconds opt \<or>
      to_renegotiate_bytes opt \<noteq> 0 \<and> ks_n_bytes ks \<ge> to_renegotiate_bytes opt \<or>
      to_renegotiate_packets opt \<noteq> 0 \<and> ks_n_packets ks \<ge> to_renegotiate_packets opt \<or>
      packet_id_close_to_wrapping (pid_send (ks_packet_id ks)))"

definition send_acks :: "time_t \<Rightarrow> nat \<Rightarrow> 'ssl tls_proc \<Rightarrow> 'ssl tls_proc option" where
  "send_acks now i p = (
     if len (tp_to_link p) = 0 \<and> \<not> reliable_ack_empty (ks_rec_ack (tp_ks i p)) then do {
       let (ok, b) = buf_init (ks_ack_write_buf (tp_ks i p)) (frame_headroom (to_frame (tm_opt (tp_multi p))) 0);
       ASSERT ok;
       p \<leftarrow> session_write_auth now i b P_ACK_V1 RELIABLE_ACK_SIZE False p;
       Some (put_ks i ((tp_ks i p)\<lparr>ks_ack_write_buf := tp_to_link p\<rparr>) p)
     } else Some p)"

definition next_wakeup :: "tls_options \<Rightarrow> time_t \<Rightarrow> 'ssl key_state \<Rightarrow> int \<Rightarrow> int" where
  "next_wakeup opt now ks wakeup = (
     let wakeup = (if ks_state ks \<ge> S_INITIAL then
           (let wakeup = compute_earliest_wakeup wakeup (reliable_send_timeout now (ks_send_reliable ks))
            in if ks_must_negotiate ks \<noteq> 0 then compute_earliest_wakeup wakeup (ks_must_negotiate ks - now) else wakeup)
         else wakeup)
     in if ks_established ks \<noteq> 0 \<and> to_renegotiate_seconds opt \<noteq> 0
        then compute_earliest_wakeup wakeup (ks_established ks + to_renegotiate_seconds opt - now) else wakeup)"

text \<open>Before the loop: a soft reset when the key has been used enough, and the end of the lame duck key.\<close>

definition tls_process_start ::
  "'ssl tls_env \<Rightarrow> tls_options \<Rightarrow> time_t \<Rightarrow> 'ssl tls_session \<Rightarrow> int \<Rightarrow> ('ssl tls_session \<times> int) option" where
  "tls_process_start env opt now session wakeup = do {
     let ks = ts_primary session;
     ASSERT (ks_state ks \<noteq> S_UNDEF);
     ASSERT (ks_state ks \<noteq> S_ERROR);
     ASSERT (session_id_defined (ts_session_id session));
     session \<leftarrow> (if needs_soft_reset opt now ks then key_state_soft_reset env opt now session else Some session);
     (die, wakeup) \<leftarrow> lame_duck_must_die now session wakeup;
     Some (if die then session\<lparr>ts_lame_duck := key_state_free (ts_lame_duck session) True\<rparr> else session, wakeup)
   }"

text \<open>The result is the return value and the wake-up time with the state.\<close>

definition tls_process ::
  "'ssl tls_env \<Rightarrow> key_rand \<Rightarrow> time_t \<Rightarrow> nat \<Rightarrow> 'ssl tls_proc \<Rightarrow> int \<Rightarrow> (bool \<times> int \<times> 'ssl tls_proc) option" where
  "tls_process env rnd now i p wakeup = do {
     let opt = tm_opt (tp_multi p);
     (session, wakeup) \<leftarrow> tls_process_start env opt now (tp_session i p) wakeup;
     let p = p\<lparr>tp_multi := upd_session i (\<lambda>_. session) (tp_multi p), tp_active := False\<rparr>;
     r \<leftarrow> tls_process_loop TLS_ROUNDS env rnd opt now i p;
     (fl, p) \<leftarrow> r;
     if fl = Error then Some (False, wakeup, put_ks i ((tp_ks i p)\<lparr>ks_state := S_ERROR\<rparr>) p)
     else do {
       p \<leftarrow> send_acks now i p;
       let wakeup = next_wakeup opt now (tp_ks i p) wakeup;
       Some (if wakeup \<le> 0 then (True, 1, p) else (tp_active p, wakeup, p))
     }
   }"

section \<open>All sessions\<close>

text \<open>One session of the loop of tls_multi_process; \<open>rs\<close> is the random input of a new session.\<close>

definition multi_process_session ::
  "'ssl tls_env \<Rightarrow> key_rand \<Rightarrow> byte list list \<Rightarrow> time_t \<Rightarrow> nat \<Rightarrow> 'ssl tls_proc \<times> int \<times> bool \<times> bool \<Rightarrow> ('ssl tls_proc \<times> int \<times> bool \<times> bool) option" where
  "multi_process_session env rnd rs now i st = do {
     let (p, wakeup, act, err) = st;
     let ks = tp_ks i p;
     let actual = lsa_actual (li_lsa (tp_info p));
     let ks = (if i = TM_ACTIVE \<and> ks_state ks = S_INITIAL \<and> addr_defined actual then ks\<lparr>ks_remote_addr := actual\<rparr> else ks);
     let p = put_ks i ks p;
     if ks_state ks \<ge> S_INITIAL \<and> addr_defined (ks_remote_addr ks) then do {
       (ret, wakeup, p) \<leftarrow> tls_process env rnd now i p wakeup;
       let act = (act \<or> ret);
       if ks_state (tp_ks i p) = S_ERROR then do {
         let m = tp_multi p;
         let m = m\<lparr>tm_n_soft_errors := tm_n_soft_errors m + 1\<rparr>;
         m \<leftarrow> (if i = TM_ACTIVE \<and> ks_state (ts_lame_duck (tp_session i p)) \<ge> S_ACTIVE \<and> \<not> to_single_session (tm_opt m)
               then move_session env m TM_LAME_DUCK TM_ACTIVE True rs
               else reset_session env m i rs);
         Some (p\<lparr>tp_multi := m\<rparr>, wakeup, act, err \<or> i = TM_ACTIVE)
       } else Some (p, wakeup, act, err)
     } else Some (p, wakeup, act, err)
   }"

definition tls_multi_process ::
  "'ssl tls_env \<Rightarrow> (nat \<Rightarrow> key_rand) \<Rightarrow> (nat \<Rightarrow> byte list list) \<Rightarrow> time_t \<Rightarrow> 'ssl tls_multi \<Rightarrow> buffer \<Rightarrow> sockaddr_in \<Rightarrow> link_socket_info \<Rightarrow> int \<Rightarrow>
   (bool \<times> int \<times> 'ssl tls_proc) option" where
  "tls_multi_process env rnd rs now m to_link to_link_addr info wakeup = do {
     let p = \<lparr>tp_multi = m, tp_to_link = to_link, tp_to_link_addr = to_link_addr, tp_info = info, tp_active = False, tp_change = False\<rparr>;
     st \<leftarrow> multi_process_session env (rnd 0) (rs 0) now TM_ACTIVE (p, wakeup, False, False);
     st \<leftarrow> multi_process_session env (rnd 1) (rs 1) now TM_UNTRUSTED st;
     (p, wakeup, act, err) \<leftarrow> multi_process_session env (rnd 2) (rs 2) now TM_LAME_DUCK st;
     let m = tp_multi p;
     (die, wakeup) \<leftarrow> lame_duck_must_die now (tm_session m ! TM_LAME_DUCK) wakeup;
     let m = (if die then upd_session TM_LAME_DUCK (\<lambda>s. tls_session_free s True) m else m);
     m \<leftarrow> (if DECRYPT_KEY_ENABLED m (ts_primary (tm_session m ! TM_UNTRUSTED))
           then move_session env m TM_ACTIVE TM_UNTRUSTED True (rs 3) else Some m);
     let m = (if err \<and> \<not> list_ex (\<lambda>ks. ks_state ks \<ge> S_ACTIVE) (key_scan m) then m\<lparr>tm_n_hard_errors := tm_n_hard_errors m + 1\<rparr> else m);
     Some (act, wakeup, p\<lparr>tp_multi := m\<rparr>)
   }"

section \<open>Payloads on the control channel\<close>

definition tls_send_payload :: "'ssl tls_env \<Rightarrow> 'ssl tls_multi \<Rightarrow> byte list \<Rightarrow> (bool \<times> 'ssl tls_multi) option" where
  "tls_send_payload env m d = (
     if ks_state (ts_primary (tm_session m ! TM_ACTIVE)) \<ge> S_ACTIVE then do {
       (status, m) \<leftarrow> key_state_write_plaintext_const env m TM_ACTIVE d;
       Some (status = 1, m)
     } else Some (False, m))"

definition tls_rec_payload :: "'ssl tls_multi \<Rightarrow> buffer \<Rightarrow> (bool \<times> buffer \<times> 'ssl tls_multi) option" where
  "tls_rec_payload m b = (let ks = ts_primary (tm_session m ! TM_ACTIVE) in
     if ks_state ks \<ge> S_ACTIVE \<and> len (ks_plaintext_read_buf ks) \<noteq> 0 then do {
       (ok, b) \<leftarrow> buf_copy b (ks_plaintext_read_buf ks);
       Some (ok, b, upd_session TM_ACTIVE (\<lambda>s. s\<lparr>ts_primary := ks\<lparr>ks_plaintext_read_buf := (ks_plaintext_read_buf ks)\<lparr>len := 0\<rparr>\<rparr>\<rparr>) m)
     } else Some (False, b, m))"

end
