(* ===== verification/Tls_Packet_Safety.thy ===== *)
theory Tls_Packet_Safety
  imports Tls_Packet Control_Channel
begin

text \<open>
  An invariant of all sessions of a peer, which tls_multi_init and tls_multi_init_finalize establish and which tls_pre_decrypt
  keeps for every packet from the network: no assertion fails, no access leaves its block and no window overflows, whatever the
  packet holds and whether or not it is authentic.
\<close>

section \<open>No packet ends the process\<close>

lemma reap_test_wf:
  assumes "wf_rec p"
  shows "\<exists>p'. packet_id_reap_test now p = Some p' \<and> wf_rec p'"
proof (cases "last_reap p + 5 \<le> now \<and> time_backtrack p \<noteq> 0")
  case True
  then have bt: "seq_backtrack p \<noteq> 0" using assms by (auto simp: wf_rec_def)
  obtain sl where sl: "seq_list p = Some sl" "wf_circ sl" "x_cap sl = seq_backtrack p"
    using assms bt by (auto simp: wf_rec_def split: option.splits)
  obtain sl' where sl': "pid_reap_loop now (time_backtrack p) sl (nat (x_size sl)) 0 False = Some sl'"
    "wf_circ sl'" "x_cap sl' = seq_backtrack p"
    using pid_reap_loop_abs[OF sl(2), of 0 "nat (x_size sl)" now "time_backtrack p" False] sl by auto
  have "packet_id_reap_test now p = Some (p\<lparr>seq_list := Some sl', last_reap := now\<rparr>)"
    using True sl sl' by (simp add: packet_id_reap_test_def packet_id_reap_def CIRC_LIST_SIZE_def)
  then show ?thesis using assms sl sl' bt by (auto simp: wf_rec_def)
next
  case False
  then show ?thesis
    using assms by (auto simp: packet_id_reap_test_def packet_id_reap_def wf_rec_def split: option.splits if_splits)
qed

lemma packet_id_receive_wf:
  assumes "wf_rec p" "now > 1"
  shows "\<exists>ok r. packet_id_receive now p k = Some (ok, r) \<and> wf_rec r"
proof -
  obtain p1 where p1: "packet_id_reap_test now p = Some p1" "wf_rec p1" using reap_test_wf[OF assms(1)] by blast
  obtain ok where ok: "packet_id_test p1 k = Some ok"
    using packet_id_test_backtrack[OF p1(2)] packet_id_test_sequential[OF p1(2)] by blast
  have "\<exists>p2. packet_id_add now p1 k = Some p2 \<and> wf_rec p2"
  proof (cases "seq_backtrack p1 = 0")
    case True
    then show ?thesis using p1(2) by (auto simp: packet_id_add_def wf_rec_def)
  next
    case False
    then show ?thesis using packet_id_add_backtrack[OF p1(2) False assms(2)] by blast
  qed
  then show ?thesis using p1 ok by (auto simp: packet_id_receive_def)
qed

text \<open>The options of --tls-auth as a session has them.\<close>

definition auth_state :: "crypto_options \<Rightarrow> bool" where
  "auth_state co \<longleftrightarrow> (\<exists>kcb. co_key_ctx_bi co = Some kcb \<and>
     (\<forall>h. ctx_hmac (kc_decrypt kcb) = Some h \<longrightarrow> hmac_ok (Some h) \<and> ctx_cipher (kc_decrypt kcb) = None \<and>
        (\<exists>p. co_packet_id co = Some p \<and> wf_rec (pid_rec p))))"

lemma decrypt_replay_wf:
  assumes "co_packet_id co = Some p" "wf_rec (pid_rec p)" "now > 1"
  shows "\<exists>ok co' p'. decrypt_replay now pin co = Some (ok, co') \<and> co_key_ctx_bi co' = co_key_ctx_bi co \<and>
    co_packet_id co' = Some p' \<and> wf_rec (pid_rec p')"
proof (cases pin)
  case None
  then show ?thesis using assms by (auto simp: decrypt_replay_def)
next
  case (Some k)
  obtain ok r where "packet_id_receive now (pid_rec p) k = Some (ok, r)" "wf_rec r"
    using packet_id_receive_wf[OF assms(2,3)] by blast
  then show ?thesis using assms Some by (simp add: decrypt_replay_def Let_def)
qed

lemma packet_open_shorter:
  assumes "ctx_cipher ctx = None" "packet_open ctx present fl k = Some (pin, d)"
  shows "length d \<le> length k"
  using assms by (auto simp: packet_open_def open_hmac_def open_pid_def Let_def bind_eq_Some_conv split: if_splits option.splits)

lemma packet_open_longer:
  assumes "ctx_cipher ctx = None" "ctx_hmac ctx = Some h" "packet_open ctx present fl k = Some (pin, d)"
  shows "length k \<le> length d + auth_len h"
  using assms
  by (auto simp: packet_open_def open_hmac_def open_pid_def Let_def bind_eq_Some_conv auth_len_def packet_id_size_def split: if_splits)

lemma read_control_auth_total:
  assumes co: "auth_state co" and now: "now > 1" and b: "live_buf b" "9 \<le> len b"
  shows "\<exists>ok b' co'. read_control_auth now f b co = Some (ok, b', co') \<and> auth_state co' \<and>
    (ok \<longrightarrow> live_buf b' \<and> len b' + 9 \<le> len b)"
proof -
  obtain kcb where kcb: "co_key_ctx_bi co = Some kcb" using co by (auto simp: auth_state_def)
  let ?ctx = "kc_decrypt kcb"
  obtain pre k post where m: "b = mk_buf pre k post" using b(1) by (rule live_bufE)
  show ?thesis
  proof (cases "ctx_hmac ?ctx")
    case None
    then show ?thesis using kcb co b(2) by (auto simp: m read_control_auth_def SID_SIZE_def)
  next
    case (Some h)
    then obtain p where h: "hmac_ok (Some h)" "ctx_cipher ?ctx = None" "co_packet_id co = Some p" "wf_rec (pid_rec p)"
      using co kcb by (auto simp: auth_state_def)
    have dok: "decrypt_ok ?ctx co" using kcb Some h by (simp add: decrypt_ok_def)
    have h0: "0 \<le> HMAC_size h" using h(1) by (simp add: hmac_ok_def)
    show ?thesis
    proof (cases "9 + auth_len h \<le> length k")
      case False
      then have "swap_hmac b co True = Some (False, b)"
        using swap_hmac_short[of co kcb h k] kcb Some h h0 by (simp add: auth_len_def m)
      then show ?thesis using kcb Some co by (auto simp: read_control_auth_def)
    next
      case True
      have kk: "k = take 9 k @ take (auth_len h) (drop 9 k) @ drop (9 + auth_len h) k"
        by (metis append_take_drop_id drop_drop add.commute)
      have sw: "swap_hmac b co True = Some (True, mk_buf pre (auth_front h k) post)"
        unfolding auth_front_def m using True kcb Some h
        by (subst kk, intro swap_hmac_incoming[of co kcb h]) (simp_all add: auth_len_def)
      have lf: "length (auth_front h k) = length k" using True by (simp add: auth_front_def)
      then have ne: "auth_front h k \<noteq> []" using True by auto
      define f0 where "f0 = \<lparr>link_mtu = 0, link_mtu_dynamic = 0, extra_frame = 0, extra_buffer = 0, extra_tun = 0, extra_link = 0,
        align_flags = 0, align_adjust = 0\<rparr>"
      define w0 where "w0 = mk_buf [] [] [0 :: byte]"
      have w: "work_ok f0 w0" by (simp add: work_ok_def w0_def f0_def frame_headroom_def FRAME_HEADROOM_BASE_def TUN_LINK_DELTA_def)
      obtain r b2 where dec: "openvpn_decrypt now (mk_buf pre (auth_front h k) post) w0 co f0 =
          (case r of None \<Rightarrow> Some (False, b2, co)
           | Some (pin, w) \<Rightarrow> do { (ok, opt) \<leftarrow> decrypt_replay now pin co; Some (if ok then (True, w, opt) else (False, b2, opt)) })"
        and lb: "len b2 = 0"
        and opn: "\<forall>pin w. r = Some (pin, w) \<longrightarrow> live_buf w \<and> opt_open ?ctx co (auth_front h k) = Some (pin, content w)"
        using openvpn_decrypt_open[OF dok w ne, of now pre post] by blast
      have "\<exists>ok b' co'. openvpn_decrypt now (mk_buf pre (auth_front h k) post) w0 co f0 = Some (ok, b', co') \<and> auth_state co' \<and>
        (len b' \<noteq> 0 \<longrightarrow> live_buf b' \<and> 9 \<le> len b' \<and> len b' \<le> len b)"
      proof (cases r)
        case None
        then show ?thesis using dec lb co by auto
      next
        case s: (Some pw)
        obtain pin w where pw: "pw = (pin, w)" by (cases pw)
        obtain ok co' p' where rp: "decrypt_replay now pin co = Some (ok, co')" "co_key_ctx_bi co' = co_key_ctx_bi co"
          "co_packet_id co' = Some p'" "wf_rec (pid_rec p')" using decrypt_replay_wf[OF h(3,4) now] by blast
        have "auth_state co'" using rp kcb Some h by (simp add: auth_state_def)
        moreover have lw: "live_buf w" "length (content w) \<le> length k" "length k \<le> length (content w) + auth_len h"
          using opn s pw packet_open_shorter[OF h(2)] packet_open_longer[OF h(2) Some] lf by fastforce+
        moreover have "len w \<le> len b" "9 \<le> len w"
        proof -
          obtain a c e where "w = mk_buf a c e" using lw(1) by (rule live_bufE)
          then show "len w \<le> len b" "9 \<le> len w" using lw(2,3) m True by simp_all
        qed
        ultimately show ?thesis using dec s pw rp(1) lb by auto
      qed
      then obtain ok b' co' where d: "openvpn_decrypt now (mk_buf pre (auth_front h k) post) w0 co f0 = Some (ok, b', co')" "auth_state co'"
        "len b' \<noteq> 0 \<longrightarrow> live_buf b' \<and> 9 \<le> len b' \<and> len b' \<le> len b" by blast
      have read: "read_control_auth now f b co =
          Some (if len b' \<noteq> 0 then (True, snd (buf_advance b' 9), co') else (False, b', co'))"
        using kcb Some h sw openvpn_decrypt_no_work[of co kcb now "mk_buf pre (auth_front h k) post" clear_buf f w0 f0] d(1)
        by (simp add: read_control_auth_def decrypt_auth_only_def SID_SIZE_def)
      have "live_buf (snd (buf_advance b' 9)) \<and> len (snd (buf_advance b' 9)) + 9 = len b'" if lb': "live_buf b'" "9 \<le> len b'"
      proof -
        obtain a c e where "b' = mk_buf a c e" using lb'(1) by (rule live_bufE)
        then show ?thesis using lb'(2) by simp
      qed
      then show ?thesis using read d by fastforce
    qed
  qed
qed

lemma ack_read_loop_total:
  "live_buf b \<Longrightarrow> \<exists>ok ack' b'. ack_read_loop n ack b = Some (ok, ack', b') \<and> live_buf b' \<and> len b' \<le> len b"
proof (induction n arbitrary: ack b)
  case 0
  then show ?case by auto
next
  case (Suc n)
  obtain pre c post where b: "b = mk_buf pre c post" using Suc.prems by (rule live_bufE)
  show ?case
  proof (cases "4 \<le> length c")
    case True
    have "\<exists>ok ack' b'. ack_read_loop n (ack_push ack (of_be32 (take 4 c))) (mk_buf (pre @ take 4 c) (drop 4 c) post) = Some (ok, ack', b') \<and>
        live_buf b' \<and> len b' \<le> len (mk_buf (pre @ take 4 c) (drop 4 c) post)" by (rule Suc.IH) simp
    then obtain ok ack' b' where "ack_read_loop n (ack_push ack (of_be32 (take 4 c))) (mk_buf (pre @ take 4 c) (drop 4 c) post) = Some (ok, ack', b')"
      "live_buf b'" "len b' \<le> int (length c - 4)" by auto
    then show ?thesis using True b by auto
  next
    case False
    then show ?thesis using b by auto
  qed
qed

lemma session_id_read_total: "live_buf b \<Longrightarrow> \<exists>r b'. session_id_read b = Some (r, b') \<and> live_buf b' \<and> len b' \<le> len b \<and>
    (\<forall>sid. r = Some sid \<longrightarrow> wf_sid sid)"
proof -
  assume "live_buf b"
  then obtain pre c post where "b = mk_buf pre c post" by (rule live_bufE)
  then show ?thesis by (auto simp: session_id_read_cases wf_sid_def)
qed

lemma reliable_ack_read_total:
  assumes "live_buf b"
  shows "\<exists>ok ack' b'. reliable_ack_read ack b sid = Some (ok, ack', b') \<and> (ok \<longrightarrow> live_buf b' \<and> len b' < len b)"
proof -
  obtain pre c post where b: "b = mk_buf pre c post" using assms by (rule live_bufE)
  show ?thesis
  proof (cases c)
    case Nil
    then show ?thesis by (auto simp: b reliable_ack_read_def)
  next
    case (Cons x xs)
    obtain ok ack' b1 where l: "ack_read_loop (unat x) ack (mk_buf (pre @ [x]) xs post) = Some (ok, ack', b1)" "live_buf b1"
      "len b1 \<le> int (length xs)"
      using ack_read_loop_total[of "mk_buf (pre @ [x]) xs post" "unat x" ack] by auto
    obtain r b2 where r: "session_id_read b1 = Some (r, b2)" "live_buf b2" "len b2 \<le> len b1" using session_id_read_total[OF l(2)] by blast
    show ?thesis using l r Cons by (auto simp: b reliable_ack_read_def Let_def split: option.splits)
  qed
qed

text \<open>
  The invariant of the sessions between two calls from the event loop: the active and the untrusted
  session are set up, except that --single-session has no untrusted session.
\<close>

definition ks_inv :: "frame \<Rightarrow> 'ssl key_state \<Rightarrow> bool" where
  "ks_inv f ks \<longleftrightarrow> rel_ok (BUF_SIZE f) (ks_send_reliable ks) \<and> rel_offset (ks_send_reliable ks) = frame_headroom f 0 \<and>
     rel_ok (BUF_SIZE f) (ks_rec_reliable ks) \<and> rel_offset (ks_rec_reliable ks) = frame_headroom f 0 \<and> wf_ack (ks_rec_ack ks)"

definition session_inv :: "frame \<Rightarrow> 'ssl tls_session \<Rightarrow> bool" where
  "session_inv f s \<longleftrightarrow> ks_state (ts_primary s) \<ge> S_INITIAL \<and> ks_inv f (ts_primary s) \<and>
     session_id_defined (ts_session_id s) \<and> auth_state (ts_tls_auth s)"

definition control_frame :: "frame \<Rightarrow> bool" where
  "control_frame f \<longleftrightarrow> 0 \<le> extra_frame f \<and> 0 \<le> extra_tun f \<and> 0 \<le> extra_link f \<and> 0 \<le> extra_buffer f \<and> 3 \<le> link_mtu f"

definition options_ok :: "tls_options \<Rightarrow> bool" where
  "options_ok opt \<longleftrightarrow> control_frame (to_frame opt) \<and> (\<exists>p. packet_id_init (to_replay_window opt) (to_replay_time opt) = Some p)"

definition multi_inv :: "'ssl tls_multi \<Rightarrow> bool" where
  "multi_inv m \<longleftrightarrow> options_ok (tm_opt m) \<and> length (tm_session m) = TM_SIZE \<and>
     session_inv (to_frame (tm_opt m)) (tm_session m ! TM_ACTIVE) \<and>
     (if to_single_session (tm_opt m) then \<not> session_id_defined (ks_session_id_remote (ts_primary (tm_session m ! TM_UNTRUSTED)))
      else session_inv (to_frame (tm_opt m)) (tm_session m ! TM_UNTRUSTED))"

lemma auth_state_persist [simp]: "auth_state (co\<lparr>co_pid_persist := x\<rparr>) = auth_state co"
  by (simp add: auth_state_def)

lemma key_state_init_ok:
  assumes "options_ok opt"
  shows "\<exists>s' ks. key_state_init env opt s = Some (s', ks) \<and> ks_inv (to_frame opt) ks \<and> ks_state ks = S_INITIAL \<and>
    ts_session_id s' = ts_session_id s \<and> ts_tls_auth s' = ts_tls_auth s \<and> ts_lame_duck s' = ts_lame_duck s \<and>
    ks_session_id_remote ks = x_session_id_zero \<and> ks_key ks = clear_key_ctx_bi \<and> \<not> ks_authenticated ks"
proof -
  let ?f = "to_frame opt"
  have b: "0 \<le> frame_headroom ?f 0" "frame_headroom ?f 0 \<le> BUF_SIZE ?f"
    using assms frame_headroom_bounds[of ?f 0] by (auto simp: options_ok_def control_frame_def frame_size_defs)
  obtain p where p: "packet_id_init (to_replay_window opt) (to_replay_time opt) = Some p" using assms by (auto simp: options_ok_def)
  obtain r4 r8 where r: "reliable_init (te_junk env) (BUF_SIZE ?f) (frame_headroom ?f 0) 4 = Some r4" "rel_ok (BUF_SIZE ?f) r4" "rel_offset r4 = frame_headroom ?f 0"
    "reliable_init (te_junk env) (BUF_SIZE ?f) (frame_headroom ?f 0) 8 = Some r8" "rel_ok (BUF_SIZE ?f) r8" "rel_offset r8 = frame_headroom ?f 0"
    using reliable_init_ok[OF _ _ b, of 4 "te_junk env"] reliable_init_ok[OF _ _ b, of 8 "te_junk env"] by auto
  have "rel_ok (BUF_SIZE ?f) (reliable_set_timeout r4 x)" "rel_offset (reliable_set_timeout r4 x) = rel_offset r4" for x
    using r(2) by (simp_all add: reliable_set_timeout_def rel_ok_def wf_rel_def rel_entries_def)
  then show ?thesis using r p by (simp add: key_state_init_def Let_def ks_inv_def clear_key_state_def wf_ack_def)
qed

lemma key_state_soft_reset_ok:
  assumes "options_ok opt" "session_inv (to_frame opt) s"
  shows "\<exists>s'. key_state_soft_reset env opt now s = Some s' \<and> session_inv (to_frame opt) s' \<and> ks_state (ts_primary s') = S_INITIAL \<and>
    ks_session_id_remote (ts_primary s') = ks_session_id_remote (ts_primary s) \<and> ks_remote_addr (ts_primary s') = ks_remote_addr (ts_primary s)"
proof -
  let ?s = "s\<lparr>ts_lame_duck := (ts_primary s)\<lparr>ks_must_die := now + to_transition_window opt\<rparr>\<rparr>"
  obtain s' ks where k: "key_state_init env opt ?s = Some (s', ks)" "ks_inv (to_frame opt) ks" "ks_state ks = S_INITIAL"
    "ts_session_id s' = ts_session_id s" "ts_tls_auth s' = ts_tls_auth s"
    using key_state_init_ok[OF assms(1), of env ?s] by auto
  then show ?thesis using assms(2) by (simp add: key_state_soft_reset_def Let_def session_inv_def ks_inv_def)
qed

definition usable_session :: "'ssl tls_multi \<Rightarrow> nat \<Rightarrow> bool" where
  "usable_session m i \<longleftrightarrow> i = TM_ACTIVE \<or> i = TM_UNTRUSTED \<and> \<not> to_single_session (tm_opt m)"

lemma usable_session_inv:
  "multi_inv m \<Longrightarrow> usable_session m i \<Longrightarrow> session_inv (to_frame (tm_opt m)) (tm_session m ! i) \<and> i < length (tm_session m)"
  by (auto simp: multi_inv_def usable_session_def)

lemma multi_inv_put:
  assumes "multi_inv m" "usable_session m i" "session_inv (to_frame (tm_opt m)) s"
    "tm_opt m' = tm_opt m" "tm_session m' = (tm_session m)[i := s]"
  shows "multi_inv m'"
  using assms by (auto simp: multi_inv_def usable_session_def)

lemma multi_inv_fields:
  "multi_inv m \<Longrightarrow> tm_opt m' = tm_opt m \<Longrightarrow> tm_session m' = tm_session m \<Longrightarrow> multi_inv m'"
  unfolding multi_inv_def by metis

lemma multi_inv_soft_error [simp]: "multi_inv (soft_error m) = multi_inv m"
  by (simp add: multi_inv_def soft_error_def)

lemma tm_opt_soft_error [simp]: "tm_opt (soft_error m) = tm_opt m"
  by (simp add: soft_error_def)

lemma session_inv_auth:
  "session_inv f s \<Longrightarrow> auth_state co \<Longrightarrow> session_inv f (s\<lparr>ts_tls_auth := co\<rparr>)"
  by (simp add: session_inv_def)

lemma session_read_auth_ok:
  assumes "multi_inv m" "usable_session m i" "live_buf b" "9 \<le> len b" "now > 1"
  shows "\<exists>ok b' m'. session_read_auth now m i b = Some (ok, b', m') \<and> multi_inv m' \<and> tm_opt m' = tm_opt m \<and>
    ts_primary (tm_session m' ! i) = ts_primary (tm_session m ! i) \<and> (ok \<longrightarrow> live_buf b' \<and> len b' + 9 \<le> len b)"
proof -
  note s = usable_session_inv[OF assms(1,2)]
  then have "auth_state ((ts_tls_auth (tm_session m ! i))\<lparr>co_pid_persist := tm_pid_persist m\<rparr>)" by (simp add: session_inv_def)
  from read_control_auth_total[OF this assms(5,3,4), of "to_frame (tm_opt m)"]
  obtain ok b' co where r: "read_control_auth now (to_frame (tm_opt m)) b ((ts_tls_auth (tm_session m ! i))\<lparr>co_pid_persist := tm_pid_persist m\<rparr>)
      = Some (ok, b', co)" "auth_state co" "ok \<longrightarrow> live_buf b' \<and> len b' + 9 \<le> len b" by blast
  let ?m = "(upd_session i (ts_tls_auth_update (\<lambda>_. co)) m)\<lparr>tm_pid_persist := co_pid_persist co\<rparr>"
  have "multi_inv ?m"
    by (rule multi_inv_put[OF assms(1,2) session_inv_auth[OF conjunct1[OF s] r(2)]]) (simp_all add: upd_session_def)
  moreover have "ts_primary (tm_session ?m ! i) = ts_primary (tm_session m ! i)"
    using s by (simp add: upd_session_def)
  ultimately show ?thesis using r by (simp add: session_read_auth_def)
qed

lemma find_upt_Some: "find P [0..<n] = Some i \<Longrightarrow> i < n \<and> P i"
  by (auto simp: find_Some_iff)

lemma untrusted_addr_ok:
  assumes "multi_inv m" "usable_session m i"
  shows "multi_inv (upd_session i (ts_untrusted_sockaddr_update (\<lambda>_. a)) m)"
    "usable_session (upd_session i (ts_untrusted_sockaddr_update (\<lambda>_. a)) m) j = usable_session m j"
  using multi_inv_put[OF assms, of "ts_untrusted_sockaddr_update (\<lambda>_. a) (tm_session m ! i)"] usable_session_inv[OF assms]
  by (auto simp: upd_session_def session_inv_def usable_session_def)

definition route_ok :: "buffer \<Rightarrow> ((nat \<times> bool \<times> bool) option \<times> buffer \<times> 'ssl tls_multi) option \<Rightarrow> tls_options \<Rightarrow> bool" where
  "route_ok b r opt \<longleftrightarrow> (\<exists>route b' m'. r = Some (route, b', m') \<and> multi_inv m' \<and> tm_opt m' = opt \<and>
     (\<forall>i nl db. route = Some (i, nl, db) \<longrightarrow> usable_session m' i \<and> live_buf b' \<and> len b' + 9 \<le> len b))"

lemma control_route_ok:
  fixes m :: "'ssl tls_multi"
  assumes inv: "multi_inv m" and b: "live_buf b" "9 \<le> len b" and now: "now > 1" and sid: "session_id_defined sid"
  shows "route_ok b (control_route env now m from_addr op sid b) (tm_opt m)"
proof -
  define found where "found = find (\<lambda>i. session_id_equal (ks_session_id_remote (ts_primary (tm_session m ! i))) sid) [0..<3]"
  define initial where "initial = (found = None \<and> is_hard_reset op 0)"
  define in_active where "in_active = (initial \<and> \<not> session_id_defined (ks_session_id_remote (ts_primary (tm_session m ! 0))))"
  define m1 where "m1 = (if in_active then upd_session TM_ACTIVE (ts_untrusted_sockaddr_update (\<lambda>_. from_addr)) m else m)"
  have act: "usable_session m TM_ACTIVE" by (simp add: usable_session_def)
  have m1: "multi_inv m1" "tm_opt m1 = tm_opt m" using inv untrusted_addr_ok[OF inv act] by (auto simp: m1_def)
  have fail: "route_ok b (Some (None, b', m')) (tm_opt m)" if "multi_inv m'" "tm_opt m' = tm_opt m" for b' and m' :: "'ssl tls_multi"
    using that by (simp add: route_ok_def)
  have good: "route_ok b (Some (Some (i, nl, db), b', m')) (tm_opt m)"
    if "multi_inv m'" "tm_opt m' = tm_opt m" "usable_session m' i" "live_buf b'" "len b' + 9 \<le> len b" for i nl db b' and m' :: "'ssl tls_multi"
    using that by (simp add: route_ok_def)
  have found_ok: "usable_session m i" if "found = Some i" "i \<noteq> 2" for i
  proof -
    have i: "i < 3" "session_id_equal (ks_session_id_remote (ts_primary (tm_session m ! i))) sid"
      using find_upt_Some that(1) by (auto simp: found_def)
    then have d: "session_id_defined (ks_session_id_remote (ts_primary (tm_session m ! i)))" using sid by (simp add: session_id_equal_def)
    have "\<not> to_single_session (tm_opt m)" if "i = 1"
      using inv d that by (simp add: multi_inv_def split: if_splits)
    moreover have "i = 0 \<or> i = 1" using i(1) that(2) by linarith
    ultimately show ?thesis by (auto simp: usable_session_def)
  qed
  consider (e) "found = Some 2 \<or> initial \<and> \<not> is_hard_reset op (to_key_method (tm_opt m)) \<or>
      in_active \<and> to_single_session (tm_opt m) \<and> tm_n_sessions m \<noteq> 0 \<or> initial \<and> \<not> in_active \<and> to_single_session (tm_opt m)"
    | (untrusted) "initial" "\<not> in_active" "\<not> to_single_session (tm_opt m)" "found \<noteq> Some 2" "is_hard_reset op (to_key_method (tm_opt m))"
    | (known) "found \<noteq> Some 2" "initial \<longrightarrow> in_active" "initial \<longrightarrow> is_hard_reset op (to_key_method (tm_opt m))"
      "\<not> (in_active \<and> to_single_session (tm_opt m) \<and> tm_n_sessions m \<noteq> 0)" by blast
  then show ?thesis
  proof cases
    case e
    then have "control_route env now m from_addr op sid b = Some (None, b, m)"
      unfolding control_route_def Let_def found_def[symmetric] initial_def[symmetric] in_active_def[symmetric] by auto
    then show ?thesis using fail inv by simp
  next
    case untrusted
    have u: "usable_session m TM_UNTRUSTED" using untrusted by (simp add: usable_session_def)
    obtain ok b' m' where r: "session_read_auth now m TM_UNTRUSTED b = Some (ok, b', m')" "multi_inv m'" "tm_opt m' = tm_opt m"
      "ok \<longrightarrow> live_buf b' \<and> len b' + 9 \<le> len b" using session_read_auth_ok[OF inv u b now] by blast
    have u': "usable_session m' TM_UNTRUSTED" using u r(3) by (simp add: usable_session_def)
    have "control_route env now m from_addr op sid b = (if \<not> ok then Some (None, b', m') else
        Some (Some (TM_UNTRUSTED, True, False), b', upd_session TM_UNTRUSTED (ts_untrusted_sockaddr_update (\<lambda>_. from_addr)) m'))"
      unfolding control_route_def Let_def found_def[symmetric] initial_def[symmetric] in_active_def[symmetric] using untrusted r(1) by simp
    then show ?thesis using fail[OF r(2,3)] good[of "upd_session 1 (ts_untrusted_sockaddr_update (\<lambda>_. from_addr)) m'" 1 b'] r untrusted_addr_ok[OF r(2) u'] u'
      by auto
  next
    case known
    let ?route = "if in_active then Some TM_ACTIVE else found"
    have route: "usable_session m1 i" if "?route = Some i" for i
      using that found_ok known(1) m1(2) act by (auto simp: usable_session_def split: if_splits)
    show ?thesis
    proof (cases ?route)
      case None
      then have "control_route env now m from_addr op sid b = Some (None, b, m1)"
        unfolding control_route_def Let_def found_def[symmetric] initial_def[symmetric] in_active_def[symmetric] m1_def using known by auto
      then show ?thesis using fail m1 by simp
    next
      case (Some i)
      note us = route[OF Some]
      obtain ok b' m' where r: "session_read_auth now m1 i b = Some (ok, b', m')" "multi_inv m'" "tm_opt m' = tm_opt m1"
        "ok \<longrightarrow> live_buf b' \<and> len b' + 9 \<le> len b" using session_read_auth_ok[OF m1(1) us b now] by blast
      have us': "usable_session m' i" using us r(3) by (simp add: usable_session_def)
      have s': "session_inv (to_frame (tm_opt m')) (tm_session m' ! i)" using usable_session_inv[OF r(2) us'] by simp
      have "options_ok (tm_opt m')" using r(2) by (simp add: multi_inv_def)
      from key_state_soft_reset_ok[OF this s', of env now] obtain s2 where
        s2: "key_state_soft_reset env (tm_opt m') now (tm_session m' ! i) = Some s2" "session_inv (to_frame (tm_opt m')) s2" by blast
      have m2: "multi_inv (upd_session i (\<lambda>_. s2) m')" by (rule multi_inv_put[OF r(2) us' s2(2)]) (simp_all add: upd_session_def)
      have us2: "usable_session (upd_session i (\<lambda>_. s2) m') i" using us' by (simp add: usable_session_def)
      have opt: "tm_opt m' = tm_opt m" using r(3) m1(2) by simp
      have R: "control_route env now m from_addr op sid b = (let ks = ts_primary (tm_session m1 ! i) in
            if \<not> in_active \<and> \<not> addr_port_match (ks_remote_addr ks) from_addr then Some (None, b, m1)
            else if op = 3 \<and> DECRYPT_KEY_ENABLED m1 ks then
              (if \<not> ok then Some (None, b', m') else Some (Some (i, in_active, in_active), b', upd_session i (\<lambda>_. s2) m'))
            else (if \<not> ok then Some (None, b', m') else Some (Some (i, in_active, in_active \<or> op = 3), b', m')))"
        unfolding control_route_def Let_def found_def[symmetric] initial_def[symmetric] in_active_def[symmetric] m1_def[symmetric] prod.case
        using known Some r(1) s2(1) by auto
      have good2: "ok \<Longrightarrow> route_ok b (Some (Some (i, x, y), b', upd_session i (\<lambda>_. s2) m')) (tm_opt m)"
        "ok \<Longrightarrow> route_ok b (Some (Some (i, x, y), b', m')) (tm_opt m)" for x y
        using good m2 us2 r(2,4) us' opt by auto
      show ?thesis unfolding R Let_def using fail[OF m1] fail[OF r(2) opt] good2 by auto
    qed
  qed
qed

lemma control_session_ok:
  assumes inv: "multi_inv m" and us: "usable_session m i" and b: "live_buf b" "len b + 9 \<le> MAX_RW_SIZE_LINK (to_frame (tm_opt m))"
  shows "\<exists>ok m'. control_session now m i new_link do_burst from_addr op key_id sid b = Some (ok, m') \<and> multi_inv m' \<and> tm_opt m' = tm_opt m"
proof -
  let ?f = "to_frame (tm_opt m)"
  define s where "s = tm_session m ! i"
  have s: "session_inv ?f s" "i < length (tm_session m)" using usable_session_inv[OF inv us] by (simp_all add: s_def)
  define ks1 where "ks1 = (if new_link then (ts_primary s)\<lparr>ks_session_id_remote := sid, ks_remote_addr := from_addr\<rparr> else ts_primary s)"
  define m1 where "m1 = (if new_link then m\<lparr>tm_n_sessions := tm_n_sessions m + 1\<rparr> else m)"
  define ks2 where "ks2 = (if do_burst \<and> \<not> ts_burst s then ks1\<lparr>ks_send_reliable := reliable_schedule_now now (ks_send_reliable ks1)\<rparr> else ks1)"
  define s2 where "s2 = (if do_burst \<and> \<not> ts_burst s then s\<lparr>ts_burst := True\<rparr> else s)"
  have m1: "tm_opt m1 = tm_opt m" "tm_session m1 = tm_session m" by (simp_all add: m1_def)
  have k1: "ks_inv ?f ks1" "ks_state ks1 \<ge> 1" using s(1) by (auto simp: ks1_def session_inv_def ks_inv_def)
  then have k2: "ks_inv ?f ks2" "ks_state ks2 \<ge> 1"
    using reliable_schedule_now_ok[of "BUF_SIZE ?f" "ks_send_reliable ks1" now] by (auto simp: ks2_def ks_inv_def)
  have put: "multi_inv (upd_session i (\<lambda>_. s2\<lparr>ts_primary := ks\<rparr>) m1)" if "ks_inv ?f ks" "ks_state ks \<ge> 1" for ks
  proof (rule multi_inv_put[OF inv us])
    show "session_inv ?f (s2\<lparr>ts_primary := ks\<rparr>)" using that s(1) by (auto simp: session_inv_def s2_def)
  qed (simp_all add: m1 upd_session_def)
  obtain ok ack b' where ar: "reliable_ack_read empty_ack b (ts_session_id s2) = Some (ok, ack, b')" "ok \<longrightarrow> live_buf b' \<and> len b' < len b"
    using reliable_ack_read_total[OF b(1)] by blast
  define ks3 where "ks3 = ks2\<lparr>ks_send_reliable := reliable_send_purge (ks_send_reliable ks2) ack\<rparr>"
  have k3: "ks_inv ?f ks3" "ks_state ks3 \<ge> 1"
    using k2 reliable_send_purge_ok[of "BUF_SIZE ?f" "ks_send_reliable ks2" ack] by (auto simp: ks3_def ks_inv_def)
  have wf: "control_frame ?f" using inv by (simp add: multi_inv_def options_ok_def)
  have ci: "\<exists>rel ack' b2. control_incoming op (ks_rec_reliable ks3) (ks_rec_ack ks3) b' = Some (rel, ack', b2) \<and>
     rel_ok (BUF_SIZE ?f) rel \<and> rel_offset rel = frame_headroom ?f 0 \<and> wf_ack ack'" if o: "ok"
  proof -
    have "len b' \<le> BUF_SIZE ?f - rel_offset (ks_rec_reliable ks3) + 4"
      using k3(1) ar(2) o b(2) wf frame_headroom_bounds[of ?f 0] by (auto simp: ks_inv_def control_frame_def frame_size_defs)
    from control_incoming_total[OF _ _ _ this, of "ks_rec_ack ks3" op] show ?thesis using k3(1) ar(2) o by (auto simp: ks_inv_def)
  qed
  let ?put = "\<lambda>ks. upd_session i (\<lambda>_. s2\<lparr>ts_primary := ks\<rparr>) m1"
  have pair: "(if do_burst \<and> \<not> ts_burst s then (ks1\<lparr>ks_send_reliable := reliable_schedule_now now (ks_send_reliable ks1)\<rparr>, s\<lparr>ts_burst := True\<rparr>)
      else (ks1, s)) = (ks2, s2)" by (simp add: ks2_def s2_def)
  have D: "control_session now m i new_link do_burst from_addr op key_id sid b =
    (if \<not> new_link \<and> \<not> addr_port_match (ks_remote_addr (ts_primary s)) from_addr then Some (False, m)
     else if ks_key_id ks2 \<noteq> key_id then Some (False, ?put ks2)
     else if \<not> ok then Some (False, ?put ks2)
     else do {
       (rel, ack, b) \<leftarrow> control_incoming op (ks_rec_reliable ks3) (ks_rec_ack ks3) b';
       Some (True, ?put (ks3\<lparr>ks_rec_reliable := rel, ks_rec_ack := ack\<rparr>))
     })"
    unfolding control_session_def Let_def s_def[symmetric] ks1_def[symmetric] m1_def[symmetric] pair prod.case
    using s(1) ar(1) by (auto simp: session_inv_def ks3_def)
  show ?thesis
  proof (cases "ok")
    case True
    then obtain rel ack' b2 where c: "control_incoming op (ks_rec_reliable ks3) (ks_rec_ack ks3) b' = Some (rel, ack', b2)"
      "rel_ok (BUF_SIZE ?f) rel" "rel_offset rel = frame_headroom ?f 0" "wf_ack ack'" using ci by blast
    have "ks_inv ?f (ks3\<lparr>ks_rec_reliable := rel, ks_rec_ack := ack'\<rparr>)" using k3(1) c by (simp add: ks_inv_def)
    then show ?thesis unfolding D using c(1) put[OF k2] put[of "ks3\<lparr>ks_rec_reliable := rel, ks_rec_ack := ack'\<rparr>"] k3(2) inv m1 True by auto
  next
    case False
    then show ?thesis unfolding D using put[OF k2] inv m1 by auto
  qed
qed

lemma tls_pre_decrypt_control_ok:
  assumes inv: "multi_inv m" and b: "live_buf b" "len b \<le> MAX_RW_SIZE_LINK (to_frame (tm_opt m))" and now: "now > 1"
  shows "\<exists>ret m'. tls_pre_decrypt_control env now m from_addr b op key_id = Some (ret, m') \<and> multi_inv m' \<and> tm_opt m' = tm_opt m"
proof -
  have err: "multi_inv (soft_error m)" "tm_opt (soft_error m) = tm_opt m" using inv by simp_all
  have adv: "live_buf (snd (buf_advance b 1))"
  proof -
    obtain pre c post where "b = mk_buf pre c post" using b(1) by (rule live_bufE)
    then show ?thesis by simp
  qed
  obtain r b' where r: "session_id_read (snd (buf_advance b 1)) = Some (r, b')" using session_id_read_total[OF adv] by blast
  have nine: "9 \<le> len b" if "r \<noteq> None"
  proof -
    obtain pre c post where "b = mk_buf pre c post" using b(1) by (rule live_bufE)
    then show ?thesis using r that by (auto simp: session_id_read_cases split: if_splits)
  qed
  show ?thesis
  proof (cases "\<exists>sid. r = Some sid \<and> session_id_defined sid")
    case False
    then show ?thesis using err r by (auto simp: tls_pre_decrypt_control_def Let_def split: option.splits)
  next
    case True
    then obtain sid where sid: "r = Some sid" "session_id_defined sid" by blast
    have "route_ok b (control_route env now m from_addr op sid b) (tm_opt m)" by (rule control_route_ok[OF inv b(1) nine now sid(2)]) (simp add: sid)
    then obtain route b2 m2 where rt: "control_route env now m from_addr op sid b = Some (route, b2, m2)" "multi_inv m2" "tm_opt m2 = tm_opt m"
      "\<forall>i nl db. route = Some (i, nl, db) \<longrightarrow> usable_session m2 i \<and> live_buf b2 \<and> len b2 + 9 \<le> len b" by (auto simp: route_ok_def)
    have err2: "multi_inv (soft_error m2)" "tm_opt (soft_error m2) = tm_opt m" using rt by simp_all
    show ?thesis
    proof (cases route)
      case None
      then show ?thesis using err err2 r sid rt(1) by (auto simp: tls_pre_decrypt_control_def Let_def)
    next
      case (Some x)
      obtain i nl db where x: "route = Some (i, nl, db)" using Some by (cases x) auto
      have "\<exists>ok m'. control_session now m2 i nl db from_addr op key_id sid b2 = Some (ok, m') \<and> multi_inv m' \<and> tm_opt m' = tm_opt m2"
        using rt(2-4) x b(2) by (intro control_session_ok) auto
      then obtain ok m3 where "control_session now m2 i nl db from_addr op key_id sid b2 = Some (ok, m3)" "multi_inv m3" "tm_opt m3 = tm_opt m"
        using rt(3) by auto
      then show ?thesis using err r sid rt(1) x by (auto simp: tls_pre_decrypt_control_def Let_def)
    qed
  qed
qed

lemma upd_key_scan_counters:
  assumes "multi_inv m" "\<And>ks. ks_inv (to_frame (tm_opt m)) (g ks) = ks_inv (to_frame (tm_opt m)) ks" "\<And>ks. ks_state (g ks) = ks_state ks"
  shows "multi_inv (upd_key_scan i g m)"
proof -
  have act: "usable_session m 0" by (simp add: usable_session_def)
  note s = usable_session_inv[OF assms(1) act]
  have 1: "session_inv (to_frame (tm_opt m)) (ts_primary_update g (tm_session m ! 0))"
    "session_inv (to_frame (tm_opt m)) (ts_lame_duck_update g (tm_session m ! 0))"
    using s assms(2,3) by (simp_all add: session_inv_def)
  have "multi_inv (upd_session 0 (ts_primary_update g) m)" "multi_inv (upd_session 0 (ts_lame_duck_update g) m)"
    by (rule multi_inv_put[OF assms(1) act 1(1)] multi_inv_put[OF assms(1) act 1(2)], simp_all add: upd_session_def)+
  moreover have "multi_inv (upd_session 2 (ts_lame_duck_update g) m)"
    using assms(1) by (auto simp: multi_inv_def upd_session_def)
  ultimately show ?thesis by (simp add: upd_key_scan_def)
qed

text \<open>
  C7: no packet from the network ends the process in the TLS layer.  In every state that satisfies the
  invariant of the sessions tls_pre_decrypt returns on every packet that the link can deliver, data or
  control, genuine or forged: no assertion fails, no byte is read or written outside the buffers, and the
  invariant holds again.
\<close>

theorem tls_pre_decrypt_safe:
  assumes "multi_inv m" "live_buf b" "len b \<le> MAX_RW_SIZE_LINK (to_frame (tm_opt m))" "now > 1"
  shows "\<exists>ret i b' opt' m'. tls_pre_decrypt env now m from_addr b opt = Some (ret, i, b', opt', m') \<and> multi_inv m' \<and> live_buf b'"
proof -
  obtain pre c post where b: "b = mk_buf pre c post" using assms(2) by (rule live_bufE)
  have zero: "live_buf (b\<lparr>len := 0\<rparr>)" using assms(2) by (auto simp: live_buf_def wf_buf_def)
  show ?thesis
  proof (cases c)
    case Nil
    then show ?thesis using assms(1) zero by (auto simp: b tls_pre_decrypt_def)
  next
    case (Cons x xs)
    have ld: "buf_load b (offset b) 1 = Some [x]" "len b > 0" by (simp_all add: b Cons buf_load_def mk_buf_def mem_read_def)
    have adv: "buf_advance b 1 = (True, mk_buf (pre @ [x]) xs post)" by (simp add: b Cons)
    obtain ret m2 where ctl: "tls_pre_decrypt_control env now m from_addr b (packet_op x) (packet_key_id x) = Some (ret, m2)" "multi_inv m2"
      using tls_pre_decrypt_control_ok[OF assms] by blast
    have cnt: "multi_inv (upd_key_scan i (\<lambda>ks. ks\<lparr>ks_n_packets := ks_n_packets ks + 1, ks_n_bytes := ks_n_bytes ks + n\<rparr>) m)" for i n
      by (rule upd_key_scan_counters[OF assms(1)]) (simp_all add: ks_inv_def)
    show ?thesis
    proof (cases "packet_op x = 6")
      case True
      then show ?thesis using ld adv cnt assms(1) zero by (auto simp: tls_pre_decrypt_def split: option.split)
    next
      case False
      then show ?thesis using ld ctl zero by (simp add: tls_pre_decrypt_def)
    qed
  qed
qed

section \<open>The sessions after start-up\<close>

definition auth_key_ok :: "key_ctx_bi \<Rightarrow> bool" where
  "auth_key_ok kcb \<longleftrightarrow> (\<forall>h. ctx_hmac (kc_decrypt kcb) = Some h \<longrightarrow> hmac_ok (Some h) \<and> ctx_cipher (kc_decrypt kcb) = None)"

lemma wf_rec_load_obj: "wf_rec (pid_rec p) \<Longrightarrow> wf_rec (pid_rec (packet_id_persist_load_obj r p))"
  by (auto simp: packet_id_persist_load_obj_def wf_rec_def split: option.splits if_splits)

lemma session_id_draw_defined: "session_id_draw rnd s = Some sid \<Longrightarrow> session_id_defined sid"
proof (induction rnd arbitrary: s)
  case Nil
  then show ?case by (auto split: if_splits)
next
  case (Cons r rnd)
  then show ?case by (auto split: if_splits)
qed

lemma tls_session_init_ok:
  fixes env :: "'ssl tls_env"
  assumes "options_ok opt" "to_key_method opt \<ge> 1" "co_key_ctx_bi (to_tls_auth opt) = Some kcb" "auth_key_ok kcb"
    "session_id_draw rnd x_session_id_zero = Some sid"
  shows "\<exists>s. tls_session_init env opt persist rnd = Some s \<and> session_inv (to_frame opt) s \<and>
    \<not> session_id_defined (ks_session_id_remote (ts_primary s))"
proof -
  obtain p where p: "packet_id_init (to_replay_window opt) (to_replay_time opt) = Some p" using assms(1) by (auto simp: options_ok_def)
  define pid where "pid = (case persist of Some r \<Rightarrow> packet_id_persist_load_obj r p | None \<Rightarrow> p)"
  have wf: "wf_rec (pid_rec pid)" using wf_rec_init(1)[OF p] wf_rec_load_obj by (auto simp: pid_def split: option.split)
  note sid = session_id_draw_defined[OF assms(5)]
  define s1 :: "'ssl tls_session" where "s1 = clear_session\<lparr>ts_session_id := sid, ts_initial_opcode := (if to_key_method opt = 1
               then (if to_server opt then 2 else 1) else (if to_server opt then 8 else 7)),
       ts_tls_auth := (to_tls_auth opt)\<lparr>co_packet_id := Some pid\<rparr>\<rparr>"
  obtain s' ks where k: "key_state_init env opt s1 = Some (s', ks)" "ks_inv (to_frame opt) ks" "ks_state ks = 1"
    "ts_session_id s' = ts_session_id s1" "ts_tls_auth s' = ts_tls_auth s1" "ks_session_id_remote ks = x_session_id_zero"
    using key_state_init_ok[OF assms(1), of env s1] by blast
  have zero: "ts_session_id (clear_session :: 'ssl tls_session) = x_session_id_zero" by (simp add: clear_session_def)
  have "tls_session_init env opt persist rnd = Some (s'\<lparr>ts_primary := ks\<rparr>)"
    using k(1) p assms(2,5) by (simp add: tls_session_init_def Let_def pid_def[symmetric] s1_def zero del: session_id_draw.simps)
  moreover have "auth_state (ts_tls_auth s1)" using assms(3,4) wf by (auto simp: s1_def auth_state_def auth_key_ok_def)
  ultimately show ?thesis using k sid by (simp add: session_inv_def session_id_defined_def s1_def)
qed

lemma reset_session_ok:
  assumes "options_ok (tm_opt m)" "to_key_method (tm_opt m) \<ge> 1" "co_key_ctx_bi (to_tls_auth (tm_opt m)) = Some kcb" "auth_key_ok kcb"
    "session_id_draw rnd x_session_id_zero = Some sid" "i < length (tm_session m)"
  shows "\<exists>s. reset_session env m i rnd = Some (upd_session i (\<lambda>_. s) m) \<and> session_inv (to_frame (tm_opt m)) s"
  using tls_session_init_ok[OF assms(1-5), of env "tm_pid_persist m"] by (auto simp: reset_session_def)

text \<open>The invariant holds when the sessions have been set up.\<close>

lemma tls_multi_init_inv:
  fixes env :: "'ssl tls_env"
  assumes "tls_init_control_channel_frame_parameters f (to_frame opt) = Some f'" "options_ok (opt\<lparr>to_frame := f'\<rparr>)"
    "to_key_method opt \<ge> 1" "auth_key_ok (to_tls_auth_key opt)"
    "session_id_draw rnd1 x_session_id_zero = Some sid1" "session_id_draw rnd2 x_session_id_zero = Some sid2"
  shows "\<exists>m. tls_multi_init_finalize env (tls_multi_init opt persist) f rnd1 rnd2 = Some m \<and> multi_inv m \<and>
    to_frame (tm_opt m) = f' \<and> tm_opt m = (tm_opt (tls_multi_init opt persist :: 'ssl tls_multi))\<lparr>to_frame := f'\<rparr>"
proof -
  let ?ini = "tls_multi_init opt persist :: 'ssl tls_multi"
  define m1 where "m1 = ?ini\<lparr>tm_opt := (tm_opt ?ini)\<lparr>to_frame := f'\<rparr>\<rparr>"
  have o: "options_ok (tm_opt m1)" "to_key_method (tm_opt m1) \<ge> 1" "co_key_ctx_bi (to_tls_auth (tm_opt m1)) = Some (to_tls_auth_key opt)"
    "length (tm_session m1) = 3" "tm_session m1 = replicate 3 clear_session" "to_frame (tm_opt m1) = f'"
    using assms(2,3) by (simp_all add: m1_def tls_multi_init_def options_ok_def)
  obtain s1 where s1: "reset_session env m1 0 rnd1 = Some (upd_session 0 (\<lambda>_. s1) m1)" "session_inv f' s1"
    using reset_session_ok[OF o(1-3) assms(4,5), of 0 env] o(4,6) by auto
  let ?sec = "upd_session 0 (\<lambda>_. s1) m1"
  obtain s2 where s2: "reset_session env ?sec 1 rnd2 = Some (upd_session 1 (\<lambda>_. s2) ?sec)" "session_inv f' s2"
    using reset_session_ok[of ?sec _ rnd2 _ 1 env, OF _ _ _ assms(4,6)] o by auto
  have z: "\<not> session_id_defined (ks_session_id_remote (ts_primary (clear_session :: 'ssl tls_session)))"
    by (simp add: clear_session_def clear_key_state_def session_id_defined_def)
  let ?m = "if to_single_session (tm_opt m1) then ?sec else upd_session 1 (\<lambda>_. s2) ?sec"
  have fr: "to_frame (tm_opt ?ini) = to_frame opt" by (simp add: tls_multi_init_def)
  have run: "tls_multi_init_finalize env ?ini f rnd1 rnd2 = Some ?m"
    unfolding tls_multi_init_finalize_def fr assms(1) bind.bind_lunit Let_def m1_def[symmetric] s1(1) using s2(1) by simp
  have inv: "multi_inv ?m" using o s1(2) s2(2) z by (simp add: multi_inv_def upd_session_def)
  have op: "tm_opt ?m = tm_opt m1" by simp
  have op1: "tm_opt m1 = (tm_opt ?ini)\<lparr>to_frame := f'\<rparr>" by (simp add: m1_def)
  show ?thesis using run inv op op1 o(6) by (intro exI[of _ ?m] conjI) (assumption, assumption, simp_all only:)
qed

lemma toy_started:
  obtains m where "tls_multi_init_finalize toy_env (tls_multi_init (toy_opt s) None) udp_frame [replicate 8 1] [replicate 8 2] = Some m"
    "multi_inv m" "link_mtu (to_frame (tm_opt m)) = 1542" "extra_link (to_frame (tm_opt m)) = 4"
proof -
  let ?f = "to_frame (toy_opt s)"
  define g where "g = ?f\<lparr>link_mtu := 1542, extra_link := 4, extra_frame := 38, link_mtu_dynamic := 138\<rparr>"
  have fr: "tls_init_control_channel_frame_parameters udp_frame ?f = Some g"
    by (simp add: tls_init_control_channel_frame_parameters_def tls_adjust_frame_parameters_def reliable_ack_adjust_frame_parameters_def
        frame_add_to_extra_frame_def frame_set_mtu_dynamic_def ACK_SIZE_def SID_SIZE_def udp_frame_def toy_opt_def g_def Let_def
        constrain_int_def frame_size_defs)
  have o: "options_ok ((toy_opt s)\<lparr>to_frame := g\<rparr>)"
    by (auto simp: options_ok_def control_frame_def g_def toy_opt_def packet_id_init_def)
  have k: "to_key_method (toy_opt s) \<ge> 1" "auth_key_ok (to_tls_auth_key (toy_opt s))"
    by (simp_all add: toy_opt_def auth_key_ok_def clear_key_ctx_bi_def)
  have d: "\<exists>sid. session_id_draw [replicate 8 c] x_session_id_zero = Some sid" if "c \<noteq> 0" for c
    using that by (simp add: session_id_defined_def x_session_id_zero_def numeral_eq_Suc)
  obtain s1 s2 where "session_id_draw [replicate 8 1] x_session_id_zero = Some s1" "session_id_draw [replicate 8 2] x_session_id_zero = Some s2"
    using d[of 1] d[of 2] by auto
  from tls_multi_init_inv[OF fr o k this, of toy_env None] show ?thesis using that by (auto simp: g_def)
qed

theorem tls_pre_decrypt_safe_witness:
  "\<exists>m. tls_multi_init_finalize toy_env (tls_multi_init (toy_opt True) None) udp_frame [replicate 8 1] [replicate 8 2] = Some m \<and>
    (\<exists>ret i b' opt' m'. tls_pre_decrypt toy_env 2 m clear_addr (mk_buf [] [56, 9, 9, 9, 9, 9, 9, 9, 9, 0, 0, 0, 0, 0] []) clear_crypto_options
       = Some (ret, i, b', opt', m') \<and> multi_inv m' \<and> live_buf b')"
proof -
  obtain m where m: "tls_multi_init_finalize toy_env (tls_multi_init (toy_opt True) None) udp_frame [replicate 8 1] [replicate 8 2] = Some m"
    "multi_inv m" "link_mtu (to_frame (tm_opt m)) = 1542" "extra_link (to_frame (tm_opt m)) = 4" by (rule toy_started)
  show ?thesis
    using tls_pre_decrypt_safe[OF m(2), of "mk_buf [] [56, 9, 9, 9, 9, 9, 9, 9, 9, 0, 0, 0, 0, 0] []" 2 toy_env clear_addr clear_crypto_options] m
    by (auto simp: MAX_RW_SIZE_LINK_def EXPANDED_SIZE_def)
qed

end
