(* ===== verification/Tls_Data.thy ===== *)
theory Tls_Data
  imports Tls_Packet_Safety
begin

text \<open>
  Data packets between two peers that use TLS: the key identifier on the packet lets the receiver find the matching
  key state, so that payloads survive while keys are renegotiated; and what happens to a packet that arrives while
  the key state has no keys yet.
\<close>

section \<open>Data packets between two peers\<close>

text \<open>How much of the headroom openvpn_encrypt uses.\<close>

lemma buf_store_offset: "buf_store b p bs = Some b' \<Longrightarrow> offset b' = offset b"
  by (auto simp: buf_store_def bind_eq_Some_conv split: option.splits if_splits)

lemma buf_prepend_offset: "buf_prepend b n = (Some p, b') \<Longrightarrow> offset b' = offset b - n"
  by (auto simp: buf_prepend_def Let_def split: if_splits)

lemma encrypt_hmac_offset:
  assumes "encrypt_hmac (ctx_hmac ctx) w = Some w'"
  shows "offset w' = offset w - hmac_room ctx"
proof (cases "ctx_hmac ctx")
  case None
  then show ?thesis using assms by (simp add: encrypt_hmac_def hmac_room_def)
next
  case (Some h)
  obtain p w1 where w1: "buf_prepend w (HMAC_size h) = (p, w1)" by (cases "buf_prepend w (HMAC_size h)")
  then show ?thesis
    using assms Some
    by (auto simp: encrypt_hmac_def hmac_room_def bind_eq_Some_conv split: if_splits dest!: buf_store_offset buf_prepend_offset)
qed

lemma prepend_store_offset:
  assumes "(let (p, w) = buf_prepend b n in p \<bind> (\<lambda>p. buf_store w p bs)) = Some w'"
  shows "offset w' = offset b - n"
proof -
  obtain p w1 where w1: "buf_prepend b n = (p, w1)" by (cases "buf_prepend b n")
  then show ?thesis using assms by (auto simp: bind_eq_Some_conv dest!: buf_store_offset buf_prepend_offset)
qed

lemma encrypt_cipher_offset:
  assumes "encrypt_cipher iv_buf c opt f b work = Some (Some w)" "0 \<le> EVP_CIPHER_CTX_iv_length c"
  shows "frame_headroom f 0 - EVP_CIPHER_CTX_iv_length c \<le> offset w"
proof -
  obtain ok w1 where w1: "buf_init work (frame_headroom f 0) = (ok, w1)" by (cases "buf_init work (frame_headroom f 0)")
  have ok: "ok" using assms(1) w1 by (cases ok) (simp_all add: encrypt_cipher_def Let_def)
  then have o1: "offset w1 = frame_headroom f 0" using w1 by (auto simp: buf_init_def split: if_splits)
  obtain out fin w2 w3 iv where w23: "buf_store w1 (offset w1) out = Some w2"
    "buf_store (w2\<lparr>len := len w2 + int (length out)\<rparr>) (offset w2 + int (length out)) fin = Some w3"
    "(if co_flag opt CO_USE_IV then let (p, w) = buf_prepend (w3\<lparr>len := len w3 + int (length fin)\<rparr>) (EVP_CIPHER_CTX_iv_length c)
       in p \<bind> (\<lambda>p. buf_store w p iv) else Some (w3\<lparr>len := len w3 + int (length fin)\<rparr>)) = Some w"
    using assms(1) w1 ok unfolding encrypt_cipher_def
    by (simp only: Let_def prod.case bind_eq_Some_conv ASSERT_simps) (auto simp: Let_def bind_eq_Some_conv split: if_splits)
  have "offset w3 = offset w1" using buf_store_offset[OF w23(1)] buf_store_offset[OF w23(2)] by simp
  then have "offset w = offset w1 \<or> offset w = offset w1 - EVP_CIPHER_CTX_iv_length c"
    using w23(3) prepend_store_offset[of "w3\<lparr>len := len w3 + int (length fin)\<rparr>"] by (auto split: if_splits)
  then show ?thesis using o1 assms(2) by linarith
qed

definition encrypt_headroom :: "frame \<Rightarrow> crypto_options \<Rightarrow> key_ctx \<Rightarrow> byte list \<Rightarrow> int" where
  "encrypt_headroom f opt ke pre = (case ctx_cipher ke of
     None \<Rightarrow> int (length pre) - pid_room opt - hmac_room ke
   | Some c \<Rightarrow> frame_headroom f 0 - EVP_CIPHER_CTX_iv_length c - hmac_room ke)"

lemma openvpn_encrypt_headroom:
  assumes kcb: "map_option kc_encrypt (co_key_ctx_bi opt) = Some ke" and pin: "next_pin now opt = Some (pin, opt')"
    and room: "encrypt_room f opt ke rand pre d work" "hmac_ok (ctx_hmac ke)" "\<forall>c. ctx_cipher ke = Some c \<longrightarrow> 0 \<le> EVP_CIPHER_CTX_iv_length c"
    and enc: "openvpn_encrypt now rand (mk_buf pre d post) work opt f = Some (b, opt')" and d: "d \<noteq> []" and b: "len b \<noteq> 0"
  shows "encrypt_headroom f opt ke pre \<le> offset b"
proof -
  obtain kb where kb: "co_key_ctx_bi opt = Some kb" "kc_encrypt kb = ke" using kcb by auto
  have h0: "0 \<le> hmac_room ke" using room(2) by (auto simp: hmac_room_def hmac_ok_def split: option.split)
  show ?thesis
  proof (cases "ctx_cipher ke")
    case None
    have "pid_room opt \<le> int (length pre)" using room(1) None h0 by (simp add: encrypt_room_def)
    from crypto_prepend_open[OF pin this, of d post] obtain pre1 c where
      c: "crypto_prepend_packet_id now opt (mk_buf pre d post) = Some (mk_buf pre1 c post, opt')" "int (length pre1) = int (length pre) - pid_room opt"
      by blast
    have "encrypt_hmac (ctx_hmac ke) (mk_buf pre1 c post) = Some b"
      using enc d by (auto simp: openvpn_encrypt_def kb None c(1) bind_eq_Some_conv)
    from encrypt_hmac_offset[OF this] show ?thesis using c(2) None by (simp add: encrypt_headroom_def)
  next
    case (Some ce)
    have "\<exists>iv b1 op2 w. encrypt_cipher iv ce op2 f b1 work = Some (Some w) \<and> encrypt_hmac (ctx_hmac ke) w = Some b"
      using enc d b by (fastforce simp: openvpn_encrypt_def kb Some bind_eq_Some_conv split: option.splits)
    then obtain iv b1 op2 w where w: "encrypt_cipher iv ce op2 f b1 work = Some (Some w)" "encrypt_hmac (ctx_hmac ke) w = Some b" by blast
    have "frame_headroom f 0 - EVP_CIPHER_CTX_iv_length ce \<le> offset w" using encrypt_cipher_offset[OF w(1)] room(3) Some by simp
    then show ?thesis using encrypt_hmac_offset[OF w(2)] Some by (simp add: encrypt_headroom_def)
  qed
qed

lemma data_header:
  assumes "0 \<le> k" "k \<le> 7"
  shows "packet_op (push_bit 3 (word_of_int 6) OR word_of_int k) = 6" "packet_key_id (push_bit 3 (word_of_int 6) OR word_of_int k) = k"
proof -
  have "k \<in> {0, 1, 2, 3, 4, 5, 6, 7}" using assms by auto
  then show "packet_op (push_bit 3 (word_of_int 6) OR word_of_int k) = 6" "packet_key_id (push_bit 3 (word_of_int 6) OR word_of_int k) = k"
    by (auto simp: packet_op_def packet_key_id_def)
qed

lemma key_scan_simps [simp]:
  "key_scan (m\<lparr>tm_save_ks := x\<rparr>) = key_scan m"
  "DECRYPT_KEY_ENABLED (m\<lparr>tm_save_ks := x\<rparr>) ks = DECRYPT_KEY_ENABLED m ks"
  by (simp_all add: key_scan_def DECRYPT_KEY_ENABLED_def)

lemma upd_key_scan_save [simp]: "tm_save_ks (upd_key_scan a g m) = tm_save_ks m"
  by (simp add: upd_key_scan_def upd_session_def)

lemma upd_key_scan_key_id:
  assumes "i < 3" "length (tm_session m) = 3" "\<And>ks. ks_key_id (g ks) = ks_key_id ks"
  shows "ks_key_id (key_scan (upd_key_scan i g m) ! j) = ks_key_id (key_scan m ! j)"
proof -
  have "i = 0 \<or> i = 1 \<or> i = 2" using assms(1) by auto
  moreover have "key_scan m = [ts_primary (tm_session m ! 0), ts_lame_duck (tm_session m ! 0), ts_lame_duck (tm_session m ! 2)]" for m :: "'a tls_multi"
    by (simp add: key_scan_def)
  ultimately show ?thesis using assms(2,3)
    by (auto simp: key_scan_def upd_key_scan_def upd_session_def nth_Cons split: nat.split)
qed

lemma tls_pre_decrypt_data:
  assumes "b = mk_buf pre (c # d) post" "packet_op c = 6"
    "find (\<lambda>i. data_key_usable m from_addr (packet_key_id c) (key_scan m ! i)) [0..<3] = Some j"
  shows "tls_pre_decrypt env now m from_addr b opt = Some (False, Some j, mk_buf (pre @ [c]) d post, set_opt_key m (key_scan m ! j) opt,
    upd_key_scan j (\<lambda>ks. ks\<lparr>ks_n_packets := ks_n_packets ks + 1, ks_n_bytes := ks_n_bytes ks + int (length d)\<rparr>) m)"
proof -
  have ld: "buf_load b (offset b) 1 = Some [c]" "len b > 0" by (simp_all add: assms(1) buf_load_def mk_buf_def mem_read_def)
  have adv: "buf_advance b 1 = (True, mk_buf (pre @ [c]) d post)" by (simp add: assms(1))
  show ?thesis using assms(2,3) ld adv by (simp add: tls_pre_decrypt_def)
qed

text \<open>Who encrypts with which key state, and who decrypts with which.\<close>

definition sends_with :: "'ssl tls_multi \<Rightarrow> nat \<Rightarrow> bool" where
  "sends_with m i \<longleftrightarrow> find (\<lambda>i. ks_state (key_scan m ! i) \<ge> S_ACTIVE \<and> ks_authenticated (key_scan m ! i)) [0..<3] = Some i"

definition receives_with :: "'ssl tls_multi \<Rightarrow> sockaddr_in \<Rightarrow> int \<Rightarrow> nat \<Rightarrow> bool" where
  "receives_with m from_addr key_id j \<longleftrightarrow> find (\<lambda>i. data_key_usable m from_addr key_id (key_scan m ! i)) [0..<3] = Some j"

lemma tls_post_encrypt_data:
  assumes "tm_save_ks m = Some i" "b = mk_buf pre k post" "k \<noteq> []" "pre \<noteq> []"
  shows "\<exists>pre' m'. tls_post_encrypt m b = Some (mk_buf pre' ((push_bit 3 (word_of_int 6) OR word_of_int (ks_key_id (key_scan m ! i))) # k) post, m')"
proof -
  let ?h = "push_bit 3 (word_of_int 6) OR word_of_int (ks_key_id (key_scan m ! i)) :: byte"
  have "1 \<le> length pre" using assms(4) by (cases pre) auto
  then have "buf_prepend b 1 = (Some (int (length pre) - 1), mk_buf (take (length pre - 1) pre) (drop (length pre - 1) pre @ k) post)"
    "buf_store (mk_buf (take (length pre - 1) pre) (drop (length pre - 1) pre @ k) post) (int (length pre) - 1) [?h] =
      Some (mk_buf (take (length pre - 1) pre) (?h # k) post)"
    using buf_store_prepended[of "[?h]" 1 pre k post] by (simp_all add: assms(2))
  then show ?thesis using assms by (auto simp: tls_post_encrypt_def)
qed

text \<open>
  C11: a packet of the tunnel reaches the peer.  The sender encrypts with its first active and authenticated key
  state, current or lame duck, and marks the packet with its identifier; the receiver finds the key state with this
  identifier; when the two hold matching keys and the replay state is in step, what the
  receiver decrypts is the payload, also while a new key is being negotiated.
\<close>

theorem tls_data_roundtrip:
  assumes snd: "sends_with ms i" "ks = key_scan ms ! i" "0 \<le> ks_key_id ks" "ks_key_id ks \<le> 7" "length (tm_session ms) = 3"
    and rcv: "receives_with mr from_addr (ks_key_id ks) j" "kr = key_scan mr ! j"
    and sync: "crypto_sync ke kd (set_opt_key ms ks so) (set_opt_key mr kr ro)" "ids_left (set_opt_key ms ks so) (Suc n)"
    and ev: "0 < now" "now < 2 ^ 32" "1 < now'" "d \<noteq> []" "encrypt_room f (set_opt_key ms ks so) ke rand pre d work"
      "1 \<le> encrypt_headroom f (set_opt_key ms ks so) ke pre" "work_ok f work'"
      "frame_headroom f 1 + int (length d) + pid_room (set_opt_key ms ks so) + hmac_room ke +
        (case ctx_cipher ke of None \<Rightarrow> 0 | Some c \<Rightarrow> EVP_CIPHER_CTX_iv_length c + EVP_CIPHER_CTX_block_size c) \<le> capacity work'"
  shows "\<exists>b so' ms' w ro' mr'. data_encrypt now rand ms (mk_buf pre d post) work so f = Some (b, so', ms') \<and>
    data_decrypt CAS_SUCCEEDED env now' mr from_addr b work' ro f = Some (False, True, w, ro', mr') \<and> content w = d"
proof -
  let ?so = "set_opt_key ms ks so" and ?ro = "set_opt_key mr kr ro"
  have ke: "map_option kc_encrypt (co_key_ctx_bi ?so) = Some ke" "keys_match ke kd" and dok: "decrypt_ok kd ?ro"
    and hm: "hmac_ok (ctx_hmac ke)" and fl: "co_flags ?so = co_flags ?ro" and pres: "co_packet_id ?so \<noteq> None \<longleftrightarrow> co_packet_id ?ro \<noteq> None"
    using sync(1) by (auto simp: crypto_sync_def decrypt_ok_def keys_match_def option_rel_Some1 option_rel_Some2)
  obtain pin so' ro' where p: "next_pin now ?so = Some (pin, so')" "decrypt_replay now' (seen_pin kd ?so pin) ?ro = Some (True, ro')"
    using receiver_accepts[OF sync(1) ev(1-3) sync(2)] by blast
  obtain pre1 k post1 where e: "openvpn_encrypt now rand (mk_buf pre d post) work ?so f = Some (mk_buf pre1 k post1, so')"
    "packet_open kd (co_packet_id ?so \<noteq> None) (co_flags ?so) k = Some (seen_pin kd ?so pin, d)" "k \<noteq> []"
    "int (length k) \<le> int (length d) + pid_room ?so + hmac_room ke +
      (case ctx_cipher ke of None \<Rightarrow> 0 | Some c \<Rightarrow> EVP_CIPHER_CTX_iv_length c + EVP_CIPHER_CTX_block_size c)"
    using openvpn_encrypt_open[OF ke hm p(1) ev(4,5), of post] by blast
  have iv: "\<forall>c. ctx_cipher ke = Some c \<longrightarrow> 0 \<le> EVP_CIPHER_CTX_iv_length c"
    using ke(2) by (auto simp: keys_match_def option_rel_Some1 cbc_pair_def)
  have "encrypt_headroom f ?so ke pre \<le> offset (mk_buf pre1 k post1)"
    using e(3) by (intro openvpn_encrypt_headroom[OF ke(1) p(1) ev(5) hm iv e(1) ev(4)]) simp
  then have pre1: "pre1 \<noteq> []" using ev(6) by auto
  let ?h = "push_bit 3 (word_of_int 6) OR word_of_int (ks_key_id ks) :: byte"
  have i3: "i < 3" using snd(1) by (auto simp: sends_with_def dest: find_upt_Some)
  define m2 where "m2 = save_packet_id (Some i) so' (ms\<lparr>tm_save_ks := Some i\<rparr>)"
  have m2: "tm_save_ks m2 = Some i" "ks_key_id (key_scan m2 ! i) = ks_key_id ks"
    using upd_key_scan_key_id[OF i3, of "ms\<lparr>tm_save_ks := Some i\<rparr>" "\<lambda>ks. ks\<lparr>ks_packet_id := x\<rparr>" i for x] snd(2,5)
    by (auto simp: m2_def save_packet_id_def split: option.split)
  obtain pre2 m3 where post: "tls_post_encrypt m2 (mk_buf pre1 k post1) = Some (mk_buf pre2 (?h # k) post1, m3)"
    using tls_post_encrypt_data[OF m2(1) refl e(3) pre1, of post1] unfolding m2(2) by blast
  have pe: "tls_pre_encrypt ms (mk_buf pre d post) so = (mk_buf pre d post, ?so, ms\<lparr>tm_save_ks := Some i\<rparr>)"
    using snd(1,2) ev(4) by (simp add: tls_pre_encrypt_def sends_with_def set_opt_key_def)
  have enc: "data_encrypt now rand ms (mk_buf pre d post) work so f = Some (mk_buf pre2 (?h # k) post1, so', m3)"
    using e(1) post by (simp add: data_encrypt_def pe m2_def)
  note hd = data_header[OF snd(3,4)]
  have op: "opt_open kd ?ro k = Some (seen_pin kd ?so pin, d)" using e(2) fl pres by simp
  have "frame_headroom f 1 + int (length k) \<le> capacity work'" using e(4) ev(8) by linarith
  from openvpn_decrypt_accepts[OF dok ev(7) e(3) this op p(2)]
  obtain w where w: "openvpn_decrypt now' (mk_buf (pre2 @ [?h]) k post1) work' ?ro f = Some (True, w, ro')" "content w = d" by blast
  have "\<exists>mr'. data_decrypt CAS_SUCCEEDED env now' mr from_addr (mk_buf pre2 (?h # k) post1) work' ro f = Some (False, True, w, ro', mr')"
    using tls_pre_decrypt_data[OF refl hd(1), of mr from_addr j env now' pre2 k post1 ro] rcv w(1) unfolding hd(2)
    by (simp add: data_decrypt_def receives_with_def)
  then show ?thesis using enc w(2) by blast
qed

text \<open>A pair of peers with an active key, for the witness.\<close>

definition toy_keyed :: "bool \<Rightarrow> unit tls_multi" where
  "toy_keyed server = (toy_multi server)\<lparr>tm_session := (tm_session (toy_multi server))[0 := clear_session\<lparr>
     ts_primary := clear_key_state\<lparr>ks_state := 7, ks_authenticated := True, ks_key := demo_keys, ks_key_id := 3,
       ks_packet_id := the (packet_id_init 64 15)\<rparr>\<rparr>]\<rparr>"

lemma toy_keyed_sync:
  "crypto_sync (kc_encrypt demo_keys) (kc_decrypt demo_keys) (set_opt_key (toy_keyed False) (key_scan (toy_keyed False) ! 0) demo_crypto)
     (set_opt_key (toy_keyed True) (key_scan (toy_keyed True) ! 0) demo_crypto)"
  "ids_left (set_opt_key (toy_keyed False) (key_scan (toy_keyed False) ! 0) demo_crypto) (Suc 0)"
  "pid_room (set_opt_key (toy_keyed False) (key_scan (toy_keyed False) ! 0) demo_crypto) = 4"
  "hmac_room (kc_encrypt demo_keys) = 1" "ctx_cipher (kc_encrypt demo_keys) = Some pad_encrypt"
proof -
  obtain p where p: "packet_id_init 64 15 = Some p" "rec_inv (pid_rec p)" "send_id (pid_send p) = 0"
    "send_time (pid_send p) = 0" "rec_id (pid_rec p) = 0" "rec_time (pid_rec p) = 0" using demo_pid by blast
  have o: "set_opt_key (toy_keyed s) (key_scan (toy_keyed s) ! 0) demo_crypto =
      \<lparr>co_key_ctx_bi = Some demo_keys, co_packet_id = Some p, co_pid_persist = None, co_flags = 0\<rparr>" for s
    by (simp add: set_opt_key_def key_scan_def toy_keyed_def toy_multi_def tls_multi_init_def toy_opt_def demo_crypto_def p(1))
  have d: "decrypt_ok (kc_decrypt demo_keys) \<lparr>co_key_ctx_bi = Some demo_keys, co_packet_id = Some p, co_pid_persist = None, co_flags = 0\<rparr>"
    using demo_decrypt_ok by (auto simp: decrypt_ok_def demo_crypto_def demo_keys_def pad_decrypt_def pad_encrypt_def)
  show "crypto_sync (kc_encrypt demo_keys) (kc_decrypt demo_keys) (set_opt_key (toy_keyed False) (key_scan (toy_keyed False) ! 0) demo_crypto)
     (set_opt_key (toy_keyed True) (key_scan (toy_keyed True) ! 0) demo_crypto)"
    unfolding o using d pad_pair p by (simp add: crypto_sync_def keys_match_def pid_sync_def demo_keys_def co_flag_def)
  show "ids_left (set_opt_key (toy_keyed False) (key_scan (toy_keyed False) ! 0) demo_crypto) (Suc 0)"
    "pid_room (set_opt_key (toy_keyed False) (key_scan (toy_keyed False) ! 0) demo_crypto) = 4"
    "hmac_room (kc_encrypt demo_keys) = 1" "ctx_cipher (kc_encrypt demo_keys) = Some pad_encrypt"
    unfolding o using p by (simp_all add: ids_left_def pid_room_def co_flag_def packet_id_size_def hmac_room_def demo_keys_def sum_hmac_def)
qed

theorem tls_data_roundtrip_witness:
  "\<exists>b so' ms' w ro' mr'. data_encrypt 50 [1, 2, 3, 4] (toy_keyed False) (mk_buf (replicate 12 0) [10, 20] []) (mk_buf [] [] (replicate 100 0)) demo_crypto demo_frame
      = Some (b, so', ms') \<and>
    data_decrypt CAS_SUCCEEDED toy_env 51 (toy_keyed True) clear_addr b (mk_buf [] [] (replicate 100 0)) demo_crypto demo_frame = Some (False, True, w, ro', mr') \<and> content w = [10, 20]"
proof -
  have up: "[0..<3] = [0, 1, 2 :: nat]" by (simp add: upt_rec)
  have s: "sends_with (toy_keyed False) 0" "ks_key_id (key_scan (toy_keyed False) ! 0) = 3" "length (tm_session (toy_keyed False)) = 3"
    by (simp_all add: sends_with_def up key_scan_def toy_keyed_def toy_multi_def tls_multi_init_def)
  have r: "receives_with (toy_keyed True) clear_addr 3 0"
    by (simp add: receives_with_def up data_key_usable_def DECRYPT_KEY_ENABLED_def key_scan_def toy_keyed_def toy_multi_def tls_multi_init_def
        clear_key_state_def addr_port_match_def)
  note t = toy_keyed_sync
  have sz: "EVP_CIPHER_CTX_iv_length pad_encrypt = 4" "EVP_CIPHER_CTX_block_size pad_encrypt = 4" by (simp_all add: pad_encrypt_def)
  show ?thesis
    by (rule tls_data_roundtrip[OF s(1) refl _ _ s(3) _ refl t(1,2)])
       (simp_all add: s(2) r encrypt_room_def t(3-5) sz demo_headroom encrypt_headroom_def work_ok_def)
qed

text \<open>
  C33: a key state without keys lets everything through.  When tls_pre_decrypt finds a usable key state whose
  cipher and HMAC contexts are not set up yet, openvpn_decrypt takes the packet as it is: any packet that
  carries a fresh packet identifier in the clear is accepted, and its rest is the decrypted payload.
\<close>

theorem unkeyed_state_accepts_plaintext:
  assumes key: "receives_with m from_addr (packet_key_id c) j" "ks_key (key_scan m ! j) = clear_key_ctx_bi" "packet_op c = 6"
    and opt: "opt = set_opt_key m (key_scan m ! j) opt0" "\<not> co_flag opt CO_IGNORE_PACKET_ID"
    and k: "k \<noteq> []" "open_pid (co_packet_id opt \<noteq> None) (co_flag opt CO_PACKET_ID_LONG_FORM) k = Some (pin, d)"
      "decrypt_replay now pin opt = Some (True, opt')"
  shows "\<exists>w m'. data_decrypt CAS_SUCCEEDED env now m from_addr (mk_buf pre (c # k) post) work opt0 f = Some (False, True, w, opt', m') \<and> content w = d"
proof -
  have kc: "co_key_ctx_bi opt = Some clear_key_ctx_bi" using key(2) by (simp add: opt(1) set_opt_key_def)
  have c: "ctx_hmac (kc_decrypt clear_key_ctx_bi) = None" "ctx_cipher (kc_decrypt clear_key_ctx_bi) = None"
    by (simp_all add: clear_key_ctx_bi_def)
  obtain r b where r: "decrypt_no_cipher opt (mk_buf (pre @ [c]) k post) = Some (r, b)"
    "rel_option (\<lambda>(pin', w) (pin, d). pin' = (if co_flag opt CO_IGNORE_PACKET_ID then None else pin) \<and> live_buf w \<and> content w = d) r (Some (pin, d))"
    using decrypt_no_cipher_open[OF refl refl, of opt "pre @ [c]" k post] k(2) by auto
  then obtain w where w: "r = Some (pin, w)" "content w = d" using opt(2) by (auto simp: option_rel_Some2)
  have "openvpn_decrypt now (mk_buf (pre @ [c]) k post) work opt f = Some (True, w, opt')"
    using kc c r(1) w(1) k(1,3) by (simp add: openvpn_decrypt_def decrypt_hmac_def)
  then show ?thesis
    using tls_pre_decrypt_data[OF refl key(3), of m from_addr j env now pre k post opt0] key(1) w(2)
    by (simp add: data_decrypt_def receives_with_def opt(1))
qed

text \<open>A server between key_method_2_read and key_method_2_write.\<close>

definition toy_unkeyed :: "unit tls_multi" where
  "toy_unkeyed = (toy_multi True)\<lparr>tm_session := (tm_session (toy_multi True))[0 := clear_session\<lparr>
     ts_primary := clear_key_state\<lparr>ks_state := 5, ks_authenticated := True, ks_key := clear_key_ctx_bi, ks_key_id := 3,
       ks_packet_id := the (packet_id_init 64 15)\<rparr>\<rparr>]\<rparr>"

lemma toy_unkeyed_opt:
  "set_opt_key toy_unkeyed (key_scan toy_unkeyed ! 0) demo_crypto =
    \<lparr>co_key_ctx_bi = Some clear_key_ctx_bi, co_packet_id = Some (the (packet_id_init 64 15)), co_pid_persist = None, co_flags = 0\<rparr>"
  by (simp add: set_opt_key_def key_scan_def toy_unkeyed_def toy_multi_def tls_multi_init_def toy_opt_def demo_crypto_def)

lemma toy_unkeyed_fresh:
  "\<exists>r. packet_id_receive 51 (pid_rec (the (packet_id_init 64 15))) \<lparr>pin_id = 1, pin_time = 0\<rparr> = Some (True, r)"
proof -
  have "map_option fst (packet_id_receive 51 (pid_rec (the (packet_id_init 64 15))) \<lparr>pin_id = 1, pin_time = 0\<rparr>) = Some True"
    by code_simp
  then show ?thesis by auto
qed

theorem unkeyed_state_accepts_plaintext_witness:
  "\<exists>w opt' m'. data_decrypt CAS_SUCCEEDED toy_env 51 toy_unkeyed clear_addr (mk_buf [] [51, 0, 0, 0, 1, 69, 0] []) (mk_buf [] [] []) demo_crypto demo_frame
     = Some (False, True, w, opt', m') \<and> content w = [69, 0]"
proof -
  have up: "[0..<3] = [0, 1, 2 :: nat]" by (simp add: upt_rec)
  have h: "packet_op 51 = 6" "packet_key_id 51 = 3" by code_simp+
  have r: "receives_with toy_unkeyed clear_addr (packet_key_id 51) 0"
    by (simp add: h receives_with_def up data_key_usable_def DECRYPT_KEY_ENABLED_def key_scan_def toy_unkeyed_def toy_multi_def
        tls_multi_init_def toy_opt_def clear_key_state_def addr_port_match_def)
  have k: "ks_key (key_scan toy_unkeyed ! 0) = clear_key_ctx_bi" by (simp add: key_scan_def toy_unkeyed_def toy_multi_def tls_multi_init_def)
  obtain opt' where o: "decrypt_replay 51 (Some \<lparr>pin_id = 1, pin_time = 0\<rparr>) (set_opt_key toy_unkeyed (key_scan toy_unkeyed ! 0) demo_crypto) = Some (True, opt')"
    using toy_unkeyed_fresh by (auto simp: decrypt_replay_def toy_unkeyed_opt Let_def co_flag_def)
  have p: "open_pid True False [0, 0, 0, 1, 69, 0] = Some (Some \<lparr>pin_id = 1, pin_time = 0\<rparr>, [69, 0])" by code_simp
  show ?thesis
    using unkeyed_state_accepts_plaintext[OF r k h(1) refl _ _ _ o, of "[0, 0, 0, 1, 69, 0]" "[69, 0]" toy_env "[]" "[]" "mk_buf [] [] []" demo_frame] p
    by (auto simp: toy_unkeyed_opt co_flag_def)
qed

end
