(* ===== verification/Tls_Handshake.thy ===== *)
theory Tls_Handshake
  imports Tls_Process Tls_Data
begin

text \<open>
  The loop of tls_process ends: each part of a round either changes nothing or leaves less to do.
\<close>

section \<open>The loop ends\<close>

text \<open>
  The place of a state in the handshake: a server gets the key of the client before it sends its own.
\<close>

definition state_rank :: "bool \<Rightarrow> int \<Rightarrow> nat" where
  "state_rank server s = (if s = S_SENT_KEY then (if server then 5 else 4) else if s = S_GOT_KEY then (if server then 4 else 5)
     else if s \<ge> S_NORMAL then 7 else nat s)"

text \<open>What is still to do for a key state: every change that keeps the loop going makes it less.\<close>

definition ks_work :: "bool \<Rightarrow> 'ssl key_state \<Rightarrow> nat" where
  "ks_work server ks = 3 * (7 - state_rank server (ks_state ks)) +
     length (filter active (rel_entries (ks_rec_reliable ks))) +
     length (filter (\<lambda>e. \<not> active e) (rel_entries (ks_send_reliable ks))) +
     (if len (ks_plaintext_read_buf ks) = 0 then 1 else 0) + (if len (ks_plaintext_write_buf ks) \<noteq> 0 then 1 else 0)"

definition n_sessions :: "'ssl tls_proc \<Rightarrow> nat" where
  "n_sessions p = length (tm_session (tp_multi p))"

lemma tp_put_ks [simp]:
  "i < n_sessions p \<Longrightarrow> tp_ks i (put_ks i ks p) = ks"
  "n_sessions (put_ks i ks p) = n_sessions p" "tp_change (put_ks i ks p) = tp_change p"
  "tm_opt (tp_multi (put_ks i ks p)) = tm_opt (tp_multi p)"
  by (simp_all add: tp_ks_def tp_session_def put_ks_def n_sessions_def upd_session_def)

lemma tp_changed [simp]:
  "tp_ks i (changed p) = tp_ks i p" "n_sessions (changed p) = n_sessions p" "tp_change (changed p)"
  "tm_opt (tp_multi (changed p)) = tm_opt (tp_multi p)"
  by (simp_all add: tp_ks_def tp_session_def changed_def n_sessions_def)

lemma tp_other_fields [simp]:
  "tp_ks i (p\<lparr>tp_info := x\<rparr>) = tp_ks i p" "n_sessions (p\<lparr>tp_info := x\<rparr>) = n_sessions p"
  "tp_ks i (p\<lparr>tp_change := c\<rparr>) = tp_ks i p" "n_sessions (p\<lparr>tp_change := c\<rparr>) = n_sessions p"
  by (simp_all add: tp_ks_def tp_session_def n_sessions_def)

definition same_work :: "'ssl key_state \<Rightarrow> 'ssl key_state \<Rightarrow> bool" where
  "same_work ks ks' \<longleftrightarrow> ks_state ks' = ks_state ks \<and> ks_rec_reliable ks' = ks_rec_reliable ks \<and> ks_send_reliable ks' = ks_send_reliable ks \<and>
     ks_plaintext_read_buf ks' = ks_plaintext_read_buf ks \<and> ks_plaintext_write_buf ks' = ks_plaintext_write_buf ks"

lemma same_work_refl [simp]: "same_work ks ks" by (simp add: same_work_def)

lemma same_work_trans: "same_work a b \<Longrightarrow> same_work b c \<Longrightarrow> same_work a c" by (simp add: same_work_def)

text \<open>A part of the round either leaves the work as it is, or less of it when it reports a change.\<close>

definition stage_ok :: "bool \<Rightarrow> nat \<Rightarrow> 'ssl stage \<Rightarrow> bool" where
  "stage_ok server i f \<longleftrightarrow> (\<forall>p p'. i < n_sessions p \<longrightarrow> f p = Some (Next, p') \<longrightarrow> n_sessions p' = n_sessions p \<and>
     ks_work server (tp_ks i p') \<le> ks_work server (tp_ks i p) \<and>
     (tp_change p' \<longrightarrow> tp_change p \<or> ks_work server (tp_ks i p') < ks_work server (tp_ks i p)))"

lemma stage_ok_then:
  assumes "stage_ok server i f" "stage_ok server i g"
  shows "stage_ok server i (then_stage f g)"
  unfolding stage_ok_def
proof (intro allI impI)
  fix p p' assume a: "i < n_sessions p" "then_stage f g p = Some (Next, p')"
  then obtain p1 where s: "f p = Some (Next, p1)" "g p1 = Some (Next, p')"
    by (auto simp: then_stage_def bind_eq_Some_conv split: if_splits)
  have 1: "n_sessions p1 = n_sessions p" "ks_work server (tp_ks i p1) \<le> ks_work server (tp_ks i p)"
    "tp_change p1 \<longrightarrow> tp_change p \<or> ks_work server (tp_ks i p1) < ks_work server (tp_ks i p)"
    using assms(1) s(1) a(1) unfolding stage_ok_def by blast+
  have 2: "n_sessions p' = n_sessions p1" "ks_work server (tp_ks i p') \<le> ks_work server (tp_ks i p1)"
    "tp_change p' \<longrightarrow> tp_change p1 \<or> ks_work server (tp_ks i p') < ks_work server (tp_ks i p1)"
    using assms(2) s(2) a(1) 1(1) unfolding stage_ok_def by metis+
  show "n_sessions p' = n_sessions p \<and> ks_work server (tp_ks i p') \<le> ks_work server (tp_ks i p) \<and>
     (tp_change p' \<longrightarrow> tp_change p \<or> ks_work server (tp_ks i p') < ks_work server (tp_ks i p))"
    using 1 2 by linarith
qed

lemma stage_ok_foldr: "\<forall>f \<in> set fs. stage_ok server i f \<Longrightarrow> stage_ok server i (foldr then_stage fs (\<lambda>p. Some (Next, p)))"
proof (induction fs)
  case Nil
  show ?case by (simp add: stage_ok_def)
next
  case (Cons f fs)
  then show ?case using stage_ok_then[of server i f "foldr then_stage fs (\<lambda>p. Some (Next, p))"] by simp
qed

text \<open>The windows: a buffer for output is an inactive entry, which becomes active; a delivered entry becomes inactive.\<close>

lemma filter_update_less:
  "j < length xs \<Longrightarrow> P (xs ! j) \<Longrightarrow> \<not> P y \<Longrightarrow> length (filter P (xs[j := y])) < length (filter P xs)"
proof (induction xs arbitrary: j)
  case (Cons x xs)
  then show ?case by (cases j) auto
qed simp

lemma filter_update_same:
  "(j < length xs \<Longrightarrow> P (xs ! j) = P y) \<Longrightarrow> length (filter P (xs[j := y])) = length (filter P xs)"
proof (induction xs arbitrary: j)
  case (Cons x xs)
  then show ?case by (cases j) auto
qed simp

abbreviation free_slots :: "reliable \<Rightarrow> nat" where
  "free_slots rel \<equiv> length (filter (\<lambda>e. \<not> active e) (rel_entries rel))"

abbreviation used_slots :: "reliable \<Rightarrow> nat" where
  "used_slots rel \<equiv> length (filter active (rel_entries rel))"

lemma upd_entry_buf_slots:
  "free_slots (upd_entry rel k (\<lambda>e. e\<lparr>entry_buf := b\<rparr>)) = free_slots rel"
  "used_slots (upd_entry rel k (\<lambda>e. e\<lparr>entry_buf := b\<rparr>)) = used_slots rel"
  by (simp_all add: filter_update_same rel_entries_nth)

lemma reliable_get_buf_slot:
  assumes "reliable_get_buf rel = Some (j, rel')"
  shows "free_slots rel' = free_slots rel" "j = Some k \<Longrightarrow> k < length (rel_entries rel') \<and> \<not> active (rel_array rel' ! k)"
proof -
  consider "j = None" "rel' = rel" | k b where "first_index (\<lambda>e. \<not> active e) (rel_entries rel) = Some k" "j = Some k"
      "rel' = upd_entry rel k (\<lambda>e. e\<lparr>entry_buf := b\<rparr>)"
    using assms by (auto simp: reliable_get_buf_def Let_def bind_eq_Some_conv split: option.splits prod.splits if_splits)
  then have "free_slots rel' = free_slots rel \<and> (\<forall>k. j = Some k \<longrightarrow> k < length (rel_entries rel') \<and> \<not> active (rel_array rel' ! k))"
  proof cases
    case (2 k' b)
    note k = first_index_SomeD[OF 2(1)]
    have r: "\<not> active (rel_array rel ! k')" using k by (simp add: rel_entries_nth)
    have "k' < length (rel_array rel)" using k(1) by (simp add: rel_entries_def)
    then have "\<not> active (rel_array rel' ! k')" using r by (simp add: 2(3) upd_entry_def)
    moreover have "k' < length (rel_entries rel')" using k(1) by (simp add: 2(3))
    moreover have "free_slots rel' = free_slots rel" unfolding 2(3) by (rule upd_entry_buf_slots)
    ultimately show ?thesis using 2(2) by simp
  qed simp
  then show "free_slots rel' = free_slots rel" "j = Some k \<Longrightarrow> k < length (rel_entries rel') \<and> \<not> active (rel_array rel' ! k)"
    by simp_all
qed

lemma output_slot:
  assumes "reliable_get_buf_output_sequenced rel = Some (j, rel')"
  shows "free_slots rel' = free_slots rel" "j = Some k \<Longrightarrow> k < length (rel_entries rel') \<and> \<not> active (rel_array rel' ! k)"
  using assms reliable_get_buf_slot
  by (auto simp: reliable_get_buf_output_sequenced_def split: option.splits if_splits)

lemma mark_outgoing_slot:
  assumes "reliable_mark_active_outgoing rel k op = Some rel'" "k < length (rel_entries rel)" "\<not> active (rel_array rel ! k)"
  shows "free_slots rel' < free_slots rel"
proof -
  obtain b where "rel_entries rel' = (rel_entries rel)[k := (rel_array rel ! k)\<lparr>entry_id := rel_id rel, entry_buf := b, active := True, opcode := op,
      next_try := 0, timeout := initial_timeout rel\<rparr>]"
    using assms(1) by (auto simp: reliable_mark_active_outgoing_def Let_def bind_eq_Some_conv rel_entries_def upd_entry_def take_update_swap split: if_splits)
  then show ?thesis using assms(2,3) by (simp add: filter_update_less rel_entries_nth)
qed

lemma mark_deleted_slot:
  assumes "reliable_mark_deleted rel k inc = Some rel'" "k < length (rel_entries rel)" "active (rel_array rel ! k)"
  shows "used_slots rel' < used_slots rel"
proof -
  have "rel_entries rel' = (rel_entries rel)[k := (rel_array rel ! k)\<lparr>active := False\<rparr>]"
    using assms(1) by (auto simp: reliable_mark_deleted_def Let_def bind_eq_Some_conv rel_entries_def upd_entry_def take_update_swap split: if_splits)
  then show ?thesis using assms(2,3) by (simp add: filter_update_less rel_entries_nth)
qed

lemma sequenced_slot:
  assumes "reliable_get_buf_sequenced rel = Some k"
  shows "k < length (rel_entries rel)" "active (rel_array rel ! k)"
  using first_index_SomeD[OF assms[unfolded reliable_get_buf_sequenced_def]] by (auto simp: rel_entries_nth)

text \<open>Calls of OpenSSL touch nothing of the key state but the SSL object.\<close>

lemma verify_chain_primary: "verify_chain env opt xs s = Some s' \<Longrightarrow> ts_primary s' = ts_primary s"
proof (induction xs arbitrary: s)
  case (Cons x xs)
  then obtain ok s1 where x: "verify_callback env opt x s = Some (ok, s1)" "verify_chain env opt xs s1 = Some s'"
    by (auto simp: bind_eq_Some_conv)
  have "ts_primary s1 = ts_primary s"
    using x(1) unfolding verify_callback_def Let_def
    by (auto simp: set_common_name_def bind_eq_Some_conv simp del: split_paired_Ex split: if_splits)
  then show ?case using Cons.IH[OF x(2)] by simp
qed simp

lemma put_ssl_work:
  assumes "put_ssl env i certs ssl m = Some m'" "i < length (tm_session m)"
  shows "ts_primary (tm_session m' ! i) = (ts_primary (tm_session m ! i))\<lparr>ks_ssl := Some ssl\<rparr>" "length (tm_session m') = length (tm_session m)"
    "tm_opt m' = tm_opt m"
proof -
  obtain s where "verify_chain env (tm_opt m) certs (tm_session m ! i) = Some s"
    "m' = upd_session i (\<lambda>_. s\<lparr>ts_primary := (ts_primary s)\<lparr>ks_ssl := Some ssl\<rparr>\<rparr>) m"
    using assms(1) by (auto simp: put_ssl_def bind_eq_Some_conv)
  then show "ts_primary (tm_session m' ! i) = (ts_primary (tm_session m ! i))\<lparr>ks_ssl := Some ssl\<rparr>" "length (tm_session m') = length (tm_session m)"
    "tm_opt m' = tm_opt m"
    using assms(2) by (simp_all add: upd_session_nth verify_chain_primary)
qed

lemma stage_okI:
  assumes "\<And>p p'. i < n_sessions p \<Longrightarrow> f p = Some (Next, p') \<Longrightarrow> n_sessions p' = n_sessions p \<and>
    (ks_work server (tp_ks i p') < ks_work server (tp_ks i p) \<or>
     tp_change p' = tp_change p \<and> ks_work server (tp_ks i p') \<le> ks_work server (tp_ks i p))"
  shows "stage_ok server i f"
  unfolding stage_ok_def using assms by (metis less_imp_le)

lemma state_rank_simps [simp]:
  "state_rank s 1 = 1" "state_rank s 2 = 2" "state_rank s 3 = 3" "state_rank s 6 = 6" "state_rank s 7 = 7"
  "state_rank s 4 = (if s then 5 else 4)" "state_rank s 5 = (if s then 4 else 5)"
  by (simp_all add: state_rank_def)

lemma ks_work_send:
  "ks_work server (ks\<lparr>ks_send_reliable := rel\<rparr>) + free_slots (ks_send_reliable ks) = ks_work server ks + free_slots rel"
  by (simp add: ks_work_def)

lemma initial_handshake_ok: "stage_ok server i (initial_handshake opt now i)"
proof (rule stage_okI)
  fix p p' assume a: "i < n_sessions p" "initial_handshake opt now i p = Some (Next, p')"
  let ?ks = "tp_ks i p"
  show "n_sessions p' = n_sessions p \<and> (ks_work server (tp_ks i p') < ks_work server (tp_ks i p) \<or>
     tp_change p' = tp_change p \<and> ks_work server (tp_ks i p') \<le> ks_work server (tp_ks i p))"
  proof (cases "ks_state ?ks = 1")
    case True
    obtain j rel where j: "reliable_get_buf_output_sequenced (ks_send_reliable ?ks) = Some (j, rel)"
      using a(2) True by (auto simp: initial_handshake_def Let_def bind_eq_Some_conv)
    note s = output_slot[OF j]
    show ?thesis
    proof (cases j)
      case None
      then have "p' = put_ks i (?ks\<lparr>ks_send_reliable := rel\<rparr>) p" using a(2) True j by (simp add: initial_handshake_def)
      then show ?thesis using a(1) s(1) by (simp add: ks_work_def)
    next
      case (Some k)
      then obtain rel' where r: "reliable_mark_active_outgoing rel k (ks_initial_opcode ?ks) = Some rel'"
        "p' = changed (put_ks i (?ks\<lparr>ks_must_negotiate := now + to_handshake_window opt, ks_send_reliable := rel', ks_state := 2\<rparr>) p)"
        using a(2) True j by (auto simp: initial_handshake_def Let_def bind_eq_Some_conv)
      have "free_slots rel' < free_slots rel" using mark_outgoing_slot[OF r(1)] s(2)[OF Some] by simp
      then show ?thesis using a(1) s(1) r(2) True by (simp add: ks_work_def)
    qed
  next
    case False
    then show ?thesis using a(2) by (auto simp: initial_handshake_def)
  qed
qed

lemma negotiation_timeout_ok: "stage_ok server i (negotiation_timeout now i)"
proof (rule stage_okI)
  fix p p' assume a: "i < n_sessions p" "negotiation_timeout now i p = Some (Next, p')"
  have "state_rank server s \<le> 7" for s by (auto simp: state_rank_def)
  then show "n_sessions p' = n_sessions p \<and> (ks_work server (tp_ks i p') < ks_work server (tp_ks i p) \<or>
     tp_change p' = tp_change p \<and> ks_work server (tp_ks i p') \<le> ks_work server (tp_ks i p))"
    using a by (auto simp: negotiation_timeout_def Let_def ks_work_def split: if_splits)
qed

lemma handshake_acked_ok: "stage_ok server i (handshake_acked i)"
  by (rule stage_okI) (auto simp: handshake_acked_def Let_def ks_work_def split: if_splits)

lemma keys_acked_ok: "to_server opt = server \<Longrightarrow> stage_ok server i (keys_acked opt now i)"
  by (rule stage_okI) (auto simp: keys_acked_def Let_def ks_work_def split: if_splits)

lemma send_reliable_ok: "stage_ok server i (send_reliable now i)"
  by (rule stage_okI) (auto simp: send_reliable_def Let_def bind_eq_Some_conv split: if_splits prod.splits)

lemma key_state_write_ciphertext_ks:
  assumes "key_state_write_ciphertext env m i b = Some (st, b', m')" "i < length (tm_session m)"
  shows "\<exists>ssl. ts_primary (tm_session m' ! i) = (ts_primary (tm_session m ! i))\<lparr>ks_ssl := ssl\<rparr>" "length (tm_session m') = length (tm_session m)"
proof -
  obtain certs ssl where "put_ssl env i certs ssl m = Some m'"
    using assms(1) by (auto simp: key_state_write_ciphertext_def Let_def bind_eq_Some_conv case_prod_beta split: if_splits)
  from put_ssl_work[OF this assms(2)] show "\<exists>ssl. ts_primary (tm_session m' ! i) = (ts_primary (tm_session m ! i))\<lparr>ks_ssl := ssl\<rparr>"
    "length (tm_session m') = length (tm_session m)" by blast+
qed

lemma key_state_write_plaintext_ks:
  assumes "key_state_write_plaintext env m i b = Some (st, b', m')" "i < length (tm_session m)"
  shows "\<exists>ssl. ts_primary (tm_session m' ! i) = (ts_primary (tm_session m ! i))\<lparr>ks_ssl := ssl\<rparr>" "length (tm_session m') = length (tm_session m)"
    "st = 1 \<Longrightarrow> len b' = 0"
proof -
  obtain certs ssl where p: "put_ssl env i certs ssl m = Some m'" "bio_write_post st b = Some b'"
    using assms(1) by (auto simp: key_state_write_plaintext_def key_state_write_plaintext_const_def Let_def bind_eq_Some_conv case_prod_beta split: if_splits)
  from put_ssl_work[OF p(1) assms(2)] show "\<exists>ssl. ts_primary (tm_session m' ! i) = (ts_primary (tm_session m ! i))\<lparr>ks_ssl := ssl\<rparr>"
    "length (tm_session m') = length (tm_session m)" by blast+
  show "st = 1 \<Longrightarrow> len b' = 0" using p(2) by (auto simp: bio_write_post_def bind_eq_Some_conv)
qed

lemma bio_read_status: "bio_read f ssl b n = Some (1, b', x) \<Longrightarrow> len b' \<noteq> 0"
  by (auto simp: bio_read_def Let_def bind_eq_Some_conv case_prod_beta split: if_splits option.splits)

lemma key_state_read_plaintext_ks:
  assumes "key_state_read_plaintext env m i b n = Some (st, b', m')" "i < length (tm_session m)"
  shows "\<exists>ssl. ts_primary (tm_session m' ! i) = (ts_primary (tm_session m ! i))\<lparr>ks_ssl := ssl\<rparr>" "length (tm_session m') = length (tm_session m)"
    "st = 1 \<Longrightarrow> len b' \<noteq> 0"
proof -
  obtain f ssl0 certs ssl where p: "put_ssl env i certs ssl m = Some m'" "bio_read f ssl0 b n = Some (st, b', certs, ssl)"
    using assms(1) by (auto simp: key_state_read_plaintext_def bind_eq_Some_conv)
  from put_ssl_work[OF p(1) assms(2)] show "\<exists>ssl. ts_primary (tm_session m' ! i) = (ts_primary (tm_session m ! i))\<lparr>ks_ssl := ssl\<rparr>"
    "length (tm_session m') = length (tm_session m)" by blast+
  show "st = 1 \<Longrightarrow> len b' \<noteq> 0" using p(2) bio_read_status[of f ssl0 b n b' "(certs, ssl)"] by auto
qed

lemma key_state_read_ciphertext_ks:
  assumes "key_state_read_ciphertext env m i b n = Some (st, b', m')" "i < length (tm_session m)"
  shows "\<exists>ssl. ts_primary (tm_session m' ! i) = (ts_primary (tm_session m ! i))\<lparr>ks_ssl := ssl\<rparr>" "length (tm_session m') = length (tm_session m)"
proof -
  obtain certs ssl where "put_ssl env i certs ssl m = Some m'"
    using assms(1) by (auto simp: key_state_read_ciphertext_def bind_eq_Some_conv)
  from put_ssl_work[OF this assms(2)] show "\<exists>ssl. ts_primary (tm_session m' ! i) = (ts_primary (tm_session m ! i))\<lparr>ks_ssl := ssl\<rparr>"
    "length (tm_session m') = length (tm_session m)" by blast+
qed

lemma n_sessions_multi: "n_sessions (p\<lparr>tp_multi := m\<rparr>) = length (tm_session m)" "tp_ks i (p\<lparr>tp_multi := m\<rparr>) = ts_primary (tm_session m ! i)"
  by (simp_all add: n_sessions_def tp_ks_def tp_session_def)

lemma ks_work_ssl [simp]: "ks_work server (ks\<lparr>ks_ssl := x\<rparr>) = ks_work server ks" by (simp add: ks_work_def)

lemma incoming_ciphertext_ok: "stage_ok server i (incoming_ciphertext env i)"
proof (rule stage_okI)
  fix p p' assume a: "i < n_sessions p" "incoming_ciphertext env i p = Some (Next, p')"
  let ?ks = "tp_ks i p"
  show "n_sessions p' = n_sessions p \<and> (ks_work server (tp_ks i p') < ks_work server (tp_ks i p) \<or>
     tp_change p' = tp_change p \<and> ks_work server (tp_ks i p') \<le> ks_work server (tp_ks i p))"
  proof (cases "reliable_get_buf_sequenced (ks_rec_reliable ?ks)")
    case None
    then show ?thesis using a(2) by (simp add: incoming_ciphertext_def)
  next
    case (Some j)
    note s = sequenced_slot[OF Some]
    let ?b = "entry_buf (rel_array (ks_rec_reliable ?ks) ! j)"
    obtain st b m where w: "(if len ?b \<noteq> 0 then key_state_write_ciphertext env (tp_multi p) i ?b else Some (1, ?b, tp_multi p)) = Some (st, b, m)"
      "(let ks = ts_primary (tm_session m ! i); rel = upd_entry (ks_rec_reliable ks) j (\<lambda>e. e\<lparr>entry_buf := b\<rparr>); p = p\<lparr>tp_multi := m\<rparr> in
         if st = -1 then Some (Error, put_ks i (ks\<lparr>ks_rec_reliable := rel\<rparr>) p)
         else if st = 1 then do {
           rel \<leftarrow> reliable_mark_deleted rel j True;
           Some (Next, changed (put_ks i (ks\<lparr>ks_rec_reliable := rel\<rparr>) p))
         } else Some (Next, put_ks i (ks\<lparr>ks_rec_reliable := rel\<rparr>) p)) = Some (Next, p')"
      using a(2) Some by (auto simp: incoming_ciphertext_def Let_def bind_eq_Some_conv n_sessions_multi cong: if_cong)
    have m: "\<exists>ssl. ts_primary (tm_session m ! i) = ?ks\<lparr>ks_ssl := ssl\<rparr>" "length (tm_session m) = n_sessions p"
    proof (atomize (full), cases "len ?b = 0")
      case True
      then show "(\<exists>ssl. ts_primary (tm_session m ! i) = ?ks\<lparr>ks_ssl := ssl\<rparr>) \<and> length (tm_session m) = n_sessions p"
        using w(1) by (auto simp: n_sessions_def tp_ks_def tp_session_def intro!: exI[of _ "ks_ssl ?ks"])
    next
      case False
      then show "(\<exists>ssl. ts_primary (tm_session m ! i) = ?ks\<lparr>ks_ssl := ssl\<rparr>) \<and> length (tm_session m) = n_sessions p"
        using w(1) key_state_write_ciphertext_ks[of env "tp_multi p" i ?b st b m] a(1) by (simp add: n_sessions_def tp_ks_def tp_session_def)
    qed
    let ?rel = "upd_entry (ks_rec_reliable ?ks) j (\<lambda>e. e\<lparr>entry_buf := b\<rparr>)"
    have act: "active (rel_array ?rel ! j)" "j < length (rel_entries ?rel)"
      using s by (auto simp: upd_entry_def rel_entries_def)
    have i: "i < length (tm_session m)" using m(2) a(1) by simp
    show ?thesis
    proof (cases "st = 1")
      case True
      then obtain rel' where r: "reliable_mark_deleted ?rel j True = Some rel'"
        "p' = changed (put_ks i ((ts_primary (tm_session m ! i))\<lparr>ks_rec_reliable := rel'\<rparr>) (p\<lparr>tp_multi := m\<rparr>))"
        using w(2) m(1) by (auto simp: Let_def bind_eq_Some_conv)
      have "used_slots rel' < used_slots (ks_rec_reliable ?ks)" using mark_deleted_slot[OF r(1) act(2,1)] unfolding upd_entry_buf_slots .
      then show ?thesis using r(2) m i by (auto simp: n_sessions_multi ks_work_def)
    next
      case False
      then have "p' = put_ks i ((ts_primary (tm_session m ! i))\<lparr>ks_rec_reliable := ?rel\<rparr>) (p\<lparr>tp_multi := m\<rparr>)"
        using w(2) m(1) by (auto simp: Let_def split: if_splits)
      then show ?thesis using m i upd_entry_buf_slots(2)[of "ks_rec_reliable ?ks" j b] by (auto simp: n_sessions_multi ks_work_def)
    qed
  qed
qed

lemma incoming_plaintext_ok: "stage_ok server i (incoming_plaintext env i)"
proof (rule stage_okI)
  fix p p' assume a: "i < n_sessions p" "incoming_plaintext env i p = Some (Next, p')"
  let ?ks = "tp_ks i p"
  show "n_sessions p' = n_sessions p \<and> (ks_work server (tp_ks i p') < ks_work server (tp_ks i p) \<or>
     tp_change p' = tp_change p \<and> ks_work server (tp_ks i p') \<le> ks_work server (tp_ks i p))"
  proof (cases "len (ks_plaintext_read_buf ?ks) = 0")
    case False
    then show ?thesis using a(2) by (simp add: incoming_plaintext_def)
  next
    case True
    obtain b0 st b m where w: "key_state_read_plaintext env (tp_multi p) i b0 (int PLAINTEXT_BUFFER_SIZE) = Some (st, b, m)"
      "p' = (if st = 1 then changed (put_ks i ((ts_primary (tm_session m ! i))\<lparr>ks_plaintext_read_buf := b\<rparr>) (p\<lparr>tp_multi := m\<rparr>))
             else put_ks i ((ts_primary (tm_session m ! i))\<lparr>ks_plaintext_read_buf := b\<rparr>) (p\<lparr>tp_multi := m\<rparr>))"
      using a(2) True by (auto simp: incoming_plaintext_def Let_def bind_eq_Some_conv n_sessions_multi case_prod_beta split: if_splits)
    note k = key_state_read_plaintext_ks[OF w(1) a(1)[unfolded n_sessions_def]]
    obtain ssl where k1: "ts_primary (tm_session m ! i) = ?ks\<lparr>ks_ssl := ssl\<rparr>" using k(1) by (auto simp: tp_ks_def tp_session_def)
    have n: "n_sessions (p\<lparr>tp_multi := m\<rparr>) = n_sessions p" using k(2) by (simp add: n_sessions_def)
    show ?thesis using w(2) k(3) k1 n a(1) True by (auto simp: ks_work_def)
  qed
qed

lemma outgoing_plaintext_ok: "stage_ok server i (outgoing_plaintext env i)"
proof (rule stage_okI)
  fix p p' assume a: "i < n_sessions p" "outgoing_plaintext env i p = Some (Next, p')"
  let ?ks = "tp_ks i p"
  show "n_sessions p' = n_sessions p \<and> (ks_work server (tp_ks i p') < ks_work server (tp_ks i p) \<or>
     tp_change p' = tp_change p \<and> ks_work server (tp_ks i p') \<le> ks_work server (tp_ks i p))"
  proof (cases "len (ks_plaintext_write_buf ?ks) \<noteq> 0")
    case False
    then show ?thesis using a(2) by (simp add: outgoing_plaintext_def)
  next
    case True
    obtain st b m where w: "key_state_write_plaintext env (tp_multi p) i (ks_plaintext_write_buf ?ks) = Some (st, b, m)"
      "p' = (if st = 1 then changed (put_ks i ((ts_primary (tm_session m ! i))\<lparr>ks_plaintext_write_buf := b\<rparr>) (p\<lparr>tp_multi := m\<rparr>))
             else put_ks i ((ts_primary (tm_session m ! i))\<lparr>ks_plaintext_write_buf := b\<rparr>) (p\<lparr>tp_multi := m\<rparr>))"
      using a(2) True by (auto simp: outgoing_plaintext_def Let_def bind_eq_Some_conv n_sessions_multi split: if_splits)
    note k = key_state_write_plaintext_ks[OF w(1) a(1)[unfolded n_sessions_def]]
    obtain ssl where k1: "ts_primary (tm_session m ! i) = ?ks\<lparr>ks_ssl := ssl\<rparr>" using k(1) by (auto simp: tp_ks_def tp_session_def)
    have n: "n_sessions (p\<lparr>tp_multi := m\<rparr>) = n_sessions p" using k(2) by (simp add: n_sessions_def)
    show ?thesis using w(2) k(3) k1 n a(1) True by (auto simp: ks_work_def)
  qed
qed

lemma outgoing_ciphertext_ok: "stage_ok server i (outgoing_ciphertext env i)"
proof (rule stage_okI)
  fix p p' assume a: "i < n_sessions p" "outgoing_ciphertext env i p = Some (Next, p')"
  let ?ks = "tp_ks i p"
  show "n_sessions p' = n_sessions p \<and> (ks_work server (tp_ks i p') < ks_work server (tp_ks i p) \<or>
     tp_change p' = tp_change p \<and> ks_work server (tp_ks i p') \<le> ks_work server (tp_ks i p))"
  proof (cases "ks_state ?ks \<ge> 3")
    case False
    then show ?thesis using a(2) by (simp add: outgoing_ciphertext_def)
  next
    case True
    obtain j rel where j: "reliable_get_buf_output_sequenced (ks_send_reliable ?ks) = Some (j, rel)"
      using a(2) True by (auto simp: outgoing_ciphertext_def Let_def bind_eq_Some_conv)
    note s = output_slot[OF j]
    let ?p = "put_ks i (?ks\<lparr>ks_send_reliable := rel\<rparr>) p"
    show ?thesis
    proof (cases j)
      case None
      then have "p' = ?p" using a(2) True j by (simp add: outgoing_ciphertext_def Let_def)
      then show ?thesis using a(1) s(1) by (simp add: ks_work_def)
    next
      case (Some k)
      let ?r = "\<lambda>b. upd_entry rel k (\<lambda>e. e\<lparr>entry_buf := b\<rparr>)"
      obtain b0 n st b m where w: "key_state_read_ciphertext env (tp_multi ?p) i b0 n = Some (st, b, m)"
        "(if st = 1 then \<exists>rel'. reliable_mark_active_outgoing (?r b) k 4 = Some rel' \<and>
            p' = changed (put_ks i ((ts_primary (tm_session m ! i))\<lparr>ks_send_reliable := rel'\<rparr>) (?p\<lparr>tp_multi := m\<rparr>))
          else p' = put_ks i ((ts_primary (tm_session m ! i))\<lparr>ks_send_reliable := ?r b\<rparr>) (?p\<lparr>tp_multi := m\<rparr>))"
        using a(2) True j Some by (auto simp: outgoing_ciphertext_def Let_def bind_eq_Some_conv n_sessions_multi split: if_splits)
      have i: "i < length (tm_session (tp_multi ?p))" using a(1) tp_put_ks(2)[of i "?ks\<lparr>ks_send_reliable := rel\<rparr>" p] by (simp add: n_sessions_def)
      note k = key_state_read_ciphertext_ks[OF w(1) i]
      have kp: "ts_primary (tm_session (tp_multi ?p) ! i) = ?ks\<lparr>ks_send_reliable := rel\<rparr>"
        using tp_put_ks(1)[OF a(1), of "?ks\<lparr>ks_send_reliable := rel\<rparr>"] by (simp add: tp_ks_def tp_session_def)
      obtain ssl where k1: "ts_primary (tm_session m ! i) = ?ks\<lparr>ks_send_reliable := rel, ks_ssl := ssl\<rparr>" using k(1) unfolding kp by auto
      have n: "n_sessions (?p\<lparr>tp_multi := m\<rparr>) = n_sessions p"
        using k(2) tp_put_ks(2)[of i "?ks\<lparr>ks_send_reliable := rel\<rparr>" p] by (simp add: n_sessions_def)
      note sl = s(2)[OF Some]
      have act: "\<not> active (rel_array (?r b) ! k)" "k < length (rel_entries (?r b))"
        using sl by (auto simp: upd_entry_def rel_entries_def)
      note fr = upd_entry_buf_slots(1)[of rel k b]
      show ?thesis
      proof (cases "st = 1")
        case True
        then obtain rel' where r: "reliable_mark_active_outgoing (?r b) k 4 = Some rel'"
          "p' = changed (put_ks i ((ts_primary (tm_session m ! i))\<lparr>ks_send_reliable := rel'\<rparr>) (?p\<lparr>tp_multi := m\<rparr>))" using w(2) by auto
        have "free_slots rel' < free_slots (ks_send_reliable ?ks)" using mark_outgoing_slot[OF r(1) act(2,1)] fr s(1) by linarith
        then show ?thesis using r(2) n a(1) by (simp add: k1 ks_work_def)
      next
        case False
        then show ?thesis using w(2) n a(1) fr s(1) by (simp add: k1 ks_work_def)
      qed
    qed
  qed
qed

lemma key_method_1_write_work: "key_method_1_write env opt rnd b ks = Some (ok, b', ks') \<Longrightarrow> same_work ks ks'"
  by (auto simp: key_method_1_write_def Let_def bind_eq_Some_conv same_work_def case_prod_beta split: if_splits)

lemma key_method_1_read_work: "key_method_1_read env opt v b ks = Some (ok, b', ks') \<Longrightarrow> same_work ks ks'"
  by (auto simp: key_method_1_read_def Let_def bind_eq_Some_conv same_work_def split: if_splits)

lemma key_method_2_write_work:
  assumes "key_method_2_write env opt auth rp r1 r2 sid b ks = Some (ok, b', ks')"
  shows "same_work ks ks'"
proof -
  have "returns (key_method_2_write env opt auth rp r1 r2 sid b ks) (\<lambda>(ok, b', ks'). same_work ks ks')"
    unfolding key_method_2_write_def Let_def
    by (intro returns_intros) (auto simp: same_work_def bind_eq_Some_conv split: if_splits)
  then show ?thesis using assms by (auto simp: returns_def)
qed

definition same_primary :: "nat \<Rightarrow> 'ssl tls_multi \<Rightarrow> 'ssl tls_multi \<Rightarrow> bool" where
  "same_primary i m m' \<longleftrightarrow> length (tm_session m') = length (tm_session m) \<and> tm_opt m' = tm_opt m \<and>
     same_work (ts_primary (tm_session m ! i)) (ts_primary (tm_session m' ! i))"

lemma same_primary_trans: "same_primary i a b \<Longrightarrow> same_primary i b c \<Longrightarrow> same_primary i a c"
  by (auto simp: same_primary_def intro: same_work_trans)

lemma same_keying_primary: "same_keying i m m' \<Longrightarrow> same_primary i m m'"
  by (simp add: same_keying_def same_primary_def same_work_def)

lemma upd_primary:
  "i < length (tm_session m) \<Longrightarrow> same_work (ts_primary (tm_session m ! i)) (f (ts_primary (tm_session m ! i))) \<Longrightarrow>
     same_primary i m (upd_session i (\<lambda>s. s\<lparr>ts_primary := f (ts_primary s)\<rparr>) m)"
  by (simp add: same_primary_def upd_session_nth)

lemma same_primary_length: "same_primary i m m' \<Longrightarrow> i < length (tm_session m') \<longleftrightarrow> i < length (tm_session m)"
  by (simp add: same_primary_def)

lemma km2_read_primary:
  assumes "i < length (tm_session m)" "key_method_2_read env m i b = Some (ok, b', m')"
  shows "same_primary i m m'"
proof -
  let ?put = "\<lambda>f. upd_session i (\<lambda>s. s\<lparr>ts_primary := f (ts_primary s)\<rparr>)"
  have src: "same_primary i m2 (?put (ks_key_src_update (\<lambda>_. k)) m2)" if "same_primary i m m2" for m2 k
    using that assms(1) by (intro upd_primary) (auto simp: same_work_def same_primary_def)
  have src': "same_primary i m (?put (ks_key_src_update (\<lambda>_. k)) m2)" if "same_primary i m m2" for m2 k
    using src[OF that] that same_primary_trans by blast
  have auth: "same_primary i m (?put (ks_authenticated_update (\<lambda>_. v)) m2)" if "same_primary i m m2" for m2 v
    using that same_primary_trans[OF that upd_primary[of i m2 "ks_authenticated_update (\<lambda>_. v)"]] assms(1) by (auto simp: same_work_def same_primary_def)
  have key: "same_primary i m (?put (\<lambda>ks. ks\<lparr>ks_key := c, ks_key_src := k\<rparr>) m2)" if "same_primary i m m2" for m2 c k
    using that same_primary_trans[OF that upd_primary[of i m2 "\<lambda>ks. ks\<lparr>ks_key := c, ks_key_src := k\<rparr>"]] assms(1) by (auto simp: same_work_def same_primary_def)
  have refl: "same_primary i m m" by (simp add: same_primary_def)
  have chk: "same_primary i m m4" if "km2_authenticate env (?put (ks_key_src_update (\<lambda>_. k)) m) i b1 = Some (Some m3, b2)"
    "km2_check_name env m3 i = Some m4" for k b1 m3 b2 m4
  proof -
    let ?m = "?put (ks_key_src_update (\<lambda>_. k)) m"
    have "same_keying i ?m m3" using that(1) assms(1) by (intro km2_authenticate_keying) auto
    moreover from this have "same_keying i m3 m4" using that(2) assms(1) by (intro km2_check_name_keying) (auto dest: same_keying_length)
    ultimately show ?thesis using src'[OF refl, of k] same_keying_primary same_primary_trans by blast
  qed
  have "returns (key_method_2_read env m i b) (\<lambda>(ok, b', m'). same_primary i m m')"
    unfolding key_method_2_read_def Let_def
    by (intro returns_intros) (auto intro!: src' auth key simp: refl intro: chk)
  then show ?thesis using assms(2) by (auto simp: returns_def)
qed

lemma send_key_ok:
  assumes "to_server opt = server"
  shows "stage_ok server i (send_key env rnd opt i)"
proof (rule stage_okI)
  fix p p' assume a: "i < n_sessions p" "send_key env rnd opt i p = Some (Next, p')"
  let ?ks = "tp_ks i p"
  show "n_sessions p' = n_sessions p \<and> (ks_work server (tp_ks i p') < ks_work server (tp_ks i p) \<or>
     tp_change p' = tp_change p \<and> ks_work server (tp_ks i p') \<le> ks_work server (tp_ks i p))"
  proof (cases "len (ks_plaintext_write_buf ?ks) = 0 \<and> (ks_state ?ks = 3 \<and> \<not> server \<or> ks_state ?ks = 5 \<and> server)")
    case False
    then show ?thesis using a(2) assms by (auto simp: send_key_def Let_def)
  next
    case True
    then obtain b ks where w: "same_work ?ks ks" "p' = changed (put_ks i (ks\<lparr>ks_plaintext_write_buf := b, ks_state := 4\<rparr>) p)"
      using a(2) assms by (auto simp: send_key_def Let_def bind_eq_Some_conv split: if_splits dest: key_method_1_write_work key_method_2_write_work)
    have "ks_work server (ks\<lparr>ks_plaintext_write_buf := b, ks_state := 4\<rparr>) < ks_work server ?ks"
      using w(1) True by (auto simp: ks_work_def same_work_def)
    then show ?thesis using w(2) a(1) by simp
  qed
qed

lemma receive_key_ok:
  assumes "to_server opt = server"
  shows "stage_ok server i (receive_key env opt i)"
proof (rule stage_okI)
  fix p p' assume a: "i < n_sessions p" "receive_key env opt i p = Some (Next, p')"
  let ?ks = "tp_ks i p"
  show "n_sessions p' = n_sessions p \<and> (ks_work server (tp_ks i p') < ks_work server (tp_ks i p) \<or>
     tp_change p' = tp_change p \<and> ks_work server (tp_ks i p') \<le> ks_work server (tp_ks i p))"
  proof (cases "len (ks_plaintext_read_buf ?ks) \<noteq> 0 \<and> (ks_state ?ks = 4 \<and> \<not> server \<or> ks_state ?ks = 3 \<and> server)")
    case False
    then show ?thesis using a(2) assms by (auto simp: receive_key_def Let_def)
  next
    case True
    have "\<exists>b q. same_work ?ks (tp_ks i q) \<and> n_sessions q = n_sessions p \<and>
       p' = changed (put_ks i ((tp_ks i q)\<lparr>ks_plaintext_read_buf := b, ks_state := 5\<rparr>) q)"
    proof (cases "to_key_method opt = 1")
      case m1: True
      then obtain b ks where "key_method_1_read env opt (ts_verified (tp_session i p)) (ks_plaintext_read_buf ?ks) ?ks = Some (True, b, ks)"
        "p' = changed (put_ks i ((tp_ks i (put_ks i ks p))\<lparr>ks_plaintext_read_buf := b, ks_state := 5\<rparr>) (put_ks i ks p))"
        using a(2) True assms by (auto simp: receive_key_def Let_def bind_eq_Some_conv split: if_splits)
      then show ?thesis using a(1) key_method_1_read_work[of env opt] by (intro exI[of _ b] exI[of _ "put_ks i ks p"]) auto
    next
      case m2: False
      then obtain b m where r: "key_method_2_read env (tp_multi p) i (ks_plaintext_read_buf ?ks) = Some (True, b, m)"
        "p' = changed (put_ks i ((tp_ks i (p\<lparr>tp_multi := m\<rparr>))\<lparr>ks_plaintext_read_buf := b, ks_state := 5\<rparr>) (p\<lparr>tp_multi := m\<rparr>))"
        using a(2) True assms by (auto simp: receive_key_def Let_def bind_eq_Some_conv split: if_splits)
      have "same_primary i (tp_multi p) m" using km2_read_primary[OF _ r(1)] a(1) by (simp add: n_sessions_def)
      then show ?thesis using r(2)
        by (intro exI[of _ b] exI[of _ "p\<lparr>tp_multi := m\<rparr>"]) (simp add: same_primary_def n_sessions_multi tp_ks_def tp_session_def n_sessions_def)
    qed
    then obtain b q where q: "same_work ?ks (tp_ks i q)" "n_sessions q = n_sessions p"
      "p' = changed (put_ks i ((tp_ks i q)\<lparr>ks_plaintext_read_buf := b, ks_state := 5\<rparr>) q)" by blast
    have "ks_work server ((tp_ks i q)\<lparr>ks_plaintext_read_buf := b, ks_state := 5\<rparr>) < ks_work server ?ks"
      using q(1) True by (auto simp: ks_work_def same_work_def)
    then show ?thesis using q(2,3) a(1) by simp
  qed
qed

lemma round_decreases:
  assumes "i < n_sessions p" "tls_process_round env rnd opt now i p = Some (Next, p')" "tp_change p'"
  shows "ks_work (to_server opt) (tp_ks i p') < ks_work (to_server opt) (tp_ks i p)" "n_sessions p' = n_sessions p"
proof -
  let ?s = "to_server opt"
  let ?fs = "[initial_handshake opt now i, negotiation_timeout now i, handshake_acked i, keys_acked opt now i, send_reliable now i,
      incoming_ciphertext env i, incoming_plaintext env i, send_key env rnd opt i, receive_key env opt i, outgoing_plaintext env i,
      outgoing_ciphertext env i]"
  have "stage_ok ?s i (foldr then_stage ?fs (\<lambda>p. Some (Next, p)))"
    by (rule stage_ok_foldr) (simp add: initial_handshake_ok negotiation_timeout_ok handshake_acked_ok keys_acked_ok send_reliable_ok incoming_ciphertext_ok
      incoming_plaintext_ok send_key_ok receive_key_ok outgoing_plaintext_ok outgoing_ciphertext_ok)
  moreover have "foldr then_stage ?fs (\<lambda>p. Some (Next, p)) (p\<lparr>tp_change := False\<rparr>) = Some (Next, p')"
    using assms(2) by (simp only: tls_process_round_def)
  moreover have "i < n_sessions (p\<lparr>tp_change := False\<rparr>)" "\<not> tp_change (p\<lparr>tp_change := False\<rparr>)" using assms(1) by simp_all
  ultimately have "n_sessions p' = n_sessions (p\<lparr>tp_change := False\<rparr>) \<and> ks_work ?s (tp_ks i p') < ks_work ?s (tp_ks i (p\<lparr>tp_change := False\<rparr>))"
    using assms(3) unfolding stage_ok_def by blast
  then show "ks_work ?s (tp_ks i p') < ks_work ?s (tp_ks i p)" "n_sessions p' = n_sessions p" by simp_all
qed

lemma tls_process_loop_enough:
  assumes "i < n_sessions p" "ks_work (to_server opt) (tp_ks i p) < n"
  shows "tls_process_loop n env rnd opt now i p \<noteq> Some None" "n \<le> k \<Longrightarrow> tls_process_loop k env rnd opt now i p = tls_process_loop n env rnd opt now i p"
proof -
  have "tls_process_loop n env rnd opt now i p \<noteq> Some None \<and> (n \<le> k \<longrightarrow> tls_process_loop k env rnd opt now i p = tls_process_loop n env rnd opt now i p)"
    using assms
  proof (induction n arbitrary: p k)
    case 0
    then show ?case by simp
  next
    case (Suc n)
    note step = round_decreases[OF Suc.prems(1), of env rnd opt now]
    have IH: "tls_process_loop n env rnd opt now i p' \<noteq> Some None \<and> (n \<le> k' \<longrightarrow> tls_process_loop k' env rnd opt now i p' = tls_process_loop n env rnd opt now i p')"
      if "tls_process_round env rnd opt now i p = Some (Next, p')" "tp_change p'" for p' k'
      using Suc.IH[of p' k'] step[OF that] Suc.prems by simp
    show ?case
    proof (cases "tls_process_round env rnd opt now i p")
      case None
      then show ?thesis by (cases k) auto
    next
      case (Some r)
      obtain fl p' where r: "r = (fl, p')" by (cases r)
      show ?thesis
      proof (cases "fl = Next \<and> tp_change p'")
        case True
        then have rd: "tls_process_round env rnd opt now i p = Some (Next, p')" "tp_change p'" using Some r by simp_all
        then have e: "tls_process_loop (Suc j) env rnd opt now i p = tls_process_loop j env rnd opt now i p'" for j by simp
        show ?thesis using IH[OF rd, of "k - 1"] e[of n] e[of "k - 1"] by (cases k) simp_all
      next
        case False
        then show ?thesis using Some r by (cases k) auto
      qed
    qed
  qed
  then show "tls_process_loop n env rnd opt now i p \<noteq> Some None" "n \<le> k \<Longrightarrow> tls_process_loop k env rnd opt now i p = tls_process_loop n env rnd opt now i p"
    by simp_all
qed

lemma ks_inv_work:
  assumes "ks_inv f ks"
  shows "ks_work server ks < 40"
proof -
  have "length (rel_entries (ks_rec_reliable ks)) \<le> 8" "length (rel_entries (ks_send_reliable ks)) \<le> 8"
    using assms by (auto simp: ks_inv_def rel_ok_def wf_rel_def rel_entries_def)
  moreover have "used_slots rel \<le> length (rel_entries rel)" "free_slots rel \<le> length (rel_entries rel)" for rel by simp_all
  ultimately have "used_slots (ks_rec_reliable ks) \<le> 8" "free_slots (ks_send_reliable ks) \<le> 8" using order.trans by blast+
  then show ?thesis by (auto simp: ks_work_def)
qed

lemma tls_process_start_inv:
  assumes "options_ok opt" "session_inv (to_frame opt) s" "tls_process_start env opt now s wakeup = Some (s', w)"
  shows "session_inv (to_frame opt) s'"
proof -
  obtain s1 where s1: "(if needs_soft_reset opt now (ts_primary s) then key_state_soft_reset env opt now s else Some s) = Some s1"
    "s' = s1 \<or> s' = s1\<lparr>ts_lame_duck := key_state_free (ts_lame_duck s1) True\<rparr>"
    using assms(3) by (auto simp: tls_process_start_def Let_def bind_eq_Some_conv split: if_splits)
  have "session_inv (to_frame opt) s1"
    using s1(1) key_state_soft_reset_ok[OF assms(1,2), of env now] assms(2) by (auto split: if_splits)
  then show ?thesis using s1(2) by (auto simp: session_inv_def)
qed

text \<open>
  C13: the handshake loop of tls_process ends.  From every state that satisfies the invariant of the sessions the loop
  takes at most forty rounds, whatever OpenSSL and the plug-ins answer and whatever the peer has sent: a larger bound
  gives the same result, and the bound is never reached.  Each round that goes on has moved the handshake
  forward, delivered an entry of the receive window, filled an entry of the send window, or moved a plaintext buffer.
\<close>

theorem tls_process_loop_terminates:
  assumes "multi_inv (tp_multi p)" "usable_session (tp_multi p) i" "opt = tm_opt (tp_multi p)"
    "tls_process_start env opt now (tp_session i p) wakeup = Some (session, w)"
    "q = p\<lparr>tp_multi := upd_session i (\<lambda>_. session) (tp_multi p), tp_active := False\<rparr>" "40 \<le> n"
  shows "tls_process_loop n env rnd opt now i q \<noteq> Some None \<and> tls_process_loop n env rnd opt now i q = tls_process_loop 40 env rnd opt now i q"
proof -
  note u = usable_session_inv[OF assms(1,2)]
  have "session_inv (to_frame opt) session"
    using tls_process_start_inv[OF _ _ assms(4)] assms(1,3) u by (simp add: multi_inv_def tp_session_def)
  then have k: "ks_work (to_server opt) (ts_primary session) < 40" by (auto simp: session_inv_def intro: ks_inv_work)
  have i: "i < n_sessions q" using u by (simp add: assms(5) n_sessions_def)
  have "tp_ks i q = ts_primary session" using u by (simp add: assms(5) tp_ks_def tp_session_def upd_session_nth)
  then show ?thesis
    using tls_process_loop_enough(1)[OF i, of opt 40] tls_process_loop_enough(2)[OF i, of opt 40 n env rnd now] k assms(6) by simp
qed

lemma tls_session_init_fresh:
  assumes "tls_session_init env opt persist rnd = Some s"
  shows "ks_state (ts_primary s) = 1" "ts_lame_duck s = clear_key_state"
proof -
  obtain s1 s2 ks where k: "key_state_init env opt s1 = Some (s2, ks)" "s = s2\<lparr>ts_primary := ks\<rparr>" "ts_lame_duck s1 = clear_key_state"
    using assms by (auto simp: tls_session_init_def Let_def bind_eq_Some_conv clear_session_def simp del: session_id_draw.simps split: if_splits)
  have "ks_state ks = 1" "ts_lame_duck s2 = ts_lame_duck s1"
    using k(1) by (auto simp: key_state_init_def Let_def bind_eq_Some_conv)
  then show "ks_state (ts_primary s) = 1" "ts_lame_duck s = clear_key_state" using k(2,3) by simp_all
qed

lemma init_finalize_fresh:
  assumes "tls_multi_init_finalize env (tls_multi_init opt persist) f r1 r2 = Some m"
  shows "ks_state (ts_primary (tm_session m ! 0)) = 1" "ts_lame_duck (tm_session m ! 0) = clear_key_state"
proof -
  obtain o1 s where m1: "tls_session_init env o1 persist r1 = Some s" "tm_session m ! 0 = s"
    using assms by (auto simp: tls_multi_init_finalize_def reset_session_def tls_multi_init_def Let_def bind_eq_Some_conv upd_session_def split: if_splits)
  then show "ks_state (ts_primary (tm_session m ! 0)) = 1" "ts_lame_duck (tm_session m ! 0) = clear_key_state"
    using tls_session_init_fresh[OF m1(1)] m1(2) by simp_all
qed

lemma start_fresh:
  assumes "ks_state (ts_primary s) = 1" "ts_lame_duck s = clear_key_state" "session_id_defined (ts_session_id s)"
  shows "tls_process_start env opt now s w = Some (s, w)"
  using assms by (simp add: tls_process_start_def needs_soft_reset_def lame_duck_must_die_def clear_key_state_def)

theorem tls_process_loop_terminates_witness:
  "\<exists>m. tls_multi_init_finalize toy_env (tls_multi_init (toy_opt True) None) udp_frame [replicate 8 1] [replicate 8 2] = Some m \<and>
     tls_process_loop 100 toy_env \<lparr>kr_method_1 = [], kr_pre_master = [], kr_random1 = [], kr_random2 = [], kr_auth = None\<rparr> (tm_opt m) 2 0
       \<lparr>tp_multi = m, tp_to_link = clear_buf, tp_to_link_addr = clear_addr,
        tp_info = \<lparr>li_lsa = \<lparr>lsa_local = clear_addr, lsa_remote = clear_addr, lsa_actual = clear_addr\<rparr>, li_connection_established = False,
          li_remote_float = False, li_proto = 0\<rparr>, tp_active = False, tp_change = False\<rparr> \<noteq> Some None"
proof -
  obtain m where m: "tls_multi_init_finalize toy_env (tls_multi_init (toy_opt True) None) udp_frame [replicate 8 1] [replicate 8 2] = Some m"
    "multi_inv m" by (rule toy_started)
  let ?p = "\<lparr>tp_multi = m, tp_to_link = clear_buf, tp_to_link_addr = clear_addr,
        tp_info = \<lparr>li_lsa = \<lparr>lsa_local = clear_addr, lsa_remote = clear_addr, lsa_actual = clear_addr\<rparr>, li_connection_established = False,
          li_remote_float = False, li_proto = 0\<rparr>, tp_active = False, tp_change = False\<rparr>"
  have u: "usable_session (tp_multi ?p) 0" by (simp add: usable_session_def)
  have "session_id_defined (ts_session_id (tm_session m ! 0))" using m(2) by (simp add: multi_inv_def session_inv_def)
  then have st: "tls_process_start toy_env (tm_opt m) 2 (tp_session 0 ?p) 10 = Some (tm_session m ! 0, 10)"
    using start_fresh[OF init_finalize_fresh[OF m(1)]] by (simp add: tp_session_def)
  have "?p = ?p\<lparr>tp_multi := upd_session 0 (\<lambda>_. tm_session m ! 0) (tp_multi ?p), tp_active := False\<rparr>" by (simp add: upd_session_def)
  note stop = conjunct1[OF tls_process_loop_terminates[OF _ u _ st this, of 100
      "\<lparr>kr_method_1 = [], kr_pre_master = [], kr_random1 = [], kr_random2 = [], kr_auth = None\<rparr>"]]
  show ?thesis by (rule exI[of _ m], rule conjI[OF m(1)], rule stop) (simp_all add: m(2))
qed

end
