(* ===== verification/Tls_Keyed.thy ===== *)
theory Tls_Keyed
  imports Tls_Handshake
begin

text \<open>
  Data packets and keys: an invariant of the key states, kept by everything that changes them, says in which states the contexts of
  the data channel are set up, so that no packet is sent in the clear.
\<close>

section \<open>No data without keys\<close>

text \<open>A context is ready when it has what the configured cipher and digest ask for.\<close>

definition ctx_ready :: "key_type \<Rightarrow> key_ctx \<Rightarrow> bool" where
  "ctx_ready kt ctx \<longleftrightarrow> (kt_cipher kt \<noteq> None \<and> uint (cipher_length kt) > 0 \<longrightarrow> ctx_cipher ctx \<noteq> None) \<and>
     (kt_digest kt \<and> uint (hmac_length kt) > 0 \<longrightarrow> ctx_hmac ctx \<noteq> None)"

lemma init_key_ctx_ready: "init_key_ctx lib k kt enc = Some ctx \<Longrightarrow> ctx_ready kt ctx"
  by (auto simp: init_key_ctx_def ctx_ready_def bind_eq_Some_conv split: option.splits if_splits)

lemma generate_key_expansion_ready:
  "generate_key_expansion lib junk kt src s1 s2 server = Some (Some key) \<Longrightarrow> ctx_ready kt (kc_encrypt key) \<and> ctx_ready kt (kc_decrypt key)"
  by (auto simp: generate_key_expansion_def bind_eq_Some_conv init_key_ctx_ready split: option.splits)

text \<open>
  What a key state holds in each state: an authenticated one is ready in both directions once it is active, on a client
  already when the key of the server has arrived and on a server when it has sent its own.  With key method 1 each
  message brings the key of one direction.
\<close>

definition ks_keyed :: "tls_options \<Rightarrow> 'ssl key_state \<Rightarrow> bool" where
  "ks_keyed opt ks \<longleftrightarrow>
     (ks_authenticated ks \<and> (ks_state ks \<ge> S_ACTIVE \<or> (if to_server opt then ks_state ks = S_SENT_KEY else ks_state ks = S_GOT_KEY)) \<longrightarrow>
        ctx_ready (to_key_type opt) (kc_encrypt (ks_key ks)) \<and> ctx_ready (to_key_type opt) (kc_decrypt (ks_key ks))) \<and>
     (to_key_method opt = 1 \<and> \<not> to_server opt \<and> ks_state ks = S_SENT_KEY \<longrightarrow> ctx_ready (to_key_type opt) (kc_encrypt (ks_key ks))) \<and>
     (to_key_method opt = 1 \<and> to_server opt \<and> ks_state ks = S_GOT_KEY \<longrightarrow> ctx_ready (to_key_type opt) (kc_decrypt (ks_key ks)))"

definition session_keyed :: "tls_options \<Rightarrow> 'ssl tls_session \<Rightarrow> bool" where
  "session_keyed opt s \<longleftrightarrow> ks_keyed opt (ts_primary s) \<and> ks_keyed opt (ts_lame_duck s)"

definition multi_keyed :: "tls_options \<Rightarrow> 'ssl tls_multi \<Rightarrow> bool" where
  "multi_keyed opt m \<longleftrightarrow> tm_opt m = opt \<and> length (tm_session m) = TM_SIZE \<and> (\<forall>s \<in> set (tm_session m). session_keyed opt s)"

lemma ks_keyed_clear [simp]: "ks_keyed opt clear_key_state" "ks_keyed opt (key_state_free ks c)"
  by (simp_all add: ks_keyed_def clear_key_state_def key_state_free_def)

lemma ks_keyed_early: "ks_state ks \<le> S_START \<Longrightarrow> ks_keyed opt ks"
  by (auto simp: ks_keyed_def)

lemma ks_keyed_fields [simp]:
  "ks_keyed opt (ks\<lparr>ks_ssl := a\<rparr>) = ks_keyed opt ks" "ks_keyed opt (ks\<lparr>ks_must_die := t\<rparr>) = ks_keyed opt ks"
  "ks_keyed opt (ks\<lparr>ks_established := t\<rparr>) = ks_keyed opt ks" "ks_keyed opt (ks\<lparr>ks_must_negotiate := t\<rparr>) = ks_keyed opt ks"
  "ks_keyed opt (ks\<lparr>ks_send_reliable := rel\<rparr>) = ks_keyed opt ks" "ks_keyed opt (ks\<lparr>ks_rec_reliable := rel\<rparr>) = ks_keyed opt ks"
  "ks_keyed opt (ks\<lparr>ks_rec_ack := ack\<rparr>) = ks_keyed opt ks" "ks_keyed opt (ks\<lparr>ks_plaintext_read_buf := b\<rparr>) = ks_keyed opt ks"
  "ks_keyed opt (ks\<lparr>ks_plaintext_write_buf := b\<rparr>) = ks_keyed opt ks" "ks_keyed opt (ks\<lparr>ks_ack_write_buf := b\<rparr>) = ks_keyed opt ks"
  "ks_keyed opt (ks\<lparr>ks_remote_addr := ad\<rparr>) = ks_keyed opt ks" "ks_keyed opt (ks\<lparr>ks_session_id_remote := sid\<rparr>) = ks_keyed opt ks"
  "ks_keyed opt (ks\<lparr>ks_key_src := src\<rparr>) = ks_keyed opt ks" "ks_keyed opt (ks\<lparr>ks_packet_id := pid\<rparr>) = ks_keyed opt ks"
  "ks_keyed opt (ks\<lparr>ks_n_packets := n\<rparr>) = ks_keyed opt ks" "ks_keyed opt (ks\<lparr>ks_n_bytes := n\<rparr>) = ks_keyed opt ks"
  by (simp_all add: ks_keyed_def)

lemma ks_keyed_unauth: "ks_keyed opt ks \<Longrightarrow> ks_keyed opt (ks\<lparr>ks_authenticated := False\<rparr>)"
  by (simp add: ks_keyed_def)

lemma multi_keyed_session: "multi_keyed opt m \<Longrightarrow> i < TM_SIZE \<Longrightarrow> session_keyed opt (tm_session m ! i)"
  by (simp add: multi_keyed_def)

lemma multi_keyed_upd:
  assumes "multi_keyed opt m" "i < TM_SIZE \<Longrightarrow> session_keyed opt (f (tm_session m ! i))"
  shows "multi_keyed opt (upd_session i f m)"
proof (cases "i < TM_SIZE")
  case True
  then show ?thesis using assms set_update_subset_insert[of "tm_session m" i "f (tm_session m ! i)"]
    by (auto simp: multi_keyed_def upd_session_def)
next
  case False
  then have "upd_session i f m = m" using assms(1) by (simp add: multi_keyed_def upd_session_def list_update_beyond not_less)
  then show ?thesis using assms(1) by simp
qed

lemma multi_keyed_fields [simp]:
  "multi_keyed opt (m\<lparr>tm_pid_persist := a\<rparr>) = multi_keyed opt m" "multi_keyed opt (m\<lparr>tm_n_soft_errors := n\<rparr>) = multi_keyed opt m"
  "multi_keyed opt (m\<lparr>tm_n_hard_errors := n\<rparr>) = multi_keyed opt m" "multi_keyed opt (m\<lparr>tm_n_sessions := n\<rparr>) = multi_keyed opt m"
  "multi_keyed opt (m\<lparr>tm_save_ks := k\<rparr>) = multi_keyed opt m" "multi_keyed opt (m\<lparr>tm_locked_cn := c\<rparr>) = multi_keyed opt m"
  "multi_keyed opt (soft_error m) = multi_keyed opt m"
  by (simp_all add: multi_keyed_def soft_error_def)

lemma multi_keyed_deauth: "multi_keyed opt m \<Longrightarrow> multi_keyed opt (tls_deauthenticate m)"
  by (auto simp: multi_keyed_def tls_deauthenticate_def session_keyed_def ks_keyed_unauth)

text \<open>New sessions.\<close>

lemma key_state_init_keyed:
  "returns (key_state_init env opt s) (\<lambda>(s', ks). ks_keyed opt' ks \<and> ks_state ks = S_INITIAL \<and> ts_primary s' = ts_primary s \<and> ts_lame_duck s' = ts_lame_duck s)"
  unfolding key_state_init_def Let_def by (intro returns_intros) (auto simp: ks_keyed_def)

lemma tls_session_init_keyed: "tls_session_init env opt persist rnd = Some s \<Longrightarrow> session_keyed opt' s"
  using tls_session_init_fresh[of env opt persist rnd s] by (simp add: session_keyed_def ks_keyed_early)

lemma soft_reset_keyed:
  assumes "session_keyed opt s" "key_state_soft_reset env opt' now s = Some s'"
  shows "session_keyed opt s'"
proof -
  obtain s1 ks where k: "key_state_init env opt' (s\<lparr>ts_lame_duck := (ts_primary s)\<lparr>ks_must_die := now + to_transition_window opt'\<rparr>\<rparr>) = Some (s1, ks)"
    "s' = s1\<lparr>ts_primary := ks\<lparr>ks_session_id_remote := ks_session_id_remote (ts_primary s), ks_remote_addr := ks_remote_addr (ts_primary s)\<rparr>\<rparr>"
    using assms(2) by (auto simp: key_state_soft_reset_def Let_def bind_eq_Some_conv)
  then show ?thesis
    using key_state_init_keyed[of env opt' "s\<lparr>ts_lame_duck := (ts_primary s)\<lparr>ks_must_die := now + to_transition_window opt'\<rparr>\<rparr>" opt] assms(1)
    by (auto simp: returns_def session_keyed_def)
qed

lemma reset_session_keyed: "multi_keyed opt m \<Longrightarrow> reset_session env m i rnd = Some m' \<Longrightarrow> multi_keyed opt m'"
  by (auto simp: reset_session_def bind_eq_Some_conv intro!: multi_keyed_upd intro: tls_session_init_keyed)

lemma move_session_keyed:
  assumes "multi_keyed opt m" "move_session env m dest src reinit rnd = Some m'"
  shows "multi_keyed opt m'"
proof -
  let ?m = "upd_session dest (\<lambda>_. tm_session m ! src) m"
  obtain s where s: "src < TM_SIZE" "(if reinit then tls_session_init env (tm_opt ?m) (tm_pid_persist ?m) rnd else Some clear_session) = Some s"
    "m' = upd_session src (\<lambda>_. s) ?m"
    using assms(2) by (auto simp: move_session_def Let_def bind_eq_Some_conv split: if_splits)
  have "multi_keyed opt ?m" using assms(1) s(1) by (intro multi_keyed_upd) (simp_all add: multi_keyed_session)
  moreover have "session_keyed opt s"
    using s(2) by (cases reinit) (auto dest: tls_session_init_keyed simp: clear_session_def session_keyed_def)
  ultimately show ?thesis unfolding s(3) by (rule multi_keyed_upd)
qed

abbreviation tp_keyed :: "tls_options \<Rightarrow> 'ssl tls_proc \<Rightarrow> bool" where
  "tp_keyed opt p \<equiv> multi_keyed opt (tp_multi p)"

definition stage_keyed :: "tls_options \<Rightarrow> 'ssl stage \<Rightarrow> bool" where
  "stage_keyed opt f \<longleftrightarrow> (\<forall>p. tp_keyed opt p \<longrightarrow> returns (f p) (\<lambda>(fl, p'). tp_keyed opt p'))"

lemma stage_keyedI: "(\<And>p. tp_keyed opt p \<Longrightarrow> returns (f p) (\<lambda>(fl, p'). tp_keyed opt p')) \<Longrightarrow> stage_keyed opt f"
  by (simp add: stage_keyed_def)

lemma stage_keyed_then:
  assumes "stage_keyed opt f" "stage_keyed opt g"
  shows "stage_keyed opt (then_stage f g)"
proof (rule stage_keyedI, unfold returns_def, intro allI impI)
  fix p r assume p: "tp_keyed opt p" "then_stage f g p = Some r"
  then obtain fl p1 where f: "f p = Some (fl, p1)" "(if fl = Next then g p1 else Some (fl, p1)) = Some r"
    by (auto simp: then_stage_def bind_eq_Some_conv)
  have k: "tp_keyed opt p1" using assms(1) p(1) f(1) by (auto simp: stage_keyed_def returns_def)
  then show "case r of (fl, p') \<Rightarrow> tp_keyed opt p'"
    using assms(2) f(2) by (cases "fl = Next") (auto simp: stage_keyed_def returns_def)
qed

lemma stage_keyed_foldr: "\<forall>f \<in> set fs. stage_keyed opt f \<Longrightarrow> stage_keyed opt (foldr then_stage fs (\<lambda>p. Some (Next, p)))"
proof (induction fs)
  case Nil
  show ?case by (simp add: stage_keyed_def returns_def)
next
  case (Cons f fs)
  then show ?case using stage_keyed_then[of opt f "foldr then_stage fs (\<lambda>p. Some (Next, p))"] by simp
qed

lemma tp_keyed_ks: "tp_keyed opt p \<Longrightarrow> i < TM_SIZE \<Longrightarrow> ks_keyed opt (tp_ks i p)"
  using multi_keyed_session[of opt "tp_multi p" i] by (simp add: tp_ks_def tp_session_def session_keyed_def)

lemma tp_keyed_put: "tp_keyed opt p \<Longrightarrow> (i < TM_SIZE \<Longrightarrow> ks_keyed opt ks) \<Longrightarrow> tp_keyed opt (put_ks i ks p)"
  by (auto simp: put_ks_def session_keyed_def intro!: multi_keyed_upd dest: multi_keyed_session)

lemma tp_keyed_changed [simp]: "tp_keyed opt (changed p) = tp_keyed opt p"
  by (simp add: changed_def)

lemma put_ssl_keyed:
  assumes "put_ssl env i certs ssl m = Some m'" "multi_keyed opt m"
  shows "multi_keyed opt m'"
proof -
  have lame: "verify_chain env opt' xs s = Some s' \<Longrightarrow> ts_lame_duck s' = ts_lame_duck s" for opt' xs s s'
  proof (induction xs arbitrary: s)
    case (Cons x xs)
    then obtain ok s1 where x: "verify_callback env opt' x s = Some (ok, s1)" "verify_chain env opt' xs s1 = Some s'"
      by (auto simp: bind_eq_Some_conv)
    have "ts_lame_duck s1 = ts_lame_duck s"
      using x(1) unfolding verify_callback_def Let_def
      by (auto simp: set_common_name_def bind_eq_Some_conv simp del: split_paired_Ex split: if_splits)
    then show ?case using Cons.IH[OF x(2)] by simp
  qed simp
  obtain s where s: "verify_chain env (tm_opt m) certs (tm_session m ! i) = Some s"
    "m' = upd_session i (\<lambda>_. s\<lparr>ts_primary := (ts_primary s)\<lparr>ks_ssl := Some ssl\<rparr>\<rparr>) m"
    using assms(1) by (auto simp: put_ssl_def bind_eq_Some_conv)
  have "session_keyed opt (s\<lparr>ts_primary := (ts_primary s)\<lparr>ks_ssl := Some ssl\<rparr>\<rparr>)" if "i < TM_SIZE"
    using multi_keyed_session[OF assms(2) that] lame[OF s(1)] verify_chain_primary[OF s(1)] by (simp add: session_keyed_def)
  with assms(2) show ?thesis unfolding s(2) by (rule multi_keyed_upd)
qed

lemma bio_keyed:
  assumes "multi_keyed opt m"
  shows "key_state_write_ciphertext env m i b = Some (st, b', m') \<Longrightarrow> multi_keyed opt m'"
    "key_state_write_plaintext env m i b = Some (st, b', m') \<Longrightarrow> multi_keyed opt m'"
    "key_state_write_plaintext_const env m i d = Some (st, m') \<Longrightarrow> multi_keyed opt m'"
    "key_state_read_plaintext env m i b n = Some (st, b', m') \<Longrightarrow> multi_keyed opt m'"
    "key_state_read_ciphertext env m i b n = Some (st, b', m') \<Longrightarrow> multi_keyed opt m'"
  using assms
  by (auto simp: key_state_write_ciphertext_def key_state_write_plaintext_def key_state_write_plaintext_const_def key_state_read_plaintext_def
    key_state_read_ciphertext_def Let_def bind_eq_Some_conv case_prod_beta split: if_splits dest: put_ssl_keyed)

lemma initial_handshake_keyed: "stage_keyed opt (initial_handshake opt' now i)"
  unfolding initial_handshake_def Let_def
  by (intro stage_keyedI returns_intros) (auto intro!: tp_keyed_put simp: tp_keyed_ks ks_keyed_early)

lemma negotiation_timeout_keyed: "stage_keyed opt (negotiation_timeout now i)"
  unfolding negotiation_timeout_def Let_def
proof (intro stage_keyedI returns_intros)
  fix p :: "'a tls_proc" assume "tp_keyed opt p" "\<not> ks_state (tp_ks i p) < 6"
  then show "case (Next, put_ks i ((tp_ks i p)\<lparr>ks_state := 7, ks_must_negotiate := 0\<rparr>) p) of (fl, p') \<Rightarrow> tp_keyed opt p'"
    using tp_keyed_ks[of opt p i] by (auto intro!: tp_keyed_put simp: ks_keyed_def)
qed simp_all

lemma handshake_acked_keyed: "stage_keyed opt (handshake_acked i)"
  unfolding handshake_acked_def Let_def
  by (intro stage_keyedI returns_intros) (auto intro!: tp_keyed_put simp: ks_keyed_early)

lemma keys_acked_keyed: "stage_keyed opt (keys_acked opt now i)"
  unfolding keys_acked_def Let_def
proof (intro stage_keyedI returns_intros)
  fix p :: "'a tls_proc" assume p: "tp_keyed opt p" "(ks_state (tp_ks i p) = 5 \<and> \<not> to_server opt \<or> ks_state (tp_ks i p) = 4 \<and> to_server opt) \<and> FULL_SYNC (tp_ks i p)"
  have "ks_keyed opt ((tp_ks i p)\<lparr>ks_established := now, ks_state := 6\<rparr>)" if "i < 3" using tp_keyed_ks[OF p(1) that] p(2) by (auto simp: ks_keyed_def)
  then show "case (Next, changed (put_ks i ((tp_ks i p)\<lparr>ks_established := now, ks_state := 6\<rparr>) p)
         \<lparr>tp_info := link_socket_set_outgoing_addr None (tp_info (changed (put_ks i ((tp_ks i p)\<lparr>ks_established := now, ks_state := 6\<rparr>) p)))
             (ks_remote_addr (tp_ks i p))\<rparr>) of (fl, p') \<Rightarrow> tp_keyed opt p'"
    using tp_keyed_put[OF p(1)] by (simp add: changed_def)
qed simp_all

lemma write_control_auth_ks:
  "returns (write_control_auth now f s b opc mx pre)
     (\<lambda>(b', a, s'). (\<exists>ack. ts_primary s' = (ts_primary s)\<lparr>ks_rec_ack := ack\<rparr>) \<and> ts_lame_duck s' = ts_lame_duck s)"
  unfolding write_control_auth_def Let_def by (intro returns_any) auto

lemma session_write_auth_keyed:
  fixes p :: "'ssl tls_proc"
  assumes "tp_keyed opt p"
  shows "returns (session_write_auth now i b opc mx pre p) (tp_keyed opt)"
  unfolding session_write_auth_def Let_def
proof (rule returns_step[OF write_control_auth_ks], clarsimp, rule returns_Some)
  fix b' a ack and s' :: "'ssl tls_session"
  assume w: "ts_primary s' = (ts_primary (tp_session i p))\<lparr>ks_rec_ack := ack\<rparr>" "ts_lame_duck s' = ts_lame_duck (tp_session i p)"
  have "session_keyed opt s'" if "i < TM_SIZE"
    using w multi_keyed_session[OF assms that] by (auto simp: session_keyed_def tp_session_def)
  with assms have "multi_keyed opt (upd_session i (\<lambda>_. s') (tp_multi p))" by (rule multi_keyed_upd)
  then show "tp_keyed opt (p\<lparr>tp_multi := (upd_session i (\<lambda>_. s') (tp_multi p))\<lparr>tm_pid_persist := co_pid_persist (ts_tls_auth s')\<rparr>,
       tp_to_link := b', tp_to_link_addr := a, tp_active := True, tp_change := True\<rparr>)" by simp
qed

lemma session_write_auth_bind:
  "tp_keyed opt p \<Longrightarrow> (\<And>p'. tp_keyed opt p' \<Longrightarrow> returns (f p') Q) \<Longrightarrow> returns (session_write_auth now i b opc mx pre p \<bind> f) Q"
  by (rule returns_step[OF session_write_auth_keyed])

text \<open>Calls of OpenSSL within a stage.\<close>

lemma bio_bind:
  assumes "multi_keyed opt m" "\<And>st b' m'. multi_keyed opt m' \<Longrightarrow> returns (f st b' m') Q"
  shows "returns (key_state_write_plaintext env m i b \<bind> (\<lambda>(st, b', m'). f st b' m')) Q"
    "returns (key_state_read_plaintext env m i b n \<bind> (\<lambda>(st, b', m'). f st b' m')) Q"
    "returns (key_state_read_ciphertext env m i b n \<bind> (\<lambda>(st, b', m'). f st b' m')) Q"
    "returns ((if c then key_state_write_ciphertext env m i b else Some (s, b2, m)) \<bind> (\<lambda>(st, b', m'). f st b' m')) Q"
proof -
  have st: "returns (g \<bind> (\<lambda>(st, b', m'). f st b' m')) Q" if "\<And>st b' m'. g = Some (st, b', m') \<Longrightarrow> multi_keyed opt m'" for g
    by (rule returns_bind) (use that assms(2) in auto)
  show "returns (key_state_write_plaintext env m i b \<bind> (\<lambda>(st, b', m'). f st b' m')) Q"
    "returns (key_state_read_plaintext env m i b n \<bind> (\<lambda>(st, b', m'). f st b' m')) Q"
    "returns (key_state_read_ciphertext env m i b n \<bind> (\<lambda>(st, b', m'). f st b' m')) Q"
    by (rule st, erule bio_keyed[OF assms(1)])+
  show "returns ((if c then key_state_write_ciphertext env m i b else Some (s, b2, m)) \<bind> (\<lambda>(st, b', m'). f st b' m')) Q"
    by (rule st) (auto split: if_splits intro: bio_keyed(1)[OF assms(1)] assms(1))
qed

lemmas keyed_binds = session_write_auth_bind bio_bind

lemma send_reliable_keyed: "stage_keyed opt (send_reliable now i)"
  unfolding send_reliable_def Let_def
  by (intro stage_keyedI keyed_binds[where opt = opt] returns_any) (simp_all add: tp_keyed_put tp_keyed_ks)

lemma incoming_ciphertext_keyed: "stage_keyed opt (incoming_ciphertext env i)"
  unfolding incoming_ciphertext_def Let_def
  by (intro stage_keyedI keyed_binds[where opt = opt] returns_any) (simp_all add: tp_keyed_put tp_keyed_ks)

lemma incoming_plaintext_keyed: "stage_keyed opt (incoming_plaintext env i)"
  unfolding incoming_plaintext_def Let_def
  by (intro stage_keyedI keyed_binds[where opt = opt] returns_any) (simp_all add: tp_keyed_put tp_keyed_ks)

lemma outgoing_plaintext_keyed: "stage_keyed opt (outgoing_plaintext env i)"
  unfolding outgoing_plaintext_def Let_def
  by (intro stage_keyedI keyed_binds[where opt = opt] returns_any) (simp_all add: tp_keyed_put tp_keyed_ks)

lemma outgoing_ciphertext_keyed: "stage_keyed opt (outgoing_ciphertext env i)"
  unfolding outgoing_ciphertext_def Let_def
  by (intro stage_keyedI keyed_binds[where opt = opt] returns_any) (simp_all add: tp_keyed_put tp_keyed_ks)

lemma key_method_1_write_keys:
  "returns (key_method_1_write env opt rnd b ks)
     (\<lambda>(ok, b', ks'). ks_state ks' = ks_state ks \<and> ks_authenticated ks' = ks_authenticated ks \<and> kc_decrypt (ks_key ks') = kc_decrypt (ks_key ks) \<and>
        (ok \<longrightarrow> ctx_ready (to_key_type opt) (kc_encrypt (ks_key ks'))))"
  unfolding key_method_1_write_def Let_def by (intro returns_intros) (auto dest: init_key_ctx_ready)

lemma key_method_1_read_keys:
  "returns (key_method_1_read env opt v b ks)
     (\<lambda>(ok, b', ks'). ks_state ks' = ks_state ks \<and> kc_encrypt (ks_key ks') = kc_encrypt (ks_key ks) \<and>
        (if ok then ctx_ready (to_key_type opt) (kc_decrypt (ks_key ks')) else ks' = ks))"
  unfolding key_method_1_read_def Let_def by (intro returns_intros) (auto dest: init_key_ctx_ready)

lemma km2_expansion:
  assumes "(if a then do {
       r \<leftarrow> generate_key_expansion lib junk kt src s1 s2 True;
       Some (map_option (\<lambda>ctx. ks\<lparr>ks_key := ctx\<rparr>) r) } else Some (Some ks)) = Some (Some ks')"
  shows "ks_state ks' = ks_state ks \<and> ks_authenticated ks' = ks_authenticated ks \<and>
    (a \<longrightarrow> ctx_ready kt (kc_encrypt (ks_key ks')) \<and> ctx_ready kt (kc_decrypt (ks_key ks')))"
  using assms generate_key_expansion_ready[of lib junk kt src s1 s2 True] by (auto simp: bind_eq_Some_conv split: if_splits)

lemma key_method_2_write_keys:
  "returns (key_method_2_write env opt auth rp r1 r2 sid b ks)
     (\<lambda>(ok, b', ks'). ks_state ks' = ks_state ks \<and> ks_authenticated ks' = ks_authenticated ks \<and>
        (ok \<and> to_server opt \<and> ks_authenticated ks \<longrightarrow> ctx_ready (to_key_type opt) (kc_encrypt (ks_key ks')) \<and> ctx_ready (to_key_type opt) (kc_decrypt (ks_key ks'))))"
  unfolding key_method_2_write_def Let_def
  by (intro returns_intros) (auto dest: km2_expansion)

lemma send_key_keyed: "stage_keyed opt (send_key env rnd opt i)"
  unfolding send_key_def Let_def
proof (rule stage_keyedI, rule returns_if)
  fix p :: "'a tls_proc"
  let ?ks = "tp_ks i p" and ?b = "ks_plaintext_write_buf (tp_ks i p)"
  assume p: "tp_keyed opt p" and c: "len ?b = 0 \<and> (ks_state ?ks = 3 \<and> \<not> to_server opt \<or> ks_state ?ks = 5 \<and> to_server opt)"
  let ?w = "if to_key_method opt = 1 then key_method_1_write env opt (kr_method_1 rnd) ?b ?ks
         else if to_key_method opt = 2 then
           key_method_2_write env opt (kr_auth rnd) (kr_pre_master rnd) (kr_random1 rnd) (kr_random2 rnd) (ts_session_id (tp_session i p)) ?b ?ks
         else None"
  have old: "i < 3 \<Longrightarrow> ks_keyed opt ?ks" using tp_keyed_ks[OF p] .
  have w: "returns ?w (\<lambda>(ok, b', ks'). i < 3 \<longrightarrow> ks_keyed opt (if ok then ks'\<lparr>ks_state := 4\<rparr> else ks'))"
  proof (cases "to_key_method opt = 1")
    case True
    have "ks_keyed opt (if ok then ks'\<lparr>ks_state := 4\<rparr> else ks')"
      if "i < 3" "ks_state ks' = ks_state ?ks" "ks_authenticated ks' = ks_authenticated ?ks" "kc_decrypt (ks_key ks') = kc_decrypt (ks_key ?ks)"
        "ok \<longrightarrow> ctx_ready (to_key_type opt) (kc_encrypt (ks_key ks'))" for ok and ks' :: "'a key_state"
      using old[OF that(1)] that(2-5) c True unfolding ks_keyed_def by (cases ok; cases "to_server opt") simp_all
    note k = this
    show ?thesis unfolding if_P[OF True] by (rule returns_mono[OF key_method_1_write_keys]) (auto split del: if_split intro: k)
  next
    case False
    have "ks_keyed opt (if ok then ks'\<lparr>ks_state := 4\<rparr> else ks')"
      if "ks_state ks' = ks_state ?ks" "ks_authenticated ks' = ks_authenticated ?ks"
        "ok \<and> to_server opt \<and> ks_authenticated ?ks \<longrightarrow> ctx_ready (to_key_type opt) (kc_encrypt (ks_key ks')) \<and> ctx_ready (to_key_type opt) (kc_decrypt (ks_key ks'))"
      for ok and ks' :: "'a key_state"
      using that c False unfolding ks_keyed_def by (cases ok; cases "to_server opt") simp_all
    note k = this
    show ?thesis unfolding if_not_P[OF False]
      by (rule returns_if[OF returns_mono[OF key_method_2_write_keys] returns_None]) (auto split del: if_split intro: k)
  qed
  show "returns (?w \<bind> (\<lambda>(ok, b, ks). Some (if ok then (Next, changed (put_ks i (ks\<lparr>ks_plaintext_write_buf := b, ks_state := 4\<rparr>) p))
       else (Error, put_ks i (ks\<lparr>ks_plaintext_write_buf := b\<rparr>) p)))) (\<lambda>(fl, p'). tp_keyed opt p')"
  proof (rule returns_step[OF w], clarify, rule returns_Some, clarify)
    fix ok b ks fl p' assume a: "i < 3 \<longrightarrow> ks_keyed opt (if ok then ks\<lparr>ks_state := 4\<rparr> else ks)"
      "(if ok then (Next, changed (put_ks i (ks\<lparr>ks_plaintext_write_buf := b, ks_state := 4\<rparr>) p))
       else (Error, put_ks i (ks\<lparr>ks_plaintext_write_buf := b\<rparr>) p)) = (fl, p')"
    have "ks_keyed opt (ks\<lparr>ks_plaintext_write_buf := b, ks_state := 4\<rparr>) = ks_keyed opt (ks\<lparr>ks_state := 4\<rparr>)" by (simp add: ks_keyed_def)
    then show "tp_keyed opt p'" using a by (cases ok) (auto intro!: tp_keyed_put simp: p)
  qed
qed (simp add: returns_def)

text \<open>While the key of the peer is being read nothing depends on the keys.\<close>

definition km2_pending :: "tls_options \<Rightarrow> nat \<Rightarrow> 'ssl tls_multi \<Rightarrow> bool" where
  "km2_pending opt i m \<longleftrightarrow> multi_keyed opt m \<and> i < TM_SIZE \<and> to_key_method opt = 2 \<and>
     (ks_state (ts_primary (tm_session m ! i)) = S_START \<or> ks_state (ts_primary (tm_session m ! i)) = S_SENT_KEY \<and> \<not> to_server opt)"

lemma km2_pending_put:
  assumes "km2_pending opt i m" "\<And>ks. ks_state (f ks) = ks_state ks"
  shows "km2_pending opt i (upd_session i (\<lambda>s. s\<lparr>ts_primary := f (ts_primary s)\<rparr>) m)"
proof -
  let ?s = "tm_session m ! i"
  have i: "i < length (tm_session m)" "i < TM_SIZE" using assms(1) by (auto simp: km2_pending_def multi_keyed_def)
  have "ks_keyed opt (f (ts_primary ?s))" using assms by (auto simp: km2_pending_def ks_keyed_def)
  moreover have "ks_keyed opt (ts_lame_duck ?s)"
    using assms(1) multi_keyed_session[of opt m i] by (simp add: km2_pending_def session_keyed_def)
  ultimately have "multi_keyed opt (upd_session i (\<lambda>s. s\<lparr>ts_primary := f (ts_primary s)\<rparr>) m)"
    using assms(1) by (intro multi_keyed_upd) (simp_all add: km2_pending_def session_keyed_def)
  then show ?thesis using assms i by (simp add: km2_pending_def upd_session_nth)
qed

lemma km2_pending_name:
  assumes "km2_pending opt i m" "\<And>s. ts_primary (f s) = ts_primary s \<and> ts_lame_duck (f s) = ts_lame_duck s"
  shows "km2_pending opt i (upd_session i f m)"
proof -
  have i: "i < length (tm_session m)" using assms(1) by (auto simp: km2_pending_def multi_keyed_def)
  have "multi_keyed opt (upd_session i f m)"
    using assms multi_keyed_session[of opt m i] by (intro multi_keyed_upd) (simp_all add: km2_pending_def session_keyed_def)
  then show ?thesis using assms i by (simp add: km2_pending_def upd_session_nth)
qed

lemma km2_pending_deauth:
  assumes "km2_pending opt i m"
  shows "km2_pending opt i (tls_deauthenticate m)"
proof -
  have i: "i < length (tm_session m)" using assms by (simp add: km2_pending_def multi_keyed_def)
  then have "ks_state (ts_primary (tm_session (tls_deauthenticate m) ! i)) = ks_state (ts_primary (tm_session m ! i))"
    by (simp add: tls_deauthenticate_def)
  then show ?thesis using assms multi_keyed_deauth[of opt m] by (simp add: km2_pending_def)
qed

lemma km2_authenticate_pending:
  assumes "km2_pending opt i m"
  shows "returns (km2_authenticate env m i b) (\<lambda>(r, b'). \<forall>m'. r = Some m' \<longrightarrow> km2_pending opt i m')"
proof -
  have a: "km2_pending opt i (upd_session i (\<lambda>s. s\<lparr>ts_primary := (ts_primary s)\<lparr>ks_authenticated := v\<rparr>\<rparr>) m1)" if "km2_pending opt i m1" for m1 v
    using km2_pending_put[OF that, of "ks_authenticated_update (\<lambda>_. v)"] by simp
  have n: "km2_pending opt i (upd_session i (\<lambda>s. set_common_name s u) m1)" if "km2_pending opt i m1" for m1 u
    by (rule km2_pending_name[OF that]) (simp add: set_common_name_def)
  show ?thesis
    unfolding km2_authenticate_def Let_def by (intro returns_any) (auto intro!: a n assms)
qed

lemma km2_check_name_pending:
  assumes "km2_pending opt i m"
  shows "returns (km2_check_name env m i) (km2_pending opt i)"
proof -
  have n: "km2_pending opt i (upd_session i (\<lambda>s. set_common_name s u) m1)" if "km2_pending opt i m1" for m1 u
    by (rule km2_pending_name[OF that]) (simp add: set_common_name_def)
  have u: "km2_pending opt i (upd_session i (\<lambda>s. s\<lparr>ts_primary := (ts_primary s)\<lparr>ks_authenticated := False\<rparr>\<rparr>) m1)" if "km2_pending opt i m1" for m1
    using km2_pending_put[OF that, of "ks_authenticated_update (\<lambda>_. False)"] by simp
  define m1 where "m1 = upd_session i (\<lambda>s. if ts_common_name s = None then set_common_name s (Some []) else s) m"
  have m1: "km2_pending opt i m1" unfolding m1_def by (rule km2_pending_name[OF assms]) (simp add: set_common_name_def)
  define m2 where "m2 = (case tm_locked_cn m1 of
                Some locked \<Rightarrow>
                  if ks_authenticated (ts_primary (tm_session m1 ! i)) \<and> ts_common_name (tm_session m1 ! i) \<noteq> Some locked
                  then tls_deauthenticate (upd_session i (\<lambda>s. set_common_name s (Some locked)) m1)
                  else m1
              | None \<Rightarrow> m1)"
  have m2: "km2_pending opt i m2" unfolding m2_def by (auto intro: km2_pending_deauth n m1 split: option.split)
  show ?thesis
    unfolding km2_check_name_def Let_def m1_def[symmetric] m2_def[symmetric]
    by (intro returns_any) (auto intro!: u simp: m2)
qed

lemma km2_binds:
  "km2_pending opt i m \<Longrightarrow> (\<And>b'. returns (g b') Q) \<Longrightarrow> (\<And>b' m'. km2_pending opt i m' \<Longrightarrow> returns (h b' m') Q) \<Longrightarrow>
     returns (km2_authenticate env m i b \<bind> (\<lambda>(r, b). case r of None \<Rightarrow> g b | Some m' \<Rightarrow> h b m')) Q"
  "km2_pending opt i m \<Longrightarrow> (\<And>m'. km2_pending opt i m' \<Longrightarrow> returns (f m') Q) \<Longrightarrow> returns (km2_check_name env m i \<bind> f) Q"
  "returns a Q \<Longrightarrow> (\<And>ctx. ctx_ready kt (kc_encrypt ctx) \<and> ctx_ready kt (kc_decrypt ctx) \<Longrightarrow> returns (k ctx) Q) \<Longrightarrow>
     returns (generate_key_expansion lib junk kt src s1 s2 server \<bind> (\<lambda>r. case r of None \<Rightarrow> a | Some ctx \<Rightarrow> k ctx)) Q"
proof -
  assume a: "km2_pending opt i m" "\<And>b'. returns (g b') Q" "\<And>b' m'. km2_pending opt i m' \<Longrightarrow> returns (h b' m') Q"
  show "returns (km2_authenticate env m i b \<bind> (\<lambda>(r, b). case r of None \<Rightarrow> g b | Some m' \<Rightarrow> h b m')) Q"
    apply (rule returns_step[OF km2_authenticate_pending[OF a(1)]])
    subgoal for x using a(2,3) by (cases x; cases "fst x") auto
    done
next
  assume a: "km2_pending opt i m" "\<And>m'. km2_pending opt i m' \<Longrightarrow> returns (f m') Q"
  show "returns (km2_check_name env m i \<bind> f) Q" by (rule returns_step[OF km2_check_name_pending[OF a(1)] a(2)])
next
  assume a: "returns a Q" "\<And>ctx. ctx_ready kt (kc_encrypt ctx) \<and> ctx_ready kt (kc_decrypt ctx) \<Longrightarrow> returns (k ctx) Q"
  show "returns (generate_key_expansion lib junk kt src s1 s2 server \<bind> (\<lambda>r. case r of None \<Rightarrow> a | Some ctx \<Rightarrow> k ctx)) Q"
    apply (rule returns_bind)
    subgoal for r using a generate_key_expansion_ready[of lib junk kt src s1 s2 server] by (cases r) auto
    done
qed

lemma km2_read_keyed:
  assumes "km2_pending opt i m"
  shows "returns (key_method_2_read env m i b) (\<lambda>(ok, b', m'). km2_pending opt i m' \<and> (ok \<and> \<not> to_server opt \<longrightarrow>
     ctx_ready (to_key_type opt) (kc_encrypt (ks_key (ts_primary (tm_session m' ! i)))) \<and>
     ctx_ready (to_key_type opt) (kc_decrypt (ks_key (ts_primary (tm_session m' ! i))))))"
proof -
  let ?put = "\<lambda>f. upd_session i (\<lambda>s. s\<lparr>ts_primary := f (ts_primary s)\<rparr>)"
  let ?Q = "\<lambda>(ok, b' :: buffer, m'). km2_pending opt i m' \<and> (ok \<and> \<not> to_server opt \<longrightarrow>
     ctx_ready (to_key_type opt) (kc_encrypt (ks_key (ts_primary (tm_session m' ! i)))) \<and>
     ctx_ready (to_key_type opt) (kc_decrypt (ks_key (ts_primary (tm_session m' ! i)))))"
  have o: "tm_opt m = opt" using assms by (simp add: km2_pending_def multi_keyed_def)
  have src: "km2_pending opt i (?put (ks_key_src_update (\<lambda>_. k)) m1)" if "km2_pending opt i m1" for m1 k
    by (rule km2_pending_put[OF that]) simp
  have fail: "returns (do { b \<leftarrow> buf_clear b'; Some (False, b, ?put (ks_key_src_update (\<lambda>_. clear_source2)) m1) }) ?Q" if "km2_pending opt i m1" for b' m1
    by (intro returns_any) (simp add: src[OF that])
  have au: "km2_pending opt i (?put (ks_authenticated_update (\<lambda>_. v)) m1)" if "km2_pending opt i m1" for m1 v
    by (rule km2_pending_put[OF that]) simp
  have fin: "km2_pending opt i (?put (\<lambda>ks. ks\<lparr>ks_key := ctx, ks_key_src := clear_source2\<rparr>) m1)"
    "ks_key (ts_primary (tm_session (?put (\<lambda>ks. ks\<lparr>ks_key := ctx, ks_key_src := clear_source2\<rparr>) m1) ! i)) = ctx"
    if "km2_pending opt i m1" for ctx m1
    using km2_pending_put[OF that, of "\<lambda>ks. ks\<lparr>ks_key := ctx, ks_key_src := clear_source2\<rparr>"] that
    by (simp_all add: km2_pending_def multi_keyed_def upd_session_nth)
  show ?thesis
    unfolding key_method_2_read_def Let_def o
    by (intro fail km2_binds returns_any_bind returns_any_prod returns_if returns_Some returns_None)
       (simp_all add: fin assms src au)
qed

lemma receive_key_keyed:
  assumes i: "i < TM_SIZE"
  shows "stage_keyed opt (receive_key env opt i)"
  unfolding receive_key_def Let_def
proof (rule stage_keyedI, rule returns_if)
  fix p :: "'a tls_proc"
  let ?ks = "tp_ks i p" and ?b = "ks_plaintext_read_buf (tp_ks i p)"
  assume p: "tp_keyed opt p" and c: "len ?b \<noteq> 0 \<and> (ks_state ?ks = 4 \<and> \<not> to_server opt \<or> ks_state ?ks = 3 \<and> to_server opt)"
  let ?r = "if to_key_method opt = 1 then do {
           (ok, b, ks) \<leftarrow> key_method_1_read env opt (ts_verified (tp_session i p)) ?b ?ks;
           Some (ok, b, put_ks i ks p)
         } else if to_key_method opt = 2 then do {
           (ok, b, m) \<leftarrow> key_method_2_read env (tp_multi p) i ?b;
           Some (ok, b, p\<lparr>tp_multi := m\<rparr>)
         } else None"
  let ?R = "\<lambda>(ok, b :: buffer, q). tp_keyed opt q \<and> (ok \<longrightarrow> ks_keyed opt ((tp_ks i q)\<lparr>ks_state := 5\<rparr>))"
  have r: "returns ?r ?R"
  proof (cases "to_key_method opt = 1")
    case True
    have k: "tp_keyed opt (put_ks i ks' p) \<and> (ok \<longrightarrow> ks_keyed opt ((tp_ks i (put_ks i ks' p))\<lparr>ks_state := 5\<rparr>))"
      if a: "ks_state ks' = ks_state ?ks" "kc_encrypt (ks_key ks') = kc_encrypt (ks_key ?ks)"
        "if ok then ctx_ready (to_key_type opt) (kc_decrypt (ks_key ks')) else ks' = ?ks" for ok ks'
    proof -
      note old = tp_keyed_ks[OF p i]
      have "ks_keyed opt ks'" using old a c unfolding ks_keyed_def by (cases ok; cases "to_server opt") simp_all
      moreover have "ks_keyed opt (ks'\<lparr>ks_state := 5\<rparr>)" if ok
        using that old a c True unfolding ks_keyed_def by (cases "to_server opt") simp_all
      moreover have "i < n_sessions p" using p i by (simp add: n_sessions_def multi_keyed_def)
      ultimately show ?thesis using tp_keyed_put[OF p] by simp
    qed
    show ?thesis unfolding if_P[OF True]
      by (rule returns_step[OF key_method_1_read_keys]) (auto simp: returns_def dest: k split del: if_split)
  next
    case False
    have k: "?R (ok, b, p\<lparr>tp_multi := m\<rparr>)" if a: "km2_pending opt i m" "ok \<and> \<not> to_server opt \<longrightarrow>
         ctx_ready (to_key_type opt) (kc_encrypt (ks_key (ts_primary (tm_session m ! i)))) \<and>
         ctx_ready (to_key_type opt) (kc_decrypt (ks_key (ts_primary (tm_session m ! i))))" for ok b m
      using a False by (auto simp: km2_pending_def n_sessions_multi ks_keyed_def)
    have pend: "km2_pending opt i (tp_multi p)" if "to_key_method opt = 2"
      using p c i that by (auto simp: km2_pending_def tp_ks_def tp_session_def)
    show ?thesis unfolding if_not_P[OF False]
    proof (rule returns_if)
      assume "to_key_method opt = 2"
      from km2_read_keyed[OF pend[OF this], of env ?b]
      show "returns (do {
           (ok, b, m) \<leftarrow> key_method_2_read env (tp_multi p) i ?b;
           Some (ok, b, p\<lparr>tp_multi := m\<rparr>)
         }) ?R" by (rule returns_step) (clarify, rule returns_Some, rule k)
    qed (rule returns_None)
  qed
  show "returns (?r \<bind> (\<lambda>(ok, b, p). Some (if ok then (Next, changed (put_ks i ((tp_ks i p)\<lparr>ks_plaintext_read_buf := b, ks_state := 5\<rparr>) p))
       else (Error, put_ks i ((tp_ks i p)\<lparr>ks_plaintext_read_buf := b\<rparr>) p)))) (\<lambda>(fl, p'). tp_keyed opt p')"
  proof (rule returns_step[OF r], clarify, rule returns_Some, clarify)
    fix ok b q fl p' assume a: "tp_keyed opt q" "ok \<longrightarrow> ks_keyed opt ((tp_ks i q)\<lparr>ks_state := 5\<rparr>)"
      "(if ok then (Next, changed (put_ks i ((tp_ks i q)\<lparr>ks_plaintext_read_buf := b, ks_state := 5\<rparr>) q))
       else (Error, put_ks i ((tp_ks i q)\<lparr>ks_plaintext_read_buf := b\<rparr>) q)) = (fl, p')"
    have "ks_keyed opt ((tp_ks i q)\<lparr>ks_plaintext_read_buf := b, ks_state := 5\<rparr>) = ks_keyed opt ((tp_ks i q)\<lparr>ks_state := 5\<rparr>)" by (simp add: ks_keyed_def)
    then show "tp_keyed opt p'" using a by (cases ok) (auto intro!: tp_keyed_put simp: tp_keyed_ks)
  qed
qed (simp add: returns_def)

lemma round_keyed: "i < TM_SIZE \<Longrightarrow> stage_keyed opt (tls_process_round env rnd opt now i)"
proof -
  assume i: "i < TM_SIZE"
  let ?fs = "[initial_handshake opt now i, negotiation_timeout now i, handshake_acked i, keys_acked opt now i, send_reliable now i,
      incoming_ciphertext env i, incoming_plaintext env i, send_key env rnd opt i, receive_key env opt i, outgoing_plaintext env i,
      outgoing_ciphertext env i]"
  have "stage_keyed opt (foldr then_stage ?fs (\<lambda>p. Some (Next, p)))"
    by (rule stage_keyed_foldr) (simp add: initial_handshake_keyed negotiation_timeout_keyed handshake_acked_keyed keys_acked_keyed send_reliable_keyed
      incoming_ciphertext_keyed incoming_plaintext_keyed send_key_keyed receive_key_keyed[OF i] outgoing_plaintext_keyed outgoing_ciphertext_keyed)
  then show ?thesis unfolding tls_process_round_def stage_keyed_def by simp
qed

lemma loop_keyed:
  assumes "i < TM_SIZE" "tp_keyed opt p"
  shows "returns (tls_process_loop n env rnd opt now i p) (\<lambda>r. \<forall>fl p'. r = Some (fl, p') \<longrightarrow> tp_keyed opt p')"
  using assms(2)
proof (induction n arbitrary: p)
  case 0
  show ?case by (simp add: returns_def)
next
  case (Suc n)
  have r: "returns (tls_process_round env rnd opt now i p) (\<lambda>(fl, p'). tp_keyed opt p')"
    using round_keyed[OF assms(1), of opt env rnd now] Suc.prems by (simp add: stage_keyed_def)
  show ?case unfolding tls_process_loop.simps
    by (rule returns_step[OF r]) (auto intro!: returns_if Suc.IH simp: returns_Some)
qed

lemma start_keyed:
  assumes "session_keyed opt s" "tls_process_start env opt now s w = Some (s', w')"
  shows "session_keyed opt s'"
proof -
  obtain s1 where s1: "(if needs_soft_reset opt now (ts_primary s) then key_state_soft_reset env opt now s else Some s) = Some s1"
    "s' = s1 \<or> s' = s1\<lparr>ts_lame_duck := key_state_free (ts_lame_duck s1) True\<rparr>"
    using assms(2) by (auto simp: tls_process_start_def Let_def bind_eq_Some_conv split: if_splits)
  have "session_keyed opt s1" using s1(1) assms(1) soft_reset_keyed[OF assms(1)] by (auto split: if_splits)
  then show ?thesis using s1(2) by (auto simp: session_keyed_def)
qed

lemma send_acks_keyed: "tp_keyed opt p \<Longrightarrow> returns (send_acks now i p) (tp_keyed opt)"
  unfolding send_acks_def Let_def
  by (intro keyed_binds[where opt = opt] returns_any) (simp_all add: tp_keyed_put tp_keyed_ks)

lemma tls_process_keyed:
  fixes p :: "'ssl tls_proc"
  assumes "i < TM_SIZE" "tp_keyed opt p"
  shows "returns (tls_process env rnd now i p w) (\<lambda>(act, w', p'). tp_keyed opt p')"
proof -
  have o: "tm_opt (tp_multi p) = opt" using assms(2) by (simp add: multi_keyed_def)
  have s: "session_keyed opt (tp_session i p)" using multi_keyed_session[OF assms(2,1)] by (simp add: tp_session_def)
  have st: "returns (tls_process_start env opt now (tp_session i p) w) (\<lambda>(s', w'). session_keyed opt s')"
    using start_keyed[OF s] by (auto simp: returns_def)
  have up: "tp_keyed opt (p\<lparr>tp_multi := upd_session i (\<lambda>_. s') (tp_multi p), tp_active := False\<rparr>)" if "session_keyed opt s'" for s'
    using multi_keyed_upd[OF assms(2), of i "\<lambda>_. s'"] that by simp
  have er: "tp_keyed opt (put_ks i ((tp_ks i q)\<lparr>ks_state := - 1\<rparr>) q)" if "tp_keyed opt q" for q
    using that by (intro tp_keyed_put) (simp_all add: ks_keyed_early)
  show ?thesis
    unfolding tls_process_def Let_def o
  proof (rule returns_step[OF st], clarify)
    fix s' :: "'ssl tls_session" and w' assume "session_keyed opt s'"
    note l = loop_keyed[OF assms(1) up[OF this], of 40 env rnd now]
    show "returns (tls_process_loop 40 env rnd opt now i (p\<lparr>tp_multi := upd_session i (\<lambda>_. s') (tp_multi p), tp_active := False\<rparr>) \<bind>
       (\<lambda>r. r \<bind> (\<lambda>(fl, p). if fl = Error then Some (False, w', put_ks i ((tp_ks i p)\<lparr>ks_state := - 1\<rparr>) p)
          else send_acks now i p \<bind> (\<lambda>p. Some (if next_wakeup opt now (tp_ks i p) w' \<le> 0 then (True, 1, p) else (tp_active p, next_wakeup opt now (tp_ks i p) w', p))))))
       (\<lambda>(act, w', p'). tp_keyed opt p')"
    proof (rule returns_step[OF l], rule returns_bind, clarify)
      fix fl :: flow and q :: "'ssl tls_proc" assume "\<forall>fl' p'. Some (fl, q) = Some (fl', p') \<longrightarrow> tp_keyed opt p'"
      then have q: "tp_keyed opt q" by simp
      show "returns (if fl = Error then Some (False, w', put_ks i ((tp_ks i q)\<lparr>ks_state := - 1\<rparr>) q)
          else send_acks now i q \<bind> (\<lambda>p. Some (if next_wakeup opt now (tp_ks i p) w' \<le> 0 then (True, 1, p) else (tp_active p, next_wakeup opt now (tp_ks i p) w', p))))
        (\<lambda>(act, w', p'). tp_keyed opt p')"
        by (rule returns_if, rule returns_Some, simp add: er[OF q], rule returns_step[OF send_acks_keyed[OF q]]) (auto intro: returns_Some)
    qed
  qed
qed

lemma multi_process_session_keyed:
  fixes p :: "'ssl tls_proc"
  assumes i: "i < TM_SIZE" and p: "tp_keyed opt p"
  shows "returns (multi_process_session env rnd rs now i (p, w, act, err)) (\<lambda>(p', w', act', err'). tp_keyed opt p')"
proof -
  let ?ks = "if i = 0 \<and> ks_state (tp_ks i p) = 1 \<and> addr_defined (lsa_actual (li_lsa (tp_info p)))
      then (tp_ks i p)\<lparr>ks_remote_addr := lsa_actual (li_lsa (tp_info p))\<rparr> else tp_ks i p"
  have q: "tp_keyed opt (put_ks i ?ks p)" using p by (intro tp_keyed_put) (simp_all add: tp_keyed_ks)
  have er: "returns (do { m \<leftarrow> (if c then move_session env (m1\<lparr>tm_n_soft_errors := n\<rparr>) 2 0 True rs else reset_session env (m1\<lparr>tm_n_soft_errors := n\<rparr>) i rs);
         Some (p1\<lparr>tp_multi := m\<rparr>, w1, a1, e1) }) (\<lambda>(p', w', act', err'). tp_keyed opt p')"
    if "multi_keyed opt m1" for c m1 n w1 a1 e1 and p1 :: "'ssl tls_proc"
    using move_session_keyed[of opt "m1\<lparr>tm_n_soft_errors := n\<rparr>"] reset_session_keyed[of opt "m1\<lparr>tm_n_soft_errors := n\<rparr>"] that
    by (intro returns_bind returns_Some) (auto split: if_splits)
  show ?thesis
    unfolding multi_process_session_def Let_def prod.case
  proof (rule returns_if, rule returns_step[OF tls_process_keyed[OF i q]], clarify)
    fix ret w' and p' :: "'ssl tls_proc" assume p': "tp_keyed opt p'"
    show "returns (if ks_state (tp_ks i p') = - 1
        then (if i = 0 \<and> 6 \<le> ks_state (ts_lame_duck (tp_session i p')) \<and>
                 \<not> to_single_session (tm_opt ((tp_multi p')\<lparr>tm_n_soft_errors := tm_n_soft_errors (tp_multi p') + 1\<rparr>))
              then move_session env ((tp_multi p')\<lparr>tm_n_soft_errors := tm_n_soft_errors (tp_multi p') + 1\<rparr>) 2 0 True rs
              else reset_session env ((tp_multi p')\<lparr>tm_n_soft_errors := tm_n_soft_errors (tp_multi p') + 1\<rparr>) i rs) \<bind>
             (\<lambda>m. Some (p'\<lparr>tp_multi := m\<rparr>, w', act \<or> ret, err \<or> i = 0))
        else Some (p', w', act \<or> ret, err)) (\<lambda>(p', w', act', err'). tp_keyed opt p')"
      by (rule returns_if, rule er[OF p'], rule returns_Some) (simp add: p')
  qed (simp add: returns_Some q)
qed

lemma session_bind:
  fixes p :: "'ssl tls_proc"
  assumes "i < TM_SIZE" "tp_keyed opt p" "\<And>p' w' act' err'. tp_keyed opt p' \<Longrightarrow> returns (f (p', w', act', err')) Q"
  shows "returns (multi_process_session env rnd rs now i (p, w, act, err) \<bind> f) Q"
  by (rule returns_step[OF multi_process_session_keyed[OF assms(1,2)]]) (use assms(3) in auto)

lemma promote_bind:
  fixes m :: "'ssl tls_multi"
  assumes "multi_keyed opt m" "\<And>m'. multi_keyed opt m' \<Longrightarrow> returns (f m') Q"
  shows "returns ((if c then move_session env m d s True rs else Some m) \<bind> f) Q"
  by (rule returns_bind) (use assms move_session_keyed[OF assms(1)] in \<open>auto split: if_splits\<close>)

lemma tls_multi_process_keyed:
  fixes m :: "'ssl tls_multi"
  assumes "multi_keyed opt m"
  shows "returns (tls_multi_process env rnd rs now m to_link a info w) (\<lambda>(act, w', p'). tp_keyed opt p')"
proof -
  have fr: "session_keyed opt (tls_session_free x True)" for x :: "'ssl tls_session"
    by (simp add: tls_session_free_def session_keyed_def clear_session_def)
  have die: "multi_keyed opt (if d then upd_session 2 (\<lambda>s. tls_session_free s True) m1 else m1)" if "multi_keyed opt m1" for d and m1 :: "'ssl tls_multi"
    using that multi_keyed_upd[OF that, of 2 "\<lambda>s. tls_session_free s True"] fr by simp
  have rest: "returns (do {
       (die, w') \<leftarrow> lame_duck_must_die now (tm_session (tp_multi p) ! 2) w3;
       let m = (if die then upd_session 2 (\<lambda>s. tls_session_free s True) (tp_multi p) else tp_multi p);
       m \<leftarrow> (if DECRYPT_KEY_ENABLED m (ts_primary (tm_session m ! 1)) then move_session env m 0 1 True (rs 3) else Some m);
       let m = (if err \<and> \<not> list_ex (\<lambda>ks. ks_state ks \<ge> 6) (key_scan m) then m\<lparr>tm_n_hard_errors := tm_n_hard_errors m + 1\<rparr> else m);
       Some (act, w', p\<lparr>tp_multi := m\<rparr>) }) (\<lambda>(act, w', p'). tp_keyed opt p')"
    if p: "tp_keyed opt p" for p :: "'ssl tls_proc" and w3 act err
  proof (rule returns_any_bind, rule returns_any_prod, unfold Let_def)
    fix d w'
    show "returns ((if DECRYPT_KEY_ENABLED (if d then upd_session 2 (\<lambda>s. tls_session_free s True) (tp_multi p) else tp_multi p)
              (ts_primary (tm_session (if d then upd_session 2 (\<lambda>s. tls_session_free s True) (tp_multi p) else tp_multi p) ! 1))
          then move_session env (if d then upd_session 2 (\<lambda>s. tls_session_free s True) (tp_multi p) else tp_multi p) 0 1 True (rs 3)
          else Some (if d then upd_session 2 (\<lambda>s. tls_session_free s True) (tp_multi p) else tp_multi p)) \<bind>
        (\<lambda>m. Some (act, w', p\<lparr>tp_multi := if err \<and> \<not> list_ex (\<lambda>ks. 6 \<le> ks_state ks) (key_scan m) then m\<lparr>tm_n_hard_errors := tm_n_hard_errors m + 1\<rparr> else m\<rparr>)))
      (\<lambda>(act, w', p'). tp_keyed opt p')"
      by (rule promote_bind[OF die[OF p]], rule returns_Some) simp
  qed
  show ?thesis
    unfolding tls_multi_process_def Let_def[of "\<lparr>tp_multi = m, tp_to_link = to_link, tp_to_link_addr = a, tp_info = info, tp_active = False, tp_change = False\<rparr>"]
    apply (rule session_bind[where opt = opt])
      apply simp
     apply (simp add: assms)
    apply (rule session_bind[where opt = opt])
      apply simp
     apply assumption
    apply (rule session_bind[where opt = opt])
      apply simp
     apply assumption
    apply (simp only: prod.case Let_def[of "tp_multi _"])
    apply (erule rest)
    done
qed

lemma multi_keyed_same:
  assumes "multi_keyed opt m" "\<And>s. ts_primary (f s) = ts_primary s \<and> ts_lame_duck (f s) = ts_lame_duck s"
  shows "multi_keyed opt (upd_session i f m)"
  using assms multi_keyed_session[OF assms(1)] by (intro multi_keyed_upd) (simp_all add: session_keyed_def)

lemma session_read_auth_keyed:
  "multi_keyed opt m \<Longrightarrow> returns (session_read_auth now m i b) (\<lambda>(ok, b', m'). multi_keyed opt m')"
  unfolding session_read_auth_def by (intro returns_any) (simp add: multi_keyed_same)

lemma session_read_auth_bind:
  "multi_keyed opt m \<Longrightarrow> (\<And>ok b' m'. multi_keyed opt m' \<Longrightarrow> returns (f ok b' m') Q) \<Longrightarrow>
     returns (session_read_auth now m i b \<bind> (\<lambda>(ok, b', m'). f ok b' m')) Q"
  by (rule returns_step[OF session_read_auth_keyed]) auto

lemma soft_reset_bind:
  "multi_keyed opt m \<Longrightarrow> i < TM_SIZE \<Longrightarrow> (\<And>s'. session_keyed opt s' \<Longrightarrow> returns (f s') Q) \<Longrightarrow>
     returns (key_state_soft_reset env opt' now (tm_session m ! i) \<bind> f) Q"
  by (rule returns_bind) (auto intro: soft_reset_keyed multi_keyed_session)

lemma control_route_keyed:
  fixes m :: "'ssl tls_multi"
  assumes "multi_keyed opt m"
  shows "returns (control_route env now m from_addr op sid b) (\<lambda>(r, b', m'). multi_keyed opt m' \<and> (\<forall>i nl db. r = Some (i, nl, db) \<longrightarrow> i < TM_SIZE))"
proof -
  define found where "found = find (\<lambda>i. session_id_equal (ks_session_id_remote (ts_primary (tm_session m ! i))) sid) [0..<TM_SIZE]"
  define inact where "inact = ((found = None \<and> is_hard_reset op 0) \<and> \<not> session_id_defined (ks_session_id_remote (ts_primary (tm_session m ! TM_ACTIVE))))"
  have f: "found = Some i \<Longrightarrow> i < TM_SIZE" for i unfolding found_def by (auto dest: find_upt_Some)
  have ad: "multi_keyed opt (upd_session i (ts_untrusted_sockaddr_update (\<lambda>_. from_addr)) m1)" if "multi_keyed opt m1" for i and m1 :: "'ssl tls_multi"
    by (rule multi_keyed_same[OF that]) simp
  define m2 where "m2 = (if inact then upd_session TM_ACTIVE (ts_untrusted_sockaddr_update (\<lambda>_. from_addr)) m else m)"
  have m2: "multi_keyed opt m2" unfolding m2_def using ad[OF assms] assms by simp
  have up: "multi_keyed opt (upd_session i (\<lambda>_. s) m1)" if "multi_keyed opt m1" "session_keyed opt s" for i s and m1 :: "'ssl tls_multi"
    by (rule multi_keyed_upd[OF that(1)]) (rule that(2))
  have i: "i < TM_SIZE" if "(if inact then Some TM_ACTIVE else found) = Some i" for i
    using that f by (auto split: if_splits)
  show ?thesis
    unfolding control_route_def Let_def found_def[symmetric] inact_def[symmetric] m2_def[symmetric] prod.case
    by (intro returns_if returns_Some returns_option returns_None session_read_auth_bind[where opt = opt] soft_reset_bind[where opt = opt])
       (simp_all add: assms ad m2 up i)
qed

lemma control_session_keyed:
  fixes m :: "'ssl tls_multi"
  assumes "multi_keyed opt m" "i < TM_SIZE"
  shows "returns (control_session now m i new_link do_burst from_addr op key_id sid b) (\<lambda>(ok, m'). multi_keyed opt m')"
proof -
  have s: "ks_keyed opt (ts_primary (tm_session m ! i))" "ks_keyed opt (ts_lame_duck (tm_session m ! i))"
    using multi_keyed_session[OF assms] by (simp_all add: session_keyed_def)
  have m: "multi_keyed opt (if new_link then m\<lparr>tm_n_sessions := tm_n_sessions m + 1\<rparr> else m)" using assms(1) by simp
  show ?thesis
    unfolding control_session_def Let_def
    by (intro returns_any_bind returns_any_if returns_prod returns_Some returns_None)
       (auto intro!: multi_keyed_upd simp: m assms(1) s session_keyed_def split: if_splits)
qed

lemma upd_key_scan_keyed:
  assumes "multi_keyed opt m" "\<And>ks. ks_keyed opt (f ks) = ks_keyed opt ks"
  shows "multi_keyed opt (upd_key_scan j f m)"
  using assms multi_keyed_session[OF assms(1)] by (auto simp: upd_key_scan_def session_keyed_def intro!: multi_keyed_upd)

lemma route_bind:
  "multi_keyed opt m \<Longrightarrow> (\<And>r b' m'. multi_keyed opt m' \<Longrightarrow> (\<forall>i nl db. r = Some (i, nl, db) \<longrightarrow> i < TM_SIZE) \<Longrightarrow> returns (f r b' m') Q) \<Longrightarrow>
     returns (control_route env now m from_addr op sid b \<bind> (\<lambda>(r, b', m'). f r b' m')) Q"
  by (rule returns_step[OF control_route_keyed]) auto

lemma control_session_bind:
  "multi_keyed opt m \<Longrightarrow> i < TM_SIZE \<Longrightarrow> (\<And>ok m'. multi_keyed opt m' \<Longrightarrow> returns (f ok m') Q) \<Longrightarrow>
     returns (control_session now m i nl db from_addr op key_id sid b \<bind> (\<lambda>(ok, m'). f ok m')) Q"
  by (rule returns_step[OF control_session_keyed]) auto

lemma tls_pre_decrypt_control_keyed:
  assumes "multi_keyed opt m"
  shows "returns (tls_pre_decrypt_control env now m from_addr b op key_id) (\<lambda>(ret, m'). multi_keyed opt m')"
  unfolding tls_pre_decrypt_control_def Let_def
  by (intro returns_any_if route_bind[where opt = opt] control_session_bind[where opt = opt] returns_any_bind returns_prod returns_option returns_Some)
     (simp_all add: assms)

lemma pre_control_bind:
  "multi_keyed opt m \<Longrightarrow> (\<And>ret m'. multi_keyed opt m' \<Longrightarrow> returns (f ret m') Q) \<Longrightarrow>
     returns (tls_pre_decrypt_control env now m from_addr b op key_id \<bind> (\<lambda>(ret, m'). f ret m')) Q"
  by (rule returns_step[OF tls_pre_decrypt_control_keyed]) auto

lemma tls_pre_decrypt_keyed:
  assumes "multi_keyed opt m"
  shows "returns (tls_pre_decrypt env now m from_addr b co) (\<lambda>(ret, i, b', co', m'). multi_keyed opt m')"
  unfolding tls_pre_decrypt_def Let_def
  by (intro returns_any_if pre_control_bind[where opt = opt] returns_any_bind returns_any_option returns_any_prod returns_Some)
     (auto intro!: upd_key_scan_keyed simp: assms)

lemma save_packet_id_keyed: "multi_keyed opt m \<Longrightarrow> multi_keyed opt (save_packet_id i co m)"
  by (auto simp: save_packet_id_def intro!: upd_key_scan_keyed split: option.split)

lemma data_decrypt_keyed:
  assumes "multi_keyed opt m"
  shows "returns (data_decrypt ca env now m from_addr b work co f) (\<lambda>(ret, ok, b', co', m'). multi_keyed opt m')"
  unfolding data_decrypt_def Let_def
  by (rule returns_step[OF tls_pre_decrypt_keyed[OF assms]])
     (clarify, intro returns_any, simp add: save_packet_id_keyed)

lemma data_encrypt_keyed:
  assumes "multi_keyed opt m"
  shows "returns (data_encrypt now rand m b work co f) (\<lambda>(b', co', m'). multi_keyed opt m')"
proof -
  have "tls_pre_encrypt m b co = (b1, co1, m1) \<Longrightarrow> multi_keyed opt m1" for b1 co1 m1
    using assms by (auto simp: tls_pre_encrypt_def Let_def split: option.splits if_splits)
  moreover have post: "returns (tls_post_encrypt m1 b1) (\<lambda>(b', m'). multi_keyed opt m')" if "multi_keyed opt m1" for m1 b1
    unfolding tls_post_encrypt_def Let_def by (intro returns_any) (auto intro!: upd_key_scan_keyed simp: that)
  ultimately show ?thesis
    unfolding data_encrypt_def Let_def
    by (intro returns_prod returns_any_bind returns_step[OF post] returns_Some) (auto intro!: returns_Some save_packet_id_keyed)
qed

lemma payload_keyed:
  assumes "multi_keyed opt m"
  shows "tls_send_payload env m d = Some (ok, m') \<Longrightarrow> multi_keyed opt m'"
    "tls_rec_payload m b = Some (ok, b', m') \<Longrightarrow> multi_keyed opt m'"
proof -
  show "tls_send_payload env m d = Some (ok, m') \<Longrightarrow> multi_keyed opt m'"
    using assms bio_keyed(3)[OF assms] by (auto simp: tls_send_payload_def bind_eq_Some_conv split: if_splits)
  show "tls_rec_payload m b = Some (ok, b', m') \<Longrightarrow> multi_keyed opt m'"
    using assms multi_keyed_session[OF assms, of 0]
    by (auto simp: tls_rec_payload_def Let_def bind_eq_Some_conv session_keyed_def intro!: multi_keyed_upd split: if_splits)
qed

lemma init_keyed:
  fixes m :: "'ssl tls_multi"
  assumes "tls_multi_init_finalize env (tls_multi_init opt persist) f r1 r2 = Some m"
  shows "\<exists>opt'. multi_keyed opt' m"
proof -
  obtain g where g: "tls_init_control_channel_frame_parameters f (to_frame opt) = Some g"
    using assms by (auto simp: tls_multi_init_finalize_def tls_multi_init_def bind_eq_Some_conv)
  define m0 :: "'ssl tls_multi" where "m0 = (tls_multi_init opt persist)\<lparr>tm_opt := (tm_opt (tls_multi_init opt persist :: 'ssl tls_multi))\<lparr>to_frame := g\<rparr>\<rparr>"
  have m0: "multi_keyed (tm_opt m0) m0"
    by (auto simp: multi_keyed_def m0_def tls_multi_init_def session_keyed_def clear_session_def)
  obtain m1 where m1: "reset_session env m0 0 r1 = Some m1" "m = m1 \<or> reset_session env m1 1 r2 = Some m"
    using assms g by (auto simp: tls_multi_init_finalize_def tls_multi_init_def Let_def bind_eq_Some_conv m0_def split: if_splits)
  have "multi_keyed (tm_opt m0) m1" using reset_session_keyed[OF m0 m1(1)] .
  then show ?thesis using m1(2) reset_session_keyed by blast
qed

section \<open>Every state of a peer\<close>

text \<open>
  The states that the TLS layer of a peer can reach: set-up, then in any order packets from the network, the timer or the event
  loop calling tls_multi_process, packets from the tunnel, control messages of the application, and changes of the
  name and of the authentication.
\<close>

inductive tls_reach :: "'ssl tls_env \<Rightarrow> 'ssl tls_multi \<Rightarrow> bool" for env where
  start: "tls_multi_init_finalize env (tls_multi_init opt persist) f r1 r2 = Some m \<Longrightarrow> tls_reach env m"
| set_options: "tls_reach env m \<Longrightarrow> tls_reach env (tls_multi_init_set_options m loc remote)"
| packet: "tls_reach env m \<Longrightarrow> data_decrypt ca env now m from_addr b work co f = Some (ret, ok, b', co', m') \<Longrightarrow> tls_reach env m'"
| process: "tls_reach env m \<Longrightarrow> tls_multi_process env rnd rs now m to_link a info w = Some (act, w', p) \<Longrightarrow> tls_reach env (tp_multi p)"
| tunnel: "tls_reach env m \<Longrightarrow> data_encrypt now rand m b work co f = Some (b', co', m') \<Longrightarrow> tls_reach env m'"
| send_payload: "tls_reach env m \<Longrightarrow> tls_send_payload env m d = Some (ok, m') \<Longrightarrow> tls_reach env m'"
| rec_payload: "tls_reach env m \<Longrightarrow> tls_rec_payload m b = Some (ok, b', m') \<Longrightarrow> tls_reach env m'"
| set_name: "tls_reach env m \<Longrightarrow> tls_reach env (tls_set_common_name m cn)"
| lock_name: "tls_reach env m \<Longrightarrow> tls_reach env (tls_lock_common_name m)"
| deauthenticate: "tls_reach env m \<Longrightarrow> tls_reach env (tls_deauthenticate m)"

lemma keyed_set_options: "multi_keyed opt m \<Longrightarrow> \<exists>opt'. multi_keyed opt' (tls_multi_init_set_options m loc remote)"
  by (rule exI[of _ "opt\<lparr>to_local_options := loc, to_remote_options := remote\<rparr>"])
     (simp add: multi_keyed_def tls_multi_init_set_options_def session_keyed_def ks_keyed_def)

lemma reach_keyed: "tls_reach env m \<Longrightarrow> multi_keyed (tm_opt m) m"
proof -
  have o: "multi_keyed (tm_opt m) m" if "multi_keyed opt m" for opt and m :: "'b tls_multi"
    using that by (simp add: multi_keyed_def)
  assume "tls_reach env m"
  then show ?thesis
  proof (induction rule: tls_reach.induct)
    case (start opt persist f r1 r2 m)
    then show ?case using init_keyed o by blast
  next
    case (set_options m loc remote)
    then show ?case using keyed_set_options o by blast
  next
    case (packet m ca now from_addr b work co f ret ok b' co' m')
    then show ?case using data_decrypt_keyed[OF packet.IH, of ca env now from_addr b work co f] by (auto simp: returns_def intro: o)
  next
    case (process m rnd rs now to_link a info w act w' p)
    then show ?case using tls_multi_process_keyed[OF process.IH, of env rnd rs now to_link a info w] by (auto simp: returns_def intro: o)
  next
    case (tunnel m now rand b work co f b' co' m')
    then show ?case using data_encrypt_keyed[OF tunnel.IH, of now rand b work co f] by (auto simp: returns_def intro: o)
  next
    case (send_payload m d ok m')
    then show ?case using payload_keyed(1)[OF send_payload.IH] o by blast
  next
    case (rec_payload m b ok b' m')
    then show ?case using payload_keyed(2)[OF rec_payload.IH] o by blast
  next
    case (set_name m cn)
    have "multi_keyed (tm_opt m) (tls_set_common_name m cn)"
      unfolding tls_set_common_name_def by (rule multi_keyed_same[OF set_name.IH]) (simp add: set_common_name_def)
    then show ?case by (rule o)
  next
    case (lock_name m)
    have "multi_keyed (tm_opt m) (tls_lock_common_name m)" using lock_name.IH by (simp add: tls_lock_common_name_def split: option.split)
    then show ?case by (rule o)
  next
    case (deauthenticate m)
    show ?case by (rule o[OF multi_keyed_deauth[OF deauthenticate.IH]])
  qed
qed

lemma key_scan_keyed: "multi_keyed opt m \<Longrightarrow> j < 3 \<Longrightarrow> ks_keyed opt (key_scan m ! j)"
  using multi_keyed_session[of opt m 0] multi_keyed_session[of opt m 2]
  by (auto simp: key_scan_def session_keyed_def less_Suc_eq numeral_3_eq_3)



end
