(* ===== verification/Spec2Isabelle.thy ===== *)
theory Spec2Isabelle
  imports Control_Channel Fragment Otime Session_Id Data_Channel Key_File Pool Stream_Buf Mbuf Hash_Table Timers Tls_Keyed
begin

text \<open>
  A verification library for OpenVPN 2.0 (the historical CVS tree under src/).

  \<^bold>\<open>The program.\<close>  OpenVPN tunnels IP packets over UDP or TCP.  A packet that is read from the
  virtual network device is fragmented if needed (fragment.c), encrypted and authenticated
  (crypto.c) with an identifier against replays (packet_id.c), marked with the number of its key
  (ssl.c) and sent; the peer undoes the steps in the opposite order.  The keys come from a static
  key file (crypto.c) or from a TLS handshake, whose records travel over the same lossy link
  through a reliability layer (reliable.c), driven by tls_process (ssl.c).  Over TCP the packets are framed
  in the stream (socket.c).  All of them work on packet buffers (buffer.c) whose sizes follow from
  the frame parameters (mtu.c), and are paced by timers (interval.c, otime.c).  A server keeps its
  clients in hash tables (list.c), their timers in a treap (schedule.c), queues broadcast packets in
  message buffers (mbuf.c) and leases addresses from a pool (pool.c).

  \<^bold>\<open>The theories.\<close>  The definitions of a theory follow the source files named and keep their names; a
  struct is a record, a function that changes a struct returns it.

  Foundations:
  \<^item> \<open>Prelude\<close>: machine types, assertions, memory, network byte order, and a small calculus
    (\<open>returns\<close>) for what a result satisfies if a function returns.
  \<^item> \<open>Integer_Ops\<close> (integer.h, circ_list.h), \<open>Misc\<close> (misc.c).
  \<^item> \<open>Buffer\<close>, \<open>Buffer_Safety\<close> (buffer.h, buffer.c): struct buffer and its operations; every call stays
    inside the block; the locale \<open>wire_codec\<close> of fixed-width fields.
  \<^item> \<open>Mtu\<close> (mtu.h, mtu.c): frame sizes and headroom; the buffers hold the largest packet.
  \<^item> \<open>Otime\<close> (otime.h, otime.c, interval.h, interval.c): times, intervals, event timeouts, rate limits.

  The data channel:
  \<^item> \<open>Packet_Id\<close>, \<open>Replay\<close> (packet_id.h, packet_id.c): the identifiers, the replay window, its abstract
    specification as a set-based window, the persistent record.  \<open>Replay_Guard\<close> is the contract of a receiver that
    accepts each key at most once; the window, the data channel and the control channel are instances.
  \<^item> \<open>Crypto\<close>, \<open>Data_Channel\<close> (crypto.h, crypto.c): openvpn_encrypt and openvpn_decrypt with OpenSSL as a parameter,
    and the security and delivery of the data channel.
  \<^item> \<open>Keys\<close>, \<open>Key_File\<close> (crypto.h, crypto.c): key structures, DES checks and parity, key directions, the
    static key file in both directions.
  \<^item> \<open>Fragment\<close> (fragment.h, fragment.c): fragmentation and reassembly.
  \<^item> \<open>Stream_Buf\<close> (socket.h, socket.c): packets in a TCP stream, however it is cut into reads.

  The control channel:
  \<^item> \<open>Session_Id\<close>, \<open>Reliable\<close>, \<open>Control_Channel\<close> (session_id.c, reliable.c): session identifiers, acknowledgement records,
    the send and receive windows, and the control channel as a step relation over a network that
    loses, duplicates and reorders.
  \<^item> \<open>Tls_Prf\<close> (ssl.c, crypto.c): the pseudo-random function, equal to the one of the TLS 1.0 standard, and the expansion of keys.
  \<^item> \<open>Tls_State\<close> (ssl.h, ssl.c): key states, sessions, resets, moves; \<open>Link_Address\<close> (socket.h, socket.c): which address counts as the peer.
  \<^item> \<open>Key_Method\<close>, \<open>Key_Exchange\<close> (ssl.c): the key messages of both methods with the check of user name and password;
    with method 2 both peers end with the same keys.
  \<^item> \<open>Tls_Auth\<close> (ssl.c): control packets on the wire with their HMAC; round trip and authenticity.
  \<^item> \<open>Tls_Packet\<close>, \<open>Tls_Packet_Safety\<close> (ssl.c): tls_pre_decrypt and the invariant of the sessions it keeps for every packet.
  \<^item> \<open>Tls_Data\<close> (ssl.c, forward.c): the choice of the key for data packets and their round trip.
  \<^item> \<open>Tls_Verify\<close> (ssl.c): the certificate callback and the common name.
  \<^item> \<open>Tls_Process\<close>, \<open>Tls_Handshake\<close>, \<open>Tls_Keyed\<close> (ssl.c): tls_process as a composition of stages, one for each step of
    its loop; the loop ends; in every reachable state the keys chosen for data packets are set up.

  The server:
  \<^item> \<open>Dictionary\<close>, \<open>Hash_Table\<close> (list.h, list.c): the chained hash table refines a map; \<open>Dictionary\<close> is the contract.
  \<^item> \<open>Schedule\<close>, \<open>Schedule_Tree\<close>, \<open>Timers\<close> (schedule.h, schedule.c): the pointer treap, its shape as a tree, and its
    refinement of a map from entries to times.
  \<^item> \<open>Mbuf\<close> (mbuf.h, mbuf.c): the ring of message buffers refines a bounded queue, with exact reference counts.
  \<^item> \<open>Pool\<close> (pool.h, pool.c): the address pool and its file.

  \<^bold>\<open>Conventions.\<close>  uint8_t, uint16_t and uint32_t are words and wrap; int, time_t and the byte and packet counters of a key state are
  mathematical integers.  The global clock \<^verbatim>\<open>now\<close> is an argument, the same during one call.  A function that may fail an
  ASSERT, end in a fatal error or access memory outside its block returns an option, and \<^const>\<open>None\<close>
  stands for that; the theorems that say a function returns say that none of this happens.
  Memory from malloc and on the stack has arbitrary contents.  Random numbers are arguments.

  \<^bold>\<open>Loops.\<close>  Loops over arrays and buffers are recursive functions with a measure; those that may not end are
  partial functions with the result \<^const>\<open>None\<close>, with theorems that say when they return.  The loop of tls_process takes
  a number of rounds; forty are enough, because each round that asks for another one lowers
  a measure made of the state of the handshake, the entries of both windows and the plaintext
  buffers, which the invariant of the sessions bounds.

  \<^bold>\<open>Code outside of the sources.\<close>  The ciphers, HMACs and digests of OpenSSL are record arguments with
  the laws the proofs need as hypotheses, each with a concrete instance.  An SSL object is a value of a type variable
  with operations in the record \<open>tls_env\<close>; they report the certificates that the peer presented, for which the model runs
  verify_callback.  Plug-ins, scripts, the revocation list and user names come from the same record.

  \<^bold>\<open>Not modelled.\<close>  System calls, sockets and proxies, the virtual devices of the platforms, the set up of OpenSSL contexts from
  files, the pointer from an SSL object to its session after a session has moved (the callback is run on the session
  that does the input), mutexes, logging, environment variables for scripts, the option parser, the management interface,
  the event loop, the multi-client dispatcher (multi.c) and the Windows driver: they are input and output, calls of a platform,
  or glue around the components above.
\<close>

end
